(* ===== verification/Prelude.thy ===== *)
theory Prelude
  imports Main "HOL-Library.Word" "HOL-Library.Monad_Syntax"
begin

text \<open>
  Shared vocabulary of the development: the widths of the C integer types, the table scan that
  every \<^verbatim>\<open>for (i = 0; i < N; i++) if (cond) ...\<close> loop of the kernel performs, the outcome type of
  operations that may block, and the generic lemmas on lists and sums the components use.
  Of the source files only the table size \<^verbatim>\<open>NOFILE\<close> of \<^verbatim>\<open>param.h\<close> is here, which processes and files share.
\<close>

definition NOFILE :: nat where
  "NOFILE = 16"

type_synonym u8 = "8 word"
type_synonym u16 = "16 word"
type_synonym u32 = "32 word"
type_synonym u64 = "64 word"

text \<open>
  \<open>tab_simps\<close> collects the facts about table lookups and updates, \<open>op_defs\<close> the definitions of
  a component's operations that its proofs unfold together.
\<close>

named_theorems tab_simps
named_theorems op_defs

text \<open>
  What a kernel path delivers when it leaves the CPU: it returns a value, or it goes to sleep
  inside \<^verbatim>\<open>sleep()\<close> and will resume at the loop it sleeps in.
\<close>

datatype 'a outcome = Ret 'a | Sleep

text \<open>Index of the first table entry that satisfies a condition; the C loops return it or \<open>-1\<close>.\<close>

fun find_idx :: "('a \<Rightarrow> bool) \<Rightarrow> 'a list \<Rightarrow> nat option" where
  "find_idx P [] = None"
| "find_idx P (x # xs) = (if P x then Some 0 else map_option Suc (find_idx P xs))"

definition idx_or_neg :: "nat option \<Rightarrow> int" where
  "idx_or_neg r = (case r of None \<Rightarrow> - 1 | Some i \<Rightarrow> int i)"

text \<open>Number of table entries that satisfy a condition.\<close>

abbreviation count_if :: "('a \<Rightarrow> bool) \<Rightarrow> 'a list \<Rightarrow> nat" where
  "count_if P xs \<equiv> length (filter P xs)"

text \<open>No two used entries of a keyed table carry the same key.\<close>

definition unique_keys :: "('a \<Rightarrow> bool) \<Rightarrow> ('a \<Rightarrow> 'k) \<Rightarrow> 'a list \<Rightarrow> bool" where
  "unique_keys used key xs \<longleftrightarrow>
     (\<forall>i<length xs. \<forall>j<length xs. used (xs ! i) \<and> used (xs ! j) \<and> key (xs ! i) = key (xs ! j) \<longrightarrow> i = j)"

subsection \<open>Scanning a table\<close>

lemma find_idx_None: "find_idx P xs = None \<longleftrightarrow> (\<forall>x\<in>set xs. \<not> P x)"
  by (induction xs) auto

lemma find_idx_Some:
  "find_idx P xs = Some i \<longleftrightarrow> i < length xs \<and> P (xs ! i) \<and> (\<forall>j<i. \<not> P (xs ! j))"
proof (induction xs arbitrary: i)
  case Nil
  then show ?case by simp
next
  case (Cons x xs)
  show ?case
  proof (cases i)
    case 0
    then show ?thesis by auto
  next
    case (Suc k)
    then show ?thesis
      using Cons.IH [of k] by (auto simp: less_Suc_eq_0_disj)
  qed
qed

lemma find_idx_SomeD:
  assumes "find_idx P xs = Some i"
  shows "i < length xs" and "P (xs ! i)" and "\<And>j. j < i \<Longrightarrow> \<not> P (xs ! j)"
  using assms by (simp_all add: find_idx_Some)

lemma find_idx_unique:
  assumes "i < length xs" and "P (xs ! i)" and "\<And>j. j < length xs \<Longrightarrow> P (xs ! j) \<Longrightarrow> j = i"
  shows "find_idx P xs = Some i"
  unfolding find_idx_Some
proof (intro conjI allI impI)
  fix j assume "j < i"
  with assms(1) have "j < length xs" and "j \<noteq> i" by simp_all
  with assms(3) show "\<not> P (xs ! j)" by blast
qed (use assms(1,2) in simp_all)

lemma find_idx_exists: "x \<in> set xs \<Longrightarrow> P x \<Longrightarrow> \<exists>i. find_idx P xs = Some i"
  by (metis find_idx_None not_Some_eq)

lemma find_idx_cong: "(\<And>x. x \<in> set xs \<Longrightarrow> P x = Q x) \<Longrightarrow> find_idx P xs = find_idx Q xs"
  by (induction xs) auto

lemma idx_or_neg_simps [simp, tab_simps]:
  "idx_or_neg None = - 1"
  "idx_or_neg (Some i) = int i"
  "idx_or_neg r < 0 \<longleftrightarrow> r = None"
  "0 \<le> idx_or_neg r \<longleftrightarrow> r \<noteq> None"
  "idx_or_neg r = int i \<longleftrightarrow> r = Some i"
  "idx_or_neg r = - 1 \<longleftrightarrow> r = None"
  by (auto simp: idx_or_neg_def split: option.splits)

subsection \<open>Counting table entries under an update\<close>

lemma count_if_update:
  assumes "i < length xs"
  shows "count_if P (xs[i := x]) + (if P (xs ! i) then 1 else 0) = count_if P xs + (if P x then 1 else 0)"
  using assms
proof (induction xs arbitrary: i)
  case Nil
  then show ?case by simp
next
  case (Cons y ys)
  then show ?case by (cases i) auto
qed

lemma nth_list_update_if:
  "xs[i := x] ! j = (if i = j \<and> j < length xs then x else xs ! j)"
  by (cases "i = j") (auto simp: list_update_beyond)

lemma all_set_update: "(\<forall>x\<in>set xs. P x) \<Longrightarrow> P y \<Longrightarrow> \<forall>x\<in>set (xs[i := y]). P x"
  by (auto dest: set_update_subset_insert [THEN subsetD])

lemma sum_list_update_int:
  fixes xs :: "int list"
  shows "i < length xs \<Longrightarrow> sum_list (xs[i := x]) = sum_list xs - xs ! i + x"
proof (induction xs arbitrary: i)
  case Nil
  then show ?case by simp
next
  case (Cons y ys)
  then show ?case by (cases i) auto
qed

subsection \<open>Keyed tables\<close>

lemma unique_keysD:
  "unique_keys used key xs \<Longrightarrow> i < length xs \<Longrightarrow> j < length xs \<Longrightarrow> used (xs ! i) \<Longrightarrow> used (xs ! j) \<Longrightarrow>
    key (xs ! i) = key (xs ! j) \<Longrightarrow> i = j"
  by (simp add: unique_keys_def)

lemma unique_keys_update:
  assumes "unique_keys used key xs" and "used x \<Longrightarrow> used (xs ! i) \<and> key x = key (xs ! i)"
  shows "unique_keys used key (xs[i := x])"
  unfolding unique_keys_def
proof (intro allI impI)
  fix p q
  assume lt: "p < length (xs[i := x])" "q < length (xs[i := x])"
    and eq: "used (xs[i := x] ! p) \<and> used (xs[i := x] ! q) \<and> key (xs[i := x] ! p) = key (xs[i := x] ! q)"
  have "used (xs ! r) \<and> key (xs[i := x] ! r) = key (xs ! r)" if "used (xs[i := x] ! r)" "r < length xs" for r
    using that assms(2) by (cases "r = i") auto
  then have "used (xs ! p)" "used (xs ! q)" "key (xs ! p) = key (xs ! q)"
    using eq lt by (metis length_list_update)+
  then show "p = q"
    using lt unique_keysD [OF assms(1), of p q] by simp
qed

lemma unique_keys_claim:
  assumes "unique_keys used key xs" and "\<forall>y\<in>set xs. used y \<longrightarrow> key y \<noteq> key x"
  shows "unique_keys used key (xs[i := x])"
  unfolding unique_keys_def
proof (intro allI impI)
  fix p q
  assume lt: "p < length (xs[i := x])" "q < length (xs[i := x])"
    and eq: "used (xs[i := x] ! p) \<and> used (xs[i := x] ! q) \<and> key (xs[i := x] ! p) = key (xs[i := x] ! q)"
  show "p = q"
  proof (cases "p = i \<or> q = i")
    case True
    then show ?thesis using lt eq assms(2) by (metis length_list_update nth_list_update_eq nth_list_update_neq nth_mem)
  next
    case False
    then show ?thesis using lt eq unique_keysD [OF assms(1), of p q] by simp
  qed
qed

lemma unique_keys_find:
  assumes "unique_keys used key xs" and "i < length xs" and "used (xs ! i)"
  shows "find_idx (\<lambda>x. used x \<and> key x = key (xs ! i)) xs = Some i"
  using assms by (intro find_idx_unique) (auto dest: unique_keysD)

text \<open>
  The interface of the kernel's keyed tables: an entry is in use or free, carries a key while in use,
  and a creating operation claims a free slot for a new key. The mailbox table, the table of
  shared memory regions and the table of in-memory inodes provide it; the lemmas below are what
  their operations rely on.
\<close>

locale keyed_table =
  fixes used :: "'a \<Rightarrow> bool"
    and key :: "'a \<Rightarrow> 'k"
    and claim :: "'k \<Rightarrow> 'a \<Rightarrow> 'a"
  assumes used_claim: "used (claim k x)"
    and key_claim: "key (claim k x) = k"
begin

lemma claim_unique:
  assumes "unique_keys used key xs" and "\<forall>y\<in>set xs. used y \<longrightarrow> key y \<noteq> k"
  shows "unique_keys used key (xs[i := claim k x])"
  using assms by (intro unique_keys_claim) (simp_all add: key_claim)

lemma claim_found:
  assumes "unique_keys used key xs" and "\<forall>y\<in>set xs. used y \<longrightarrow> key y \<noteq> k" and "i < length xs"
  shows "find_idx (\<lambda>y. used y \<and> key y = k) (xs[i := claim k x]) = Some i"
  using unique_keys_find [OF claim_unique [OF assms(1,2)], of i i x] assms(3) by (simp add: used_claim key_claim)

lemma claim_other:
  assumes "unique_keys used key xs" and "\<not> used (xs ! i)" and "k' \<noteq> k"
    and "find_idx (\<lambda>y. used y \<and> key y = k') xs = r"
  shows "find_idx (\<lambda>y. used y \<and> key y = k') (xs[i := claim k x]) = r"
proof (cases r)
  case None
  with assms show ?thesis
    by (auto simp: find_idx_None key_claim dest!: set_update_subset_insert [THEN subsetD])
next
  case (Some j)
  with assms(4) have j: "j < length xs" "used (xs ! j)" "key (xs ! j) = k'" "\<And>l. l < j \<Longrightarrow> \<not> (used (xs ! l) \<and> key (xs ! l) = k')"
    by (auto dest: find_idx_SomeD)
  moreover have "i \<noteq> j" using assms(2) j(2) by auto
  ultimately show ?thesis
    using assms(3) Some by (simp add: find_idx_Some nth_list_update_if key_claim)
qed

end

subsection \<open>Runs of bounded length\<close>

lemma bounded_run:
  assumes "\<And>k t. (R ^^ k) s t \<Longrightarrow> k \<le> n"
  shows "\<exists>k t. (R ^^ k) s t \<and> (\<nexists>u. R t u)"
proof -
  define P where "P k \<longleftrightarrow> (\<exists>t. (R ^^ k) s t)" for k
  have "P 0" by (simp add: P_def)
  moreover have "\<forall>k. P k \<longrightarrow> k < Suc n" using assms by (auto simp: P_def less_Suc_eq_le)
  ultimately obtain k where k: "P k" "\<forall>k'. P k' \<longrightarrow> k' \<le> k" using ex_has_greatest_nat [of P 0 "\<lambda>k. k" "Suc n"] by blast
  then obtain t where t: "(R ^^ k) s t" by (auto simp: P_def)
  have "\<nexists>u. R t u"
  proof
    assume "\<exists>u. R t u"
    then obtain u where "R t u" by blast
    then have "P (Suc k)" unfolding P_def using t relpowp_Suc_I by metis
    then show False using k(2) by fastforce
  qed
  then show ?thesis using t by blast
qed

text \<open>
  The interface of a program of several processes that always ends: \<open>P n s\<close> describes the states from which at most \<open>n\<close>
  steps can follow. The maze game and the tests of mailboxes and shared memory provide it.
\<close>

locale ranked_runs =
  fixes R :: "'s \<Rightarrow> 's \<Rightarrow> bool" and P :: "nat \<Rightarrow> 's \<Rightarrow> bool"
  assumes descends: "P n s \<Longrightarrow> R s t \<Longrightarrow> \<exists>m<n. P m t"
begin

lemma run:
  assumes "P n s" and "(R ^^ k) s t"
  shows "\<exists>m. m + k \<le> n \<and> P m t"
  using assms(2)
proof (induction k arbitrary: t)
  case 0
  then show ?case using assms(1) by auto
next
  case (Suc k)
  then obtain u m where u: "R u t" "m + k \<le> n" "P m u" by fastforce
  then obtain m' where "m' < m" "P m' t" using descends by blast
  then show ?case using u(2) by (intro exI [of _ m']) simp
qed

lemma ends: "P n s \<Longrightarrow> \<exists>k t m. k \<le> n \<and> (R ^^ k) s t \<and> P m t \<and> (\<nexists>u. R t u)"
proof -
  assume P: "P n s"
  have "k \<le> n" if "(R ^^ k) s t" for k t using run [OF P that] by auto
  then obtain k t where t: "(R ^^ k) s t" "\<nexists>u. R t u" using bounded_run [of R s n] by blast
  then obtain m where "m + k \<le> n" "P m t" using run [OF P] by blast
  then show ?thesis using t add_leD2 [of m k n] by blast
qed

end

end
