(* ===== verification/ProcSync.thy ===== *)
theory ProcSync
  imports Prelude
begin

text \<open>
  The process table of \<^verbatim>\<open>kernel/proc.c\<close> and \<^verbatim>\<open>kernel/proc.h\<close>, as far as the sleep/wakeup protocol
  reads and writes it: the process states, the fields of \<^verbatim>\<open>struct proc\<close> guarded by \<^verbatim>\<open>p->lock\<close> and
  \<^verbatim>\<open>wait_lock\<close>, and the operations \<^verbatim>\<open>sleep\<close>, \<^verbatim>\<open>wakeup\<close>, \<^verbatim>\<open>yield\<close>, \<^verbatim>\<open>kkill\<close>, \<^verbatim>\<open>setkilled\<close>, \<^verbatim>\<open>killed\<close>.
  The record is extensible: the process model adds the private fields, the scheduler labs add
  \<^verbatim>\<open>priority\<close>/\<^verbatim>\<open>ticks\<close> and \<^verbatim>\<open>tickets\<close>, and every operation below is polymorphic in the extension.

  A pointer to a table entry is its index; \<^verbatim>\<open>myproc()\<close> is the argument \<open>me\<close>. Spinlocks make each
  operation atomic, so an operation is one function on the table. \<^verbatim>\<open>sleep\<close> is split at its call
  of \<^verbatim>\<open>sched\<close>: \<open>sleep_enter\<close> is what runs before the CPU is given up, \<open>sleep_return\<close> what runs
  when the process is scheduled again.
\<close>

datatype procstate = UNUSED | USED | SLEEPING | RUNNABLE | RUNNING | ZOMBIE

text \<open>Wait channels are addresses of kernel objects; \<open>Chan0\<close> is the null pointer.\<close>

datatype chan = Chan0 | ChanProc nat | ChanMbox nat | ChanTicks

record proc =
  state :: procstate
  chan :: chan
  killed_flag :: bool
  xstate :: int
  pid :: int
  parent :: "nat option"

abbreviation NPROC :: nat where
  "NPROC \<equiv> 64"

definition sched_panics :: "'a proc_scheme list \<Rightarrow> nat \<Rightarrow> bool" where
  "sched_panics ps me = (state (ps ! me) = RUNNING)"

definition yield :: "nat \<Rightarrow> 'a proc_scheme list \<Rightarrow> 'a proc_scheme list" where
  "yield me ps = ps[me := (ps ! me)\<lparr>state := RUNNABLE\<rparr>]"

definition sleep_enter :: "nat \<Rightarrow> chan \<Rightarrow> 'a proc_scheme list \<Rightarrow> 'a proc_scheme list" where
  "sleep_enter me ch ps = ps[me := (ps ! me)\<lparr>chan := ch, state := SLEEPING\<rparr>]"

definition sleep_return :: "nat \<Rightarrow> 'a proc_scheme list \<Rightarrow> 'a proc_scheme list" where
  "sleep_return me ps = ps[me := (ps ! me)\<lparr>chan := Chan0\<rparr>]"

definition wake_one :: "chan \<Rightarrow> 'a proc_scheme \<Rightarrow> 'a proc_scheme" where
  "wake_one ch p = (if state p = SLEEPING \<and> chan p = ch then p\<lparr>state := RUNNABLE\<rparr> else p)"

fun wakeup_from :: "nat \<Rightarrow> nat \<Rightarrow> chan \<Rightarrow> 'a proc_scheme list \<Rightarrow> 'a proc_scheme list" where
  "wakeup_from i me ch [] = []"
| "wakeup_from i me ch (p # ps) =
     (if i \<noteq> me then wake_one ch p else p) # wakeup_from (Suc i) me ch ps"

definition wakeup :: "nat \<Rightarrow> chan \<Rightarrow> 'a proc_scheme list \<Rightarrow> 'a proc_scheme list" where
  "wakeup me ch ps = wakeup_from 0 me ch ps"

definition kkill :: "int \<Rightarrow> 'a proc_scheme list \<Rightarrow> int \<times> 'a proc_scheme list" where
  "kkill p ps =
     (case find_idx (\<lambda>q. pid q = p) ps of
        None \<Rightarrow> (- 1, ps)
      | Some i \<Rightarrow>
          let q = (ps ! i)\<lparr>killed_flag := True\<rparr>;
              q' = (if state q = SLEEPING then q\<lparr>state := RUNNABLE\<rparr> else q)
          in (0, ps[i := q']))"

definition setkilled :: "nat \<Rightarrow> 'a proc_scheme list \<Rightarrow> 'a proc_scheme list" where
  "setkilled i ps = ps[i := (ps ! i)\<lparr>killed_flag := True\<rparr>]"

definition killed :: "nat \<Rightarrow> 'a proc_scheme list \<Rightarrow> bool" where
  "killed i ps = killed_flag (ps ! i)"

text \<open>A process is asleep on a channel: \<^verbatim>\<open>p->state == SLEEPING && p->chan == chan\<close>.\<close>

definition asleep_on :: "chan \<Rightarrow> 'a proc_scheme \<Rightarrow> bool" where
  "asleep_on ch p = (state p = SLEEPING \<and> chan p = ch)"

subsection \<open>The wakeup scan\<close>

lemma length_wakeup_from [simp]: "length (wakeup_from i me ch ps) = length ps"
  by (induction ps arbitrary: i) auto

lemma nth_wakeup_from:
  "j < length ps \<Longrightarrow>
    wakeup_from i me ch ps ! j = (if i + j \<noteq> me then wake_one ch (ps ! j) else ps ! j)"
proof (induction ps arbitrary: i j)
  case Nil
  then show ?case by simp
next
  case (Cons p ps)
  then show ?case by (cases j) auto
qed

lemma length_wakeup [simp, tab_simps]: "length (wakeup me ch ps) = length ps"
  by (simp add: wakeup_def)

lemma nth_wakeup [tab_simps]:
  "j < length ps \<Longrightarrow> wakeup me ch ps ! j = (if j \<noteq> me then wake_one ch (ps ! j) else ps ! j)"
  by (simp add: wakeup_def nth_wakeup_from)

lemma wake_one_simps [simp]:
  "chan (wake_one ch p) = chan p"
  "killed_flag (wake_one ch p) = killed_flag p"
  "xstate (wake_one ch p) = xstate p"
  "pid (wake_one ch p) = pid p"
  "parent (wake_one ch p) = parent p"
  "proc.more (wake_one ch p) = proc.more p"
  "asleep_on ch' (wake_one ch p) \<longleftrightarrow> asleep_on ch' p \<and> ch' \<noteq> ch"
  by (auto simp: wake_one_def asleep_on_def)

lemma length_sync_ops [simp, tab_simps]:
  "length (yield me ps) = length ps"
  "length (sleep_enter me ch ps) = length ps"
  "length (sleep_return me ps) = length ps"
  "length (setkilled me ps) = length ps"
  "length (snd (kkill p ps)) = length ps"
  by (simp_all add: yield_def sleep_enter_def sleep_return_def setkilled_def kkill_def Let_def
      split: option.split)

lemma asleep_sleep_enter:
  "me < length ps \<Longrightarrow> asleep_on ch (sleep_enter me ch ps ! me)"
  by (simp add: sleep_enter_def asleep_on_def)

lemma nth_sleep_enter_other [simp]: "i \<noteq> me \<Longrightarrow> sleep_enter me ch ps ! i = ps ! i"
  by (simp add: sleep_enter_def)

text \<open>After a wakeup no process but the caller is asleep on the channel.\<close>

lemma wakeup_none_asleep:
  "j < length ps \<Longrightarrow> j \<noteq> me \<Longrightarrow> \<not> asleep_on ch (wakeup me ch ps ! j)"
  by (simp add: nth_wakeup)

lemma wakeup_asleep_other:
  "j < length ps \<Longrightarrow> asleep_on ch' (wakeup me ch ps ! j) \<Longrightarrow> asleep_on ch' (ps ! j)"
  by (simp add: nth_wakeup split: if_splits)

subsection \<open>The sleep and wakeup interface\<close>

text \<open>
  What a client of \<^verbatim>\<open>sleep\<close> and \<^verbatim>\<open>wakeup\<close> relies on: \<open>sleep me c\<close> puts nobody but the caller to sleep and only
  on \<open>c\<close>; \<open>wake me c\<close> leaves exactly those asleep that were, except the others on \<open>c\<close>. A client
  protects each channel by a condition \<open>Q\<close> that its sleepers wait under. The two lemmas are the
  absence of lost wakeups: every sleeper's condition stays true if a process sleeps only under its
  condition and wakes the channel whose condition it may have changed.
\<close>

locale wait_queue =
  fixes asleep :: "'c \<Rightarrow> 't \<Rightarrow> nat \<Rightarrow> bool"
    and sleep :: "nat \<Rightarrow> 'c \<Rightarrow> 't \<Rightarrow> 't"
    and wake :: "nat \<Rightarrow> 'c \<Rightarrow> 't \<Rightarrow> 't"
  assumes asleep_sleep: "asleep c (sleep me c' t) i \<Longrightarrow> (i = me \<and> c = c') \<or> (i \<noteq> me \<and> asleep c t i)"
    and asleep_wake: "asleep c (wake me c' t) i \<longleftrightarrow> asleep c t i \<and> (i = me \<or> c \<noteq> c')"
begin

definition guarded :: "('c \<Rightarrow> nat \<Rightarrow> bool) \<Rightarrow> 't \<Rightarrow> bool" where
  "guarded Q t \<longleftrightarrow> (\<forall>c i. asleep c t i \<longrightarrow> Q c i)"

lemma guarded_sleep:
  assumes "guarded Q t" and "Q' c me" and "\<And>c i. i \<noteq> me \<Longrightarrow> asleep c t i \<Longrightarrow> Q c i \<Longrightarrow> Q' c i"
  shows "guarded Q' (sleep me c t)"
  using assms unfolding guarded_def by (blast dest: asleep_sleep)

lemma guarded_wake:
  assumes "guarded Q t" and "\<And>c. \<not> asleep c t me"
    and "\<And>c i. i \<noteq> me \<Longrightarrow> c \<noteq> d \<Longrightarrow> asleep c t i \<Longrightarrow> Q c i \<Longrightarrow> Q' c i"
  shows "guarded Q' (wake me d t)"
  unfolding guarded_def asleep_wake
proof (intro allI impI)
  fix c i assume a: "asleep c t i \<and> (i = me \<or> c \<noteq> d)"
  with assms(2) have "i \<noteq> me" by auto
  with a assms(1,3) show "Q' c i" by (auto simp: guarded_def)
qed

end

text \<open>The process table provides the interface.\<close>

interpretation ptable: wait_queue "\<lambda>ch ps i. i < length ps \<and> asleep_on ch (ps ! i)" sleep_enter wakeup
proof unfold_locales
  fix ch ch' :: chan and me i :: nat and ps :: "'a proc_scheme list"
  show "i < length (sleep_enter me ch' ps) \<and> asleep_on ch (sleep_enter me ch' ps ! i) \<Longrightarrow>
      (i = me \<and> ch = ch') \<or> (i \<noteq> me \<and> i < length ps \<and> asleep_on ch (ps ! i))"
    by (cases "i = me") (auto simp: sleep_enter_def asleep_on_def)
  show "(i < length (wakeup me ch' ps) \<and> asleep_on ch (wakeup me ch' ps ! i)) \<longleftrightarrow>
      (i < length ps \<and> asleep_on ch (ps ! i)) \<and> (i = me \<or> ch \<noteq> ch')"
    by (auto simp: nth_wakeup split: if_splits)
qed

end
