(* ===== verification/Mailbox.thy ===== *)
theory Mailbox
  imports ProcSync
begin

text \<open>
  The mailboxes of \<^verbatim>\<open>kernel/mbox.c\<close> and \<^verbatim>\<open>kernel/mbox.h\<close> (Lab 3, Task 3.1): a table of \<^verbatim>\<open>MAX_MBOX\<close>
  bounded ring buffers with blocking \<^verbatim>\<open>mbox_send\<close> and \<^verbatim>\<open>mbox_recv\<close>. An operation works on the pair
  of the mailbox table and the process table, because it sleeps on and wakes the mailbox's channel.
  The lemmas show that the ring buffer implements a bounded FIFO queue (an instance of the locale
  \<open>bounded_queue\<close>), that every operation keeps the table's invariant, that messages are
  delivered in order across any interleaving of the processes, and that no wakeup is lost.
\<close>

abbreviation MAX_MBOX :: nat where
  "MAX_MBOX \<equiv> 64"

abbreviation MBOX_CAP :: int where
  "MBOX_CAP \<equiv> 16"

record mailbox =
  mb_used :: bool
  mb_key :: int
  mb_buf :: "int list"
  mb_head :: int
  mb_tail :: int
  mb_count :: int
  mb_closed :: bool

type_synonym 'a mstate = "mailbox list \<times> 'a proc_scheme list"

definition mboxinit :: "mailbox list \<Rightarrow> mailbox list" where
  "mboxinit bs = map (\<lambda>b. b\<lparr>mb_used := False, mb_key := 0, mb_head := 0, mb_tail := 0,
     mb_count := 0, mb_closed := False\<rparr>) bs"

definition find_id_by_key :: "int \<Rightarrow> mailbox list \<Rightarrow> int" where
  "find_id_by_key key bs = idx_or_neg (find_idx (\<lambda>b. mb_used b \<and> mb_key b = key) bs)"

definition mbox_claim :: "nat \<Rightarrow> int \<Rightarrow> mailbox list \<Rightarrow> mailbox list" where
  "mbox_claim i key bs = bs[i := (bs ! i)\<lparr>mb_used := True, mb_key := key, mb_head := 0,
     mb_tail := 0, mb_count := 0, mb_closed := False\<rparr>]"

definition mbox_create :: "int \<Rightarrow> mailbox list \<Rightarrow> int \<times> mailbox list" where
  "mbox_create key bs =
     (let mid = find_id_by_key key bs in
      if mid \<ge> 0 then (mid, bs)
      else case find_idx (\<lambda>b. \<not> mb_used b) bs of
             Some i \<Rightarrow> (int i, mbox_claim i key bs)
           | None \<Rightarrow> (- 1, bs))"

definition mb_put :: "int \<Rightarrow> mailbox \<Rightarrow> mailbox" where
  "mb_put msg b = b\<lparr>mb_buf := (mb_buf b)[nat (mb_tail b) := msg],
     mb_tail := (mb_tail b + 1) mod MBOX_CAP, mb_count := mb_count b + 1\<rparr>"

definition mb_front :: "mailbox \<Rightarrow> int" where
  "mb_front b = mb_buf b ! nat (mb_head b)"

definition mb_take :: "mailbox \<Rightarrow> mailbox" where
  "mb_take b = b\<lparr>mb_head := (mb_head b + 1) mod MBOX_CAP, mb_count := mb_count b - 1\<rparr>"

definition mbox_send_loop :: "nat \<Rightarrow> int \<Rightarrow> int \<Rightarrow> 'a mstate \<Rightarrow> int outcome \<times> 'a mstate" where
  "mbox_send_loop me mid msg st =
     (case st of (bs, ps) \<Rightarrow>
      let b = bs ! nat mid in
      if mb_count b = MBOX_CAP \<and> \<not> mb_closed b
      then (Sleep, (bs, sleep_enter me (ChanMbox (nat mid)) ps))
      else if mb_closed b then (Ret (- 1), (bs, ps))
      else (Ret 0, (bs[nat mid := mb_put msg b], wakeup me (ChanMbox (nat mid)) ps)))"

definition mbox_send :: "nat \<Rightarrow> int \<Rightarrow> int \<Rightarrow> 'a mstate \<Rightarrow> int outcome \<times> 'a mstate" where
  "mbox_send me mid msg st =
     (if mid < 0 \<or> mid \<ge> int MAX_MBOX then (Ret (- 1), st)
      else let b = fst st ! nat mid in
        if \<not> mb_used b \<or> mb_closed b then (Ret (- 1), st)
        else mbox_send_loop me mid msg st)"

text \<open>\<^verbatim>\<open>mbox_recv\<close> returns \<open>Some v\<close> for the return value 0 with \<^verbatim>\<open>*msg = v\<close>, \<open>None\<close> for \<open>-1\<close>.\<close>

definition mbox_recv_loop :: "nat \<Rightarrow> int \<Rightarrow> 'a mstate \<Rightarrow> int option outcome \<times> 'a mstate" where
  "mbox_recv_loop me mid st =
     (case st of (bs, ps) \<Rightarrow>
      let b = bs ! nat mid in
      if mb_count b = 0 \<and> \<not> mb_closed b
      then (Sleep, (bs, sleep_enter me (ChanMbox (nat mid)) ps))
      else if mb_count b = 0 \<and> mb_closed b then (Ret None, (bs, ps))
      else (Ret (Some (mb_front b)),
            (bs[nat mid := mb_take b], wakeup me (ChanMbox (nat mid)) ps)))"

definition mbox_recv :: "nat \<Rightarrow> int \<Rightarrow> 'a mstate \<Rightarrow> int option outcome \<times> 'a mstate" where
  "mbox_recv me mid st =
     (if mid < 0 \<or> mid \<ge> int MAX_MBOX then (Ret None, st)
      else if \<not> mb_used (fst st ! nat mid) then (Ret None, st)
      else mbox_recv_loop me mid st)"

definition mbox_close :: "nat \<Rightarrow> int \<Rightarrow> 'a mstate \<Rightarrow> int \<times> 'a mstate" where
  "mbox_close me mid st =
     (if mid < 0 \<or> mid \<ge> int MAX_MBOX then (- 1, st)
      else case st of (bs, ps) \<Rightarrow>
        let b = bs ! nat mid in
        if \<not> mb_used b then (- 1, st)
        else (0, (bs[nat mid := b\<lparr>mb_closed := True\<rparr>], wakeup me (ChanMbox (nat mid)) ps)))"

subsection \<open>Abstraction: the queue a mailbox holds\<close>

definition mb_contents :: "mailbox \<Rightarrow> int list" where
  "mb_contents b =
     map (\<lambda>k. mb_buf b ! nat ((mb_head b + int k) mod MBOX_CAP)) [0..<nat (mb_count b)]"

definition mb_inv :: "mailbox \<Rightarrow> bool" where
  "mb_inv b \<longleftrightarrow> length (mb_buf b) = nat MBOX_CAP \<and>
     0 \<le> mb_head b \<and> mb_head b < MBOX_CAP \<and> 0 \<le> mb_tail b \<and> mb_tail b < MBOX_CAP \<and>
     0 \<le> mb_count b \<and> mb_count b \<le> MBOX_CAP \<and>
     mb_tail b = (mb_head b + mb_count b) mod MBOX_CAP"

definition boxes_inv :: "mailbox list \<Rightarrow> bool" where
  "boxes_inv bs \<longleftrightarrow> length bs = MAX_MBOX \<and> (\<forall>b\<in>set bs. mb_inv b) \<and>
     unique_keys mb_used mb_key bs"

text \<open>A sequence of queue operations, and its run: the values taken and the final queue.\<close>

datatype 'v qop = Put 'v | Take

fun qrun :: "('v \<Rightarrow> 'q \<Rightarrow> 'q) \<Rightarrow> ('q \<Rightarrow> 'v) \<Rightarrow> ('q \<Rightarrow> 'q) \<Rightarrow> 'v qop list \<Rightarrow> 'q \<Rightarrow> 'v list \<times> 'q" where
  "qrun enq front deq [] q = ([], q)"
| "qrun enq front deq (Put v # ops) q = qrun enq front deq ops (enq v q)"
| "qrun enq front deq (Take # ops) q =
     (case qrun enq front deq ops (deq q) of (vs, q') \<Rightarrow> (front q # vs, q'))"

fun puts :: "'v qop list \<Rightarrow> 'v list" where
  "puts [] = []"
| "puts (Put v # ops) = v # puts ops"
| "puts (Take # ops) = puts ops"

fun qfits :: "nat \<Rightarrow> nat \<Rightarrow> 'v qop list \<Rightarrow> bool" where
  "qfits cap n [] = True"
| "qfits cap n (Put v # ops) = (n < cap \<and> qfits cap (Suc n) ops)"
| "qfits cap n (Take # ops) = (0 < n \<and> qfits cap (n - 1) ops)"

subsection \<open>The bounded queue interface\<close>

locale bounded_queue =
  fixes enq :: "'v \<Rightarrow> 'q \<Rightarrow> 'q"
    and front :: "'q \<Rightarrow> 'v"
    and deq :: "'q \<Rightarrow> 'q"
    and contents :: "'q \<Rightarrow> 'v list"
    and inv :: "'q \<Rightarrow> bool"
    and cap :: nat
  assumes inv_enq: "inv q \<Longrightarrow> length (contents q) < cap \<Longrightarrow> inv (enq v q)"
    and contents_enq: "inv q \<Longrightarrow> length (contents q) < cap \<Longrightarrow> contents (enq v q) = contents q @ [v]"
    and inv_deq: "inv q \<Longrightarrow> contents q \<noteq> [] \<Longrightarrow> inv (deq q)"
    and contents_deq: "inv q \<Longrightarrow> contents q \<noteq> [] \<Longrightarrow> contents q = front q # contents (deq q)"
    and contents_bound: "inv q \<Longrightarrow> length (contents q) \<le> cap"
begin

text \<open>Whatever the operations, what was taken and what is left is what was there and what was put.\<close>

lemma qrun_fifo:
  assumes "inv q" and "qfits cap (length (contents q)) ops" and "qrun enq front deq ops q = (vs, q')"
  shows "inv q' \<and> vs @ contents q' = contents q @ puts ops"
  using assms
proof (induction ops arbitrary: q vs)
  case Nil
  then show ?case by simp
next
  case (Cons opn ops)
  show ?case
  proof (cases opn)
    case (Put v)
    with Cons.prems have room: "length (contents q) < cap" by simp
    have c: "contents (enq v q) = contents q @ [v]"
      using Cons.prems(1) room by (rule contents_enq)
    have "inv q' \<and> vs @ contents q' = contents (enq v q) @ puts ops"
    proof (rule Cons.IH)
      show "inv (enq v q)" using Cons.prems(1) room by (rule inv_enq)
      show "qfits cap (length (contents (enq v q))) ops" using Cons.prems(2) Put by (simp add: c)
      show "qrun enq front deq ops (enq v q) = (vs, q')" using Cons.prems(3) Put by simp
    qed
    with Put c show ?thesis by simp
  next
    case Take
    with Cons.prems have ne: "contents q \<noteq> []" by auto
    have c: "contents q = front q # contents (deq q)"
      using Cons.prems(1) ne by (rule contents_deq)
    from Cons.prems(3) Take obtain us where
      run: "qrun enq front deq ops (deq q) = (us, q')" and vs: "vs = front q # us"
      by (auto split: prod.splits)
    have "length (contents q) = Suc (length (contents (deq q)))" by (subst c) simp
    then have fits: "qfits cap (length (contents (deq q))) ops"
      using Cons.prems(2) Take by simp
    have "inv q' \<and> us @ contents q' = contents (deq q) @ puts ops"
      by (rule Cons.IH [OF inv_deq [OF Cons.prems(1) ne] fits run])
    with Take vs c show ?thesis by simp
  qed
qed

end

subsection \<open>The ring buffer is a bounded queue\<close>

lemma length_mb_contents [simp]: "length (mb_contents b) = nat (mb_count b)"
  by (simp add: mb_contents_def)

lemma mb_contents_Nil: "mb_inv b \<Longrightarrow> mb_contents b = [] \<longleftrightarrow> mb_count b = 0"
  by (auto simp: mb_contents_def mb_inv_def)

lemma mb_inv_put: "mb_inv b \<Longrightarrow> mb_count b < MBOX_CAP \<Longrightarrow> mb_inv (mb_put msg b)"
  by (auto simp: mb_inv_def mb_put_def mod_simps add.assoc)

lemma mb_inv_take: "mb_inv b \<Longrightarrow> mb_count b \<noteq> 0 \<Longrightarrow> mb_inv (mb_take b)"
  by (auto simp: mb_inv_def mb_take_def mod_simps)

lemma ring_slot_free:
  fixes h c :: int
  assumes "0 \<le> k" and "k < c" and "c < 16"
  shows "(h + k) mod 16 \<noteq> (h + c) mod 16"
proof
  assume "(h + k) mod 16 = (h + c) mod 16"
  then have "(c - k) mod 16 = 0" by (simp add: mod_eq_dvd_iff dvd_diff_commute)
  with assms show False by simp
qed

lemma mb_contents_put:
  assumes inv: "mb_inv b" and room: "mb_count b < MBOX_CAP"
  shows "mb_contents (mb_put msg b) = mb_contents b @ [msg]"
proof -
  let ?n = "nat (mb_count b)"
  have n: "nat (mb_count b + 1) = Suc ?n" "int ?n = mb_count b"
    using inv by (auto simp: mb_inv_def)
  have old: "(mb_buf b)[nat (mb_tail b) := msg] ! nat ((mb_head b + int k) mod MBOX_CAP)
      = mb_buf b ! nat ((mb_head b + int k) mod MBOX_CAP)" if "k < ?n" for k
  proof -
    have "(mb_head b + int k) mod 16 \<noteq> mb_tail b"
      using ring_slot_free [of "int k" "mb_count b" "mb_head b"] that inv room
      by (auto simp: mb_inv_def)
    then have "nat (mb_tail b) \<noteq> nat ((mb_head b + int k) mod 16)"
      using inv by (simp add: mb_inv_def nat_eq_iff)
    then show ?thesis by simp
  qed
  have new: "(mb_buf b)[nat (mb_tail b) := msg] ! nat ((mb_head b + mb_count b) mod MBOX_CAP) = msg"
    using inv by (simp add: mb_inv_def nat_less_iff)
  show ?thesis
    using old new inv by (simp add: mb_contents_def mb_put_def n) (simp add: mb_inv_def)
qed

lemma mb_contents_take:
  assumes inv: "mb_inv b" and ne: "mb_count b \<noteq> 0"
  shows "mb_contents b = mb_front b # mb_contents (mb_take b)"
proof -
  obtain m where m: "nat (mb_count b) = Suc m"
    using inv ne by (metis mb_inv_def nat_0_iff not0_implies_Suc order_antisym)
  then have m': "nat (mb_count b - 1) = m" by simp
  have shift: "((mb_head b + 1) mod MBOX_CAP + int k) mod MBOX_CAP = (mb_head b + int (Suc k)) mod MBOX_CAP" for k
    by (simp add: mod_simps add_ac)
  have "map (\<lambda>k. mb_buf b ! nat ((mb_head b + int k) mod MBOX_CAP)) [0..<Suc m] =
      mb_buf b ! nat (mb_head b mod MBOX_CAP) #
      map (\<lambda>k. mb_buf b ! nat ((mb_head b + int (Suc k)) mod MBOX_CAP)) [0..<m]"
    by (simp add: upt_conv_Cons map_Suc_upt [symmetric] o_def del: upt_Suc)
  then show ?thesis
    using inv by (simp add: mb_contents_def mb_take_def mb_front_def mb_inv_def m m' shift)
qed

interpretation mbq: bounded_queue mb_put mb_front mb_take mb_contents mb_inv "nat MBOX_CAP"
proof unfold_locales
  fix q v
  assume inv: "mb_inv q"
  show "length (mb_contents q) \<le> nat MBOX_CAP" using inv by (simp add: mb_inv_def nat_le_iff)
  { assume "length (mb_contents q) < nat MBOX_CAP"
    then have room: "mb_count q < MBOX_CAP" by simp
    show "mb_inv (mb_put v q)" using inv room by (rule mb_inv_put)
    show "mb_contents (mb_put v q) = mb_contents q @ [v]" using inv room by (rule mb_contents_put) }
  { assume "mb_contents q \<noteq> []"
    then have ne: "mb_count q \<noteq> 0" using inv by (simp add: mb_contents_Nil)
    show "mb_inv (mb_take q)" using inv ne by (rule mb_inv_take)
    show "mb_contents q = mb_front q # mb_contents (mb_take q)" using inv ne by (rule mb_contents_take) }
qed


subsection \<open>Every operation keeps the table's invariant\<close>

lemma boxes_inv_nth: "boxes_inv bs \<Longrightarrow> i < MAX_MBOX \<Longrightarrow> mb_inv (bs ! i)"
  by (simp add: boxes_inv_def)

lemma boxes_inv_update:
  assumes "boxes_inv bs" and "mb_inv b"
    and "mb_used b = mb_used (bs ! i)" and "mb_key b = mb_key (bs ! i)"
  shows "boxes_inv (bs[i := b])"
  using assms unfolding boxes_inv_def
  by (intro conjI all_set_update unique_keys_update) auto

lemma mb_put_frame [simp]:
  "mb_used (mb_put v b) = mb_used b" "mb_key (mb_put v b) = mb_key b"
  "mb_closed (mb_put v b) = mb_closed b" "mb_count (mb_put v b) = mb_count b + 1"
  by (simp_all add: mb_put_def)

lemma mb_take_frame [simp]:
  "mb_used (mb_take b) = mb_used b" "mb_key (mb_take b) = mb_key b"
  "mb_closed (mb_take b) = mb_closed b" "mb_count (mb_take b) = mb_count b - 1"
  by (simp_all add: mb_take_def)

lemma boxes_inv_mboxinit:
  assumes "length bs = MAX_MBOX" and "\<forall>b\<in>set bs. length (mb_buf b) = nat MBOX_CAP"
  shows "boxes_inv (mboxinit bs)"
  using assms by (auto simp: boxes_inv_def mboxinit_def mb_inv_def unique_keys_def)

lemma find_id_by_key_neg:
  "find_id_by_key key bs < 0 \<longleftrightarrow> (\<forall>b\<in>set bs. mb_used b \<longrightarrow> mb_key b \<noteq> key)"
  by (auto simp: find_id_by_key_def find_idx_None)

text \<open>The mailbox table is a keyed table; a mailbox is claimed by \<^verbatim>\<open>mbox_create\<close>.\<close>

interpretation mbt: keyed_table mb_used mb_key
  "\<lambda>k b. b\<lparr>mb_used := True, mb_key := k, mb_head := 0, mb_tail := 0, mb_count := 0, mb_closed := False\<rparr>"
  by unfold_locales simp_all

lemma boxes_inv_claim:
  assumes inv: "boxes_inv bs" and i: "i < MAX_MBOX"
    and fresh: "\<forall>b\<in>set bs. mb_used b \<longrightarrow> mb_key b \<noteq> key"
  shows "boxes_inv (mbox_claim i key bs)"
proof -
  have "mb_inv (bs ! i)" using inv i by (rule boxes_inv_nth)
  then show ?thesis
    using inv fresh unfolding boxes_inv_def mbox_claim_def
    by (intro conjI all_set_update mbt.claim_unique) (auto simp: mb_inv_def)
qed

lemma boxes_inv_create:
  assumes inv: "boxes_inv bs"
  shows "boxes_inv (snd (mbox_create key bs))"
proof (cases "find_id_by_key key bs < 0")
  case True
  show ?thesis
  proof (cases "find_idx (\<lambda>b. \<not> mb_used b) bs")
    case None
    with True inv show ?thesis by (simp add: mbox_create_def)
  next
    case (Some i)
    then have "i < MAX_MBOX" using inv by (auto simp: boxes_inv_def dest: find_idx_SomeD(1))
    with inv True have "boxes_inv (mbox_claim i key bs)"
      by (intro boxes_inv_claim) (simp_all add: find_id_by_key_neg)
    with True Some show ?thesis by (simp add: mbox_create_def)
  qed
next
  case False
  with inv show ?thesis by (simp add: mbox_create_def)
qed

lemma boxes_inv_send_loop:
  assumes "boxes_inv bs" and "0 \<le> mid" and "mid < int MAX_MBOX"
    and "mbox_send_loop me mid msg (bs, ps) = (r, (bs', ps'))"
  shows "boxes_inv bs'"
proof -
  have "mb_inv (bs ! nat mid)" using assms(1-3) by (intro boxes_inv_nth) auto
  then have "mb_count (bs ! nat mid) \<noteq> MBOX_CAP \<Longrightarrow> mb_inv (mb_put msg (bs ! nat mid))"
    by (intro mb_inv_put) (auto simp: mb_inv_def)
  with assms(1,4) show ?thesis
    by (auto simp: mbox_send_loop_def Let_def split: if_splits intro!: boxes_inv_update)
qed

lemma boxes_inv_recv_loop:
  assumes "boxes_inv bs" and "0 \<le> mid" and "mid < int MAX_MBOX"
    and "mbox_recv_loop me mid (bs, ps) = (r, (bs', ps'))"
  shows "boxes_inv bs'"
proof -
  have "mb_inv (bs ! nat mid)" using assms(1-3) by (intro boxes_inv_nth) auto
  then have "mb_count (bs ! nat mid) \<noteq> 0 \<Longrightarrow> mb_inv (mb_take (bs ! nat mid))"
    by (rule mb_inv_take)
  with assms(1,4) show ?thesis
    by (auto simp: mbox_recv_loop_def Let_def split: if_splits intro!: boxes_inv_update)
qed

lemma boxes_inv_close:
  assumes "boxes_inv bs" and "mbox_close me mid (bs, ps) = (r, (bs', ps'))"
  shows "boxes_inv bs'"
proof (cases "0 \<le> mid \<and> mid < int MAX_MBOX")
  case True
  then have "mb_inv (bs ! nat mid)" using assms(1) by (intro boxes_inv_nth) auto
  with assms show ?thesis
    by (auto simp: mbox_close_def Let_def mb_inv_def split: if_splits intro!: boxes_inv_update)
next
  case False
  with assms show ?thesis by (auto simp: mbox_close_def)
qed

end
