(* ===== verification/MailboxSys.thy ===== *)
theory MailboxSys
  imports Mailbox
begin

text \<open>
  Any number of processes that use the mailboxes concurrently. A step is one critical section of
  \<^verbatim>\<open>mbox.c\<close> or one action of \<^verbatim>\<open>proc.c\<close> on the process table: a process enters an operation, a
  process that was woken inside \<^verbatim>\<open>sleep()\<close> is scheduled again and re-tests the loop condition, the
  scheduler dispatches a process, a process yields, a process is killed. Which process moves is not
  determined. The logs \<open>sent\<close> and \<open>rcvd\<close> record the messages of the calls that returned 0; they are
  history only and no operation reads them.
\<close>

datatype mpc = User | InSend int int | InRecv int

record msys =
  boxes :: "mailbox list"
  procs :: "proc list"
  pcs :: "nat \<Rightarrow> mpc"
  sent :: "nat \<Rightarrow> int list"
  rcvd :: "nat \<Rightarrow> int list"

definition running :: "msys \<Rightarrow> nat \<Rightarrow> bool" where
  "running s me \<longleftrightarrow> me < length (procs s) \<and> state (procs s ! me) = RUNNING"

definition end_send :: "nat \<Rightarrow> int \<Rightarrow> int \<Rightarrow> int outcome \<times> unit mstate \<Rightarrow> msys \<Rightarrow> msys" where
  "end_send me mid msg r s =
     (case r of
        (Sleep, (bs, ps)) \<Rightarrow> s\<lparr>boxes := bs, procs := ps, pcs := (pcs s)(me := InSend mid msg)\<rparr>
      | (Ret v, (bs, ps)) \<Rightarrow> s\<lparr>boxes := bs, procs := ps, pcs := (pcs s)(me := User),
          sent := (if v = 0 then (sent s)(nat mid := sent s (nat mid) @ [msg]) else sent s)\<rparr>)"

definition end_recv :: "nat \<Rightarrow> int \<Rightarrow> int option outcome \<times> unit mstate \<Rightarrow> msys \<Rightarrow> msys" where
  "end_recv me mid r s =
     (case r of
        (Sleep, (bs, ps)) \<Rightarrow> s\<lparr>boxes := bs, procs := ps, pcs := (pcs s)(me := InRecv mid)\<rparr>
      | (Ret v, (bs, ps)) \<Rightarrow> s\<lparr>boxes := bs, procs := ps, pcs := (pcs s)(me := User),
          rcvd := (case v of None \<Rightarrow> rcvd s
                   | Some x \<Rightarrow> (rcvd s)(nat mid := rcvd s (nat mid) @ [x]))\<rparr>)"

inductive mstep :: "msys \<Rightarrow> msys \<Rightarrow> bool" where
  send: "running s me \<Longrightarrow> pcs s me = User \<Longrightarrow>
     mstep s (end_send me mid msg (mbox_send me mid msg (boxes s, procs s)) s)"
| send_again: "running s me \<Longrightarrow> pcs s me = InSend mid msg \<Longrightarrow>
     mstep s (end_send me mid msg (mbox_send_loop me mid msg (boxes s, sleep_return me (procs s))) s)"
| recv: "running s me \<Longrightarrow> pcs s me = User \<Longrightarrow>
     mstep s (end_recv me mid (mbox_recv me mid (boxes s, procs s)) s)"
| recv_again: "running s me \<Longrightarrow> pcs s me = InRecv mid \<Longrightarrow>
     mstep s (end_recv me mid (mbox_recv_loop me mid (boxes s, sleep_return me (procs s))) s)"
| create: "running s me \<Longrightarrow> pcs s me = User \<Longrightarrow>
     mstep s (s\<lparr>boxes := snd (mbox_create key (boxes s))\<rparr>)"
| close: "running s me \<Longrightarrow> pcs s me = User \<Longrightarrow> mbox_close me mid (boxes s, procs s) = (r, (bs, ps)) \<Longrightarrow>
     mstep s (s\<lparr>boxes := bs, procs := ps\<rparr>)"
| kill: "running s me \<Longrightarrow> mstep s (s\<lparr>procs := snd (kkill p (procs s))\<rparr>)"
| dispatch: "i < length (procs s) \<Longrightarrow> state (procs s ! i) = RUNNABLE \<Longrightarrow>
     mstep s (s\<lparr>procs := (procs s)[i := (procs s ! i)\<lparr>state := RUNNING\<rparr>]\<rparr>)"
| give_up: "running s me \<Longrightarrow> mstep s (s\<lparr>procs := yield me (procs s)\<rparr>)"





fun pc_ok :: "mailbox list \<Rightarrow> mpc \<Rightarrow> bool" where
  "pc_ok bs User = True"
| "pc_ok bs (InSend mid msg) = (0 \<le> mid \<and> mid < int MAX_MBOX \<and> mb_used (bs ! nat mid))"
| "pc_ok bs (InRecv mid) = (0 \<le> mid \<and> mid < int MAX_MBOX \<and> mb_used (bs ! nat mid))"



subsection \<open>How the steps act on the invariant's parts\<close>








lemma state_sleep_return [simp]: "me < length ps \<Longrightarrow> state (sleep_return me ps ! me) = state (ps ! me)"
  by (simp add: sleep_return_def)



lemma pc_ok_upd_fun: "(\<forall>p. pc_ok bs (pc p)) \<Longrightarrow> pc_ok bs x \<Longrightarrow> \<forall>p. pc_ok bs ((pc(me := x)) p)"
  by simp




subsection \<open>Every step keeps the invariant\<close>

















subsection \<open>A concrete run\<close>

text \<open>
  Process 0 creates a mailbox and sends; process 1 receives from the still empty mailbox first and
  sleeps. The states are used to show that the hypotheses of the properties can hold.
\<close>

definition box0 :: mailbox where
  "box0 = \<lparr>mb_used = False, mb_key = 0, mb_buf = replicate 16 0, mb_head = 0, mb_tail = 0,
     mb_count = 0, mb_closed = False\<rparr>"

definition proc0 :: proc where
  "proc0 = \<lparr>state = RUNNING, chan = Chan0, killed_flag = False, xstate = 0, pid = 1, parent = None\<rparr>"

definition sys0 :: msys where
  "sys0 = \<lparr>boxes = mboxinit (replicate 64 box0), procs = [proc0, proc0], pcs = (\<lambda>_. User),
     sent = (\<lambda>_. []), rcvd = (\<lambda>_. [])\<rparr>"




lemma sys0_boxes: "boxes sys0 = replicate 64 box0"
  by (simp add: sys0_def mboxinit_def box0_def)







subsection \<open>Properties\<close>





text \<open>
  Property C5. The ring buffer of \<^verbatim>\<open>buf\<close>, \<^verbatim>\<open>head\<close>, \<^verbatim>\<open>tail\<close> and \<^verbatim>\<open>count\<close> implements a bounded queue: for
  every sequence of insertions and removals that never overfills or underflows it, the values
  removed followed by the values left are the initial contents followed by the values inserted,
  and the index invariant holds again at the end.
\<close>

theorem mailbox_ring_refines_queue:
  assumes "mb_inv b" and "qfits 16 (length (mb_contents b)) ops"
    and "qrun mb_put mb_front mb_take ops b = (vs, b')"
  shows "mb_inv b' \<and> vs @ mb_contents b' = mb_contents b @ puts ops"
  using mbq.qrun_fifo [of b ops vs b'] assms by simp

theorem mailbox_ring_refines_queue_witness:
  "mb_inv box0 \<and>
   fst (qrun mb_put mb_front mb_take [Put 3, Put 4, Take, Put 5, Take] box0) @
     mb_contents (snd (qrun mb_put mb_front mb_take [Put 3, Put 4, Take, Put 5, Take] box0)) = [3, 4, 5]"
proof -
  have inv: "mb_inv box0" and c: "mb_contents box0 = []" by (simp_all add: mb_inv_def box0_def mb_contents_def)
  then show ?thesis
    using mailbox_ring_refines_queue [of box0 "[Put 3, Put 4, Take, Put 5, Take]"]
    by (simp add: prod_eq_iff)
qed

lemma mbox_create_found:
  assumes inv: "boxes_inv bs" and cr: "mbox_create key bs = (mid, bs')" and ok: "mid \<ge> 0"
  shows "find_id_by_key key bs' = mid" and "mid < int MAX_MBOX" and "mb_used (bs' ! nat mid)"
proof -
  have found: "find_idx (\<lambda>b. mb_used b \<and> mb_key b = key) bs' = Some (nat mid)"
  proof (cases "find_id_by_key key bs < 0")
    case True
    then obtain i where "find_idx (\<lambda>b. \<not> mb_used b) bs = Some i" "mid = int i" "bs' = mbox_claim i key bs"
      using cr ok by (auto simp: mbox_create_def split: option.splits)
    with True inv show ?thesis
      using mbt.claim_found [of bs key i "bs ! i"] find_idx_SomeD(1) [of _ bs i]
      by (simp add: mbox_claim_def boxes_inv_def find_id_by_key_neg)
  next
    case False
    then show ?thesis using cr by (auto simp: mbox_create_def find_id_by_key_def)
  qed
  then show "find_id_by_key key bs' = mid" using ok by (simp add: find_id_by_key_def)
  show "mid < int MAX_MBOX" "mb_used (bs' ! nat mid)"
    using find_idx_SomeD [OF found] boxes_inv_create [OF inv, of key] cr ok
    by (auto simp: boxes_inv_def nat_less_iff)
qed

lemma mbox_create_other:
  assumes inv: "boxes_inv bs" and cr: "mbox_create key bs = (mid, bs')" and ne: "k \<noteq> key"
  shows "find_id_by_key k bs' = find_id_by_key k bs"
proof (cases "bs' = bs")
  case False
  then obtain i where i: "find_idx (\<lambda>b. \<not> mb_used b) bs = Some i" "bs' = mbox_claim i key bs"
    using cr by (auto simp: mbox_create_def Let_def split: option.splits if_splits)
  have "unique_keys mb_used mb_key bs" using inv by (simp add: boxes_inv_def)
  with find_idx_SomeD(2) [OF i(1)] ne show ?thesis
    by (simp add: i(2) mbox_claim_def find_id_by_key_def mbt.claim_other)
qed simp

text \<open>
  Property C6. Creation is idempotent and consistent with lookup: when \<^verbatim>\<open>mbox_create\<close> returns an id,
  the id is a valid used slot, looking the key up afterwards finds that id, creating the same
  key again returns the same id and changes nothing, and every other key is found where it was.
\<close>

theorem mbox_create_idempotent:
  assumes "boxes_inv bs" and "mbox_create key bs = (mid, bs')" and "mid \<ge> 0"
  shows "mid < int MAX_MBOX \<and> mb_used (bs' ! nat mid) \<and> find_id_by_key key bs' = mid \<and>
    mbox_create key bs' = (mid, bs') \<and> (\<forall>k. k \<noteq> key \<longrightarrow> find_id_by_key k bs' = find_id_by_key k bs)"
  using mbox_create_found [OF assms] mbox_create_other [OF assms(1,2)] assms(3) by (simp add: mbox_create_def)

theorem mbox_create_idempotent_witness:
  "mbox_create 7 (mbox_claim 0 7 (boxes sys0)) = (0, mbox_claim 0 7 (boxes sys0))"
proof -
  have b: "boxes_inv (boxes sys0)"
    unfolding sys0_def by (simp add: boxes_inv_mboxinit box0_def)
  have free: "\<forall>x\<in>set (boxes sys0). \<not> mb_used x" by (simp add: sys0_boxes box0_def)
  then have "find_idx (\<lambda>b. \<not> mb_used b) (boxes sys0) = Some 0"
    by (simp add: find_idx_Some sys0_boxes)
  moreover have "find_idx (\<lambda>b. mb_used b \<and> mb_key b = 7) (boxes sys0) = None"
    using free by (simp add: find_idx_None)
  ultimately have "mbox_create 7 (boxes sys0) = (0, mbox_claim 0 7 (boxes sys0))"
    by (simp add: mbox_create_def find_id_by_key_def)
  with mbox_create_idempotent [OF b this] show ?thesis by simp
qed



lemma end_send_used:
  "mb_used (boxes s ! i) \<Longrightarrow> mb_used (boxes (end_send me mid msg (mbox_send_loop me mid msg (boxes s, ps)) s) ! i)"
  by (auto simp: end_send_def mbox_send_loop_def Let_def nth_list_update_if)

lemma end_recv_used:
  "mb_used (boxes s ! i) \<Longrightarrow> mb_used (boxes (end_recv me mid (mbox_recv_loop me mid (boxes s, ps)) s) ! i)"
  by (auto simp: end_recv_def mbox_recv_loop_def Let_def nth_list_update_if)

lemma mstep_keeps_used: "mstep s t \<Longrightarrow> mb_used (boxes s ! i) \<Longrightarrow> mb_used (boxes t ! i)"
proof (induction rule: mstep.induct)
  case (send s me mid msg)
  then show ?case
    using end_send_used [of s i me mid msg "procs s"] by (simp add: mbox_send_def end_send_def Let_def)
next
  case (recv s me mid)
  then show ?case
    using end_recv_used [of s i me mid "procs s"] by (simp add: mbox_recv_def end_recv_def)
next
  case (create s me key)
  then show ?case
    by (auto simp: mbox_create_def mbox_claim_def Let_def nth_list_update_if split: option.split)
next
  case (close s me mid r bs ps)
  then show ?case
    by (auto simp: mbox_close_def Let_def nth_list_update_if split: if_splits)
qed (auto intro: end_send_used end_recv_used)

lemma mstep_length_boxes: "mstep s t \<Longrightarrow> length (boxes t) = length (boxes s)"
  by (induction rule: mstep.induct)
    (auto simp: end_send_def mbox_send_def mbox_send_loop_def end_recv_def mbox_recv_def
      mbox_recv_loop_def mbox_create_def mbox_claim_def mbox_close_def Let_def
      split: option.split if_splits)

text \<open>
  Property C9. A mailbox slot is never given back: no step of the system, not even \<^verbatim>\<open>mbox_close\<close>,
  makes a used slot unused. So once every slot is used, \<^verbatim>\<open>mbox_create\<close> fails for every new key in
  every later state.
\<close>

theorem mbox_slots_never_freed:
  assumes "mstep\<^sup>*\<^sup>* s t" and "\<forall>b\<in>set (boxes s). mb_used b"
    and "find_id_by_key key (boxes t) < 0"
  shows "mbox_create key (boxes t) = (- 1, boxes t)"
proof -
  have "mb_used (boxes t ! i)" if "mb_used (boxes s ! i)" for i
    using assms(1) that by (induction rule: rtranclp_induct) (auto dest: mstep_keeps_used)
  moreover have "length (boxes t) = length (boxes s)"
    using assms(1) by (induction rule: rtranclp_induct) (auto dest: mstep_length_boxes)
  ultimately have "\<forall>b\<in>set (boxes t). mb_used b"
    using assms(2) by (metis in_set_conv_nth)
  then have "find_idx (\<lambda>b. \<not> mb_used b) (boxes t) = None" by (simp add: find_idx_None)
  with assms(3) show ?thesis by (simp add: mbox_create_def)
qed

theorem mbox_slots_never_freed_witness:
  "mbox_create 9 (replicate 64 (box0\<lparr>mb_used := True\<rparr>)) = (- 1, replicate 64 (box0\<lparr>mb_used := True\<rparr>))"
proof -
  let ?s = "sys0\<lparr>boxes := replicate 64 (box0\<lparr>mb_used := True\<rparr>)\<rparr>"
  have "mstep\<^sup>*\<^sup>* ?s ?s" by simp
  then show ?thesis
    using mbox_slots_never_freed [of ?s ?s 9] by (simp add: find_id_by_key_neg box0_def)
qed

end
