(* ===== verification/Shm.thy ===== *)
theory Shm
  imports Prelude
begin

unbundle bit_operations_syntax

text \<open>
  The shared-memory segments of \<^verbatim>\<open>kernel/shm.c\<close> and \<^verbatim>\<open>kernel/shm.h\<close> (Lab 3, Task 3.1): a table of
  \<^verbatim>\<open>MAX_SHM\<close> one-page regions, each mapped at a fixed virtual address per slot. The page allocator
  and the page tables (\<^verbatim>\<open>kalloc.c\<close>, \<^verbatim>\<open>vm.c\<close>, \<^verbatim>\<open>string.c\<close>) are not part of the repository: they are
  the fields of the record \<open>vmops\<close> over an arbitrary machine state, and \<open>vm_laws\<close> states what the
  code relies on. The lemmas show that a region's reference count is the number of page tables that
  map it, in every reachable state, and what follows: no page is freed while mapped, and
  \<^verbatim>\<open>shm_cleanup\<close> leaves no mapping behind.
\<close>

abbreviation MAX_SHM :: nat where
  "MAX_SHM \<equiv> 64"

text \<open>Page size and page-table-entry flags of the RISC-V Sv39 format.\<close>

abbreviation PGSIZE :: u64 where
  "PGSIZE \<equiv> 4096"

abbreviation PTE_V :: u64 where
  "PTE_V \<equiv> 1"

abbreviation PTE_R :: u64 where
  "PTE_R \<equiv> 2"

abbreviation PTE_W :: u64 where
  "PTE_W \<equiv> 4"

abbreviation PTE_U :: u64 where
  "PTE_U \<equiv> 16"

definition SHM_BASE :: u64 where
  "SHM_BASE = 0x40000000"

definition SHMVA :: "nat \<Rightarrow> u64" where
  "SHMVA slot = SHM_BASE + of_nat slot * PGSIZE"

record 'w vmops =
  kalloc :: "'w \<Rightarrow> nat \<times> 'w"
  kfree :: "nat \<Rightarrow> 'w \<Rightarrow> 'w"
  memset_page :: "nat \<Rightarrow> u8 \<Rightarrow> 'w \<Rightarrow> 'w"
  walk :: "nat \<Rightarrow> u64 \<Rightarrow> 'w \<Rightarrow> u64 option"
  mappages :: "nat \<Rightarrow> u64 \<Rightarrow> u64 \<Rightarrow> nat \<Rightarrow> u64 \<Rightarrow> 'w \<Rightarrow> int \<times> 'w"
  uvmunmap :: "nat \<Rightarrow> u64 \<Rightarrow> nat \<Rightarrow> bool \<Rightarrow> 'w \<Rightarrow> 'w"

record shm_region =
  shm_used :: bool
  shm_key :: int
  shm_page :: nat
  ref_count :: int

type_synonym 'w shmst = "shm_region list \<times> 'w"

definition shminit :: "shm_region list \<Rightarrow> shm_region list" where
  "shminit rs = map (\<lambda>r. r\<lparr>shm_used := False, shm_key := 0, shm_page := 0, ref_count := 0\<rparr>) rs"

definition find_slot_by_key :: "int \<Rightarrow> shm_region list \<Rightarrow> int" where
  "find_slot_by_key key rs = idx_or_neg (find_idx (\<lambda>r. shm_used r \<and> shm_key r = key) rs)"

definition alloc_slot :: "int \<Rightarrow> shm_region list \<Rightarrow> int \<times> shm_region list" where
  "alloc_slot key rs =
     (case find_idx (\<lambda>r. \<not> shm_used r) rs of
        Some i \<Rightarrow> (int i, rs[i := (rs ! i)\<lparr>shm_used := True, shm_key := key, shm_page := 0, ref_count := 0\<rparr>])
      | None \<Rightarrow> (- 1, rs))"

definition shm_create :: "'w vmops \<Rightarrow> int \<Rightarrow> 'w shmst \<Rightarrow> int \<times> 'w shmst" where
  "shm_create vm key st =
     (case st of (rs, w) \<Rightarrow>
      let s = find_slot_by_key key rs in
      if s \<ge> 0 then (s, (rs, w))
      else case alloc_slot key rs of (s, rs1) \<Rightarrow>
        if s < 0 then (- 1, (rs1, w))
        else case kalloc vm w of (pa, w1) \<Rightarrow>
          if pa = 0 then (- 1, (rs1[nat s := (rs1 ! nat s)\<lparr>shm_used := False\<rparr>], w1))
          else let w2 = memset_page vm pa 0 w1
               in (s, (rs1[nat s := (rs1 ! nat s)\<lparr>shm_page := pa\<rparr>], w2)))"

text \<open>\<^verbatim>\<open>pte && (*pte & PTE_V)\<close> for the entry of a virtual address in a page table.\<close>

definition pte_valid :: "'w vmops \<Rightarrow> 'w \<Rightarrow> nat \<Rightarrow> u64 \<Rightarrow> bool" where
  "pte_valid vm w pt va = (case walk vm pt va w of None \<Rightarrow> False | Some pte \<Rightarrow> pte AND PTE_V \<noteq> 0)"

definition shm_get :: "'w vmops \<Rightarrow> nat \<Rightarrow> int \<Rightarrow> 'w shmst \<Rightarrow> u64 \<times> 'w shmst" where
  "shm_get vm pt key st =
     (case st of (rs, w) \<Rightarrow>
      let s = find_slot_by_key key rs in
      if s < 0 \<or> shm_page (rs ! nat s) = 0 then (0, (rs, w))
      else let va = SHMVA (nat s) in
        if \<not> pte_valid vm w pt va
        then case mappages vm pt va PGSIZE (shm_page (rs ! nat s)) (PTE_R OR PTE_W OR PTE_U) w of
               (r, w1) \<Rightarrow>
                 if r < 0 then (0, (rs, w1))
                 else (va, (rs[nat s := (rs ! nat s)\<lparr>ref_count := ref_count (rs ! nat s) + 1\<rparr>], w1))
        else (va, (rs, w)))"

text \<open>
  The unmapping that \<^verbatim>\<open>shm_close\<close> and the loop body of \<^verbatim>\<open>shm_cleanup\<close> share: unmap, drop the reference,
  free the page and the slot with the last reference.
\<close>

definition shm_unmap :: "'w vmops \<Rightarrow> nat \<Rightarrow> nat \<Rightarrow> 'w shmst \<Rightarrow> 'w shmst" where
  "shm_unmap vm pt s st =
     (case st of (rs, w) \<Rightarrow>
      let va = SHMVA s in
      if pte_valid vm w pt va then
        let w1 = uvmunmap vm pt va 1 False w;
            r = rs ! s;
            r1 = (if ref_count r > 0 then r\<lparr>ref_count := ref_count r - 1\<rparr> else r)
        in if ref_count r1 = 0 \<and> shm_page r1 \<noteq> 0
           then (rs[s := r1\<lparr>shm_page := 0, shm_used := False\<rparr>], kfree vm (shm_page r1) w1)
           else (rs[s := r1], w1)
      else (rs, w))"

definition shm_close :: "'w vmops \<Rightarrow> nat \<Rightarrow> int \<Rightarrow> 'w shmst \<Rightarrow> int \<times> 'w shmst" where
  "shm_close vm pt key st =
     (let s = find_slot_by_key key (fst st) in
      if s < 0 then (- 1, st) else (0, shm_unmap vm pt (nat s) st))"

definition shm_cleanup_slot :: "'w vmops \<Rightarrow> nat \<Rightarrow> nat \<Rightarrow> 'w shmst \<Rightarrow> 'w shmst" where
  "shm_cleanup_slot vm pt s st = (if \<not> shm_used (fst st ! s) then st else shm_unmap vm pt s st)"

definition shm_cleanup :: "'w vmops \<Rightarrow> nat \<Rightarrow> 'w shmst \<Rightarrow> 'w shmst" where
  "shm_cleanup vm pt st = fold (shm_cleanup_slot vm pt) [0..<MAX_SHM] st"

subsection \<open>What the code relies on, and the invariant\<close>

definition same_page :: "u64 \<Rightarrow> u64 \<Rightarrow> bool" where
  "same_page a b \<longleftrightarrow> a div PGSIZE = b div PGSIZE"

text \<open>
  \<^verbatim>\<open>mappages\<close> and \<^verbatim>\<open>uvmunmap\<close> of one page change the validity of that page's entry only, a failed
  \<^verbatim>\<open>mappages\<close> changes none, and the allocator and \<^verbatim>\<open>memset\<close> do not touch page tables.
\<close>

definition vm_laws :: "'w vmops \<Rightarrow> bool" where
  "vm_laws vm \<longleftrightarrow>
     (\<forall>w pt va. pte_valid vm (snd (kalloc vm w)) pt va = pte_valid vm w pt va) \<and>
     (\<forall>w pa pt va. pte_valid vm (kfree vm pa w) pt va = pte_valid vm w pt va) \<and>
     (\<forall>w pa c pt va. pte_valid vm (memset_page vm pa c w) pt va = pte_valid vm w pt va) \<and>
     (\<forall>w pt va pa perm pt' va'. 
        pte_valid vm (snd (mappages vm pt va PGSIZE pa perm w)) pt' va' =
          (if fst (mappages vm pt va PGSIZE pa perm w) \<ge> 0 \<and> pt' = pt \<and> same_page va' va then True
           else pte_valid vm w pt' va')) \<and>
     (\<forall>w pt va free pt' va'.
        pte_valid vm (uvmunmap vm pt va 1 free w) pt' va' =
          (if pt' = pt \<and> same_page va' va then False else pte_valid vm w pt' va'))"

text \<open>The page tables of \<open>pts\<close> that map a slot.\<close>

definition mappers :: "'w vmops \<Rightarrow> nat set \<Rightarrow> 'w \<Rightarrow> nat \<Rightarrow> nat set" where
  "mappers vm pts w s = {pt \<in> pts. pte_valid vm w pt (SHMVA s)}"

definition shm_inv :: "'w vmops \<Rightarrow> nat set \<Rightarrow> 'w shmst \<Rightarrow> bool" where
  "shm_inv vm pts st \<longleftrightarrow> finite pts \<and> length (fst st) = MAX_SHM \<and> unique_keys shm_used shm_key (fst st) \<and>
     (\<forall>s<MAX_SHM. let r = fst st ! s in
        if shm_used r then shm_page r \<noteq> 0 \<and> ref_count r = int (card (mappers vm pts (snd st) s))
        else mappers vm pts (snd st) s = {})"

text \<open>
  A run of the shared-memory system: page tables appear without mappings in the shared window (a new
  process) and leave after \<^verbatim>\<open>shm_cleanup\<close> (\<^verbatim>\<open>freeproc\<close>); processes call the three operations.
\<close>

inductive shm_step :: "'w vmops \<Rightarrow> nat set \<times> 'w shmst \<Rightarrow> nat set \<times> 'w shmst \<Rightarrow> bool" for vm where
  create: "shm_create vm key st = (r, st') \<Longrightarrow> shm_step vm (pts, st) (pts, st')"
| get: "pt \<in> pts \<Longrightarrow> shm_get vm pt key st = (va, st') \<Longrightarrow> shm_step vm (pts, st) (pts, st')"
| close: "pt \<in> pts \<Longrightarrow> shm_close vm pt key st = (r, st') \<Longrightarrow> shm_step vm (pts, st) (pts, st')"
| new_proc: "\<forall>s<MAX_SHM. \<not> pte_valid vm (snd st) pt (SHMVA s) \<Longrightarrow>
     shm_step vm (pts, st) (insert pt pts, st)"
| free_proc: "pt \<in> pts \<Longrightarrow> shm_step vm (pts, st) (pts - {pt}, shm_cleanup vm pt st)"

subsection \<open>The shared window\<close>

lemma SHMVA_div: "s < MAX_SHM \<Longrightarrow> SHMVA s div PGSIZE = 0x40000 + of_nat s"
proof -
  assume s: "s < MAX_SHM"
  have u: "unat (SHMVA s) = 0x40000000 + s * 4096"
    using s by (simp add: SHMVA_def SHM_BASE_def unat_word_ariths unat_of_nat)
  have "unat (SHMVA s div PGSIZE) = unat (0x40000 + of_nat s :: u64)"
    using s by (simp add: unat_div u unat_word_ariths unat_of_nat)
  then show ?thesis by (simp only: word_unat_eq_iff)
qed

lemma same_page_SHMVA: "s < MAX_SHM \<Longrightarrow> t < MAX_SHM \<Longrightarrow> same_page (SHMVA s) (SHMVA t) \<longleftrightarrow> s = t"
proof -
  assume s: "s < MAX_SHM" and t: "t < MAX_SHM"
  then have "same_page (SHMVA s) (SHMVA t) \<longleftrightarrow> (of_nat s :: u64) = of_nat t"
    by (simp add: same_page_def SHMVA_div)
  also have "\<dots> \<longleftrightarrow> s = t"
    using s t by (auto simp: word_unat_eq_iff unat_of_nat)
  finally show ?thesis .
qed

lemma SHMVA_nonzero: "s < MAX_SHM \<Longrightarrow> SHMVA s \<noteq> 0"
proof
  assume "s < MAX_SHM" and "SHMVA s = 0"
  then have "unat (SHMVA s) = 0" by simp
  with \<open>s < MAX_SHM\<close> show False
    by (simp add: SHMVA_def SHM_BASE_def unat_word_ariths unat_of_nat)
qed

subsection \<open>How the machine operations act on the mappings\<close>

lemma mappers_kalloc: "vm_laws vm \<Longrightarrow> kalloc vm w = (pa, w') \<Longrightarrow> mappers vm pts w' s = mappers vm pts w s"
  unfolding vm_laws_def mappers_def by (metis snd_conv)

lemma mappers_kfree [simp]: "vm_laws vm \<Longrightarrow> mappers vm pts (kfree vm pa w) s = mappers vm pts w s"
  unfolding vm_laws_def mappers_def by metis

lemma mappers_memset [simp]: "vm_laws vm \<Longrightarrow> mappers vm pts (memset_page vm pa c w) s = mappers vm pts w s"
  unfolding vm_laws_def mappers_def by metis

lemma pte_valid_mappages:
  "vm_laws vm \<Longrightarrow> mappages vm pt va PGSIZE pa perm w = (r, w') \<Longrightarrow>
    pte_valid vm w' pt' va' = (if r \<ge> 0 \<and> pt' = pt \<and> same_page va' va then True else pte_valid vm w pt' va')"
  unfolding vm_laws_def by (metis fst_conv snd_conv)

lemma pte_valid_uvmunmap:
  "vm_laws vm \<Longrightarrow> pte_valid vm (uvmunmap vm pt va 1 f w) pt' va' =
     (if pt' = pt \<and> same_page va' va then False else pte_valid vm w pt' va')"
  unfolding vm_laws_def by blast

lemma pte_valid_kfree [simp]: "vm_laws vm \<Longrightarrow> pte_valid vm (kfree vm pa w) pt va = pte_valid vm w pt va"
  unfolding vm_laws_def by metis

lemma mappers_mappages:
  assumes "vm_laws vm" and "mappages vm pt (SHMVA s) PGSIZE pa perm w = (r, w')"
    and "s < MAX_SHM" and "t < MAX_SHM" and "pt \<in> pts"
  shows "mappers vm pts w' t = (if r \<ge> 0 \<and> t = s then insert pt (mappers vm pts w t) else mappers vm pts w t)"
  using assms by (auto simp: mappers_def pte_valid_mappages [OF assms(1,2)] same_page_SHMVA)

lemma mappers_uvmunmap:
  assumes "vm_laws vm" and "s < MAX_SHM" and "t < MAX_SHM"
  shows "mappers vm pts (uvmunmap vm pt (SHMVA s) 1 f w) t =
    (if t = s then mappers vm pts w t - {pt} else mappers vm pts w t)"
  unfolding mappers_def pte_valid_uvmunmap [OF assms(1)] using assms(2,3) by (auto simp: same_page_SHMVA)

lemma finite_mappers: "finite pts \<Longrightarrow> finite (mappers vm pts w s)"
  by (simp add: mappers_def)

subsection \<open>Every operation keeps the invariant\<close>

definition slot_ok :: "'w vmops \<Rightarrow> nat set \<Rightarrow> 'w \<Rightarrow> nat \<Rightarrow> shm_region \<Rightarrow> bool" where
  "slot_ok vm pts w s r \<longleftrightarrow>
     (if shm_used r then shm_page r \<noteq> 0 \<and> ref_count r = int (card (mappers vm pts w s))
      else mappers vm pts w s = {})"

lemma shm_inv_slots:
  "shm_inv vm pts (rs, w) \<longleftrightarrow> finite pts \<and> length rs = MAX_SHM \<and> unique_keys shm_used shm_key rs \<and>
     (\<forall>s<MAX_SHM. slot_ok vm pts w s (rs ! s))"
  by (simp add: shm_inv_def slot_ok_def Let_def)

lemma slot_ok_frame:
  "slot_ok vm pts w s r \<Longrightarrow> mappers vm pts w' s = mappers vm pts w s \<Longrightarrow> slot_ok vm pts w' s r"
  by (simp add: slot_ok_def)

lemma find_slot_neg:
  "find_slot_by_key key rs < 0 \<longleftrightarrow> (\<forall>r\<in>set rs. shm_used r \<longrightarrow> shm_key r \<noteq> key)"
  by (auto simp: find_slot_by_key_def find_idx_None)

lemma find_slot_found:
  assumes "\<not> find_slot_by_key key rs < 0"
  shows "nat (find_slot_by_key key rs) < length rs"
    "shm_used (rs ! nat (find_slot_by_key key rs))" "shm_key (rs ! nat (find_slot_by_key key rs)) = key"
proof -
  obtain i where "find_idx (\<lambda>r. shm_used r \<and> shm_key r = key) rs = Some i"
    using assms by (auto simp: find_slot_by_key_def)
  then show "nat (find_slot_by_key key rs) < length rs"
    "shm_used (rs ! nat (find_slot_by_key key rs))" "shm_key (rs ! nat (find_slot_by_key key rs)) = key"
    by (auto simp: find_slot_by_key_def dest: find_idx_SomeD)
qed

lemma alloc_slot_cases:
  obtains (full) "find_idx (\<lambda>r. \<not> shm_used r) rs = None" "alloc_slot key rs = (- 1, rs)"
  | (free) i where "find_idx (\<lambda>r. \<not> shm_used r) rs = Some i" "i < length rs" "\<not> shm_used (rs ! i)"
      "alloc_slot key rs = (int i, rs[i := (rs ! i)\<lparr>shm_used := True, shm_key := key, shm_page := 0, ref_count := 0\<rparr>])"
  by (cases "find_idx (\<lambda>r. \<not> shm_used r) rs") (auto simp: alloc_slot_def dest: find_idx_SomeD)

text \<open>The region table is a keyed table; \<^verbatim>\<open>alloc_slot\<close> claims the region.\<close>

interpretation shmt: keyed_table shm_used shm_key
  "\<lambda>k r. r\<lparr>shm_used := True, shm_key := k, shm_page := 0, ref_count := 0\<rparr>"
  by unfold_locales simp_all

lemma shm_inv_create:
  assumes vm: "vm_laws vm" and inv: "shm_inv vm pts (rs, w)" and cr: "shm_create vm key (rs, w) = (r, st')"
  shows "shm_inv vm pts st'"
proof (cases "find_slot_by_key key rs < 0")
  case False
  with inv cr show ?thesis by (auto simp: shm_create_def Let_def)
next
  case new: True
  show ?thesis
  proof (cases rule: alloc_slot_cases [of rs key])
    case full
    with new inv cr show ?thesis by (auto simp: shm_create_def Let_def)
  next
    case (free i)
    obtain pa w1 where ka: "kalloc vm w = (pa, w1)" by (cases "kalloc vm w")
    have m1: "mappers vm pts w1 s = mappers vm pts w s" for s using mappers_kalloc [OF vm ka] by simp
    have none: "mappers vm pts w i = {}"
      using inv free by (simp add: shm_inv_slots slot_ok_def split: if_splits)
    let ?r = "(rs ! i)\<lparr>shm_used := True, shm_key := key, shm_page := 0, ref_count := 0\<rparr>"
    have slots: "slot_ok vm pts w' s (rs[i := x] ! s)"
      if "s < MAX_SHM" "\<And>s. mappers vm pts w' s = mappers vm pts w s" "slot_ok vm pts w' i x" for s w' x
      using that inv free by (cases "s = i") (auto simp: shm_inv_slots intro: slot_ok_frame)
    show ?thesis
    proof (cases "pa = 0")
      case True
      then have st': "st' = (rs[i := ?r\<lparr>shm_used := False\<rparr>], w1)"
        using new free ka cr by (simp add: shm_create_def)
      have "slot_ok vm pts w1 i (?r\<lparr>shm_used := False\<rparr>)" by (simp add: slot_ok_def m1 none)
      then have "\<forall>s<MAX_SHM. slot_ok vm pts w1 s (rs[i := ?r\<lparr>shm_used := False\<rparr>] ! s)"
        using slots m1 by blast
      moreover have "unique_keys shm_used shm_key (rs[i := ?r\<lparr>shm_used := False\<rparr>])"
        using inv by (intro unique_keys_update) (simp_all add: shm_inv_slots)
      ultimately show ?thesis using inv by (simp add: st' shm_inv_slots)
    next
      case False
      then have st': "st' = (rs[i := ?r\<lparr>shm_page := pa\<rparr>], memset_page vm pa 0 w1)"
        using new free ka cr by (simp add: shm_create_def Let_def)
      have "slot_ok vm pts (memset_page vm pa 0 w1) i (?r\<lparr>shm_page := pa\<rparr>)"
        using False vm by (simp add: slot_ok_def m1 none)
      then have "\<forall>s<MAX_SHM. slot_ok vm pts (memset_page vm pa 0 w1) s (rs[i := ?r\<lparr>shm_page := pa\<rparr>] ! s)"
        using slots m1 vm by (metis mappers_memset)
      moreover have "unique_keys shm_used shm_key (rs[i := ?r\<lparr>shm_page := pa\<rparr>])"
        using unique_keys_update [OF shmt.claim_unique [of rs key i "rs ! i"], of "?r\<lparr>shm_page := pa\<rparr>" i] inv new free
        by (simp add: shm_inv_slots find_slot_neg)
      ultimately show ?thesis using inv by (simp add: st' shm_inv_slots)
    qed
  qed
qed

lemma shm_inv_get:
  assumes vm: "vm_laws vm" and inv: "shm_inv vm pts (rs, w)" and pt: "pt \<in> pts"
    and get: "shm_get vm pt key (rs, w) = (va, st')"
  shows "shm_inv vm pts st'"
proof (cases "find_slot_by_key key rs < 0 \<or> shm_page (rs ! nat (find_slot_by_key key rs)) = 0 \<or>
    pte_valid vm w pt (SHMVA (nat (find_slot_by_key key rs)))")
  case True
  with inv get show ?thesis by (auto simp: shm_get_def Let_def split: if_splits)
next
  case False
  define s where "s = nat (find_slot_by_key key rs)"
  have s: "s < MAX_SHM" "shm_used (rs ! s)"
    using False inv find_slot_found [of key rs] by (auto simp: s_def shm_inv_slots)
  obtain r w1 where mp: "mappages vm pt (SHMVA s) PGSIZE (shm_page (rs ! s)) (PTE_R OR PTE_W OR PTE_U) w = (r, w1)"
    by (metis surj_pair)
  note m = mappers_mappages [OF vm mp s(1) _ pt]
  have notin: "pt \<notin> mappers vm pts w s" using False by (simp add: mappers_def s_def)
  show ?thesis
  proof (cases "r < 0")
    case True
    then have "st' = (rs, w1)" using get False mp by (simp add: shm_get_def Let_def s_def)
    with inv m True show ?thesis by (auto simp: shm_inv_slots intro: slot_ok_frame)
  next
    case ok: False
    let ?r = "(rs ! s)\<lparr>ref_count := ref_count (rs ! s) + 1\<rparr>"
    have st': "st' = (rs[s := ?r], w1)"
      using get False mp ok by (simp add: shm_get_def Let_def s_def)
    have "slot_ok vm pts w1 s ?r"
      using inv s ok m [of s] notin by (simp add: shm_inv_slots slot_ok_def finite_mappers)
    moreover have "slot_ok vm pts w1 t (rs ! t)" if "t < MAX_SHM" "t \<noteq> s" for t
      using that inv m [of t] by (auto simp: shm_inv_slots intro: slot_ok_frame)
    moreover have "unique_keys shm_used shm_key (rs[s := ?r])"
      using inv s by (intro unique_keys_update) (auto simp: shm_inv_slots)
    ultimately show ?thesis using inv s
      unfolding st' shm_inv_slots by (auto simp: nth_list_update)
  qed
qed

lemma shm_inv_unmap:
  assumes vm: "vm_laws vm" and inv: "shm_inv vm pts (rs, w)" and pt: "pt \<in> pts"
    and s: "s < MAX_SHM" "shm_used (rs ! s)"
  shows "shm_inv vm pts (shm_unmap vm pt s (rs, w))"
proof (cases "pte_valid vm w pt (SHMVA s)")
  case False
  with inv show ?thesis by (simp add: shm_unmap_def Let_def)
next
  case True
  let ?w = "uvmunmap vm pt (SHMVA s) 1 False w"
  have fin: "finite (mappers vm pts w s)" using inv by (simp add: shm_inv_slots finite_mappers)
  have memb: "pt \<in> mappers vm pts w s" using True pt by (simp add: mappers_def)
  have ref: "ref_count (rs ! s) = int (card (mappers vm pts w s))" "shm_page (rs ! s) \<noteq> 0"
    using inv s by (auto simp: shm_inv_slots slot_ok_def)
  have pos: "ref_count (rs ! s) > 0" using ref memb fin by (auto simp: card_gt_0_iff)
  have m: "mappers vm pts ?w s = mappers vm pts w s - {pt}"
    "\<And>t. t < MAX_SHM \<Longrightarrow> t \<noteq> s \<Longrightarrow> mappers vm pts ?w t = mappers vm pts w t"
    using mappers_uvmunmap [OF vm s(1)] s(1) by simp_all
  have card: "int (card (mappers vm pts ?w s)) = ref_count (rs ! s) - 1"
    using ref memb fin unfolding m(1)
    by (metis Suc_pred' card_Diff_singleton card_gt_0_iff diff_Suc_1' empty_iff of_nat_1 of_nat_Suc
        add_diff_cancel_left' )
  let ?r = "(rs ! s)\<lparr>ref_count := ref_count (rs ! s) - 1\<rparr>"
  have others: "slot_ok vm pts w' t (rs ! t)"
    if "t < MAX_SHM" "t \<noteq> s" "mappers vm pts w' t = mappers vm pts ?w t" for t w'
    using that inv m(2) by (auto simp: shm_inv_slots intro: slot_ok_frame)
  have frame: "shm_inv vm pts (rs[s := x], w')"
    if "slot_ok vm pts w' s x" "shm_used x \<Longrightarrow> shm_key x = shm_key (rs ! s)"
       "\<And>t. t < MAX_SHM \<Longrightarrow> mappers vm pts w' t = mappers vm pts ?w t" for x w'
    using inv that others s unfolding shm_inv_slots
    by (auto simp: nth_list_update intro: unique_keys_update)
  show ?thesis
  proof (cases "ref_count (rs ! s) = 1")
    case last: True
    have "finite (mappers vm pts ?w s)" using inv by (simp add: shm_inv_slots finite_mappers)
    then have "mappers vm pts ?w s = {}" using card last by simp
    then have "shm_inv vm pts (rs[s := ?r\<lparr>shm_page := 0, shm_used := False\<rparr>], kfree vm (shm_page (rs ! s)) ?w)"
      using vm by (intro frame) (simp_all add: slot_ok_def)
    then show ?thesis using True pos last ref by (simp add: shm_unmap_def Let_def)
  next
    case False
    then have "shm_inv vm pts (rs[s := ?r], ?w)"
      using card ref s by (intro frame) (simp_all add: slot_ok_def)
    then show ?thesis using True pos False by (simp add: shm_unmap_def Let_def)
  qed
qed

lemma shm_unmap_pte:
  assumes "vm_laws vm" and "s < MAX_SHM" and "t < MAX_SHM"
  shows "pte_valid vm (snd (shm_unmap vm pt s (rs, w))) pt' (SHMVA t) =
    (if pt' = pt \<and> t = s then False else pte_valid vm w pt' (SHMVA t))"
  unfolding shm_unmap_def
  using assms by (auto simp: Let_def pte_valid_uvmunmap [unfolded One_nat_def] same_page_SHMVA)

lemma shm_cleanup_upto:
  assumes vm: "vm_laws vm" and inv: "shm_inv vm pts st" and pt: "pt \<in> pts" and n: "n \<le> MAX_SHM"
  defines "st' \<equiv> fold (shm_cleanup_slot vm pt) [0..<n] st"
  shows "shm_inv vm pts st' \<and> (\<forall>s<n. \<not> pte_valid vm (snd st') pt (SHMVA s)) \<and>
    (\<forall>pt' s. pt' \<noteq> pt \<longrightarrow> s < MAX_SHM \<longrightarrow> pte_valid vm (snd st') pt' (SHMVA s) = pte_valid vm (snd st) pt' (SHMVA s))"
  unfolding st'_def using n
proof (induction n)
  case 0
  with inv show ?case by simp
next
  case (Suc n)
  define u where "u = fold (shm_cleanup_slot vm pt) [0..<n] st"
  have IH: "shm_inv vm pts u" "\<forall>s<n. \<not> pte_valid vm (snd u) pt (SHMVA s)"
    "\<And>pt' s. pt' \<noteq> pt \<Longrightarrow> s < MAX_SHM \<Longrightarrow> pte_valid vm (snd u) pt' (SHMVA s) = pte_valid vm (snd st) pt' (SHMVA s)"
    using Suc by (auto simp: u_def)
  obtain rs w where u: "u = (rs, w)" by (cases u)
  have n: "n < MAX_SHM" using Suc.prems by simp
  have fold: "fold (shm_cleanup_slot vm pt) [0..<Suc n] st = shm_cleanup_slot vm pt n u"
    by (simp add: u_def)
  show ?case
  proof (cases "shm_used (rs ! n)")
    case True
    then have eq: "shm_cleanup_slot vm pt n u = shm_unmap vm pt n (rs, w)"
      by (simp add: shm_cleanup_slot_def u)
    show ?thesis
      unfolding fold eq
      using IH u n True shm_inv_unmap [OF vm _ pt, of rs w n] shm_unmap_pte [OF vm n]
      by (auto simp: less_Suc_eq)
  next
    case False
    then have "slot_ok vm pts w n (rs ! n)" using IH(1) u n by (simp add: shm_inv_slots)
    with False have "\<not> pte_valid vm w pt (SHMVA n)" using pt by (auto simp: slot_ok_def mappers_def)
    moreover have "shm_cleanup_slot vm pt n u = u" using False by (simp add: shm_cleanup_slot_def u)
    ultimately show ?thesis unfolding fold using IH u by (auto simp: less_Suc_eq)
  qed
qed

lemmas shm_cleanup_effect = shm_cleanup_upto [of _ _ _ _ MAX_SHM, folded shm_cleanup_def, simplified]

lemma shm_inv_pts:
  assumes "shm_inv vm pts st" and "finite pts'" and "\<And>s. s < MAX_SHM \<Longrightarrow> mappers vm pts' (snd st) s = mappers vm pts (snd st) s"
  shows "shm_inv vm pts' st"
  using assms by (cases st) (auto simp: shm_inv_slots slot_ok_def)

lemma shm_inv_finite: "shm_inv vm pts st \<Longrightarrow> finite pts"
  by (simp add: shm_inv_def)

lemma shm_inv_step:
  assumes "shm_step vm (pts, st) (pts', st')" and vm: "vm_laws vm" and inv: "shm_inv vm pts st"
  shows "shm_inv vm pts' st'"
  using assms(1)
proof cases
  case (create key r)
  with vm inv show ?thesis by (cases st) (auto intro: shm_inv_create)
next
  case (get pt key va)
  with vm inv show ?thesis by (cases st) (auto intro: shm_inv_get)
next
  case (close pt key r)
  obtain rs w where st: "st = (rs, w)" by (cases st)
  show ?thesis
  proof (cases "find_slot_by_key key rs < 0")
    case True
    with close inv st show ?thesis by (auto simp: shm_close_def)
  next
    case False
    with close st vm inv find_slot_found [OF False] show ?thesis
      by (auto simp: shm_close_def shm_inv_slots [of _ _ rs w] intro!: shm_inv_unmap)
  qed
next
  case (new_proc pt)
  then have "mappers vm (insert pt pts) (snd st) s = mappers vm pts (snd st) s" if "s < MAX_SHM" for s
    using that by (auto simp: mappers_def)
  then show ?thesis using new_proc inv shm_inv_finite [OF inv] by (auto intro: shm_inv_pts)
next
  case (free_proc pt)
  note cl = shm_cleanup_effect [OF vm inv \<open>pt \<in> pts\<close>]
  then have "mappers vm (pts - {pt}) (snd st') s = mappers vm pts (snd st') s" if "s < MAX_SHM" for s
    using that free_proc by (auto simp: mappers_def)
  then show ?thesis using free_proc cl shm_inv_finite [OF inv] by (auto intro: shm_inv_pts)
qed

lemma shm_inv_reach:
  assumes "(shm_step vm)\<^sup>*\<^sup>* (pts, st) (pts', st')" and vm: "vm_laws vm" and inv: "shm_inv vm pts st"
  shows "shm_inv vm pts' st'"
  using assms(1) inv
proof (induction "(pts', st')" arbitrary: pts' st' rule: rtranclp_induct)
  case base
  then show ?case by simp
next
  case (step y)
  obtain p u where y: "y = (p, u)" by (cases y)
  with step have "shm_inv vm p u" by blast
  with step y vm show ?case by (auto intro: shm_inv_step)
qed

lemma shm_inv_init:
  assumes "finite pts" and "length rs = MAX_SHM" and "\<forall>pt\<in>pts. \<forall>s<MAX_SHM. \<not> pte_valid vm w pt (SHMVA s)"
  shows "shm_inv vm pts (shminit rs, w)"
  using assms by (auto simp: shm_inv_def shminit_def unique_keys_def mappers_def)

subsection \<open>A concrete machine\<close>

text \<open>
  A machine for the witnesses: an allocator that hands out increasing page numbers, and page tables
  given by the set of pairs of a page table and a page number that are mapped.
\<close>

definition vm0 :: "(nat \<times> (nat \<times> u64) set) vmops" where
  "vm0 = \<lparr>kalloc = (\<lambda>(n, m). (Suc n, (Suc n, m))), kfree = (\<lambda>_ w. w), memset_page = (\<lambda>_ _ w. w),
     walk = (\<lambda>pt va (n, m). if (pt, va div 4096) \<in> m then Some 1 else None),
     mappages = (\<lambda>pt va _ _ _ (n, m). (0, (n, insert (pt, va div 4096) m))),
     uvmunmap = (\<lambda>pt va _ _ (n, m). (n, m - {(pt, va div 4096)}))\<rparr>"

definition w0 :: "nat \<times> (nat \<times> u64) set" where
  "w0 = (0, {})"

definition rs0 :: "shm_region list" where
  "rs0 = replicate 64 \<lparr>shm_used = False, shm_key = 0, shm_page = 0, ref_count = 0\<rparr>"

lemma pte_valid_vm0: "pte_valid vm0 (n, m) pt va \<longleftrightarrow> (pt, va div 4096) \<in> m"
  by (simp add: pte_valid_def vm0_def)

lemma vm_laws_vm0: "vm_laws vm0"
proof -
  have "kalloc vm0 (n, m) = (Suc n, (Suc n, m))" "kfree vm0 pa w = w" "memset_page vm0 pa c w = w"
    "mappages vm0 pt va sz pa perm (n, m) = (0, (n, insert (pt, va div 4096) m))"
    "uvmunmap vm0 pt va k f (n, m) = (n, m - {(pt, va div 4096)})" for n m w pa c pt va sz perm k f
    by (simp_all add: vm0_def)
  then show ?thesis
    by (auto simp: vm_laws_def pte_valid_vm0 same_page_def)
qed

lemma shm_inv_vm0: "shm_inv vm0 {1, 2} (shminit rs0, w0)"
  by (rule shm_inv_init) (auto simp: rs0_def w0_def pte_valid_vm0)

definition st1 :: "(nat \<times> (nat \<times> u64) set) shmst" where
  "st1 = snd (shm_create vm0 5 (shminit rs0, w0))"

lemma shminit_rs0: "shminit rs0 = rs0"
  by (simp add: shminit_def rs0_def)

lemma shm_create_rs0: "shm_create vm0 5 (rs0, w0) = (0, (rs0[0 := \<lparr>shm_used = True, shm_key = 5, shm_page = 1, ref_count = 0\<rparr>], (1, {})))"
proof -
  have "\<forall>r\<in>set rs0. \<not> shm_used r" by (simp add: rs0_def)
  then have "find_idx (\<lambda>r. \<not> shm_used r) rs0 = Some 0" "find_idx (\<lambda>r. shm_used r \<and> shm_key r = 5) rs0 = None"
    by (simp_all add: find_idx_Some find_idx_None) (simp add: rs0_def)
  then show ?thesis
    by (simp add: shm_create_def find_slot_by_key_def alloc_slot_def) (simp add: rs0_def vm0_def w0_def)
qed

lemma shm_inv_st1: "shm_inv vm0 {1, 2} st1"
  using shm_inv_create [OF vm_laws_vm0 shm_inv_vm0, of 5 "fst (shm_create vm0 5 (shminit rs0, w0))"]
  by (simp add: st1_def)

lemma st1_eq: "st1 = (rs0[0 := \<lparr>shm_used = True, shm_key = 5, shm_page = 1, ref_count = 0\<rparr>], (1, {}))"
  by (simp add: st1_def shminit_rs0 shm_create_rs0)

lemma find_slot_st1: "find_slot_by_key 5 (rs0[0 := r]) = 0" if "shm_used r" "shm_key r = 5" for r
proof -
  have "find_idx (\<lambda>r. shm_used r \<and> shm_key r = 5) (rs0[0 := r]) = Some 0"
    using that by (simp add: find_idx_Some) (simp add: rs0_def)
  then show ?thesis by (simp add: find_slot_by_key_def)
qed

subsection \<open>Properties\<close>

text \<open>
  Property C3. The reference count is exact. In every state reachable from the initial table by any
  sequence of \<^verbatim>\<open>shm_create\<close>, \<^verbatim>\<open>shm_get\<close>, \<^verbatim>\<open>shm_close\<close>, process creation and process exit, the
  \<^verbatim>\<open>ref_count\<close> of a used region is the number of page tables that map its window and the region has
  a page; the window of an unused slot, whose page has been freed, is mapped by no page table. So a
  page is never freed while some process can still reach it.
\<close>

theorem shm_refcount_exact:
  assumes "vm_laws vm" and "finite pts" and "length rs = MAX_SHM"
    and "\<forall>pt\<in>pts. \<forall>s<MAX_SHM. \<not> pte_valid vm w pt (SHMVA s)"
    and "(shm_step vm)\<^sup>*\<^sup>* (pts, (shminit rs, w)) (pts', (rs', w'))" and "s < MAX_SHM"
  shows "if shm_used (rs' ! s)
    then shm_page (rs' ! s) \<noteq> 0 \<and> ref_count (rs' ! s) = int (card {pt \<in> pts'. pte_valid vm w' pt (SHMVA s)})
    else \<forall>pt\<in>pts'. \<not> pte_valid vm w' pt (SHMVA s)"
proof -
  have "shm_inv vm pts' (rs', w')"
    using assms(5,1) shm_inv_init [OF assms(2,3,4)] by (rule shm_inv_reach)
  with assms(6) show ?thesis by (auto simp: shm_inv_slots slot_ok_def mappers_def)
qed

theorem shm_refcount_exact_witness:
  "shm_used (fst st1 ! 0) \<and> ref_count (fst st1 ! 0) = int (card {pt \<in> {1, 2}. pte_valid vm0 (snd st1) pt (SHMVA 0)})"
proof -
  have "(shm_step vm0)\<^sup>*\<^sup>* ({1, 2}, (shminit rs0, w0)) ({1, 2}, st1)"
    by (intro r_into_rtranclp shm_step.create [of vm0 5 _ 0]) (simp add: shminit_rs0 shm_create_rs0 st1_eq)
  then show ?thesis
    using shm_refcount_exact [OF vm_laws_vm0, of "{1, 2}" rs0 w0 "{1, 2}" "fst st1" "snd st1" 0]
    by (auto simp: w0_def pte_valid_vm0 st1_eq rs0_def)
qed



lemma shm_get_mapped:
  assumes vm: "vm_laws vm" and inv: "shm_inv vm pts (rs, w)" and pt: "pt \<in> pts"
    and get: "shm_get vm pt key (rs, w) = (va, (rs', w'))" and ok: "va \<noteq> 0"
  shows "\<exists>s<MAX_SHM. find_slot_by_key key rs = int s \<and> find_slot_by_key key rs' = int s \<and>
    va = SHMVA s \<and> pte_valid vm w' pt va \<and> shm_page (rs' ! s) = shm_page (rs ! s) \<and> shm_page (rs ! s) \<noteq> 0"
proof -
  define s where "s = nat (find_slot_by_key key rs)"
  have pos: "\<not> find_slot_by_key key rs < 0" "shm_page (rs ! s) \<noteq> 0"
    using get ok by (auto simp: shm_get_def Let_def s_def split: if_splits)
  then have s: "s < MAX_SHM" "shm_used (rs ! s)" "shm_key (rs ! s) = key" "find_slot_by_key key rs = int s"
    using find_slot_found [OF pos(1)] inv by (auto simp: s_def shm_inv_slots)
  have inv': "shm_inv vm pts (rs', w')" using vm inv pt get by (rule shm_inv_get)
  have eq: "va = SHMVA s \<and> pte_valid vm w' pt va \<and> length rs' = length rs \<and> shm_used (rs' ! s) \<and>
      shm_key (rs' ! s) = key \<and> shm_page (rs' ! s) = shm_page (rs ! s)"
  proof (cases "pte_valid vm w pt (SHMVA s)")
    case True
    with get pos s show ?thesis by (auto simp: shm_get_def Let_def)
  next
    case False
    obtain r w1 where mp: "mappages vm pt (SHMVA s) PGSIZE (shm_page (rs ! s)) (PTE_R OR PTE_W OR PTE_U) w = (r, w1)"
      by (metis surj_pair)
    with get pos s False ok have "\<not> r < 0" by (auto simp: shm_get_def)
    then show ?thesis
      using get pos s False mp inv pte_valid_mappages [OF vm mp, of pt "SHMVA s"]
      by (auto simp: shm_get_def shm_inv_slots same_page_def)
  qed
  then have "find_idx (\<lambda>r. shm_used r \<and> shm_key r = key) rs' = Some s"
    using unique_keys_find [of shm_used shm_key rs' s] inv' s by (simp add: shm_inv_slots)
  with eq s pos show ?thesis by (auto simp: find_slot_by_key_def)
qed

text \<open>
  Attaching is idempotent and shared: when \<^verbatim>\<open>shm_get\<close> succeeds in one process, the
  returned address is the slot's fixed window and is mapped there; a second \<^verbatim>\<open>shm_get\<close> by the same
  process returns the same address and changes nothing; and a \<^verbatim>\<open>shm_get\<close> by any other process either
  fails or returns the same address for the same page.
\<close>

theorem shm_get_shared:
  assumes vm: "vm_laws vm" and inv: "shm_inv vm pts (rs, w)" and pt: "pt \<in> pts" and pt': "pt' \<in> pts"
    and get: "shm_get vm pt key (rs, w) = (va, (rs', w'))" and ok: "va \<noteq> 0"
  shows "pte_valid vm w' pt va \<and> shm_get vm pt key (rs', w') = (va, (rs', w')) \<and>
    (\<exists>s<MAX_SHM. va = SHMVA s \<and>
      (\<forall>va2 rs2 w2. shm_get vm pt' key (rs', w') = (va2, (rs2, w2)) \<longrightarrow> va2 \<noteq> 0 \<longrightarrow>
         va2 = va \<and> shm_page (rs2 ! s) = shm_page (rs' ! s)))"
proof -
  obtain s where s: "s < MAX_SHM" "find_slot_by_key key rs' = int s" "va = SHMVA s" "pte_valid vm w' pt va"
      "shm_page (rs' ! s) \<noteq> 0"
    using shm_get_mapped [OF vm inv pt get ok] by auto
  have inv': "shm_inv vm pts (rs', w')" using vm inv pt get by (rule shm_inv_get)
  have "shm_get vm pt key (rs', w') = (va, (rs', w'))"
    using s by (simp add: shm_get_def)
  moreover have "va2 = va \<and> shm_page (rs2 ! s) = shm_page (rs' ! s)"
    if "shm_get vm pt' key (rs', w') = (va2, (rs2, w2))" "va2 \<noteq> 0" for va2 rs2 w2
    using shm_get_mapped [OF vm inv' pt' that] s by auto
  ultimately show ?thesis using s by blast
qed

theorem shm_get_shared_witness:
  "fst (shm_get vm0 1 5 st1) = SHMVA 0 \<and> pte_valid vm0 (snd (snd (shm_get vm0 1 5 st1))) 1 (SHMVA 0)"
proof -
  have va: "shm_get vm0 1 5 st1 = (SHMVA 0, (fst (snd (shm_get vm0 1 5 st1)), snd (snd (shm_get vm0 1 5 st1))))"
    by (simp add: st1_eq shm_get_def find_slot_st1 pte_valid_vm0 Let_def) (simp add: vm0_def rs0_def)
  then show ?thesis
    using shm_get_shared [OF vm_laws_vm0, of "{1, 2}" "fst st1" "snd st1" 1 2 5 "SHMVA 0"] shm_inv_st1
      SHMVA_nonzero [of 0]
    by (metis fst_conv insertCI prod.collapse zero_less_numeral)
qed

text \<open>
  Creating a region is not a reference to it. When the only process that has attached a
  region closes it, the region is destroyed: every later \<^verbatim>\<open>shm_get\<close> of the key fails, also for
  the process that created the region and has not attached it yet.
\<close>

lemma shm_close_last_destroys:
  assumes vm: "vm_laws vm" and inv: "shm_inv vm pts (rs, w)" and pt: "pt \<in> pts"
    and slot: "find_slot_by_key key rs = int s"
    and only: "{q \<in> pts. pte_valid vm w q (SHMVA s)} = {pt}"
    and close: "shm_close vm pt key (rs, w) = (r, (rs', w'))"
  shows "r = 0 \<and> find_slot_by_key key rs' < 0 \<and> \<not> shm_used (rs' ! s) \<and> fst (shm_get vm q key (rs', w')) = 0"
proof -
  have s: "s < MAX_SHM" "shm_used (rs ! s)" "shm_key (rs ! s) = key" "length rs = MAX_SHM"
    using find_slot_found [of key rs] slot inv by (auto simp: shm_inv_slots)
  have card: "ref_count (rs ! s) = 1" "shm_page (rs ! s) \<noteq> 0"
    using inv s only by (auto simp: shm_inv_slots slot_ok_def mappers_def)
  have map: "pte_valid vm w pt (SHMVA s)" using only by blast
  have rs': "rs' = rs[s := (rs ! s)\<lparr>ref_count := 0, shm_page := 0, shm_used := False\<rparr>]" and r: "r = 0"
    using close slot map card by (auto simp: shm_close_def shm_unmap_def Let_def)
  have "\<not> (shm_used (rs' ! i) \<and> shm_key (rs' ! i) = key)" if "i < length rs'" for i
    using that s unique_keysD [of shm_used shm_key rs i s] inv
    by (auto simp: rs' nth_list_update shm_inv_slots)
  then have "\<forall>x\<in>set rs'. \<not> (shm_used x \<and> shm_key x = key)" by (metis in_set_conv_nth)
  then have "find_slot_by_key key rs' < 0" by (simp add: find_slot_neg)
  then show ?thesis using r rs' s by (simp add: shm_get_def Let_def)
qed

end
