(* ===== verification/FsBlocks.thy ===== *)
theory FsBlocks
  imports Prelude
begin

unbundle bit_operations_syntax

text \<open>
  The block layer of \<^verbatim>\<open>kernel/fs.c\<close> and \<^verbatim>\<open>kernel/fs.h\<close> (Lab 5, Task 5.1): the superblock, the free
  bitmap, \<^verbatim>\<open>bzero\<close>, \<^verbatim>\<open>balloc\<close> and \<^verbatim>\<open>bfree\<close>. A disk block is a function from byte offsets to bytes. The
  buffer cache and the log (\<^verbatim>\<open>bio.c\<close>, \<^verbatim>\<open>log.c\<close>) are not part of the repository: they are the record
  \<open>bio\<close> of functions over an arbitrary disk state, \<^verbatim>\<open>bread\<close> for the contents a buffer has when it
  is read, \<^verbatim>\<open>log_write\<close> for a modified buffer that is written, and \<open>release_unlogged\<close> for a buffer that is
  released after a modification that was not logged; \<open>bio_laws\<close> states that a read returns what was last
  written to that block and that the last function concerns that block only. \<^verbatim>\<open>panic\<close> and a call that never returns are \<open>None\<close>.
\<close>

type_synonym bytes = "nat \<Rightarrow> u8"

abbreviation BSIZE :: nat where
  "BSIZE \<equiv> 1024"

abbreviation BPB :: nat where
  "BPB \<equiv> 8192"

definition FSMAGIC :: u32 where
  "FSMAGIC = 0x10203040"

record superblock =
  sb_magic :: u32
  sb_size :: u32
  sb_nblocks :: u32
  sb_ninodes :: u32
  sb_nlog :: u32
  sb_logstart :: u32
  sb_inodestart :: u32
  sb_bmapstart :: u32

record 'd bio =
  bread :: "u32 \<Rightarrow> u32 \<Rightarrow> 'd \<Rightarrow> bytes"
  log_write :: "u32 \<Rightarrow> u32 \<Rightarrow> bytes \<Rightarrow> 'd \<Rightarrow> 'd"
  release_unlogged :: "u32 \<Rightarrow> u32 \<Rightarrow> bytes \<Rightarrow> 'd \<Rightarrow> 'd"

subsection \<open>Little-endian integers in a block\<close>

definition rd16 :: "bytes \<Rightarrow> nat \<Rightarrow> u16" where
  "rd16 a i = ucast (a i) OR push_bit 8 (ucast (a (i + 1)))"

definition wr16 :: "bytes \<Rightarrow> nat \<Rightarrow> u16 \<Rightarrow> bytes" where
  "wr16 a i v = a(i := ucast v, i + 1 := ucast (drop_bit 8 v))"

definition rd32 :: "bytes \<Rightarrow> nat \<Rightarrow> u32" where
  "rd32 a i = ucast (a i) OR push_bit 8 (ucast (a (i + 1))) OR
     push_bit 16 (ucast (a (i + 2))) OR push_bit 24 (ucast (a (i + 3)))"

definition wr32 :: "bytes \<Rightarrow> nat \<Rightarrow> u32 \<Rightarrow> bytes" where
  "wr32 a i v = a(i := ucast v, i + 1 := ucast (drop_bit 8 v), i + 2 := ucast (drop_bit 16 v),
     i + 3 := ucast (drop_bit 24 v))"

subsection \<open>The block operations\<close>

definition readsb :: "'d bio \<Rightarrow> u32 \<Rightarrow> 'd \<Rightarrow> superblock" where
  "readsb B dev d =
     (let a = bread B dev 1 d in
      \<lparr>sb_magic = rd32 a 0, sb_size = rd32 a 4, sb_nblocks = rd32 a 8, sb_ninodes = rd32 a 12,
       sb_nlog = rd32 a 16, sb_logstart = rd32 a 20, sb_inodestart = rd32 a 24, sb_bmapstart = rd32 a 28\<rparr>)"

definition BBLOCK :: "nat \<Rightarrow> superblock \<Rightarrow> u32" where
  "BBLOCK b sb = of_nat (b div BPB) + sb_bmapstart sb"

definition bzero :: "'d bio \<Rightarrow> u32 \<Rightarrow> u32 \<Rightarrow> 'd \<Rightarrow> 'd" where
  "bzero B dev bno d =
     log_write B dev bno (\<lambda>i. if i < BSIZE then 0 else bread B dev bno d i) d"

definition bitmask :: "nat \<Rightarrow> u8" where
  "bitmask bi = push_bit (bi mod 8) 1"

definition bit_free :: "bytes \<Rightarrow> nat \<Rightarrow> bool" where
  "bit_free a bi \<longleftrightarrow> a (bi div 8) AND bitmask bi = 0"

fun balloc_loop :: "'d bio \<Rightarrow> superblock \<Rightarrow> u32 \<Rightarrow> nat list \<Rightarrow> 'd \<Rightarrow> u32 \<times> 'd" where
  "balloc_loop B sb dev [] d = (0, d)"
| "balloc_loop B sb dev (b # bs) d =
     (let a = bread B dev (BBLOCK b sb) d in
      case find (bit_free a) [0..<min BPB (unat (sb_size sb) - b)] of
        None \<Rightarrow> balloc_loop B sb dev bs d
      | Some bi \<Rightarrow>
          let a' = a(bi div 8 := a (bi div 8) OR bitmask bi);
              d1 = log_write B dev (BBLOCK b sb) a' d;
              d2 = bzero B dev (of_nat (b + bi)) d1
          in (of_nat (b + bi), d2))"

definition balloc :: "'d bio \<Rightarrow> superblock \<Rightarrow> u32 \<Rightarrow> 'd \<Rightarrow> u32 \<times> 'd" where
  "balloc B sb dev d =
     balloc_loop B sb dev (map (\<lambda>k. k * BPB) [0..<(unat (sb_size sb) + BPB - 1) div BPB]) d"

definition bfree :: "'d bio \<Rightarrow> superblock \<Rightarrow> u32 \<Rightarrow> u32 \<Rightarrow> 'd \<Rightarrow> 'd option" where
  "bfree B sb dev b d =
     (let a = bread B dev (BBLOCK (unat b) sb) d;
          bi = unat b mod BPB
      in if bit_free a bi then None
         else Some (log_write B dev (BBLOCK (unat b) sb)
                (a(bi div 8 := a (bi div 8) AND NOT (bitmask bi))) d))"

subsection \<open>Specification vocabulary\<close>

definition bio_laws :: "'d bio \<Rightarrow> bool" where
  "bio_laws B \<longleftrightarrow>
     (\<forall>dev b a d dev' b'. bread B dev' b' (log_write B dev b a d) =
        (if dev' = dev \<and> b' = b then a else bread B dev' b' d)) \<and>
     (\<forall>dev b a d dev' b'. \<not> (dev' = dev \<and> b' = b) \<longrightarrow> bread B dev' b' (release_unlogged B dev b a d) = bread B dev' b' d)"

text \<open>Block \<open>n\<close> is marked in use in the bitmap.\<close>

definition bused :: "'d bio \<Rightarrow> superblock \<Rightarrow> u32 \<Rightarrow> 'd \<Rightarrow> nat \<Rightarrow> bool" where
  "bused B sb dev d n \<longleftrightarrow> \<not> bit_free (bread B dev (BBLOCK n sb) d) (n mod BPB)"

text \<open>The first data block: the layout comment of \<^verbatim>\<open>fs.h\<close> puts the data blocks after the bitmap.\<close>

definition datastart :: "superblock \<Rightarrow> nat" where
  "datastart sb = unat (sb_bmapstart sb) + unat (sb_size sb) div BPB + 1"

text \<open>
  The layout \<^verbatim>\<open>[ boot block | super block | log | inode blocks | free bit map | data blocks ]\<close> fits the
  disk, and the size is one that \<^verbatim>\<open>balloc\<close>'s \<^verbatim>\<open>int\<close> loop variable can count to.
\<close>

definition sb_ok :: "superblock \<Rightarrow> bool" where
  "sb_ok sb \<longleftrightarrow> 2 \<le> unat (sb_inodestart sb) \<and>
     unat (sb_inodestart sb) + unat (sb_ninodes sb) div 16 < unat (sb_bmapstart sb) \<and>
     datastart sb \<le> unat (sb_size sb) \<and> unat (sb_size sb) < 2 ^ 31 - BPB"

definition meta_used :: "'d bio \<Rightarrow> superblock \<Rightarrow> u32 \<Rightarrow> 'd \<Rightarrow> bool" where
  "meta_used B sb dev d \<longleftrightarrow> (\<forall>n<datastart sb. bused B sb dev d n)"

definition is_bmap :: "superblock \<Rightarrow> u32 \<Rightarrow> bool" where
  "is_bmap sb b \<longleftrightarrow> (\<exists>n<unat (sb_size sb). b = BBLOCK n sb)"

subsection \<open>Round trips of the integer encodings\<close>

lemma bit_rd16: "bit (rd16 a i) n = (if n < 8 then bit (a i) n else n < 16 \<and> bit (a (i + 1)) (n - 8))"
  by (auto simp: rd16_def bit_or_iff bit_push_bit_iff bit_ucast_iff dest: bit_imp_le_length)

lemma bit_rd32:
  "bit (rd32 a i) n =
     (if n < 8 then bit (a i) n else if n < 16 then bit (a (i + 1)) (n - 8)
      else if n < 24 then bit (a (i + 2)) (n - 16) else n < 32 \<and> bit (a (i + 3)) (n - 24))"
  by (auto simp: rd32_def bit_or_iff bit_push_bit_iff bit_ucast_iff dest: bit_imp_le_length)

lemma rd16_wr16_same [simp]: "rd16 (wr16 a i v) i = v"
  by (rule bit_word_eqI) (auto simp: bit_rd16 wr16_def bit_ucast_iff bit_drop_bit_eq dest: bit_imp_le_length)

lemma rd32_wr32_same [simp]: "rd32 (wr32 a i v) i = v"
  by (rule bit_word_eqI) (auto simp: bit_rd32 wr32_def bit_ucast_iff bit_drop_bit_eq dest: bit_imp_le_length)

lemma wr16_other: "j \<noteq> i \<Longrightarrow> j \<noteq> i + 1 \<Longrightarrow> wr16 a i v j = a j"
  by (simp add: wr16_def)

lemma wr32_other: "j < i \<or> i + 4 \<le> j \<Longrightarrow> wr32 a i v j = a j"
  by (auto simp: wr32_def)

lemma rd32_wr32_other: "j + 4 \<le> i \<or> i + 4 \<le> j \<Longrightarrow> rd32 (wr32 a i v) j = rd32 a j"
  by (auto simp: rd32_def wr32_other)

lemma rd32_wr16_other: "j + 4 \<le> i \<or> i + 2 \<le> j \<Longrightarrow> rd32 (wr16 a i v) j = rd32 a j"
  by (auto simp: rd32_def wr16_other)

lemma rd16_wr32_other: "j + 2 \<le> i \<or> i + 4 \<le> j \<Longrightarrow> rd16 (wr32 a i v) j = rd16 a j"
  by (auto simp: rd16_def wr32_other)

lemma rd16_wr16_other: "j + 2 \<le> i \<or> i + 2 \<le> j \<Longrightarrow> rd16 (wr16 a i v) j = rd16 a j"
  by (auto simp: rd16_def wr16_other)

lemma rd32_zero:
  assumes "\<And>k. k < 4 \<Longrightarrow> a (i + k) = 0"
  shows "rd32 a i = 0"
  using assms [of 0] assms [of 1] assms [of 2] assms [of 3] by (simp add: rd32_def)

lemmas rdwr = rd32_wr32_other rd32_wr16_other rd16_wr32_other rd16_wr16_other

subsection \<open>Bitmap bits\<close>

lemma bit_bitmask: "bit (bitmask bi) n \<longleftrightarrow> n = bi mod 8"
  by (auto simp: bitmask_def bit_exp_iff possible_bit_word)

lemma bit_free_iff: "bit_free a bi \<longleftrightarrow> \<not> bit (a (bi div 8)) (bi mod 8)"
proof
  assume "bit_free a bi"
  then have "\<not> bit (a (bi div 8) AND bitmask bi) (bi mod 8)"
    by (simp add: bit_free_def)
  then show "\<not> bit (a (bi div 8)) (bi mod 8)"
    by (simp add: bit_and_iff bit_bitmask)
next
  assume "\<not> bit (a (bi div 8)) (bi mod 8)"
  then show "bit_free a bi"
    unfolding bit_free_def by (intro bit_word_eqI) (auto simp: bit_and_iff bit_bitmask)
qed

lemma bit_pos_eq: "(n :: nat) div 8 = m div 8 \<Longrightarrow> n mod 8 = m mod 8 \<Longrightarrow> n = m"
  by (metis div_mult_mod_eq)

lemma bit_free_set:
  "bit_free (a(bi div 8 := a (bi div 8) OR bitmask bi)) bj \<longleftrightarrow> bj \<noteq> bi \<and> bit_free a bj"
  using bit_pos_eq [of bj bi] by (auto simp: bit_free_iff bit_or_iff bit_bitmask)

lemma bit_free_clear:
  "bit_free (a(bi div 8 := a (bi div 8) AND NOT (bitmask bi))) bj \<longleftrightarrow> bj = bi \<or> bit_free a bj"
  using bit_pos_eq [of bj bi]
  by (auto simp: bit_free_iff bit_and_iff bit_not_iff bit_bitmask dest: bit_imp_le_length)

subsection \<open>Bitmap blocks\<close>

lemma sb_okD:
  assumes "sb_ok sb"
  shows "2 \<le> unat (sb_inodestart sb)"
    and "unat (sb_inodestart sb) + unat (sb_ninodes sb) div 16 < unat (sb_bmapstart sb)"
    and "datastart sb \<le> unat (sb_size sb)" and "unat (sb_size sb) < 2147475456"
  using assms by (auto simp: sb_ok_def)

lemma unat_BBLOCK:
  assumes "sb_ok sb" and "n < unat (sb_size sb)"
  shows "unat (BBLOCK n sb) = n div BPB + unat (sb_bmapstart sb)"
proof -
  have "n div BPB + unat (sb_bmapstart sb) < 2 ^ 32"
    using assms div_le_dividend [of n BPB] by (auto simp: sb_ok_def datastart_def)
  then show ?thesis
    unfolding BBLOCK_def unat_word_ariths by (simp add: unat_of_nat)
qed

lemma bmap_below_data:
  assumes "sb_ok sb" and "is_bmap sb b"
  shows "unat b < datastart sb"
proof -
  obtain n where n: "n < unat (sb_size sb)" "b = BBLOCK n sb" using assms(2) by (auto simp: is_bmap_def)
  have "n div BPB \<le> unat (sb_size sb) div BPB" using n(1) by (intro div_le_mono) simp
  then show ?thesis using n unat_BBLOCK [OF assms(1) n(1)] by (simp add: datastart_def)
qed

lemma BBLOCK_is_bmap: "n < unat (sb_size sb) \<Longrightarrow> is_bmap sb (BBLOCK n sb)"
  by (auto simp: is_bmap_def)

lemma BBLOCK_eq_iff:
  assumes "sb_ok sb" and "n < unat (sb_size sb)" and "m < unat (sb_size sb)"
  shows "BBLOCK n sb = BBLOCK m sb \<longleftrightarrow> n div BPB = m div BPB"
proof -
  have "BBLOCK n sb = BBLOCK m sb \<longleftrightarrow> unat (BBLOCK n sb) = unat (BBLOCK m sb)"
    by (rule word_unat_eq_iff)
  then show ?thesis by (simp add: unat_BBLOCK assms)
qed

lemma div_mod_eqI: "(n :: nat) div k = m div k \<Longrightarrow> n mod k = m mod k \<Longrightarrow> n = m"
  by (metis div_mult_mod_eq)

lemma bio_lawsD: "bio_laws B \<Longrightarrow>
  bread B dev' b' (log_write B dev b a d) = (if dev' = dev \<and> b' = b then a else bread B dev' b' d)"
  by (simp add: bio_laws_def)

lemma bio_unloggedD: "bio_laws B \<Longrightarrow> \<not> (dev' = dev \<and> b' = b) \<Longrightarrow> bread B dev' b' (release_unlogged B dev b a d) = bread B dev' b' d"
  by (simp add: bio_laws_def)

text \<open>What \<^verbatim>\<open>balloc\<close> does with the free block \<open>n\<close> it found: mark it in the bitmap, then zero it.\<close>

definition bmark :: "'d bio \<Rightarrow> superblock \<Rightarrow> u32 \<Rightarrow> nat \<Rightarrow> 'd \<Rightarrow> 'd" where
  "bmark B sb dev n d =
     (let a = bread B dev (BBLOCK n sb) d in
      bzero B dev (of_nat n) (log_write B dev (BBLOCK n sb)
        (a(n mod BPB div 8 := a (n mod BPB div 8) OR bitmask (n mod BPB))) d))"

lemma BBLOCK_add: "b mod BPB = 0 \<Longrightarrow> bi < BPB \<Longrightarrow> BBLOCK (b + bi) sb = BBLOCK b sb"
  by (auto simp: BBLOCK_def)

lemma mod_add_BPB: "b mod BPB = 0 \<Longrightarrow> bi < BPB \<Longrightarrow> (b + bi) mod BPB = bi"
  by (metis add_0 mod_add_left_eq mod_less)

lemma balloc_loop_cases:
  assumes "\<forall>b\<in>set bs. b mod BPB = 0"
  shows "balloc_loop B sb dev bs d = (0, d) \<and>
       (\<forall>b\<in>set bs. \<forall>bi<min BPB (unat (sb_size sb) - b). bused B sb dev d (b + bi)) \<or>
     (\<exists>n<unat (sb_size sb). \<not> bused B sb dev d n \<and> balloc_loop B sb dev bs d = (of_nat n, bmark B sb dev n d))"
  using assms
proof (induction bs)
  case Nil
  then show ?case by simp
next
  case (Cons b bs)
  let ?a = "bread B dev (BBLOCK b sb) d" and ?r = "[0..<min BPB (unat (sb_size sb) - b)]"
  have b: "b mod BPB = 0" using Cons.prems by simp
  have bu: "bused B sb dev d (b + bi) \<longleftrightarrow> \<not> bit_free ?a bi" if "bi < BPB" for bi
    using b that by (simp add: bused_def BBLOCK_add mod_add_BPB)
  show ?case
  proof (cases "find (bit_free ?a) ?r")
    case None
    then have "\<forall>bi<min BPB (unat (sb_size sb) - b). bused B sb dev d (b + bi)"
      by (auto simp: find_None_iff bu)
    moreover have "balloc_loop B sb dev (b # bs) d = balloc_loop B sb dev bs d"
      using None by (simp add: Let_def)
    ultimately show ?thesis using Cons.IH Cons.prems by auto
  next
    case (Some bi)
    then have bi: "bi < min BPB (unat (sb_size sb) - b)" "bit_free ?a bi"
      by (auto simp: find_Some_iff)
    then have "balloc_loop B sb dev (b # bs) d = (of_nat (b + bi), bmark B sb dev (b + bi) d)"
      using Some b by (simp add: Let_def bmark_def BBLOCK_add mod_add_BPB)
    moreover have "b + bi < unat (sb_size sb)" "\<not> bused B sb dev d (b + bi)"
      using bi bu by auto
    ultimately show ?thesis by blast
  qed
qed

lemma balloc_cases:
  obtains (full) "balloc B sb dev d = (0, d)" "\<forall>n<unat (sb_size sb). bused B sb dev d n"
  | (found) n where "n < unat (sb_size sb)" "\<not> bused B sb dev d n" "balloc B sb dev d = (of_nat n, bmark B sb dev n d)"
proof -
  let ?bs = "map (\<lambda>k. k * BPB) [0..<(unat (sb_size sb) + BPB - 1) div BPB]"
  have "bused B sb dev d n"
    if *: "\<forall>b\<in>set ?bs. \<forall>bi<min BPB (unat (sb_size sb) - b). bused B sb dev d (b + bi)"
      and n: "n < unat (sb_size sb)" for n
  proof -
    have "n div BPB * BPB \<in> set ?bs" using n by auto
    moreover have "n mod BPB < min BPB (unat (sb_size sb) - n div BPB * BPB)"
      using n by (simp add: less_diff_conv mod_div_mult_eq)
    ultimately have "bused B sb dev d (n div BPB * BPB + n mod BPB)" using * by blast
    then show ?thesis by simp
  qed
  then show ?thesis
    using balloc_loop_cases [of ?bs B sb dev d] that unfolding balloc_def by fastforce
qed

lemma unat_of_nat_size: "n < unat (sb_size sb) \<Longrightarrow> unat (of_nat n :: u32) = n"
  by (metis le_unat_uoi less_imp_le)

lemma data_not_bmap:
  assumes "sb_ok sb" and "datastart sb \<le> unat b"
  shows "\<not> is_bmap sb b"
  using bmap_below_data [OF assms(1), of b] assms(2) by auto

lemma bread_bmark:
  assumes "bio_laws B" and "sb_ok sb" and "n < unat (sb_size sb)" and "datastart sb \<le> n"
  shows "bread B dev' b' (bmark B sb dev n d) =
     (if dev' = dev \<and> b' = of_nat n then (\<lambda>i. if i < BSIZE then 0 else bread B dev (of_nat n) d i)
      else if dev' = dev \<and> b' = BBLOCK n sb then
        (let a = bread B dev (BBLOCK n sb) d in a(n mod BPB div 8 := a (n mod BPB div 8) OR bitmask (n mod BPB)))
      else bread B dev' b' d)"
proof -
  have "\<not> is_bmap sb (of_nat n)"
    using data_not_bmap [OF assms(2)] assms(3,4) by (simp add: unat_of_nat_size)
  then have "of_nat n \<noteq> BBLOCK n sb" using BBLOCK_is_bmap [OF assms(3)] by metis
  then show ?thesis
    unfolding bmark_def bzero_def Let_def by (auto simp: bio_lawsD [OF assms(1)] fun_eq_iff)
qed

lemma bused_bmark:
  assumes "bio_laws B" and "sb_ok sb" and "n < unat (sb_size sb)" and "datastart sb \<le> n"
    and "m < unat (sb_size sb)"
  shows "bused B sb dev (bmark B sb dev n d) m \<longleftrightarrow> m = n \<or> bused B sb dev d m"
proof -
  have ne: "BBLOCK m sb \<noteq> of_nat n"
    using data_not_bmap [OF assms(2), of "of_nat n"] BBLOCK_is_bmap [OF assms(5)] assms(3,4)
    by (metis unat_of_nat_size)
  show ?thesis
  proof (cases "m div BPB = n div BPB")
    case True
    then have "BBLOCK m sb = BBLOCK n sb" using assms by (simp add: BBLOCK_eq_iff)
    then show ?thesis
      using ne True div_mod_eqI [of m BPB n]
      by (auto simp: bused_def bread_bmark [OF assms(1-4)] Let_def bit_free_set)
  next
    case False
    then have "BBLOCK m sb \<noteq> BBLOCK n sb" using assms by (simp add: BBLOCK_eq_iff)
    then show ?thesis using ne False by (auto simp: bused_def bread_bmark [OF assms(1-4)])
  qed
qed

lemma meta_usedD: "meta_used B sb dev d \<Longrightarrow> \<not> bused B sb dev d n \<Longrightarrow> datastart sb \<le> n"
  unfolding meta_used_def by (meson not_le_imp_less)

text \<open>
  The contract of \<^verbatim>\<open>balloc\<close>: it fails only when no block is free and then changes nothing; otherwise
  the block it returns was free, lies in the data area, is marked and zeroed, and no other bit and no
  other block outside the bitmap changes.
\<close>

lemma balloc_spec:
  assumes B: "bio_laws B" and sb: "sb_ok sb" and mu: "meta_used B sb dev d"
    and r: "balloc B sb dev d = (addr, d')"
  shows "addr = 0 \<Longrightarrow> d' = d"
    and "addr = 0 \<Longrightarrow> n < unat (sb_size sb) \<Longrightarrow> bused B sb dev d n"
    and "addr \<noteq> 0 \<Longrightarrow> datastart sb \<le> unat addr \<and> unat addr < unat (sb_size sb) \<and> \<not> bused B sb dev d (unat addr)"
    and "addr \<noteq> 0 \<Longrightarrow> i < BSIZE \<Longrightarrow> bread B dev addr d' i = 0"
    and "m < unat (sb_size sb) \<Longrightarrow>
      bused B sb dev d' m \<longleftrightarrow> addr \<noteq> 0 \<and> m = unat addr \<or> bused B sb dev d m"
    and "\<not> (dev' = dev \<and> is_bmap sb b) \<Longrightarrow> \<not> (dev' = dev \<and> b = addr \<and> addr \<noteq> 0) \<Longrightarrow>
      bread B dev' b d' = bread B dev' b d"
    and "meta_used B sb dev d'"
proof -
  have all: "(addr = 0 \<longrightarrow> d' = d \<and> (\<forall>n<unat (sb_size sb). bused B sb dev d n)) \<and>
    (addr \<noteq> 0 \<longrightarrow> datastart sb \<le> unat addr \<and> unat addr < unat (sb_size sb) \<and> \<not> bused B sb dev d (unat addr) \<and>
       d' = bmark B sb dev (unat addr) d)"
  proof (cases rule: balloc_cases [of B sb dev d])
    case full
    then show ?thesis using r by simp
  next
    case (found n)
    have n: "datastart sb \<le> n" using meta_usedD [OF mu found(2)] .
    moreover have "unat addr = n" using r found unat_of_nat_size [OF found(1)] by auto
    moreover have "0 < n" using n by (simp add: datastart_def)
    ultimately show ?thesis using r found by (auto simp: unat_eq_0)
  qed
  show "addr = 0 \<Longrightarrow> d' = d" and "addr = 0 \<Longrightarrow> n < unat (sb_size sb) \<Longrightarrow> bused B sb dev d n"
    and "addr \<noteq> 0 \<Longrightarrow> datastart sb \<le> unat addr \<and> unat addr < unat (sb_size sb) \<and> \<not> bused B sb dev d (unat addr)"
    using all by blast+
  show "addr \<noteq> 0 \<Longrightarrow> i < BSIZE \<Longrightarrow> bread B dev addr d' i = 0"
    using all by (auto simp: bread_bmark [OF B sb])
  show bu: "bused B sb dev d' m \<longleftrightarrow> addr \<noteq> 0 \<and> m = unat addr \<or> bused B sb dev d m" if "m < unat (sb_size sb)" for m
    using all that by (cases "addr = 0") (auto simp: bused_bmark [OF B sb])
  show "\<not> (dev' = dev \<and> is_bmap sb b) \<Longrightarrow> \<not> (dev' = dev \<and> b = addr \<and> addr \<noteq> 0) \<Longrightarrow>
      bread B dev' b d' = bread B dev' b d"
    using all by (cases "addr = 0") (auto simp: bread_bmark [OF B sb] BBLOCK_is_bmap)
  show "meta_used B sb dev d'"
    using mu bu sb_okD(3) [OF sb] unfolding meta_used_def by (meson order_less_le_trans)
qed

text \<open>
  The contract of \<^verbatim>\<open>bfree\<close>: it panics exactly on a block that is already free, and otherwise clears
  that block's bit and nothing else.
\<close>

lemma bfree_None_iff: "bfree B sb dev b d = None \<longleftrightarrow> \<not> bused B sb dev d (unat b)"
  by (simp add: bfree_def bused_def Let_def)

lemma bfree_spec:
  assumes B: "bio_laws B" and sb: "sb_ok sb" and b: "unat b < unat (sb_size sb)"
    and r: "bfree B sb dev b d = Some d'"
  shows "m < unat (sb_size sb) \<Longrightarrow> bused B sb dev d' m \<longleftrightarrow> m \<noteq> unat b \<and> bused B sb dev d m"
    and "\<not> (dev' = dev \<and> is_bmap sb c) \<Longrightarrow> bread B dev' c d' = bread B dev' c d"
proof -
  let ?a = "bread B dev (BBLOCK (unat b) sb) d"
  have d': "d' = log_write B dev (BBLOCK (unat b) sb)
      (?a(unat b mod BPB div 8 := ?a (unat b mod BPB div 8) AND NOT (bitmask (unat b mod BPB)))) d"
    using r by (auto simp: bfree_def Let_def split: if_splits)
  show "bused B sb dev d' m \<longleftrightarrow> m \<noteq> unat b \<and> bused B sb dev d m" if m: "m < unat (sb_size sb)"
    using BBLOCK_eq_iff [OF sb m b] div_mod_eqI [of m BPB "unat b"]
    by (auto simp: d' bused_def bio_lawsD [OF B] bit_free_clear)
  show "\<not> (dev' = dev \<and> is_bmap sb c) \<Longrightarrow> bread B dev' c d' = bread B dev' c d"
    using BBLOCK_is_bmap [OF b] by (auto simp: d' bio_lawsD [OF B])
qed

end
