(* ===== verification/FsInode.thy ===== *)
theory FsInode
  imports FsBlocks
begin

unbundle bit_operations_syntax

text \<open>
  Inode content of \<^verbatim>\<open>kernel/fs.c\<close> (Lab 5, Task 5.1): the in-memory inode of \<^verbatim>\<open>kernel/file.h\<close>, its image
  on disk (\<^verbatim>\<open>struct dinode\<close>), \<^verbatim>\<open>iupdate\<close>, the block map with 11 direct, one singly and one doubly indirect
  address (\<^verbatim>\<open>bmap\<close>), \<^verbatim>\<open>itrunc\<close> and \<^verbatim>\<open>stati\<close>. The lemmas describe the block map through the addresses stored
  at its positions: \<^verbatim>\<open>bmap\<close> sets one position and keeps all others, and \<^verbatim>\<open>itrunc\<close> frees exactly the
  addresses the positions hold.
\<close>

definition NDIRECT :: nat where
  "NDIRECT = 11"

definition NINDIRECT :: nat where
  "NINDIRECT = BSIZE div 4"

definition NDOUBLY_INDIRECT :: nat where
  "NDOUBLY_INDIRECT = NINDIRECT * NINDIRECT"

definition MAXFILE :: nat where
  "MAXFILE = NDIRECT + NINDIRECT + NDOUBLY_INDIRECT"

definition IPB :: nat where
  "IPB = BSIZE div 64"

record inode =
  i_dev :: u32
  i_inum :: u32
  i_ref :: int
  i_locked :: bool
  i_valid :: bool
  i_type :: u16
  i_major :: u16
  i_minor :: u16
  i_nlink :: u16
  i_size :: u32
  i_addrs :: "u32 list"

record dinode =
  d_type :: u16
  d_major :: u16
  d_minor :: u16
  d_nlink :: u16
  d_size :: u32
  d_addrs :: "u32 list"

definition IBLOCK :: "nat \<Rightarrow> superblock \<Rightarrow> u32" where
  "IBLOCK i sb = of_nat (i div IPB) + sb_inodestart sb"

text \<open>The \<^verbatim>\<open>struct dinode\<close> at byte offset \<open>o\<close>: four 16-bit fields, the size, and the addresses.\<close>

definition rd_dinode :: "bytes \<Rightarrow> nat \<Rightarrow> dinode" where
  "rd_dinode a p =
     \<lparr>d_type = rd16 a p, d_major = rd16 a (p + 2), d_minor = rd16 a (p + 4), d_nlink = rd16 a (p + 6),
      d_size = rd32 a (p + 8), d_addrs = map (\<lambda>k. rd32 a (p + 12 + 4 * k)) [0..<NDIRECT + 2]\<rparr>"

fun wr_addrs :: "bytes \<Rightarrow> nat \<Rightarrow> u32 list \<Rightarrow> bytes" where
  "wr_addrs a p [] = a"
| "wr_addrs a p (v # vs) = wr_addrs (wr32 a p v) (p + 4) vs"

definition wr_dinode :: "bytes \<Rightarrow> nat \<Rightarrow> dinode \<Rightarrow> bytes" where
  "wr_dinode a p di =
     wr_addrs (wr32 (wr16 (wr16 (wr16 (wr16 a p (d_type di)) (p + 2) (d_major di)) (p + 4) (d_minor di))
       (p + 6) (d_nlink di)) (p + 8) (d_size di)) (p + 12) (d_addrs di)"

definition dinode_of :: "inode \<Rightarrow> dinode" where
  "dinode_of ip = \<lparr>d_type = i_type ip, d_major = i_major ip, d_minor = i_minor ip, d_nlink = i_nlink ip,
     d_size = i_size ip, d_addrs = i_addrs ip\<rparr>"

definition iupdate :: "'d bio \<Rightarrow> superblock \<Rightarrow> inode \<Rightarrow> 'd \<Rightarrow> 'd" where
  "iupdate B sb ip d =
     (let a = bread B (i_dev ip) (IBLOCK (unat (i_inum ip)) sb) d in
      log_write B (i_dev ip) (IBLOCK (unat (i_inum ip)) sb)
        (wr_dinode a (64 * (unat (i_inum ip) mod IPB)) (dinode_of ip)) d)"

subsection \<open>The block map\<close>

text \<open>
  \<^verbatim>\<open>if ((addr = ip->addrs[k]) == 0) { addr = balloc(ip->dev); if (addr == 0) return 0; ip->addrs[k] = addr; }\<close>
\<close>

definition bmap_addr :: "'d bio \<Rightarrow> superblock \<Rightarrow> inode \<Rightarrow> nat \<Rightarrow> 'd \<Rightarrow> u32 \<times> inode \<times> 'd" where
  "bmap_addr B sb ip k d =
     (let addr = i_addrs ip ! k in
      if addr = 0 then
        (let (addr1, d1) = balloc B sb (i_dev ip) d in
         if addr1 = 0 then (0, ip, d1)
         else (addr1, ip\<lparr>i_addrs := (i_addrs ip)[k := addr1]\<rparr>, d1))
      else (addr, ip, d))"

text \<open>
  \<^verbatim>\<open>bp = bread(ip->dev, t); a = (uint*)bp->data; if ((addr = a[j]) == 0) { addr = balloc(ip->dev);
  if (addr) { a[j] = addr; log_write(bp); } } brelse(bp);\<close>
\<close>

definition bmap_entry :: "'d bio \<Rightarrow> superblock \<Rightarrow> u32 \<Rightarrow> u32 \<Rightarrow> nat \<Rightarrow> 'd \<Rightarrow> u32 \<times> 'd" where
  "bmap_entry B sb dev t j d =
     (let a = bread B dev t d; addr = rd32 a (4 * j) in
      if addr = 0 then
        (let (addr1, d1) = balloc B sb dev d in
         if addr1 = 0 then (0, d1)
         else (addr1, log_write B dev t (wr32 a (4 * j) addr1) d1))
      else (addr, d))"

definition bmap :: "'d bio \<Rightarrow> superblock \<Rightarrow> inode \<Rightarrow> nat \<Rightarrow> 'd \<Rightarrow> (u32 \<times> inode \<times> 'd) option" where
  "bmap B sb ip bn d =
     (if bn < NDIRECT then Some (bmap_addr B sb ip bn d)
      else let bn1 = bn - NDIRECT in
      if bn1 < NINDIRECT then
        (let (t, ip1, d1) = bmap_addr B sb ip NDIRECT d in
         if t = 0 then Some (0, ip1, d1)
         else let (addr, d2) = bmap_entry B sb (i_dev ip1) t bn1 d1 in Some (addr, ip1, d2))
      else let bn2 = bn1 - NINDIRECT in
      if bn2 < NDOUBLY_INDIRECT then
        (let (t, ip1, d1) = bmap_addr B sb ip (NDIRECT + 1) d in
         if t = 0 then Some (0, ip1, d1)
         else let (t2, d2) = bmap_entry B sb (i_dev ip1) t (bn2 div NINDIRECT) d1 in
         if t2 = 0 then Some (0, ip1, d2)
         else let (addr, d3) = bmap_entry B sb (i_dev ip1) t2 (bn2 mod NINDIRECT) d2 in Some (addr, ip1, d3))
      else None)"

subsection \<open>Truncation\<close>

text \<open>\<^verbatim>\<open>for (j = 0; j < NINDIRECT; j++) if (a[j]) bfree(ip->dev, a[j]);\<close>\<close>

fun free_addrs :: "'d bio \<Rightarrow> superblock \<Rightarrow> u32 \<Rightarrow> u32 list \<Rightarrow> 'd \<Rightarrow> 'd option" where
  "free_addrs B sb dev [] d = Some d"
| "free_addrs B sb dev (x # xs) d =
     do { d1 \<leftarrow> (if x \<noteq> 0 then bfree B sb dev x d else Some d); free_addrs B sb dev xs d1 }"

definition table :: "'d bio \<Rightarrow> u32 \<Rightarrow> u32 \<Rightarrow> 'd \<Rightarrow> u32 list" where
  "table B dev t d = map (\<lambda>j. rd32 (bread B dev t d) (4 * j)) [0..<NINDIRECT]"

fun itrunc_direct :: "'d bio \<Rightarrow> superblock \<Rightarrow> nat list \<Rightarrow> inode \<Rightarrow> 'd \<Rightarrow> (inode \<times> 'd) option" where
  "itrunc_direct B sb [] ip d = Some (ip, d)"
| "itrunc_direct B sb (i # is) ip d =
     (if i_addrs ip ! i \<noteq> 0 then
        do { d1 \<leftarrow> bfree B sb (i_dev ip) (i_addrs ip ! i) d;
             itrunc_direct B sb is (ip\<lparr>i_addrs := (i_addrs ip)[i := 0]\<rparr>) d1 }
      else itrunc_direct B sb is ip d)"

definition itrunc_indirect :: "'d bio \<Rightarrow> superblock \<Rightarrow> inode \<Rightarrow> 'd \<Rightarrow> (inode \<times> 'd) option" where
  "itrunc_indirect B sb ip d =
     (let t = i_addrs ip ! NDIRECT in
      if t \<noteq> 0 then
        do { d1 \<leftarrow> free_addrs B sb (i_dev ip) (table B (i_dev ip) t d) d;
             d2 \<leftarrow> bfree B sb (i_dev ip) t d1;
             Some (ip\<lparr>i_addrs := (i_addrs ip)[NDIRECT := 0]\<rparr>, d2) }
      else Some (ip, d))"

fun free_tables :: "'d bio \<Rightarrow> superblock \<Rightarrow> u32 \<Rightarrow> u32 list \<Rightarrow> 'd \<Rightarrow> 'd option" where
  "free_tables B sb dev [] d = Some d"
| "free_tables B sb dev (t # ts) d =
     (if t \<noteq> 0 then
        do { d1 \<leftarrow> free_addrs B sb dev (table B dev t d) d;
             d2 \<leftarrow> bfree B sb dev t d1;
             free_tables B sb dev ts d2 }
      else free_tables B sb dev ts d)"

definition itrunc_double :: "'d bio \<Rightarrow> superblock \<Rightarrow> inode \<Rightarrow> 'd \<Rightarrow> (inode \<times> 'd) option" where
  "itrunc_double B sb ip d =
     (let t = i_addrs ip ! (NDIRECT + 1) in
      if t \<noteq> 0 then
        do { d1 \<leftarrow> free_tables B sb (i_dev ip) (table B (i_dev ip) t d) d;
             d2 \<leftarrow> bfree B sb (i_dev ip) t d1;
             Some (ip\<lparr>i_addrs := (i_addrs ip)[NDIRECT + 1 := 0]\<rparr>, d2) }
      else Some (ip, d))"

definition itrunc :: "'d bio \<Rightarrow> superblock \<Rightarrow> inode \<Rightarrow> 'd \<Rightarrow> (inode \<times> 'd) option" where
  "itrunc B sb ip d =
     do { (ip1, d1) \<leftarrow> itrunc_direct B sb [0..<NDIRECT] ip d;
          (ip2, d2) \<leftarrow> itrunc_indirect B sb ip1 d1;
          (ip3, d3) \<leftarrow> itrunc_double B sb ip2 d2;
          let ip4 = ip3\<lparr>i_size := 0\<rparr> in Some (ip4, iupdate B sb ip4 d3) }"

record stat =
  st_dev :: u32
  st_ino :: u32
  st_type :: u16
  st_nlink :: u16
  st_size :: u64

definition stati :: "inode \<Rightarrow> stat" where
  "stati ip = \<lparr>st_dev = i_dev ip, st_ino = i_inum ip, st_type = i_type ip, st_nlink = i_nlink ip,
     st_size = ucast (i_size ip)\<rparr>"

subsection \<open>The on-disk inode\<close>

lemma wr_addrs_other: "j < p \<or> p + 4 * length vs \<le> j \<Longrightarrow> wr_addrs a p vs j = a j"
  by (induction vs arbitrary: a p) (auto simp: wr32_other)

lemma rd32_wr_addrs_other: "j + 4 \<le> p \<or> p + 4 * length vs \<le> j \<Longrightarrow> rd32 (wr_addrs a p vs) j = rd32 a j"
  by (auto simp: rd32_def wr_addrs_other)

lemma rd16_wr_addrs_other: "j + 2 \<le> p \<or> p + 4 * length vs \<le> j \<Longrightarrow> rd16 (wr_addrs a p vs) j = rd16 a j"
  by (auto simp: rd16_def wr_addrs_other)

lemma rd32_wr_addrs: "k < length vs \<Longrightarrow> rd32 (wr_addrs a p vs) (p + 4 * k) = vs ! k"
proof (induction vs arbitrary: a p k)
  case Nil
  then show ?case by simp
next
  case (Cons v vs)
  then show ?case
    using Cons.IH [of "k - 1" "wr32 a p v" "p + 4"] by (cases k) (auto simp: rd32_wr_addrs_other algebra_simps)
qed

lemma dinode_roundtrip:
  assumes "length (d_addrs di) = NDIRECT + 2"
  shows "rd_dinode (wr_dinode a p di) p = di"
proof -
  have "map (\<lambda>k. rd32 (wr_dinode a p di) (p + 12 + 4 * k)) [0..<NDIRECT + 2] = d_addrs di"
  proof -
    have "rd32 (wr_dinode a p di) (p + 12 + 4 * k) = d_addrs di ! k" if "k < NDIRECT + 2" for k
      using rd32_wr_addrs [of k "d_addrs di"] that assms by (simp add: wr_dinode_def)
    then have "map (\<lambda>k. rd32 (wr_dinode a p di) (p + 12 + 4 * k)) [0..<NDIRECT + 2] = map ((!) (d_addrs di)) [0..<NDIRECT + 2]"
      by (metis (mono_tags, lifting) atLeastLessThan_iff map_cong set_upt)
    then show ?thesis unfolding assms [symmetric] map_nth .
  qed
  then show ?thesis
    unfolding rd_dinode_def by (simp only: wr_dinode_def) (simp add: rd32_wr_addrs_other rd16_wr_addrs_other rdwr)
qed

lemma rd_dinode_cong:
  assumes "\<And>k. k < 64 \<Longrightarrow> a (p + k) = b (p + k)"
  shows "rd_dinode a p = rd_dinode b p"
proof -
  have 16: "rd16 a (p + k) = rd16 b (p + k)" if "k + 2 \<le> 64" for k
    using that assms [of k] assms [of "k + 1"] by (simp add: rd16_def)
  have 32: "rd32 a (p + k) = rd32 b (p + k)" if "k + 4 \<le> 64" for k
    using that assms [of k] assms [of "k + 1"] assms [of "k + 2"] assms [of "k + 3"] by (simp add: rd32_def add.assoc)
  have "map (\<lambda>k. rd32 a (p + 12 + 4 * k)) [0..<NDIRECT + 2] = map (\<lambda>k. rd32 b (p + 12 + 4 * k)) [0..<NDIRECT + 2]"
  proof (intro map_cong refl)
    fix k assume "k \<in> set [0..<NDIRECT + 2]"
    then show "rd32 a (p + 12 + 4 * k) = rd32 b (p + 12 + 4 * k)"
      using 32 [of "12 + 4 * k"] by (simp add: NDIRECT_def add.assoc del: upt_Suc)
  qed
  then show ?thesis
    unfolding rd_dinode_def using 16 [of 0] 16 [of 2] 16 [of 4] 16 [of 6] 32 [of 8] by simp
qed

lemma wr_dinode_other:
  assumes "length (d_addrs di) = NDIRECT + 2" and "j < p \<or> p + 64 \<le> j"
  shows "wr_dinode a p di j = a j"
  using assms by (auto simp: wr_dinode_def wr_addrs_other wr32_other wr16_other NDIRECT_def)

subsection \<open>Positions of the block map\<close>

text \<open>
  The places of an inode that hold a block address: the direct slots, the singly indirect table and its
  entries, the doubly indirect table, its entries (tables themselves) and their entries. The address at
  a position below an absent table is 0.
\<close>

datatype pos = Dir nat | Ind | IndE nat | Dbl | DblI nat | DblE nat nat

fun pos_ok :: "pos \<Rightarrow> bool" where
  "pos_ok (Dir k) = (k < NDIRECT)"
| "pos_ok Ind = True"
| "pos_ok (IndE j) = (j < NINDIRECT)"
| "pos_ok Dbl = True"
| "pos_ok (DblI i) = (i < NINDIRECT)"
| "pos_ok (DblE i j) = (i < NINDIRECT \<and> j < NINDIRECT)"

fun is_table :: "pos \<Rightarrow> bool" where
  "is_table Ind = True"
| "is_table Dbl = True"
| "is_table (DblI i) = True"
| "is_table _ = False"

definition entry :: "'d bio \<Rightarrow> u32 \<Rightarrow> 'd \<Rightarrow> u32 \<Rightarrow> nat \<Rightarrow> u32" where
  "entry B dev d t j = (if t = 0 then 0 else rd32 (bread B dev t d) (4 * j))"

fun pval :: "'d bio \<Rightarrow> inode \<Rightarrow> 'd \<Rightarrow> pos \<Rightarrow> u32" where
  "pval B ip d (Dir k) = i_addrs ip ! k"
| "pval B ip d Ind = i_addrs ip ! NDIRECT"
| "pval B ip d (IndE j) = entry B (i_dev ip) d (i_addrs ip ! NDIRECT) j"
| "pval B ip d Dbl = i_addrs ip ! (NDIRECT + 1)"
| "pval B ip d (DblI i) = entry B (i_dev ip) d (i_addrs ip ! (NDIRECT + 1)) i"
| "pval B ip d (DblE i j) = entry B (i_dev ip) d (entry B (i_dev ip) d (i_addrs ip ! (NDIRECT + 1)) i) j"

text \<open>The position of the \<open>n\<close>th block of the file.\<close>

definition pos_of :: "nat \<Rightarrow> pos" where
  "pos_of n = (if n < NDIRECT then Dir n else if n - NDIRECT < NINDIRECT then IndE (n - NDIRECT)
     else DblE ((n - NDIRECT - NINDIRECT) div NINDIRECT) ((n - NDIRECT - NINDIRECT) mod NINDIRECT))"

definition fblock :: "'d bio \<Rightarrow> inode \<Rightarrow> 'd \<Rightarrow> nat \<Rightarrow> u32" where
  "fblock B ip d n = pval B ip d (pos_of n)"

definition data_block :: "superblock \<Rightarrow> u32 \<Rightarrow> bool" where
  "data_block sb b \<longleftrightarrow> datastart sb \<le> unat b \<and> unat b < unat (sb_size sb)"

text \<open>
  An inode is well formed on a disk when every address it holds is a data block marked in use, and no
  block is held at two positions.
\<close>

definition iwf :: "'d bio \<Rightarrow> superblock \<Rightarrow> inode \<Rightarrow> 'd \<Rightarrow> bool" where
  "iwf B sb ip d \<longleftrightarrow> length (i_addrs ip) = NDIRECT + 2 \<and>
     (\<forall>p. pos_ok p \<longrightarrow> pval B ip d p \<noteq> 0 \<longrightarrow>
        data_block sb (pval B ip d p) \<and> bused B sb (i_dev ip) d (unat (pval B ip d p))) \<and>
     (\<forall>p q. pos_ok p \<longrightarrow> pos_ok q \<longrightarrow> pval B ip d p \<noteq> 0 \<longrightarrow> pval B ip d p = pval B ip d q \<longrightarrow> p = q)"

lemma iwfD:
  assumes "iwf B sb ip d"
  shows "length (i_addrs ip) = NDIRECT + 2"
    and "pos_ok p \<Longrightarrow> pval B ip d p \<noteq> 0 \<Longrightarrow> data_block sb (pval B ip d p)"
    and "pos_ok p \<Longrightarrow> pval B ip d p \<noteq> 0 \<Longrightarrow> bused B sb (i_dev ip) d (unat (pval B ip d p))"
    and "pos_ok p \<Longrightarrow> pos_ok q \<Longrightarrow> pval B ip d p \<noteq> 0 \<Longrightarrow> pval B ip d p = pval B ip d q \<Longrightarrow> p = q"
  using assms unfolding iwf_def by blast+

lemma pos_of_ok: "n < MAXFILE \<Longrightarrow> pos_ok (pos_of n)"
  by (auto simp: pos_of_def MAXFILE_def NDOUBLY_INDIRECT_def NINDIRECT_def NDIRECT_def)

lemma pos_of_leaf: "\<not> is_table (pos_of n)"
  by (simp add: pos_of_def)

lemma pos_of_inj: "pos_of n = pos_of m \<Longrightarrow> n = m"
proof -
  assume eq: "pos_of n = pos_of m"
  have "n - NDIRECT - NINDIRECT = m - NDIRECT - NINDIRECT"
    if "pos_of n = DblE i j" "pos_of m = DblE i j" for i j
    using that by (auto simp: pos_of_def split: if_splits intro: div_mod_eqI [of _ NINDIRECT])
  then show "n = m"
    using eq by (auto simp: pos_of_def split: if_splits)
qed

lemma data_block_not_bmap: "sb_ok sb \<Longrightarrow> data_block sb b \<Longrightarrow> \<not> is_bmap sb b"
  by (simp add: data_block_def data_not_bmap)

lemma data_block_nz: "data_block sb b \<Longrightarrow> b \<noteq> 0"
  by (auto simp: data_block_def datastart_def)

text \<open>Agreement of the tables of an inode on two disks gives agreement of all positions.\<close>

lemma pval_cong:
  assumes "\<And>p. pos_ok p \<Longrightarrow> is_table p \<Longrightarrow> pval B ip d p \<noteq> 0 \<Longrightarrow>
      bread B (i_dev ip) (pval B ip d p) d' = bread B (i_dev ip) (pval B ip d p) d"
    and "pos_ok q"
  shows "pval B ip d' q = pval B ip d q"
proof -
  have t: "entry B (i_dev ip) d' (pval B ip d p) j = entry B (i_dev ip) d (pval B ip d p) j"
    if "pos_ok p" "is_table p" for p j
    using assms(1) [OF that] by (simp add: entry_def)
  show ?thesis
    using assms(2) t [of Ind] t [of Dbl] t [of "DblI i" for i] by (cases q) auto
qed

subsection \<open>One step of the block map\<close>

text \<open>
  What filling position \<open>p\<close> may do: fail because every block is in use and change nothing, find an
  address and change nothing, or take a free block, zeroed, and store its address at \<open>p\<close> and nowhere
  else. Blocks that are neither bitmap blocks, nor the new block, nor tables of the inode keep their
  contents.
\<close>

definition same_meta :: "inode \<Rightarrow> inode \<Rightarrow> bool" where
  "same_meta ip ip' \<longleftrightarrow> (\<exists>as. ip' = ip\<lparr>i_addrs := as\<rparr>)"

definition grown :: "'d bio \<Rightarrow> superblock \<Rightarrow> inode \<Rightarrow> 'd \<Rightarrow> pos \<Rightarrow> u32 \<Rightarrow> inode \<Rightarrow> 'd \<Rightarrow> bool" where
  "grown B sb ip d p addr ip' d' \<longleftrightarrow>
     (addr = 0 \<longrightarrow> pval B ip d p = 0 \<and> ip' = ip \<and> d' = d \<and> (\<forall>n<unat (sb_size sb). bused B sb (i_dev ip) d n)) \<and>
     (addr \<noteq> 0 \<longrightarrow> (\<forall>q. pos_ok q \<longrightarrow> pval B ip' d' q = (if q = p then addr else pval B ip d q))) \<and>
     (pval B ip d p \<noteq> 0 \<longrightarrow> addr = pval B ip d p \<and> ip' = ip \<and> d' = d) \<and>
     (addr \<noteq> 0 \<longrightarrow> pval B ip d p = 0 \<longrightarrow> data_block sb addr \<and> \<not> bused B sb (i_dev ip) d (unat addr) \<and>
        (\<forall>i<BSIZE. bread B (i_dev ip) addr d' i = 0)) \<and>
     (\<forall>n<unat (sb_size sb). bused B sb (i_dev ip) d' n \<longleftrightarrow> addr \<noteq> 0 \<and> n = unat addr \<or> bused B sb (i_dev ip) d n) \<and>
     (\<forall>dev b. dev \<noteq> i_dev ip \<or> \<not> is_bmap sb b \<and> (b = addr \<longrightarrow> bused B sb (i_dev ip) d (unat b)) \<and>
        (\<forall>q. pos_ok q \<longrightarrow> is_table q \<longrightarrow> pval B ip d q \<noteq> b) \<longrightarrow> bread B dev b d' = bread B dev b d) \<and>
     iwf B sb ip' d' \<and> meta_used B sb (i_dev ip) d' \<and> same_meta ip ip'"

lemma same_meta_refl [simp]: "same_meta ip ip"
  by (auto simp: same_meta_def intro!: exI [of _ "i_addrs ip"])

lemma same_meta_simps:
  assumes "same_meta ip ip'"
  shows "i_dev ip' = i_dev ip" "i_inum ip' = i_inum ip" "i_ref ip' = i_ref ip" "i_locked ip' = i_locked ip"
    "i_valid ip' = i_valid ip" "i_type ip' = i_type ip" "i_major ip' = i_major ip" "i_minor ip' = i_minor ip"
    "i_nlink ip' = i_nlink ip" "i_size ip' = i_size ip"
  using assms by (auto simp: same_meta_def)

lemma same_meta_trans: "same_meta ip ip1 \<Longrightarrow> same_meta ip1 ip2 \<Longrightarrow> same_meta ip ip2"
  by (auto simp: same_meta_def)

text \<open>A fresh address stored at one position keeps the inode well formed.\<close>

lemma iwf_grow:
  assumes "iwf B sb ip d" and "length (i_addrs ip') = NDIRECT + 2" and "i_dev ip' = i_dev ip"
    and "\<And>q. pos_ok q \<Longrightarrow> pval B ip' d' q = (if q = p then addr else pval B ip d q)"
    and "\<And>n. n < unat (sb_size sb) \<Longrightarrow> bused B sb (i_dev ip) d' n \<longleftrightarrow> n = unat addr \<or> bused B sb (i_dev ip) d n"
    and "data_block sb addr" and "\<not> bused B sb (i_dev ip) d (unat addr)"
  shows "iwf B sb ip' d'"
proof -
  have old: "pval B ip d q \<noteq> addr" if "pos_ok q" for q
    using iwfD(3) [OF assms(1) that] data_block_nz [OF assms(6)] assms(7) by auto
  show ?thesis
    unfolding iwf_def assms(3)
  proof (intro conjI allI impI)
    show "length (i_addrs ip') = NDIRECT + 2" by (rule assms(2))
  next
    fix q assume q: "pos_ok q" "pval B ip' d' q \<noteq> 0"
    then show "data_block sb (pval B ip' d' q)"
      using iwfD(2) [OF assms(1) q(1)] assms(4) [OF q(1)] assms(6) by (auto split: if_splits)
    then show "bused B sb (i_dev ip) d' (unat (pval B ip' d' q))"
      using q iwfD(3) [OF assms(1) q(1)] assms(4) [OF q(1)] assms(5) by (auto simp: data_block_def split: if_splits)
  next
    fix q r assume qr: "pos_ok q" "pos_ok r" "pval B ip' d' q \<noteq> 0" "pval B ip' d' q = pval B ip' d' r"
    then show "q = r"
      using iwfD(4) [OF assms(1) qr(1,2)] assms(4) [OF qr(1)] assms(4) [OF qr(2)] old [OF qr(1)] old [OF qr(2)]
      by (auto split: if_splits)
  qed
qed

lemma grown_id:
  assumes "iwf B sb ip d" and "meta_used B sb (i_dev ip) d" and "pval B ip d p \<noteq> 0" and "pos_ok p"
  shows "grown B sb ip d p (pval B ip d p) ip d"
  using assms iwfD(3) [OF assms(1,4,3)] by (auto simp: grown_def)

lemma grown_full:
  assumes "iwf B sb ip d" and "meta_used B sb (i_dev ip) d" and "pval B ip d p = 0"
    and "\<forall>n<unat (sb_size sb). bused B sb (i_dev ip) d n"
  shows "grown B sb ip d p 0 ip d"
  using assms by (auto simp: grown_def)

text \<open>After \<^verbatim>\<open>balloc\<close> every position of the inode still has its address.\<close>

lemma pval_balloc:
  assumes B: "bio_laws B" and sb: "sb_ok sb" and mu: "meta_used B sb (i_dev ip) d"
    and wf: "iwf B sb ip d" and r: "balloc B sb (i_dev ip) d = (addr, d')" and q: "pos_ok q"
  shows "pval B ip d' q = pval B ip d q"
proof (rule pval_cong [OF _ q])
  fix p assume p: "pos_ok p" "is_table p" "pval B ip d p \<noteq> 0"
  have "\<not> is_bmap sb (pval B ip d p)"
    using data_block_not_bmap [OF sb iwfD(2) [OF wf p(1,3)]] .
  moreover have "addr \<noteq> 0 \<Longrightarrow> pval B ip d p \<noteq> addr"
    using iwfD(3) [OF wf p(1,3)] balloc_spec(3) [OF B sb mu r] by auto
  ultimately show "bread B (i_dev ip) (pval B ip d p) d' = bread B (i_dev ip) (pval B ip d p) d"
    using balloc_spec(6) [OF B sb mu r] by blast
qed

lemma entry_zeroed: "(\<And>i. i < BSIZE \<Longrightarrow> bread B dev t d i = 0) \<Longrightarrow> j < NINDIRECT \<Longrightarrow> entry B dev d t j = 0"
  by (auto simp: entry_def NINDIRECT_def intro!: rd32_zero)

fun slot_pos :: "nat \<Rightarrow> pos" where
  "slot_pos k = (if k < NDIRECT then Dir k else if k = NDIRECT then Ind else Dbl)"

lemma pval_slot: "k \<le> NDIRECT + 1 \<Longrightarrow> pval B ip d (slot_pos k) = i_addrs ip ! k"
  by (auto simp: le_Suc_eq)

lemma slot_pos_ok: "pos_ok (slot_pos k)"
  by simp

lemma bmap_addr_grown:
  assumes B: "bio_laws B" and sb: "sb_ok sb" and mu: "meta_used B sb (i_dev ip) d" and wf: "iwf B sb ip d"
    and k: "k \<le> NDIRECT + 1" and r: "bmap_addr B sb ip k d = (addr, ip', d')"
  shows "grown B sb ip d (slot_pos k) addr ip' d'"
proof (cases "i_addrs ip ! k = 0")
  case False
  then have "addr = pval B ip d (slot_pos k)" "ip' = ip" "d' = d" "pval B ip d (slot_pos k) \<noteq> 0"
    using r pval_slot [OF k, of B ip d] by (auto simp: bmap_addr_def Let_def)
  then show ?thesis using grown_id [OF wf mu _ slot_pos_ok, of k] by simp
next
  case True
  have p0: "pval B ip d (slot_pos k) = 0" using True pval_slot [OF k] by metis
  obtain a1 d1 where a1: "balloc B sb (i_dev ip) d = (a1, d1)" by fastforce
  note bs = balloc_spec [OF B sb mu a1]
  show ?thesis
  proof (cases "a1 = 0")
    case True
    then have "addr = 0" "ip' = ip" "d' = d"
      using r a1 bs(1) \<open>i_addrs ip ! k = 0\<close> by (auto simp: bmap_addr_def)
    then show ?thesis using grown_full [OF wf mu p0] bs(2) True by simp
  next
    case False
    then have res: "addr = a1" "ip' = ip\<lparr>i_addrs := (i_addrs ip)[k := addr]\<rparr>" "d' = d1"
      using r a1 \<open>i_addrs ip ! k = 0\<close> by (auto simp: bmap_addr_def)
    have db: "data_block sb addr" and fresh: "\<not> bused B sb (i_dev ip) d (unat addr)"
      using bs(3) False res by (auto simp: data_block_def)
    have len: "length (i_addrs ip) = NDIRECT + 2" using iwfD(1) [OF wf] .
    have z: "j < NINDIRECT \<Longrightarrow> entry B (i_dev ip) d1 addr j = 0" for j
      using bs(4) False res by (intro entry_zeroed) auto
    have pv: "pval B ip' d' q = (if q = slot_pos k then addr else pval B ip d q)" if "pos_ok q" for q
    proof -
      have "k < NDIRECT \<or> k = NDIRECT \<or> k = NDIRECT + 1" using k by arith
      then show ?thesis
        using that len z pval_balloc [OF B sb mu wf a1 that] \<open>i_addrs ip ! k = 0\<close>
        by (elim disjE; cases q) (simp_all add: res nth_list_update_if entry_def [of _ _ _ 0] split: if_splits)
    qed
    have bu: "bused B sb (i_dev ip) d' n \<longleftrightarrow> n = unat addr \<or> bused B sb (i_dev ip) d n"
      if "n < unat (sb_size sb)" for n using bs(5) [OF that] False res by simp
    have "iwf B sb ip' d'"
      by (rule iwf_grow [OF wf _ _ pv bu db fresh]) (simp_all add: res len)
    then show ?thesis
      unfolding grown_def
      using False res p0 pv bu db fresh bs(4,6,7) by (auto simp: same_meta_def)
  qed
qed

fun parent_pos :: "pos \<Rightarrow> pos option" where
  "parent_pos (IndE j) = Some Ind"
| "parent_pos (DblI i) = Some Dbl"
| "parent_pos (DblE i j) = Some (DblI i)"
| "parent_pos _ = None"

fun entry_idx :: "pos \<Rightarrow> nat" where
  "entry_idx (IndE j) = j"
| "entry_idx (DblI i) = i"
| "entry_idx (DblE i j) = j"
| "entry_idx _ = 0"

lemma pval_child: "parent_pos p = Some t \<Longrightarrow> pval B ip d p = entry B (i_dev ip) d (pval B ip d t) (entry_idx p)"
  by (cases p) auto

lemma pval_root: "parent_pos p = None \<Longrightarrow> pval B ip d' p = pval B ip d p"
  by (cases p) auto

lemma child_eqI: "parent_pos p = Some t \<Longrightarrow> parent_pos q = Some t \<Longrightarrow> entry_idx p = entry_idx q \<Longrightarrow> p = q"
  by (cases p; cases q) auto

lemma parent_ok:
  "parent_pos p = Some t \<Longrightarrow> pos_ok p \<Longrightarrow> pos_ok t \<and> is_table t \<and> t \<noteq> p \<and> entry_idx p < NINDIRECT"
  by (cases p) auto

text \<open>Setting one entry of a table that belongs to the inode changes that position only.\<close>

lemma pval_set_entry:
  assumes B: "bio_laws B" and inj: "\<And>q r. pos_ok q \<Longrightarrow> pos_ok r \<Longrightarrow> pval B ip d q \<noteq> 0 \<Longrightarrow> pval B ip d q = pval B ip d r \<Longrightarrow> q = r"
    and p: "parent_pos p = Some tp" "pos_ok p" "pval B ip d tp = t" "t \<noteq> 0" "pval B ip d p = 0"
    and z: "\<And>j. j < NINDIRECT \<Longrightarrow> entry B (i_dev ip) d addr j = 0" and "addr \<noteq> t"
    and q: "pos_ok q"
    and d': "d' = log_write B (i_dev ip) t (wr32 (bread B (i_dev ip) t d) (4 * entry_idx p) addr) d"
  shows "pval B ip d' q = (if q = p then addr else pval B ip d q)"
proof -
  have e: "entry B (i_dev ip) d' t' j' = (if t' = t \<and> j' = entry_idx p then addr else entry B (i_dev ip) d t' j')" for t' j'
  proof (cases "t' = t")
    case True
    have "rd32 (wr32 (bread B (i_dev ip) t d) (4 * entry_idx p) addr) (4 * j') =
      (if j' = entry_idx p then addr else rd32 (bread B (i_dev ip) t d) (4 * j'))"
      by (cases "j' < entry_idx p"; cases "j' = entry_idx p") (auto simp: rdwr)
    then show ?thesis using True p(4) by (simp add: entry_def d' bio_lawsD [OF B])
  next
    case False
    then show ?thesis by (simp add: entry_def d' bio_lawsD [OF B])
  qed
  have flat: "pval B ip d' r = (if r = p then addr else pval B ip d r)"
    if r: "pos_ok r" and par: "\<And>u. parent_pos r = Some u \<Longrightarrow> pval B ip d' u = pval B ip d u" for r
  proof (cases "parent_pos r")
    case None
    then show ?thesis using p(1) pval_root [OF None] by auto
  next
    case (Some u)
    have "pval B ip d u = t \<Longrightarrow> u = tp"
      using inj [of u tp] parent_ok [OF Some r] parent_ok [OF p(1,2)] p(3,4) by simp
    then have "pval B ip d u = t \<and> entry_idx r = entry_idx p \<longleftrightarrow> r = p"
      using child_eqI [OF p(1), of r] Some p(1,3) by auto
    then show ?thesis
      using pval_child [OF Some, of B ip d'] pval_child [OF Some, of B ip d] par [OF Some] e by auto
  qed
  show ?thesis
  proof (cases "parent_pos q = Some p")
    case True
    then have "\<exists>i. p = DblI i" using p(1) by (cases q) auto
    then have "pval B ip d' p = addr" using flat [OF p(2)] by auto
    then have "pval B ip d' q = 0"
      using pval_child [OF True, of B ip d'] e [of addr] z parent_ok [OF True q] \<open>addr \<noteq> t\<close> by simp
    moreover have "pval B ip d q = 0" using pval_child [OF True, of B ip d] p(5) by (simp add: entry_def)
    ultimately show ?thesis using parent_ok [OF True q] by auto
  next
    case False
    show ?thesis
    proof (rule flat [OF q])
      fix u assume u: "parent_pos q = Some u"
      have "pval B ip d' u = (if u = p then addr else pval B ip d u)"
        using u q by (intro flat) (cases q; auto)+
      then show "pval B ip d' u = pval B ip d u" using u False by auto
    qed
  qed
qed

lemma bmap_entry_grown:
  assumes B: "bio_laws B" and sb: "sb_ok sb" and mu: "meta_used B sb (i_dev ip) d" and wf: "iwf B sb ip d"
    and p: "parent_pos p = Some tp" "pos_ok p" "pval B ip d tp = t" "t \<noteq> 0"
    and r: "bmap_entry B sb (i_dev ip) t (entry_idx p) d = (addr, d')"
  shows "grown B sb ip d p addr ip d'"
proof -
  let ?a = "bread B (i_dev ip) t d"
  have pv: "pval B ip d p = rd32 ?a (4 * entry_idx p)"
    using pval_child [OF p(1), of B ip d] p(3,4) by (simp add: entry_def)
  have tp: "pos_ok tp" "is_table tp" "tp \<noteq> p" using parent_ok [OF p(1,2)] by auto
  have tu: "bused B sb (i_dev ip) d (unat t)" and td: "data_block sb t"
    using iwfD(2,3) [OF wf tp(1)] p(3,4) by auto
  show ?thesis
  proof (cases "rd32 ?a (4 * entry_idx p) = 0")
    case False
    then have "addr = pval B ip d p" "d' = d" using r pv by (auto simp: bmap_entry_def Let_def)
    then show ?thesis using grown_id [OF wf mu _ p(2)] False pv by simp
  next
    case e0: True
    obtain a1 d1 where a1: "balloc B sb (i_dev ip) d = (a1, d1)" by fastforce
    note bs = balloc_spec [OF B sb mu a1]
    have keep: "\<And>q. pos_ok q \<Longrightarrow> pval B ip d1 q = pval B ip d q" using pval_balloc [OF B sb mu wf a1] .
    show ?thesis
    proof (cases "a1 = 0")
      case True
      then have "addr = 0" "d' = d" using r a1 bs(1) e0 by (auto simp: bmap_entry_def)
      then show ?thesis using grown_full [OF wf mu] e0 pv bs(2) True by simp
    next
      case False
      have ta: "t \<noteq> a1" using tu bs(3) False by auto
      have bt: "bread B (i_dev ip) t d1 = ?a"
        using bs(6) ta data_block_not_bmap [OF sb td] by auto
      have res: "addr = a1" "d' = log_write B (i_dev ip) t (wr32 (bread B (i_dev ip) t d1) (4 * entry_idx p) addr) d1"
        using r a1 e0 False bt by (auto simp: bmap_entry_def)
      have db: "data_block sb addr" and fresh: "\<not> bused B sb (i_dev ip) d (unat addr)"
        using bs(3) False res by (auto simp: data_block_def)
      have z: "j < NINDIRECT \<Longrightarrow> entry B (i_dev ip) d1 addr j = 0" for j
        using bs(4) False res by (intro entry_zeroed) auto
      have pvs: "pval B ip d' q = (if q = p then addr else pval B ip d q)" if q: "pos_ok q" for q
      proof -
        have "pval B ip d' q = (if q = p then addr else pval B ip d1 q)"
        proof (rule pval_set_entry [OF B _ p(1,2) _ p(4) _ z _ q res(2)])
          show "pval B ip d1 tp = t" using keep [OF tp(1)] p(3) by simp
          show "pval B ip d1 p = 0" using keep [OF p(2)] pv e0 by simp
          show "addr \<noteq> t" using ta res(1) by simp
        qed (use keep iwfD(4) [OF wf] in auto)
        then show ?thesis using keep [OF q] by simp
      qed
      have bread': "bread B dev b d' = bread B dev b d1" if "dev \<noteq> i_dev ip \<or> b \<noteq> t" for dev b
        using that unfolding res(2) by (auto simp: bio_lawsD [OF B])
      have bm: "BBLOCK n sb \<noteq> t" if "n < unat (sb_size sb)" for n
        using BBLOCK_is_bmap [OF that] data_block_not_bmap [OF sb td] by metis
      then have bu1: "bused B sb (i_dev ip) d' n = bused B sb (i_dev ip) d1 n" if "n < unat (sb_size sb)" for n
        using that bread' by (simp add: bused_def)
      then have bu: "bused B sb (i_dev ip) d' n \<longleftrightarrow> n = unat addr \<or> bused B sb (i_dev ip) d n"
        if "n < unat (sb_size sb)" for n using that bs(5) [OF that] False res by simp
      have "iwf B sb ip d'"
        by (rule iwf_grow [OF wf _ _ pvs bu db fresh]) (simp_all add: iwfD(1) [OF wf])
      moreover have "meta_used B sb (i_dev ip) d'"
        using bs(7) bu1 sb_okD(3) [OF sb] unfolding meta_used_def by (meson order_less_le_trans)
      moreover have "bread B (i_dev ip) addr d' i = 0" if "i < BSIZE" for i
        using bread' [of "i_dev ip" addr] bs(4) [OF _ that] ta res(1) False by auto
      moreover have "bread B dev b d' = bread B dev b d"
        if "dev \<noteq> i_dev ip \<or> \<not> is_bmap sb b \<and> (b = addr \<longrightarrow> bused B sb (i_dev ip) d (unat b)) \<and>
          (\<forall>q. pos_ok q \<longrightarrow> is_table q \<longrightarrow> pval B ip d q \<noteq> b)" for dev b
        using that bread' [of dev b] bs(6) [of dev b] tp p(3) fresh res(1) by auto
      moreover have "pval B ip d p = 0" "addr \<noteq> 0" using pv e0 data_block_nz [OF db] by auto
      ultimately show ?thesis
        unfolding grown_def using pvs bu db fresh by auto
    qed
  qed
qed

lemma grownD:
  assumes "grown B sb ip d p addr ip' d'"
  shows "iwf B sb ip' d'" and "meta_used B sb (i_dev ip) d'" and "same_meta ip ip'"
    and "addr = 0 \<Longrightarrow> pval B ip d p = 0 \<and> ip' = ip \<and> d' = d \<and> (\<forall>n<unat (sb_size sb). bused B sb (i_dev ip) d n)"
    and "addr \<noteq> 0 \<Longrightarrow> pos_ok q \<Longrightarrow> pval B ip' d' q = (if q = p then addr else pval B ip d q)"
    and "pval B ip d p \<noteq> 0 \<Longrightarrow> addr = pval B ip d p \<and> ip' = ip \<and> d' = d"
    and "addr \<noteq> 0 \<Longrightarrow> pval B ip d p = 0 \<Longrightarrow> data_block sb addr \<and> \<not> bused B sb (i_dev ip) d (unat addr)"
    and "addr \<noteq> 0 \<Longrightarrow> pval B ip d p = 0 \<Longrightarrow> i < BSIZE \<Longrightarrow> bread B (i_dev ip) addr d' i = 0"
    and "n < unat (sb_size sb) \<Longrightarrow>
      bused B sb (i_dev ip) d' n \<longleftrightarrow> addr \<noteq> 0 \<and> n = unat addr \<or> bused B sb (i_dev ip) d n"
    and "dev \<noteq> i_dev ip \<or> \<not> is_bmap sb b \<and> (b = addr \<longrightarrow> bused B sb (i_dev ip) d (unat b)) \<and>
        (\<forall>q. pos_ok q \<longrightarrow> is_table q \<longrightarrow> pval B ip d q \<noteq> b) \<Longrightarrow> bread B dev b d' = bread B dev b d"
  using assms unfolding grown_def by blast+

subsection \<open>The block map as a whole\<close>

text \<open>
  \<open>extends p\<close>: the inode gained blocks that were free, possibly tables, and of its leaf positions only \<open>p\<close>
  may have changed; every block that was in use and is no table of the inode keeps its contents.
\<close>

definition extends :: "'d bio \<Rightarrow> superblock \<Rightarrow> pos \<Rightarrow> inode \<Rightarrow> 'd \<Rightarrow> inode \<Rightarrow> 'd \<Rightarrow> bool" where
  "extends B sb p ip d ip' d' \<longleftrightarrow> iwf B sb ip' d' \<and> meta_used B sb (i_dev ip) d' \<and> same_meta ip ip' \<and>
     (\<forall>q. pos_ok q \<longrightarrow> pval B ip' d' q \<noteq> pval B ip d q \<longrightarrow>
        pval B ip d q = 0 \<and> \<not> bused B sb (i_dev ip) d (unat (pval B ip' d' q)) \<and> (is_table q \<or> q = p)) \<and>
     (\<forall>n<unat (sb_size sb). bused B sb (i_dev ip) d n \<longrightarrow> bused B sb (i_dev ip) d' n) \<and>
     (\<forall>n<unat (sb_size sb). bused B sb (i_dev ip) d' n \<longrightarrow>
        bused B sb (i_dev ip) d n \<or> (\<exists>q. pos_ok q \<and> pval B ip' d' q \<noteq> 0 \<and> unat (pval B ip' d' q) = n)) \<and>
     (\<forall>dev b. dev \<noteq> i_dev ip \<or> \<not> is_bmap sb b \<and> unat b < unat (sb_size sb) \<and> bused B sb (i_dev ip) d (unat b) \<and>
        (\<forall>q. pos_ok q \<longrightarrow> is_table q \<longrightarrow> pval B ip d q \<noteq> b) \<longrightarrow> bread B dev b d' = bread B dev b d)"

lemma extendsD:
  assumes "extends B sb p ip d ip' d'"
  shows "iwf B sb ip' d'" and "meta_used B sb (i_dev ip) d'" and "same_meta ip ip'"
    and "pos_ok q \<Longrightarrow> pval B ip' d' q \<noteq> pval B ip d q \<Longrightarrow>
        pval B ip d q = 0 \<and> \<not> bused B sb (i_dev ip) d (unat (pval B ip' d' q)) \<and> (is_table q \<or> q = p)"
    and "n < unat (sb_size sb) \<Longrightarrow> bused B sb (i_dev ip) d n \<Longrightarrow> bused B sb (i_dev ip) d' n"
    and "n < unat (sb_size sb) \<Longrightarrow> bused B sb (i_dev ip) d' n \<Longrightarrow>
        bused B sb (i_dev ip) d n \<or> (\<exists>q. pos_ok q \<and> pval B ip' d' q \<noteq> 0 \<and> unat (pval B ip' d' q) = n)"
    and "dev \<noteq> i_dev ip \<or> \<not> is_bmap sb b \<and> unat b < unat (sb_size sb) \<and> bused B sb (i_dev ip) d (unat b) \<and>
        (\<forall>q. pos_ok q \<longrightarrow> is_table q \<longrightarrow> pval B ip d q \<noteq> b) \<Longrightarrow> bread B dev b d' = bread B dev b d"
  using assms unfolding extends_def by blast+

lemma extends_refl: "iwf B sb ip d \<Longrightarrow> meta_used B sb (i_dev ip) d \<Longrightarrow> extends B sb p ip d ip d"
  by (simp add: extends_def)

lemma grown_extends:
  assumes g: "grown B sb ip d p' addr ip' d'" and p: "is_table p' \<or> p' = p" and ok: "pos_ok p'"
  shows "extends B sb p ip d ip' d'"
proof (cases "addr = 0 \<or> pval B ip d p' \<noteq> 0")
  case True
  then have "ip' = ip \<and> d' = d" using grownD(4,6) [OF g] by blast
  then show ?thesis using grownD(1,2) [OF g] extends_refl [of B sb ip d p] by auto
next
  case False
  then have a: "addr \<noteq> 0" "pval B ip d p' = 0" by auto
  have pv: "pos_ok q \<Longrightarrow> pval B ip' d' q = (if q = p' then addr else pval B ip d q)" for q
    using grownD(5) [OF g a(1)] .
  show ?thesis
    unfolding extends_def
  proof (intro conjI allI impI)
    fix n assume n: "n < unat (sb_size sb)" and u: "bused B sb (i_dev ip) d' n"
    then show "bused B sb (i_dev ip) d n \<or> (\<exists>q. pos_ok q \<and> pval B ip' d' q \<noteq> 0 \<and> unat (pval B ip' d' q) = n)"
      using grownD(9) [OF g n] pv [OF ok] ok by auto
  next
    fix dev b
    assume "dev \<noteq> i_dev ip \<or> \<not> is_bmap sb b \<and> unat b < unat (sb_size sb) \<and> bused B sb (i_dev ip) d (unat b) \<and>
        (\<forall>q. pos_ok q \<longrightarrow> is_table q \<longrightarrow> pval B ip d q \<noteq> b)"
    then show "bread B dev b d' = bread B dev b d" by (intro grownD(10) [OF g]) blast
  qed (use pv a p grownD(1,2,3,7,9) [OF g] in \<open>auto split: if_splits\<close>)
qed

lemma extends_trans:
  assumes 1: "extends B sb p ip d ip1 d1" and 2: "extends B sb p ip1 d1 ip2 d2"
  shows "extends B sb p ip d ip2 d2"
proof -
  have dev: "i_dev ip1 = i_dev ip" using extendsD(3) [OF 1] by (simp add: same_meta_simps)
  note e1 = extendsD [OF 1] and e2 = extendsD [OF 2, unfolded dev]
  have lt: "unat (pval B ip2 d2 q) < unat (sb_size sb)" if "pos_ok q" "pval B ip2 d2 q \<noteq> 0" for q
    using iwfD(2) [OF e2(1) that] by (simp add: data_block_def)
  show ?thesis
    unfolding extends_def
  proof (intro conjI allI impI)
    show "same_meta ip ip2" using e1(3) e2(3) by (rule same_meta_trans)
  next
    fix q assume q: "pos_ok q" "pval B ip2 d2 q \<noteq> pval B ip d q"
    show p0: "pval B ip d q = 0" using q e1(4) e2(4) by metis
    show "\<not> bused B sb (i_dev ip) d (unat (pval B ip2 d2 q))"
      using q e1(4) [of q] e2(4) [of q] lt [of q] p0 e1(5) by metis
    show "is_table q \<or> q = p" using q e1(4) e2(4) by metis
  next
    fix n assume n: "n < unat (sb_size sb)" "bused B sb (i_dev ip) d2 n"
    show "bused B sb (i_dev ip) d n \<or> (\<exists>q. pos_ok q \<and> pval B ip2 d2 q \<noteq> 0 \<and> unat (pval B ip2 d2 q) = n)"
      using e2(6) [OF n] e1(6) [OF n(1)] e2(4) by metis
  next
    fix dv b
    assume b: "dv \<noteq> i_dev ip \<or> \<not> is_bmap sb b \<and> unat b < unat (sb_size sb) \<and> bused B sb (i_dev ip) d (unat b) \<and>
        (\<forall>q. pos_ok q \<longrightarrow> is_table q \<longrightarrow> pval B ip d q \<noteq> b)"
    have "pval B ip1 d1 q \<noteq> b" if "dv = i_dev ip" "pos_ok q" "is_table q" for q
      using b that e1(4) [of q] by metis
    then have "bread B dv b d2 = bread B dv b d1" using b e1(5) by (intro e2(7)) blast
    then show "bread B dv b d2 = bread B dv b d" using e1(7) [OF b] by simp
  qed (use e1 e2 in auto)
qed

text \<open>The postcondition of \<^verbatim>\<open>bmap\<close> for the leaf position \<open>p\<close>.\<close>

definition bmap_post :: "'d bio \<Rightarrow> superblock \<Rightarrow> pos \<Rightarrow> inode \<Rightarrow> 'd \<Rightarrow> u32 \<Rightarrow> inode \<Rightarrow> 'd \<Rightarrow> bool" where
  "bmap_post B sb p ip d addr ip' d' \<longleftrightarrow> extends B sb p ip d ip' d' \<and>
     pval B ip' d' p = addr \<and>
     (pval B ip d p \<noteq> 0 \<longrightarrow> ip' = ip \<and> d' = d) \<and>
     (addr = 0 \<longrightarrow> (\<forall>n<unat (sb_size sb). bused B sb (i_dev ip) d' n)) \<and>
     (addr \<noteq> 0 \<longrightarrow> pval B ip d p = 0 \<longrightarrow> (\<forall>i<BSIZE. bread B (i_dev ip) addr d' i = 0))"

lemma bmap_postD:
  assumes "bmap_post B sb p ip d addr ip' d'"
  shows "extends B sb p ip d ip' d'" and "pval B ip' d' p = addr"
    and "pval B ip d p \<noteq> 0 \<Longrightarrow> ip' = ip \<and> d' = d"
    and "addr = 0 \<Longrightarrow> n < unat (sb_size sb) \<Longrightarrow> bused B sb (i_dev ip) d' n"
    and "addr \<noteq> 0 \<Longrightarrow> pval B ip d p = 0 \<Longrightarrow> i < BSIZE \<Longrightarrow> bread B (i_dev ip) addr d' i = 0"
  using assms unfolding bmap_post_def by blast+

lemma grown_post:
  assumes g: "grown B sb ip d p addr ip' d'" and ok: "pos_ok p"
  shows "bmap_post B sb p ip d addr ip' d'"
  using grown_extends [OF g _ ok, of p] grownD(4,6) [OF g] grownD(5) [OF g _ ok] grownD(8) [OF g]
  by (cases "addr = 0") (auto simp: bmap_post_def)

text \<open>A table that cannot be allocated makes \<^verbatim>\<open>bmap\<close> return 0; one that is there is followed.\<close>

lemma table_fail_post:
  assumes g: "grown B sb ip d t 0 ip' d'" and par: "parent_pos p = Some t \<or> (\<exists>u. parent_pos p = Some u \<and> parent_pos u = Some t)"
    and ok: "pos_ok p" "pos_ok t" "is_table t"
  shows "bmap_post B sb p ip d 0 ip' d'"
proof -
  have id: "ip' = ip" "d' = d" "pval B ip d t = 0" using grownD(4) [OF g] by auto
  have "pval B ip d p = 0"
    using par id(3) pval_child [of p _ B ip d] pval_child [of _ t B ip d] by (auto simp: entry_def)
  then show ?thesis
    using grown_extends [OF g _ ok(2), of p] ok(3) grownD(4) [OF g] by (simp add: bmap_post_def id)
qed

lemma post_after_table:
  assumes g: "grown B sb ip d t ta ip1 d1" and ta: "ta \<noteq> 0" and t: "pos_ok t" "is_table t"
    and q: "bmap_post B sb p ip1 d1 addr ip2 d2" and p: "pos_ok p" "\<not> is_table p"
    and par: "parent_pos p = Some t \<or> (\<exists>u. parent_pos p = Some u \<and> parent_pos u = Some t)"
  shows "bmap_post B sb p ip d addr ip2 d2"
proof -
  have dev: "i_dev ip1 = i_dev ip" using grownD(3) [OF g] by (simp add: same_meta_simps)
  have pp: "pval B ip1 d1 p = pval B ip d p" using grownD(5) [OF g ta p(1)] t(2) p(2) by auto
  have "extends B sb p ip d ip2 d2"
    by (rule extends_trans [OF grown_extends [OF g _ t(1)] bmap_postD(1) [OF q]]) (simp add: t(2))
  moreover have "ip2 = ip \<and> d2 = d" if nz: "pval B ip d p \<noteq> 0"
  proof -
    have "pval B ip d t \<noteq> 0"
      using par nz pval_child [of p _ B ip d] pval_child [of _ t B ip d] by (auto simp: entry_def split: if_splits)
    then show ?thesis using grownD(6) [OF g] bmap_postD(3) [OF q] pp nz by auto
  qed
  ultimately show ?thesis
    using bmap_postD(2,4,5) [OF q] pp dev by (auto simp: bmap_post_def)
qed

lemma bmap_spec:
  assumes B: "bio_laws B" and sb: "sb_ok sb" and mu: "meta_used B sb (i_dev ip) d" and wf: "iwf B sb ip d"
    and bn: "bn < MAXFILE"
  shows "\<exists>addr ip' d'. bmap B sb ip bn d = Some (addr, ip', d') \<and> bmap_post B sb (pos_of bn) ip d addr ip' d'"
proof -
  have ok: "pos_ok (pos_of bn)" using pos_of_ok [OF bn] .
  consider (dir) "bn < NDIRECT" | (ind) "\<not> bn < NDIRECT" "bn - NDIRECT < NINDIRECT"
    | (dbl) "\<not> bn < NDIRECT" "\<not> bn - NDIRECT < NINDIRECT" by blast
  then show ?thesis
  proof cases
    case dir
    obtain addr ip' d' where r: "bmap_addr B sb ip bn d = (addr, ip', d')" by (metis surj_pair)
    have "grown B sb ip d (pos_of bn) addr ip' d'"
      using bmap_addr_grown [OF B sb mu wf _ r] dir by (simp add: pos_of_def)
    then show ?thesis using grown_post ok r dir by (auto simp: bmap_def)
  next
    case ind
    let ?p = "pos_of bn"
    have pp: "parent_pos ?p = Some Ind" "entry_idx ?p = bn - NDIRECT" using ind by (auto simp: pos_of_def)
    obtain t ip1 d1 where r: "bmap_addr B sb ip NDIRECT d = (t, ip1, d1)" by (metis surj_pair)
    have g: "grown B sb ip d Ind t ip1 d1" using bmap_addr_grown [OF B sb mu wf _ r] by simp
    show ?thesis
    proof (cases "t = 0")
      case True
      then show ?thesis using table_fail_post [of B sb ip d Ind ip1 d1 ?p] g pp ok r ind by (auto simp: bmap_def)
    next
      case False
      have dev: "i_dev ip1 = i_dev ip" using grownD(3) [OF g] by (simp add: same_meta_simps)
      obtain addr d2 where r2: "bmap_entry B sb (i_dev ip1) t (entry_idx ?p) d1 = (addr, d2)" by fastforce
      have "grown B sb ip1 d1 ?p addr ip1 d2"
        using bmap_entry_grown [OF B sb _ grownD(1) [OF g] pp(1) ok _ False r2] grownD(2) [OF g] grownD(5) [OF g False, of Ind]
        by (simp add: dev)
      then have "bmap_post B sb ?p ip d addr ip1 d2"
        using post_after_table [OF g False _ _ grown_post [OF _ ok] ok pos_of_leaf] pp by simp
      then show ?thesis using r r2 False ind pp by (simp add: bmap_def)
    qed
  next
    case dbl
    let ?p = "pos_of bn" and ?n = "bn - NDIRECT - NINDIRECT"
    let ?i = "?n div NINDIRECT"
    have n: "?n < NDOUBLY_INDIRECT" using bn dbl by (simp add: MAXFILE_def)
    have pp: "parent_pos ?p = Some (DblI ?i)" "entry_idx ?p = ?n mod NINDIRECT" using dbl by (auto simp: pos_of_def)
    have iok: "pos_ok (DblI ?i)" using parent_ok [OF pp(1) ok] by simp
    obtain t ip1 d1 where r: "bmap_addr B sb ip (NDIRECT + 1) d = (t, ip1, d1)" by (metis surj_pair)
    have g: "grown B sb ip d Dbl t ip1 d1" using bmap_addr_grown [OF B sb mu wf _ r] by simp
    show ?thesis
    proof (cases "t = 0")
      case True
      then show ?thesis using table_fail_post [of B sb ip d Dbl ip1 d1 ?p] g pp ok r dbl n by (simp add: bmap_def)
    next
      case False
      have dev: "i_dev ip1 = i_dev ip" using grownD(3) [OF g] by (simp add: same_meta_simps)
      obtain t2 d2 where r2: "bmap_entry B sb (i_dev ip1) t (entry_idx (DblI ?i)) d1 = (t2, d2)" by fastforce
      have g2: "grown B sb ip1 d1 (DblI ?i) t2 ip1 d2"
        using bmap_entry_grown [OF B sb _ grownD(1) [OF g] _ iok _ False r2] grownD(2) [OF g] grownD(5) [OF g False, of Dbl]
        by (simp add: dev)
      show ?thesis
      proof (cases "t2 = 0")
        case True
        have "bmap_post B sb ?p ip1 d1 0 ip1 d2"
          using table_fail_post [of B sb ip1 d1 "DblI ?i" ip1 d2 ?p] g2 True pp ok iok by simp
        then have "bmap_post B sb ?p ip d 0 ip1 d2"
          using post_after_table [OF g False _ _ _ ok pos_of_leaf] pp by simp
        then show ?thesis using r r2 True False dbl n by (simp add: bmap_def)
      next
        case t2: False
        obtain addr d3 where r3: "bmap_entry B sb (i_dev ip1) t2 (entry_idx ?p) d2 = (addr, d3)" by fastforce
        have "grown B sb ip1 d2 ?p addr ip1 d3"
          using bmap_entry_grown [OF B sb _ grownD(1) [OF g2] pp(1) ok _ t2 r3] grownD(2) [OF g2] grownD(5) [OF g2 t2 iok]
          by simp
        then have "bmap_post B sb ?p ip1 d1 addr ip1 d3"
          using post_after_table [OF g2 t2 iok _ grown_post [OF _ ok] ok pos_of_leaf] pp by simp
        then have "bmap_post B sb ?p ip d addr ip1 d3"
          using post_after_table [OF g False _ _ _ ok pos_of_leaf] pp by simp
        then show ?thesis using r r2 r3 t2 False dbl n pp by (simp add: bmap_def)
      qed
    qed
  qed
qed

lemma bmap_None_iff: "bmap B sb ip bn d = None \<longleftrightarrow> MAXFILE \<le> bn"
  by (auto simp: bmap_def MAXFILE_def Let_def split: if_splits prod.splits)

subsection \<open>Truncation frees what the positions hold\<close>

definition freed :: "'d bio \<Rightarrow> superblock \<Rightarrow> u32 \<Rightarrow> u32 set \<Rightarrow> 'd \<Rightarrow> 'd \<Rightarrow> bool" where
  "freed B sb dev S d d' \<longleftrightarrow>
     (\<forall>n<unat (sb_size sb). bused B sb dev d' n \<longleftrightarrow> bused B sb dev d n \<and> n \<notin> unat ` S) \<and>
     (\<forall>dev' b. \<not> (dev' = dev \<and> is_bmap sb b) \<longrightarrow> bread B dev' b d' = bread B dev' b d)"

lemma freed_refl: "freed B sb dev {} d d"
  by (simp add: freed_def)

lemma freed_trans: "freed B sb dev S d d1 \<Longrightarrow> freed B sb dev T d1 d2 \<Longrightarrow> freed B sb dev (S \<union> T) d d2"
  by (auto simp: freed_def)

lemma freed_bread: "freed B sb dev S d d' \<Longrightarrow> sb_ok sb \<Longrightarrow> data_block sb b \<Longrightarrow> bread B dev' b d' = bread B dev' b d"
  using data_block_not_bmap by (auto simp: freed_def)

lemma free_addrs_append:
  "free_addrs B sb dev (xs @ ys) d = Option.bind (free_addrs B sb dev xs d) (free_addrs B sb dev ys)"
  by (induction xs arbitrary: d) (auto simp: Option.bind_assoc split: Option.bind_splits)

lemma free_addrs_zero: "\<forall>x\<in>set xs. x = 0 \<Longrightarrow> free_addrs B sb dev xs d = Some d"
  by (induction xs) auto

lemma free_addrs_spec:
  assumes "bio_laws B" and "sb_ok sb" and "distinct (filter (\<lambda>x. x \<noteq> 0) xs)"
    and "\<And>x. x \<in> set xs \<Longrightarrow> x \<noteq> 0 \<Longrightarrow> data_block sb x \<and> bused B sb dev d (unat x)"
  shows "\<exists>d'. free_addrs B sb dev xs d = Some d' \<and> freed B sb dev (set xs - {0}) d d'"
  using assms(3,4)
proof (induction xs arbitrary: d)
  case Nil
  then show ?case by (simp add: freed_refl)
next
  case (Cons x xs)
  show ?case
  proof (cases "x = 0")
    case True
    then show ?thesis using Cons.IH [of d] Cons.prems by simp
  next
    case False
    have x: "data_block sb x" "bused B sb dev d (unat x)" using Cons.prems(2) [of x] False by auto
    obtain d1 where d1: "bfree B sb dev x d = Some d1"
      using x(2) bfree_None_iff [of B sb dev x d] by auto
    have lt: "unat x < unat (sb_size sb)" using x(1) by (simp add: data_block_def)
    have f1: "freed B sb dev {x} d d1"
      using bfree_spec [OF assms(1,2) lt d1] by (auto simp: freed_def)
    have "data_block sb y \<and> bused B sb dev d1 (unat y)" if "y \<in> set xs" "y \<noteq> 0" for y
    proof -
      have "unat y \<noteq> unat x" using Cons.prems(1) that False by (auto simp flip: word_unat_eq_iff)
      then show ?thesis using Cons.prems(2) [of y] that f1 by (auto simp: freed_def data_block_def)
    qed
    then obtain d2 where d2: "free_addrs B sb dev xs d1 = Some d2" "freed B sb dev (set xs - {0}) d1 d2"
      using Cons.IH [of d1] Cons.prems(1) False by auto
    have "set (x # xs) - {0} = {x} \<union> (set xs - {0})" using False by auto
    then show ?thesis using d1 d2 freed_trans [OF f1 d2(2)] False by simp
  qed
qed

lemma free_addrs_freed:
  "bio_laws B \<Longrightarrow> sb_ok sb \<Longrightarrow> \<forall>x\<in>set xs. x \<noteq> 0 \<longrightarrow> data_block sb x \<Longrightarrow> free_addrs B sb dev xs d = Some d' \<Longrightarrow>
     freed B sb dev (set xs - {0}) d d'"
proof (induction xs arbitrary: d)
  case Nil
  then show ?case by (simp add: freed_refl)
next
  case (Cons x xs)
  show ?case
  proof (cases "x = 0")
    case True
    then show ?thesis using Cons by simp
  next
    case False
    then obtain d1 where d1: "bfree B sb dev x d = Some d1" "free_addrs B sb dev xs d1 = Some d'"
      using Cons.prems(4) by (auto split: Option.bind_splits)
    have f: "freed B sb dev {x} d d1"
      using bfree_spec [OF Cons.prems(1,2) _ d1(1)] Cons.prems(3) False by (auto simp: freed_def data_block_def)
    have "set (x # xs) - {0} = {x} \<union> (set xs - {0})" using False by auto
    then show ?thesis using freed_trans [OF f Cons.IH [OF Cons.prems(1,2) _ d1(2)]] Cons.prems(3) by simp
  qed
qed

text \<open>Every position, in the order in which \<^verbatim>\<open>itrunc\<close> frees them.\<close>

definition dbl_pos :: "nat \<Rightarrow> pos list" where
  "dbl_pos i = map (DblE i) [0..<NINDIRECT] @ [DblI i]"

definition all_pos :: "pos list" where
  "all_pos = map Dir [0..<NDIRECT] @ (map IndE [0..<NINDIRECT] @ [Ind]) @ (concat (map dbl_pos [0..<NINDIRECT]) @ [Dbl])"

lemma set_all_pos: "p \<in> set all_pos \<longleftrightarrow> pos_ok p"
  by (cases p) (force simp: all_pos_def dbl_pos_def)+

lemma distinct_all_pos: "distinct all_pos"
proof -
  have "distinct (concat (map dbl_pos is))" if "distinct is" for "is"
    using that
  proof (induction "is")
    case Nil
    then show ?case by simp
  next
    case (Cons i "is")
    have "distinct (dbl_pos i)" by (auto simp: dbl_pos_def distinct_map inj_on_def)
    then show ?case using Cons by (auto simp: dbl_pos_def)
  qed
  then show ?thesis by (auto simp: all_pos_def dbl_pos_def distinct_map inj_on_def)
qed

definition owned :: "'d bio \<Rightarrow> inode \<Rightarrow> 'd \<Rightarrow> u32 set" where
  "owned B ip d = {pval B ip d p |p. pos_ok p \<and> pval B ip d p \<noteq> 0}"

lemma distinct_pvals:
  assumes "iwf B sb ip d" and "distinct ps" and "\<forall>p\<in>set ps. pos_ok p"
  shows "distinct (filter (\<lambda>x. x \<noteq> 0) (map (pval B ip d) ps))"
  using assms(2,3)
proof (induction ps)
  case Nil
  then show ?case by simp
next
  case (Cons p ps)
  have "pval B ip d p \<notin> pval B ip d ` set ps" if nz: "pval B ip d p \<noteq> 0"
  proof
    assume "pval B ip d p \<in> pval B ip d ` set ps"
    then obtain q where q: "q \<in> set ps" "pval B ip d p = pval B ip d q" by blast
    have "pos_ok p" "pos_ok q" using Cons.prems(2) q(1) by simp_all
    then have "p = q" using iwfD(4) [OF assms(1)] nz q(2) by blast
    then show False using Cons.prems(1) q(1) by simp
  qed
  then show ?case using Cons.IH Cons.prems by auto
qed

lemma free_all_pos:
  assumes "bio_laws B" and "sb_ok sb" and wf: "iwf B sb ip d"
  shows "\<exists>d'. free_addrs B sb (i_dev ip) (map (pval B ip d) all_pos) d = Some d' \<and>
    freed B sb (i_dev ip) (owned B ip d) d d'"
proof -
  have own: "set (map (pval B ip d) all_pos) - {0} = owned B ip d"
    using set_all_pos by (auto simp: owned_def)
  have "\<exists>d'. free_addrs B sb (i_dev ip) (map (pval B ip d) all_pos) d = Some d' \<and>
    freed B sb (i_dev ip) (set (map (pval B ip d) all_pos) - {0}) d d'"
  proof (rule free_addrs_spec [OF assms(1,2)])
    show "distinct (filter (\<lambda>x. x \<noteq> 0) (map (pval B ip d) all_pos))"
      using distinct_pvals [OF wf distinct_all_pos] set_all_pos by blast
    fix x assume "x \<in> set (map (pval B ip d) all_pos)" and "x \<noteq> 0"
    then show "data_block sb x \<and> bused B sb (i_dev ip) d (unat x)"
      using iwfD(2,3) [OF wf] set_all_pos by auto
  qed
  then show ?thesis unfolding own .
qed

lemma itrunc_direct_eq:
  assumes "distinct is"
  shows "itrunc_direct B sb is ip d =
    map_option (\<lambda>d'. (ip\<lparr>i_addrs := foldl (\<lambda>as i. as[i := 0]) (i_addrs ip) is\<rparr>, d'))
      (free_addrs B sb (i_dev ip) (map ((!) (i_addrs ip)) is) d)"
  using assms
proof (induction "is" arbitrary: ip d)
  case Nil
  then show ?case by simp
next
  case (Cons i "is")
  have m: "map ((!) ((i_addrs ip)[i := 0])) is = map ((!) (i_addrs ip)) is"
    using Cons.prems by (auto simp: nth_list_update_if)
  have z: "(i_addrs ip)[i := 0] = i_addrs ip" if "i_addrs ip ! i = 0" using that by (metis list_update_id)
  show ?case
  proof (cases "i_addrs ip ! i = 0")
    case True
    then show ?thesis using Cons by (simp add: z)
  next
    case False
    show ?thesis
    proof (cases "bfree B sb (i_dev ip) (i_addrs ip ! i) d")
      case None
      then show ?thesis using False by simp
    next
      case (Some d1)
      then show ?thesis
        using False Cons.IH [of "ip\<lparr>i_addrs := (i_addrs ip)[i := 0]\<rparr>" d1] Cons.prems m by simp
    qed
  qed
qed

lemma nth_zeroed: "j < length as \<Longrightarrow> foldl (\<lambda>as i. as[i := 0]) as is ! j = (if j \<in> set is then 0 else as ! j)"
  by (induction "is" arbitrary: as) (auto simp: nth_list_update_if)

lemma length_zeroed: "length (foldl (\<lambda>as i. as[i := 0]) as is) = length as"
  by (induction "is" arbitrary: as) auto

lemma table_entries: "t \<noteq> 0 \<Longrightarrow> table B dev t d = map (entry B dev d t) [0..<NINDIRECT]"
  by (simp add: table_def entry_def)

lemma table_absent: "free_addrs B sb dev (map (entry B dev' d' 0) js) d = Some d"
  by (intro free_addrs_zero) (auto simp: entry_def)

lemma itrunc_indirect_eq:
  "itrunc_indirect B sb ip d =
    map_option (\<lambda>d'. (ip\<lparr>i_addrs := (i_addrs ip)[NDIRECT := 0]\<rparr>, d'))
      (free_addrs B sb (i_dev ip) (map (pval B ip d) (map IndE [0..<NINDIRECT] @ [Ind])) d)"
proof (cases "i_addrs ip ! NDIRECT = 0")
  case True
  then have "(i_addrs ip)[NDIRECT := 0] = i_addrs ip" by (metis list_update_id)
  then show ?thesis
    using True table_absent [of B sb "i_dev ip" "i_dev ip" d "[0..<NINDIRECT]" d]
    by (simp add: itrunc_indirect_def free_addrs_append comp_def)
next
  case False
  then show ?thesis
    by (simp add: itrunc_indirect_def free_addrs_append table_entries comp_def Let_def split: Option.bind_splits)
qed

text \<open>Freeing the second-level tables one after another is freeing the entries below them, as they
  stand before the first block is freed.\<close>

lemma free_tables_eq:
  assumes B: "bio_laws B" and sb: "sb_ok sb"
    and f: "\<And>i. i \<in> set is \<Longrightarrow> g i \<noteq> 0 \<Longrightarrow> data_block sb (g i) \<and>
      (\<forall>j<NINDIRECT. entry B dev d0 (g i) j \<noteq> 0 \<longrightarrow> data_block sb (entry B dev d0 (g i) j))"
    and d0: "\<And>b. data_block sb b \<Longrightarrow> bread B dev b d = bread B dev b d0"
  shows "free_tables B sb dev (map g is) d =
    free_addrs B sb dev (concat (map (\<lambda>i. map (entry B dev d0 (g i)) [0..<NINDIRECT] @ [g i]) is)) d"
  using f d0
proof (induction "is" arbitrary: d)
  case Nil
  then show ?case by simp
next
  case (Cons i "is")
  show ?case
  proof (cases "g i = 0")
    case True
    have "free_addrs B sb dev (map (entry B dev d0 (g i)) [0..<NINDIRECT] @ [g i]) d = Some d"
      unfolding True free_addrs_append table_absent by simp
    then show ?thesis
      using True Cons.IH [OF Cons.prems] by (simp del: append_assoc add: free_addrs_append)
  next
    case False
    note gi = Cons.prems(1) [of i, simplified, OF False]
    have t: "table B dev (g i) d = map (entry B dev d0 (g i)) [0..<NINDIRECT]"
      using False Cons.prems(2) gi by (simp add: table_def entry_def)
    let ?xs = "map (entry B dev d0 (g i)) [0..<NINDIRECT] @ [g i]"
    show ?thesis
    proof (cases "free_addrs B sb dev ?xs d")
      case None
      then show ?thesis
        using False by (simp add: t free_addrs_append Cons.IH split: Option.bind_splits) 
    next
      case (Some d1)
      have dx: "\<forall>x\<in>set ?xs. x \<noteq> 0 \<longrightarrow> data_block sb x" using gi by auto
      have "bread B dev b d1 = bread B dev b d0" if "data_block sb b" for b
        using freed_bread [OF free_addrs_freed [OF B sb dx Some] sb that, of dev] Cons.prems(2) [OF that] by simp
      then have IH: "free_tables B sb dev (map g is) d1 = free_addrs B sb dev
          (concat (map (\<lambda>i. map (entry B dev d0 (g i)) [0..<NINDIRECT] @ [g i]) is)) d1"
        using Cons.IH Cons.prems(1) by simp
      have "free_tables B sb dev (map g (i # is)) d = Option.bind (free_addrs B sb dev ?xs d) (free_tables B sb dev (map g is))"
        using False by (simp add: t free_addrs_append Option.bind_assoc)
      moreover have "free_addrs B sb dev (concat (map (\<lambda>i. map (entry B dev d0 (g i)) [0..<NINDIRECT] @ [g i]) (i # is))) d =
        Option.bind (free_addrs B sb dev ?xs d)
          (free_addrs B sb dev (concat (map (\<lambda>i. map (entry B dev d0 (g i)) [0..<NINDIRECT] @ [g i]) is)))"
        by (simp only: list.map concat.simps free_addrs_append)
      ultimately show ?thesis by (simp only: Some IH Option.bind.simps)
    qed
  qed
qed

lemma itrunc_double_eq:
  assumes B: "bio_laws B" and sb: "sb_ok sb"
    and db: "\<And>p. pos_ok p \<Longrightarrow> pval B ip d p \<noteq> 0 \<Longrightarrow> p \<in> set (concat (map dbl_pos [0..<NINDIRECT])) \<Longrightarrow> data_block sb (pval B ip d p)"
  shows "itrunc_double B sb ip d =
    map_option (\<lambda>d'. (ip\<lparr>i_addrs := (i_addrs ip)[NDIRECT + 1 := 0]\<rparr>, d'))
      (free_addrs B sb (i_dev ip) (map (pval B ip d) (concat (map dbl_pos [0..<NINDIRECT]) @ [Dbl])) d)"
proof (cases "i_addrs ip ! (NDIRECT + 1) = 0")
  case True
  then have "(i_addrs ip)[NDIRECT + 1 := 0] = i_addrs ip" by (metis list_update_id)
  moreover have "\<forall>x\<in>set (map (pval B ip d) (concat (map dbl_pos [0..<NINDIRECT]) @ [Dbl])). x = 0"
    using True by (auto simp: dbl_pos_def entry_def)
  ultimately show ?thesis
    using True by (simp only: free_addrs_zero) (simp add: itrunc_double_def)
next
  case False
  let ?t = "i_addrs ip ! (NDIRECT + 1)" and ?dev = "i_dev ip"
  have m: "map (pval B ip d) (concat (map dbl_pos is)) =
      concat (map (\<lambda>i. map (entry B ?dev d (entry B ?dev d ?t i)) [0..<NINDIRECT] @ [entry B ?dev d ?t i]) is)" for "is"
    by (induction "is") (auto simp: dbl_pos_def)
  have "free_tables B sb ?dev (map (entry B ?dev d ?t) [0..<NINDIRECT]) d =
      free_addrs B sb ?dev (map (pval B ip d) (concat (map dbl_pos [0..<NINDIRECT]))) d"
    unfolding m
  proof (rule free_tables_eq [OF B sb])
    fix i assume i: "i \<in> set [0..<NINDIRECT]" "entry B ?dev d ?t i \<noteq> 0"
    have "data_block sb (pval B ip d (DblI i))" using i by (intro db) (auto simp: dbl_pos_def)
    moreover have "data_block sb (pval B ip d (DblE i j))" if "j < NINDIRECT" "pval B ip d (DblE i j) \<noteq> 0" for j
      using i that by (intro db) (force simp: dbl_pos_def)+
    ultimately show "data_block sb (entry B ?dev d ?t i) \<and>
      (\<forall>j<NINDIRECT. entry B ?dev d (entry B ?dev d ?t i) j \<noteq> 0 \<longrightarrow> data_block sb (entry B ?dev d (entry B ?dev d ?t i) j))"
      by simp
  qed simp
  then show ?thesis
    using False by (simp add: itrunc_double_def free_addrs_append table_entries Let_def split: Option.bind_splits)
qed

definition cleared :: "inode \<Rightarrow> inode" where
  "cleared ip = ip\<lparr>i_addrs := replicate (NDIRECT + 2) 0, i_size := 0\<rparr>"

lemma zeroed_addrs:
  assumes "length as = NDIRECT + 2"
  shows "(foldl (\<lambda>as i. as[i := 0]) as [0..<NDIRECT])[NDIRECT := 0, NDIRECT + 1 := 0] = replicate (NDIRECT + 2) (0 :: u32)"
proof (rule nth_equalityI)
  show "length ((foldl (\<lambda>as i. as[i := 0]) as [0..<NDIRECT])[NDIRECT := 0, NDIRECT + 1 := 0]) = length (replicate (NDIRECT + 2) (0 :: u32))"
    using assms by (simp add: length_zeroed)
  fix j assume "j < length ((foldl (\<lambda>as i. as[i := 0]) as [0..<NDIRECT])[NDIRECT := 0, NDIRECT + 1 := 0])"
  then have "j < NDIRECT + 2" using assms by (simp add: length_zeroed)
  then show "(foldl (\<lambda>as i. as[i := 0]) as [0..<NDIRECT])[NDIRECT := 0, NDIRECT + 1 := 0] ! j = replicate (NDIRECT + 2) (0 :: u32) ! j"
    using assms nth_zeroed [of j as "[0..<NDIRECT]"]
    by (auto simp: nth_list_update_if length_zeroed nth_replicate simp del: replicate_Suc)
qed

lemma free_addrs_split3:
  assumes "free_addrs B sb dev (map h (xs @ ys @ zs)) d = Some d3"
  obtains d1 d2 where "free_addrs B sb dev (map h xs) d = Some d1" "free_addrs B sb dev (map h ys) d1 = Some d2"
    "free_addrs B sb dev (map h zs) d2 = Some d3"
  using assms by (auto simp: free_addrs_append bind_eq_Some_conv)

lemma itrunc_eq:
  assumes B: "bio_laws B" and sb: "sb_ok sb" and wf: "iwf B sb ip d"
  shows "\<exists>d1. itrunc B sb ip d = Some (cleared ip, iupdate B sb (cleared ip) d1) \<and>
    freed B sb (i_dev ip) (owned B ip d) d d1"
proof -
  let ?dev = "i_dev ip" and ?A = "map Dir [0..<NDIRECT]" and ?I = "map IndE [0..<NINDIRECT] @ [Ind]"
    and ?D = "concat (map dbl_pos [0..<NINDIRECT]) @ [Dbl]"
  let ?f = "\<lambda>ps. free_addrs B sb ?dev (map (pval B ip d) ps)"
  obtain d3 where d3: "?f all_pos d = Some d3" "freed B sb ?dev (owned B ip d) d d3"
    using free_all_pos [OF B sb wf] by blast
  obtain d1 d2 where d1: "?f ?A d = Some d1" and d2: "?f ?I d1 = Some d2" and d3': "?f ?D d2 = Some d3"
    using free_addrs_split3 [OF d3(1) [unfolded all_pos_def]] by blast
  have dat: "\<forall>x\<in>set (map (pval B ip d) ps). x \<noteq> 0 \<longrightarrow> data_block sb x" if "\<forall>p\<in>set ps. pos_ok p" for ps
    using that iwfD(2) [OF wf] by auto
  have ok: "\<forall>p\<in>set ?A. pos_ok p" "\<forall>p\<in>set ?I. pos_ok p" "\<forall>p\<in>set ?D. pos_ok p"
    by (auto simp: dbl_pos_def)
  have b1: "bread B ?dev b d1 = bread B ?dev b d" if "data_block sb b" for b
    using freed_bread [OF free_addrs_freed [OF B sb dat [OF ok(1)] d1] sb that] .
  then have b2: "bread B ?dev b d2 = bread B ?dev b d" if "data_block sb b" for b
    using freed_bread [OF free_addrs_freed [OF B sb dat [OF ok(2)] d2] sb that] that by simp
  define ip1 where "ip1 = ip\<lparr>i_addrs := foldl (\<lambda>as i. as[i := 0]) (i_addrs ip) [0..<NDIRECT]\<rparr>"
  define ip2 where "ip2 = ip1\<lparr>i_addrs := (i_addrs ip1)[NDIRECT := 0]\<rparr>"
  have len: "length (i_addrs ip) = NDIRECT + 2" using iwfD(1) [OF wf] .
  have dev: "i_dev ip1 = ?dev" "i_dev ip2 = ?dev" by (simp_all add: ip1_def ip2_def)
  have tl: "i_addrs ip1 ! NDIRECT = i_addrs ip ! NDIRECT" "i_addrs ip2 ! (NDIRECT + 1) = i_addrs ip ! (NDIRECT + 1)"
    using len by (simp_all add: ip1_def ip2_def nth_zeroed length_zeroed)
  have cong: "pval B ip d' p = pval B ip d p"
    if "pos_ok p" "\<And>b. data_block sb b \<Longrightarrow> bread B ?dev b d' = bread B ?dev b d" for d' p
    using that iwfD(2) [OF wf] by (intro pval_cong) auto
  have pv1: "pval B ip1 d1 p = pval B ip d p" if "p \<in> set ?I" for p
    using that ok(2) cong [OF _ b1, of p] tl(1) dev(1) by auto
  have pv2: "pval B ip2 d2 p = pval B ip d p" if "p \<in> set ?D" for p
    using that ok(3) cong [OF _ b2, of p] tl(2) dev(2) by (auto simp: dbl_pos_def)
  have 1: "itrunc_direct B sb [0..<NDIRECT] ip d = Some (ip1, d1)"
    using d1 by (simp add: itrunc_direct_eq ip1_def comp_def)
  have 2: "itrunc_indirect B sb ip1 d1 = Some (ip2, d2)"
  proof -
    have "map (pval B ip1 d1) ?I = map (pval B ip d) ?I" by (intro map_cong refl pv1)
    then show ?thesis using d2 by (simp only: itrunc_indirect_eq dev ip2_def option.map)
  qed
  have "itrunc_double B sb ip2 d2 = map_option (\<lambda>d'. (ip2\<lparr>i_addrs := (i_addrs ip2)[NDIRECT + 1 := 0]\<rparr>, d'))
      (free_addrs B sb (i_dev ip2) (map (pval B ip2 d2) ?D) d2)"
    by (rule itrunc_double_eq [OF B sb]) (use pv2 iwfD(2) [OF wf] in auto)
  also have "map (pval B ip2 d2) ?D = map (pval B ip d) ?D" by (intro map_cong refl pv2)
  finally have 3: "itrunc_double B sb ip2 d2 = Some (ip2\<lparr>i_addrs := (i_addrs ip2)[NDIRECT + 1 := 0]\<rparr>, d3)"
    unfolding dev using d3' by simp
  have "ip2\<lparr>i_addrs := (i_addrs ip2)[NDIRECT + 1 := 0]\<rparr>\<lparr>i_size := 0\<rparr> = cleared ip"
    using zeroed_addrs [OF len] by (simp add: ip1_def ip2_def cleared_def)
  then have "itrunc B sb ip d = Some (cleared ip, iupdate B sb (cleared ip) d3)"
    using 1 2 3 by (simp add: itrunc_def Let_def)
  then show ?thesis using d3(2) by blast
qed

subsection \<open>Inode blocks\<close>

definition on_disk :: "'d bio \<Rightarrow> superblock \<Rightarrow> u32 \<Rightarrow> nat \<Rightarrow> 'd \<Rightarrow> dinode" where
  "on_disk B sb dev i d = rd_dinode (bread B dev (IBLOCK i sb) d) (64 * (i mod IPB))"

lemma unat_IBLOCK:
  assumes "sb_ok sb" and "i < unat (sb_ninodes sb)"
  shows "unat (IBLOCK i sb) = i div IPB + unat (sb_inodestart sb)" and "unat (IBLOCK i sb) < unat (sb_bmapstart sb)"
proof -
  have "i div 16 \<le> unat (sb_ninodes sb) div 16" using assms(2) by (intro div_le_mono) simp
  then have lt: "i div IPB + unat (sb_inodestart sb) < unat (sb_bmapstart sb)"
    using sb_okD(2) [OF assms(1)] by (simp add: IPB_def)
  then have "i div IPB + unat (sb_inodestart sb) < 2 ^ 32"
    using unsigned_less [of "sb_bmapstart sb", where ?'a = nat] by simp
  then show eq: "unat (IBLOCK i sb) = i div IPB + unat (sb_inodestart sb)"
    unfolding IBLOCK_def unat_word_ariths by (simp add: unat_of_nat)
  show "unat (IBLOCK i sb) < unat (sb_bmapstart sb)" using lt eq by simp
qed

lemma inode_block_not_bmap:
  assumes "sb_ok sb" and "i < unat (sb_ninodes sb)"
  shows "\<not> is_bmap sb (IBLOCK i sb)"
  using unat_IBLOCK(2) [OF assms] unat_BBLOCK [OF assms(1)] by (auto simp: is_bmap_def)

lemma inode_block_not_data:
  assumes "sb_ok sb" and "i < unat (sb_ninodes sb)" and "data_block sb b"
  shows "IBLOCK i sb \<noteq> b"
  using unat_IBLOCK(2) [OF assms(1,2)] assms(3) by (auto simp: data_block_def datastart_def)

lemma BBLOCK_not_inode_block:
  assumes "sb_ok sb" and "i < unat (sb_ninodes sb)" and "n < unat (sb_size sb)"
  shows "BBLOCK n sb \<noteq> IBLOCK i sb"
  using inode_block_not_bmap [OF assms(1,2)] BBLOCK_is_bmap [OF assms(3)] by metis

lemma IBLOCK_eq_iff:
  assumes "sb_ok sb" and "i < unat (sb_ninodes sb)" and "j < unat (sb_ninodes sb)"
  shows "IBLOCK i sb = IBLOCK j sb \<longleftrightarrow> i div IPB = j div IPB"
  using unat_IBLOCK(1) [OF assms(1,2)] unat_IBLOCK(1) [OF assms(1,3)]
  by (simp add: word_unat_eq_iff)

lemma bread_iupdate:
  "bio_laws B \<Longrightarrow> \<not> (dev = i_dev ip \<and> b = IBLOCK (unat (i_inum ip)) sb) \<Longrightarrow>
     bread B dev b (iupdate B sb ip d) = bread B dev b d"
  by (auto simp: iupdate_def Let_def bio_lawsD)

text \<open>\<^verbatim>\<open>iupdate\<close> writes this inode's image, which reads back, and no other inode's.\<close>

lemma on_disk_iupdate:
  assumes B: "bio_laws B" and sb: "sb_ok sb" and i: "i < unat (sb_ninodes sb)"
    and ip: "unat (i_inum ip) < unat (sb_ninodes sb)" "length (i_addrs ip) = NDIRECT + 2"
  shows "on_disk B sb dev i (iupdate B sb ip d) =
    (if dev = i_dev ip \<and> i = unat (i_inum ip) then dinode_of ip else on_disk B sb dev i d)"
proof (cases "dev = i_dev ip \<and> IBLOCK i sb = IBLOCK (unat (i_inum ip)) sb")
  case False
  then show ?thesis using bread_iupdate [OF B, of dev ip "IBLOCK i sb" sb d] by (auto simp: on_disk_def)
next
  case True
  let ?n = "unat (i_inum ip)" and ?a = "bread B dev (IBLOCK i sb) d"
  have r: "bread B dev (IBLOCK i sb) (iupdate B sb ip d) = wr_dinode ?a (64 * (?n mod IPB)) (dinode_of ip)"
    using True by (simp add: iupdate_def Let_def bio_lawsD [OF B])
  have dv: "i div IPB = ?n div IPB" using True IBLOCK_eq_iff [OF sb i ip(1)] by simp
  show ?thesis
  proof (cases "i = ?n")
    case True
    then show ?thesis
      using r \<open>dev = i_dev ip \<and> _\<close> ip(2) by (simp add: on_disk_def dinode_roundtrip dinode_of_def)
  next
    case False
    then have ne: "i mod IPB \<noteq> ?n mod IPB" using dv div_mod_eqI by blast
    have "wr_dinode ?a (64 * (?n mod IPB)) (dinode_of ip) (64 * (i mod IPB) + k) = ?a (64 * (i mod IPB) + k)" if "k < 64" for k
      using ne that ip(2) by (intro wr_dinode_other) (auto simp: dinode_of_def)
    then show ?thesis
      using r False by (auto simp: on_disk_def intro!: rd_dinode_cong)
  qed
qed

subsection \<open>Properties of the block map\<close>

lemma fblock_inj:
  "iwf B sb ip d \<Longrightarrow> n < MAXFILE \<Longrightarrow> m < MAXFILE \<Longrightarrow> fblock B ip d n \<noteq> 0 \<Longrightarrow> fblock B ip d n = fblock B ip d m \<Longrightarrow> n = m"
  unfolding fblock_def by (rule pos_of_inj, rule iwfD(4)) (simp_all add: pos_of_ok)

lemma iwf_used_lt:
  "iwf B sb ip d \<Longrightarrow> pos_ok p \<Longrightarrow> pval B ip d p \<noteq> 0 \<Longrightarrow> unat (pval B ip d p) < unat (sb_size sb)"
  by (frule (2) iwfD(2)) (simp add: data_block_def)

text \<open>A file's data block is no table of the same file, so extending the map keeps its contents.\<close>

lemma extends_data:
  assumes sb: "sb_ok sb" and wf: "iwf B sb ip d" and e: "extends B sb p ip d ip' d'" and n: "n < MAXFILE"
    and nz: "fblock B ip d n \<noteq> 0"
  shows "fblock B ip' d' n = fblock B ip d n"
    and "bread B (i_dev ip) (fblock B ip d n) d' = bread B (i_dev ip) (fblock B ip d n) d"
proof -
  have ok: "pos_ok (pos_of n)" and nz': "pval B ip d (pos_of n) \<noteq> 0" using pos_of_ok [OF n] nz by (auto simp: fblock_def)
  show "fblock B ip' d' n = fblock B ip d n"
    using extendsD(4) [OF e ok] nz' by (auto simp: fblock_def)
  have "pval B ip d q \<noteq> pval B ip d (pos_of n)" if "pos_ok q" "is_table q" for q
    using iwfD(4) [OF wf ok that(1) nz'] pos_of_leaf that(2) by metis
  then show "bread B (i_dev ip) (fblock B ip d n) d' = bread B (i_dev ip) (fblock B ip d n) d"
    unfolding fblock_def
    using extendsD(7) [OF e] data_block_not_bmap [OF sb iwfD(2) [OF wf ok nz']] iwf_used_lt [OF wf ok nz'] iwfD(3) [OF wf ok nz']
    by blast
qed

text \<open>
  Property C11. For every block number below \<^verbatim>\<open>MAXFILE\<close>, \<^verbatim>\<open>bmap\<close> on a well-formed inode returns. A mapped
  block keeps its address and nothing changes. Otherwise the result is a block that was free, is now
  marked in use, is zeroed and is the file's block \<open>bn\<close>, or it is 0 and every block of the disk is in
  use. In all cases the inode stays well formed, every other block of the file keeps its address, and
  every mapped data block keeps its contents.\<close>

theorem bmap_maps_block:
  assumes "bio_laws B" and "sb_ok sb" and "meta_used B sb (i_dev ip) d" and "iwf B sb ip d" and "bn < MAXFILE"
  shows "\<exists>addr ip' d'. bmap B sb ip bn d = Some (addr, ip', d') \<and> iwf B sb ip' d' \<and>
     meta_used B sb (i_dev ip) d' \<and> fblock B ip' d' bn = addr \<and>
     (fblock B ip d bn \<noteq> 0 \<longrightarrow> addr = fblock B ip d bn \<and> ip' = ip \<and> d' = d) \<and>
     (fblock B ip d bn = 0 \<and> addr \<noteq> 0 \<longrightarrow> \<not> bused B sb (i_dev ip) d (unat addr) \<and>
        bused B sb (i_dev ip) d' (unat addr) \<and> (\<forall>i<BSIZE. bread B (i_dev ip) addr d' i = 0)) \<and>
     (addr = 0 \<longrightarrow> (\<forall>n<unat (sb_size sb). bused B sb (i_dev ip) d' n)) \<and>
     (\<forall>m<MAXFILE. m \<noteq> bn \<longrightarrow> fblock B ip' d' m = fblock B ip d m) \<and>
     (\<forall>m<MAXFILE. fblock B ip d m \<noteq> 0 \<longrightarrow>
        bread B (i_dev ip) (fblock B ip d m) d' = bread B (i_dev ip) (fblock B ip d m) d)"
proof -
  obtain addr ip' d' where r: "bmap B sb ip bn d = Some (addr, ip', d')"
    and q: "bmap_post B sb (pos_of bn) ip d addr ip' d'" using bmap_spec [OF assms] by blast
  note e = bmap_postD(1) [OF q]
  have ok: "pos_ok (pos_of bn)" using pos_of_ok [OF assms(5)] .
  have f: "fblock B ip' d' bn = addr" using bmap_postD(2) [OF q] by (simp add: fblock_def)
  have dev: "i_dev ip' = i_dev ip" using extendsD(3) [OF e] by (simp add: same_meta_simps)
  have other: "fblock B ip' d' m = fblock B ip d m" if "m < MAXFILE" "m \<noteq> bn" for m
    using extendsD(4) [OF e pos_of_ok [OF that(1)]] pos_of_leaf pos_of_inj [of m bn] that(2) by (auto simp: fblock_def)
  have fresh: "\<not> bused B sb (i_dev ip) d (unat addr) \<and> bused B sb (i_dev ip) d' (unat addr)"
    if "fblock B ip d bn = 0" "addr \<noteq> 0"
    using extendsD(4) [OF e ok] iwfD(3) [OF extendsD(1) [OF e] ok] that f dev by (auto simp: fblock_def)
  show ?thesis
    using r f e q other fresh extends_data(2) [OF assms(2,4) e] extendsD(1,2) [OF e] bmap_postD(3,4,5) [OF q]
    by (intro exI [of _ addr] exI [of _ ip'] exI [of _ d']) (auto simp: fblock_def)
qed

text \<open>
  Two different block numbers of a file are never given the same disk block: mapping \<open>n\<close>
  and then \<open>m\<close> yields different addresses whenever space was available for both.\<close>

theorem bmap_distinct_blocks:
  assumes "bio_laws B" and "sb_ok sb" and "meta_used B sb (i_dev ip) d" and "iwf B sb ip d"
    and "n < MAXFILE" and "m < MAXFILE" and "n \<noteq> m"
    and "bmap B sb ip n d = Some (a, ip1, d1)" and "bmap B sb ip1 m d1 = Some (b, ip2, d2)" and "a \<noteq> 0"
  shows "a \<noteq> b"
proof -
  have q1: "bmap_post B sb (pos_of n) ip d a ip1 d1" using bmap_spec [OF assms(1-5)] assms(8) by auto
  note e1 = bmap_postD(1) [OF q1]
  have dev: "i_dev ip1 = i_dev ip" using extendsD(3) [OF e1] by (simp add: same_meta_simps)
  have q2: "bmap_post B sb (pos_of m) ip1 d1 b ip2 d2"
    using bmap_spec [OF assms(1,2) _ extendsD(1) [OF e1] assms(6)] extendsD(2) [OF e1] assms(9) dev by auto
  have a: "fblock B ip1 d1 n = a" and b: "fblock B ip2 d2 m = b"
    using bmap_postD(2) [OF q1] bmap_postD(2) [OF q2] by (auto simp: fblock_def)
  have "fblock B ip2 d2 n = a"
    using extends_data(1) [OF assms(2) extendsD(1) [OF e1] bmap_postD(1) [OF q2] assms(5)] a assms(10) by simp
  then show ?thesis
    using fblock_inj [OF extendsD(1) [OF bmap_postD(1) [OF q2]] assms(5,6)] b assms(7,10) by auto
qed

text \<open>
  The block map serves exactly the block numbers below 11 + 256 + 256 * 256 = 65803;
  beyond that \<^verbatim>\<open>bmap\<close> panics.\<close>

theorem bmap_panics_beyond_maxfile: "bmap B sb ip bn d = None \<longleftrightarrow> 65803 \<le> bn"
  unfolding bmap_None_iff MAXFILE_def NDOUBLY_INDIRECT_def NINDIRECT_def NDIRECT_def by simp

text \<open>
  Property C12. \<^verbatim>\<open>itrunc\<close> on a well-formed inode does not panic; it frees exactly the blocks the inode
  owned, direct, indirect and doubly indirect, tables included; it clears all addresses and the size in
  memory and on disk, and changes no data block and no other inode.\<close>

theorem itrunc_frees_exactly_owned:
  assumes B: "bio_laws B" and sb: "sb_ok sb" and wf: "iwf B sb ip d" and inum: "unat (i_inum ip) < unat (sb_ninodes sb)"
  shows "\<exists>ip' d'. itrunc B sb ip d = Some (ip', d') \<and>
     i_addrs ip' = replicate 13 0 \<and> i_size ip' = 0 \<and>
     on_disk B sb (i_dev ip) (unat (i_inum ip)) d' = dinode_of ip' \<and>
     (\<forall>n<unat (sb_size sb). bused B sb (i_dev ip) d' n \<longleftrightarrow> bused B sb (i_dev ip) d n \<and> n \<notin> unat ` owned B ip d) \<and>
     (\<forall>b. data_block sb b \<longrightarrow> bread B (i_dev ip) b d' = bread B (i_dev ip) b d) \<and>
     (\<forall>i<unat (sb_ninodes sb). i \<noteq> unat (i_inum ip) \<longrightarrow> on_disk B sb (i_dev ip) i d' = on_disk B sb (i_dev ip) i d)"
proof -
  obtain d1 where r: "itrunc B sb ip d = Some (cleared ip, iupdate B sb (cleared ip) d1)"
    and f: "freed B sb (i_dev ip) (owned B ip d) d d1" using itrunc_eq [OF B sb wf] by blast
  let ?ip = "cleared ip" and ?d = "iupdate B sb (cleared ip) d1"
  have c: "i_dev ?ip = i_dev ip" "i_inum ?ip = i_inum ip" "length (i_addrs ?ip) = NDIRECT + 2"
    by (simp_all add: cleared_def)
  have od: "on_disk B sb (i_dev ip) i ?d = (if i = unat (i_inum ip) then dinode_of ?ip else on_disk B sb (i_dev ip) i d1)"
    if "i < unat (sb_ninodes sb)" for i
    using on_disk_iupdate [OF B sb that, of ?ip] c inum by simp
  have od1: "on_disk B sb (i_dev ip) i d1 = on_disk B sb (i_dev ip) i d" if "i < unat (sb_ninodes sb)" for i
    using f inode_block_not_bmap [OF sb that] by (simp add: on_disk_def freed_def)
  have bu: "bused B sb (i_dev ip) ?d n = bused B sb (i_dev ip) d1 n" if "n < unat (sb_size sb)" for n
    using bread_iupdate [OF B] BBLOCK_not_inode_block [OF sb inum that] c by (simp add: bused_def)
  have da: "bread B (i_dev ip) b ?d = bread B (i_dev ip) b d" if "data_block sb b" for b
    using bread_iupdate [OF B] inode_block_not_data [OF sb inum that] c freed_bread [OF f sb that] by fastforce
  have "i_addrs ?ip = replicate 13 0" "i_size ?ip = 0" by (simp_all add: cleared_def NDIRECT_def numeral_eq_Suc)
  then show ?thesis
    using r od od1 bu da inum f by (intro exI [of _ ?ip] exI [of _ ?d]) (auto simp: freed_def)
qed

text \<open>
  Allocating a block and freeing it again does not panic and restores the bitmap, and the
  blocks outside the bitmap that were in use keep their contents.\<close>

theorem balloc_bfree_roundtrip:
  assumes B: "bio_laws B" and sb: "sb_ok sb" and mu: "meta_used B sb dev d"
    and r: "balloc B sb dev d = (addr, d1)" and nz: "addr \<noteq> 0"
  shows "\<exists>d2. bfree B sb dev addr d1 = Some d2 \<and>
     (\<forall>n<unat (sb_size sb). bused B sb dev d2 n \<longleftrightarrow> bused B sb dev d n) \<and>
     (\<forall>n<unat (sb_size sb). bused B sb dev d n \<and> \<not> is_bmap sb (of_nat n) \<longrightarrow>
        bread B dev (of_nat n) d2 = bread B dev (of_nat n) d)"
proof -
  note bs = balloc_spec [OF B sb mu r]
  have lt: "unat addr < unat (sb_size sb)" and free: "\<not> bused B sb dev d (unat addr)" using bs(3) nz by auto
  obtain d2 where d2: "bfree B sb dev addr d1 = Some d2"
    using bfree_None_iff [of B sb dev addr d1] bs(5) [OF lt] nz by auto
  have "bread B dev (of_nat n) d2 = bread B dev (of_nat n) d"
    if "n < unat (sb_size sb)" "bused B sb dev d n" "\<not> is_bmap sb (of_nat n)" for n
  proof -
    have "of_nat n \<noteq> addr" using that(2) free unat_of_nat_size [OF that(1)] by auto
    then show ?thesis using bfree_spec(2) [OF B sb lt d2] bs(6) that(3) by simp
  qed
  then show ?thesis using d2 bfree_spec(1) [OF B sb lt d2] bs(5) free by auto
qed

subsection \<open>A small concrete disk\<close>

text \<open>
  A disk of 64 blocks: inodes in blocks 2 and 3, the bitmap in block 4, data from block 5, with one
  file whose first block is block 5.
\<close>

definition demo_bio :: "((u32 \<times> u32) \<Rightarrow> bytes) bio" where
  "demo_bio = \<lparr>bread = (\<lambda>dev b d. d (dev, b)), log_write = (\<lambda>dev b a d. d((dev, b) := a)),
     release_unlogged = (\<lambda>dev b a d. d((dev, b) := a))\<rparr>"

definition demo_sb :: superblock where
  "demo_sb = \<lparr>sb_magic = FSMAGIC, sb_size = 64, sb_nblocks = 59, sb_ninodes = 16, sb_nlog = 0, sb_logstart = 2,
     sb_inodestart = 2, sb_bmapstart = 4\<rparr>"

definition demo_disk :: "(u32 \<times> u32) \<Rightarrow> bytes" where
  "demo_disk = (\<lambda>(dev, b) i. if dev = 1 \<and> b = 4 \<and> i = 0 then 63 else 0)"

definition demo_ino :: inode where
  "demo_ino = \<lparr>i_dev = 1, i_inum = 2, i_ref = 1, i_locked = True, i_valid = True, i_type = 2, i_major = 0,
     i_minor = 0, i_nlink = 1, i_size = 100, i_addrs = 5 # replicate 12 0\<rparr>"

lemma demo_bio_laws: "bio_laws demo_bio"
  by (auto simp: bio_laws_def demo_bio_def)

lemma demo_sb_ok: "sb_ok demo_sb"
  by (simp add: sb_ok_def demo_sb_def datastart_def)

lemma demo_bits: "n < 6 \<Longrightarrow> bit (63 :: u8) n"
proof -
  assume "n < 6"
  then consider "n = 0" | "n = 1" | "n = 2" | "n = 3" | "n = 4" | "n = 5" by linarith
  then show ?thesis by cases simp_all
qed

lemma demo_bused: "n < 6 \<Longrightarrow> bused demo_bio demo_sb 1 demo_disk n"
  using demo_bits by (simp add: bused_def bit_free_iff demo_bio_def demo_sb_def demo_disk_def BBLOCK_def)

lemma demo_meta: "meta_used demo_bio demo_sb (i_dev demo_ino) demo_disk"
  using demo_bused by (auto simp: meta_used_def datastart_def demo_sb_def demo_ino_def)

lemma demo_pval: "pos_ok p \<Longrightarrow> pval demo_bio demo_ino demo_disk p = (if p = Dir 0 then 5 else 0)"
  by (cases p) (auto simp: demo_ino_def NDIRECT_def entry_def nth_Cons' nth_replicate)

lemma demo_iwf: "iwf demo_bio demo_sb demo_ino demo_disk"
  using demo_bused [of 5]
  by (auto simp: iwf_def demo_pval data_block_def datastart_def demo_sb_def) (auto simp: demo_ino_def NDIRECT_def)

lemma demo_owned: "owned demo_bio demo_ino demo_disk = {5}"
  by (auto simp: owned_def demo_pval NDIRECT_def split: if_splits intro!: exI [of _ "Dir 0"])
    (simp_all add: demo_ino_def)

lemmas demo_facts = demo_bio_laws demo_sb_ok demo_meta demo_iwf

text \<open>Block 300 of the file lies below the doubly indirect table.\<close>

theorem bmap_maps_block_witness:
  "\<exists>addr ip' d'. bmap demo_bio demo_sb demo_ino 300 demo_disk = Some (addr, ip', d') \<and> iwf demo_bio demo_sb ip' d' \<and>
     fblock demo_bio ip' d' 300 = addr \<and> fblock demo_bio ip' d' 0 = 5"
proof -
  have "300 < MAXFILE" "0 < MAXFILE" by (simp_all add: MAXFILE_def NDIRECT_def NINDIRECT_def NDOUBLY_INDIRECT_def)
  moreover have "fblock demo_bio demo_ino demo_disk 0 = 5"
    by (simp add: fblock_def pos_of_def NDIRECT_def demo_ino_def)
  ultimately show ?thesis
    using bmap_maps_block [OF demo_facts, of 300] by fastforce
qed

theorem bmap_distinct_blocks_witness:
  "\<exists>a ip1 d1 b ip2 d2. bmap demo_bio demo_sb demo_ino 0 demo_disk = Some (a, ip1, d1) \<and>
     bmap demo_bio demo_sb ip1 300 d1 = Some (b, ip2, d2) \<and> a \<noteq> b"
proof -
  have m: "300 < MAXFILE" "0 < MAXFILE" by (simp_all add: MAXFILE_def NDIRECT_def NINDIRECT_def NDOUBLY_INDIRECT_def)
  have 1: "bmap demo_bio demo_sb demo_ino 0 demo_disk = Some (5, demo_ino, demo_disk)"
    by (simp add: bmap_def bmap_addr_def NDIRECT_def demo_ino_def)
  obtain b ip2 d2 where 2: "bmap demo_bio demo_sb demo_ino 300 demo_disk = Some (b, ip2, d2)"
    using bmap_spec [OF demo_facts m(1)] by blast
  have "5 \<noteq> b" by (rule bmap_distinct_blocks [OF demo_facts m(2,1) _ 1 2]) simp_all
  then show ?thesis using 1 2 by blast
qed

theorem itrunc_frees_exactly_owned_witness:
  "\<exists>ip' d'. itrunc demo_bio demo_sb demo_ino demo_disk = Some (ip', d') \<and> i_addrs ip' = replicate 13 0 \<and>
     bused demo_bio demo_sb 1 demo_disk 5 \<and> \<not> bused demo_bio demo_sb 1 d' 5 \<and> bused demo_bio demo_sb 1 d' 4"
proof -
  have "unat (i_inum demo_ino) < unat (sb_ninodes demo_sb)" by (simp add: demo_ino_def demo_sb_def)
  from itrunc_frees_exactly_owned [OF demo_bio_laws demo_sb_ok demo_iwf this] show ?thesis
    using demo_bused [of 5] demo_bused [of 4] by (auto simp: demo_owned) (auto simp: demo_ino_def demo_sb_def)
qed

theorem balloc_bfree_roundtrip_witness:
  "\<exists>d1 d2. balloc demo_bio demo_sb 1 demo_disk = (6, d1) \<and> bfree demo_bio demo_sb 1 6 d1 = Some d2 \<and>
     (\<forall>n<64. bused demo_bio demo_sb 1 d2 n \<longleftrightarrow> bused demo_bio demo_sb 1 demo_disk n)"
proof -
  have "find (bit_free (demo_disk (1, 4))) [0..<64] = Some 6"
    using demo_bits by (simp add: find_Some_iff) (intro exI [of _ 6], auto simp: bit_free_iff demo_disk_def)
  then have "\<exists>d1. balloc demo_bio demo_sb 1 demo_disk = (6, d1)"
    by (simp add: balloc_def demo_sb_def demo_bio_def BBLOCK_def Let_def)
  then obtain d1 where d1: "balloc demo_bio demo_sb 1 demo_disk = (6, d1)" by blast
  have "meta_used demo_bio demo_sb 1 demo_disk" using demo_meta by (simp add: demo_ino_def)
  from balloc_bfree_roundtrip [OF demo_bio_laws demo_sb_ok this d1] show ?thesis
    using d1 by (auto simp: demo_sb_def)
qed

end
