(* ===== verification/FsTable.thy ===== *)
theory FsTable
  imports FsInode
begin

text \<open>
  The inode table of \<^verbatim>\<open>kernel/fs.c\<close> (Lab 5, Task 5.1): \<^verbatim>\<open>iinit\<close>, \<^verbatim>\<open>ialloc\<close>, \<^verbatim>\<open>iget\<close>, \<^verbatim>\<open>idup\<close>, \<^verbatim>\<open>ilock\<close>,
  \<^verbatim>\<open>iunlock\<close>, \<^verbatim>\<open>iput\<close>, \<^verbatim>\<open>iunlockput\<close>, \<^verbatim>\<open>ireclaim\<close> and \<^verbatim>\<open>fsinit\<close>. A pointer to an in-memory inode is its index
  in the table. The model runs one system call at a time: \<^verbatim>\<open>acquiresleep\<close> on an inode that is already
  locked does not return and is \<open>None\<close>, like a panic. \<^verbatim>\<open>begin_op\<close> and \<^verbatim>\<open>end_op\<close> bracket a transaction of the
  log, which does not change what \<^verbatim>\<open>bread\<close> returns, and are left out.
\<close>

definition NINODE :: nat where
  "NINODE = 50"

definition ROOTDEV :: u32 where
  "ROOTDEV = 1"

definition ROOTINO :: u32 where
  "ROOTINO = 1"

type_synonym itable = "inode list"

definition iinit :: "itable \<Rightarrow> itable" where
  "iinit tbl = map (\<lambda>ip. ip\<lparr>i_locked := False\<rparr>) tbl"

definition iget :: "u32 \<Rightarrow> u32 \<Rightarrow> itable \<Rightarrow> (nat \<times> itable) option" where
  "iget dev inum tbl =
     (case find_idx (\<lambda>ip. 0 < i_ref ip \<and> i_dev ip = dev \<and> i_inum ip = inum) tbl of
        Some k \<Rightarrow> Some (k, tbl[k := (tbl ! k)\<lparr>i_ref := i_ref (tbl ! k) + 1\<rparr>])
      | None \<Rightarrow>
          (case find_idx (\<lambda>ip. i_ref ip = 0) tbl of
             None \<Rightarrow> None
           | Some k \<Rightarrow> Some (k, tbl[k := (tbl ! k)\<lparr>i_dev := dev, i_inum := inum, i_ref := 1, i_valid := False\<rparr>])))"

definition idup :: "nat \<Rightarrow> itable \<Rightarrow> nat \<times> itable" where
  "idup k tbl = (k, tbl[k := (tbl ! k)\<lparr>i_ref := i_ref (tbl ! k) + 1\<rparr>])"

definition dinode_load :: "inode \<Rightarrow> dinode \<Rightarrow> inode" where
  "dinode_load ip di = ip\<lparr>i_type := d_type di, i_major := d_major di, i_minor := d_minor di,
     i_nlink := d_nlink di, i_size := d_size di, i_addrs := d_addrs di\<rparr>"

definition ilock :: "'d bio \<Rightarrow> superblock \<Rightarrow> nat \<Rightarrow> itable \<times> 'd \<Rightarrow> (itable \<times> 'd) option" where
  "ilock B sb k = (\<lambda>(tbl, d).
     let ip = tbl ! k in
     if i_ref ip < 1 then None
     else if i_locked ip then None
     else if i_valid ip then Some (tbl[k := ip\<lparr>i_locked := True\<rparr>], d)
     else let a = bread B (i_dev ip) (IBLOCK (unat (i_inum ip)) sb) d;
              di = rd_dinode a (64 * (unat (i_inum ip) mod IPB));
              ip1 = (dinode_load ip di)\<lparr>i_locked := True, i_valid := True\<rparr>
          in if i_type ip1 = 0 then None else Some (tbl[k := ip1], d))"

definition iunlock :: "nat \<Rightarrow> itable \<Rightarrow> itable option" where
  "iunlock k tbl =
     (let ip = tbl ! k in
      if \<not> i_locked ip \<or> i_ref ip < 1 then None else Some (tbl[k := ip\<lparr>i_locked := False\<rparr>]))"

definition iput :: "'d bio \<Rightarrow> superblock \<Rightarrow> nat \<Rightarrow> itable \<times> 'd \<Rightarrow> (itable \<times> 'd) option" where
  "iput B sb k = (\<lambda>(tbl, d).
     let ip = tbl ! k in
     do { (ip1, d1) \<leftarrow>
            (if i_ref ip = 1 \<and> i_valid ip \<and> i_nlink ip = 0 then
               if i_locked ip then None
               else do { (ip2, d2) \<leftarrow> itrunc B sb (ip\<lparr>i_locked := True\<rparr>) d;
                         let ip3 = ip2\<lparr>i_type := 0\<rparr>;
                             d3 = iupdate B sb ip3 d2
                         in Some (ip3\<lparr>i_valid := False, i_locked := False\<rparr>, d3) }
             else Some (ip, d));
          Some (tbl[k := ip1\<lparr>i_ref := i_ref ip1 - 1\<rparr>], d1) })"

definition iunlockput :: "'d bio \<Rightarrow> superblock \<Rightarrow> nat \<Rightarrow> itable \<times> 'd \<Rightarrow> (itable \<times> 'd) option" where
  "iunlockput B sb k = (\<lambda>(tbl, d). do { tbl1 \<leftarrow> iunlock k tbl; iput B sb k (tbl1, d) })"

text \<open>
  The result of \<^verbatim>\<open>ialloc\<close> is the pointer it returns, with \<open>None\<close> for the null pointer.
\<close>

definition free_dinode :: "u16 \<Rightarrow> dinode" where
  "free_dinode ty = \<lparr>d_type = ty, d_major = 0, d_minor = 0, d_nlink = 0, d_size = 0, d_addrs = replicate (NDIRECT + 2) 0\<rparr>"

fun ialloc_loop :: "'d bio \<Rightarrow> superblock \<Rightarrow> u32 \<Rightarrow> u16 \<Rightarrow> nat list \<Rightarrow> itable \<times> 'd \<Rightarrow> (nat option \<times> itable \<times> 'd) option" where
  "ialloc_loop B sb dev ty [] (tbl, d) = Some (None, tbl, d)"
| "ialloc_loop B sb dev ty (inum # inums) (tbl, d) =
     (let a = bread B dev (IBLOCK inum sb) d; p = 64 * (inum mod IPB) in
      if d_type (rd_dinode a p) = 0 then
        let d1 = log_write B dev (IBLOCK inum sb) (wr_dinode a p (free_dinode ty)) d in
        do { (k, tbl1) \<leftarrow> iget dev (of_nat inum) tbl; Some (Some k, tbl1, d1) }
      else ialloc_loop B sb dev ty inums (tbl, d))"

definition ialloc :: "'d bio \<Rightarrow> superblock \<Rightarrow> u32 \<Rightarrow> u16 \<Rightarrow> itable \<times> 'd \<Rightarrow> (nat option \<times> itable \<times> 'd) option" where
  "ialloc B sb dev ty s = ialloc_loop B sb dev ty [1..<unat (sb_ninodes sb)] s"

fun ireclaim_loop :: "'d bio \<Rightarrow> superblock \<Rightarrow> u32 \<Rightarrow> nat list \<Rightarrow> itable \<times> 'd \<Rightarrow> (itable \<times> 'd) option" where
  "ireclaim_loop B sb dev [] s = Some s"
| "ireclaim_loop B sb dev (inum # inums) (tbl, d) =
     (let di = rd_dinode (bread B dev (IBLOCK inum sb) d) (64 * (inum mod IPB)) in
      if d_type di \<noteq> 0 \<and> d_nlink di = 0 then
        do { (k, tbl1) \<leftarrow> iget dev (of_nat inum) tbl;
             (tbl2, d2) \<leftarrow> ilock B sb k (tbl1, d);
             tbl3 \<leftarrow> iunlock k tbl2;
             s4 \<leftarrow> iput B sb k (tbl3, d2);
             ireclaim_loop B sb dev inums s4 }
      else ireclaim_loop B sb dev inums (tbl, d))"

definition ireclaim :: "'d bio \<Rightarrow> superblock \<Rightarrow> u32 \<Rightarrow> itable \<times> 'd \<Rightarrow> (itable \<times> 'd) option" where
  "ireclaim B sb dev s = ireclaim_loop B sb dev [1..<unat (sb_ninodes sb)] s"

text \<open>\<^verbatim>\<open>initlog\<close> belongs to \<^verbatim>\<open>log.c\<close>, which the repository does not contain: it is a parameter.\<close>

definition fsinit :: "'d bio \<Rightarrow> (u32 \<Rightarrow> superblock \<Rightarrow> 'd \<Rightarrow> 'd) \<Rightarrow> u32 \<Rightarrow> itable \<times> 'd \<Rightarrow> (superblock \<times> itable \<times> 'd) option" where
  "fsinit B initlog dev = (\<lambda>(tbl, d).
     let sb = readsb B dev d in
     if sb_magic sb \<noteq> FSMAGIC then None
     else do { s1 \<leftarrow> ireclaim B sb dev (tbl, initlog dev sb d); Some (sb, s1) })"

subsection \<open>The table invariant\<close>

definition itab_inv :: "itable \<Rightarrow> bool" where
  "itab_inv tbl \<longleftrightarrow> length tbl = NINODE \<and> (\<forall>ip\<in>set tbl. 0 \<le> i_ref ip \<and> (i_locked ip \<longrightarrow> 0 < i_ref ip)) \<and>
     unique_keys (\<lambda>ip. 0 < i_ref ip) (\<lambda>ip. (i_dev ip, i_inum ip)) tbl"

lemma itab_invD:
  assumes "itab_inv tbl"
  shows "length tbl = NINODE" and "k < NINODE \<Longrightarrow> 0 \<le> i_ref (tbl ! k)"
    and "k < NINODE \<Longrightarrow> i_locked (tbl ! k) \<Longrightarrow> 0 < i_ref (tbl ! k)"
    and "unique_keys (\<lambda>ip. 0 < i_ref ip) (\<lambda>ip. (i_dev ip, i_inum ip)) tbl"
  using assms by (auto simp: itab_inv_def)

text \<open>An update that keeps the identity of a referenced entry, or that makes it unreferenced.\<close>

lemma itab_inv_update:
  assumes "itab_inv tbl" and "0 \<le> i_ref ip" and "i_locked ip \<longrightarrow> 0 < i_ref ip"
    and "0 < i_ref ip \<Longrightarrow> 0 < i_ref (tbl ! k) \<and> i_dev ip = i_dev (tbl ! k) \<and> i_inum ip = i_inum (tbl ! k)"
  shows "itab_inv (tbl[k := ip])"
  using assms unique_keys_update [of "\<lambda>ip. 0 < i_ref ip" "\<lambda>ip. (i_dev ip, i_inum ip)" tbl ip k]
  by (auto simp: itab_inv_def dest: set_update_subset_insert [THEN subsetD])

text \<open>The inode table is a keyed table; \<^verbatim>\<open>iget\<close> claims an entry by taking its first reference.\<close>

interpretation itt: keyed_table "\<lambda>ip. 0 < i_ref ip" "\<lambda>ip. (i_dev ip, i_inum ip)"
  "\<lambda>(dev, inum) ip. ip\<lparr>i_dev := dev, i_inum := inum, i_ref := 1, i_valid := False\<rparr>"
  by unfold_locales (auto split: prod.split)

lemma iget_inv:
  assumes "itab_inv tbl" and "iget dev inum tbl = Some (k, tbl')"
  shows "itab_inv tbl'" and "k < NINODE" and "i_dev (tbl' ! k) = dev" and "i_inum (tbl' ! k) = inum"
    and "0 < i_ref (tbl' ! k)" and "\<And>j. j \<noteq> k \<Longrightarrow> tbl' ! j = tbl ! j"
proof -
  have len: "length tbl = NINODE" using itab_invD(1) [OF assms(1)] .
  have all: "itab_inv tbl' \<and> k < NINODE \<and> i_dev (tbl' ! k) = dev \<and> i_inum (tbl' ! k) = inum \<and> 0 < i_ref (tbl' ! k) \<and>
    (\<forall>j. j \<noteq> k \<longrightarrow> tbl' ! j = tbl ! j)"
  proof (cases "find_idx (\<lambda>ip. 0 < i_ref ip \<and> i_dev ip = dev \<and> i_inum ip = inum) tbl")
    case (Some j)
    then have j: "j < length tbl" "0 < i_ref (tbl ! j)" "i_dev (tbl ! j) = dev" "i_inum (tbl ! j) = inum"
      by (auto dest: find_idx_SomeD)
    have t: "k = j" "tbl' = tbl[j := (tbl ! j)\<lparr>i_ref := i_ref (tbl ! j) + 1\<rparr>]"
      using assms(2) Some by (auto simp: iget_def)
    have "itab_inv tbl'" unfolding t by (rule itab_inv_update [OF assms(1)]) (use j in auto)
    then show ?thesis using j len t by simp
  next
    case None
    then obtain j where j: "find_idx (\<lambda>ip. i_ref ip = 0) tbl = Some j"
      and t: "k = j" "tbl' = tbl[j := (tbl ! j)\<lparr>i_dev := dev, i_inum := inum, i_ref := 1, i_valid := False\<rparr>]"
      using assms(2) by (auto simp: iget_def split: option.splits)
    have "j < length tbl" "i_ref (tbl ! j) = 0" using find_idx_SomeD [OF j] by auto
    moreover have "unique_keys (\<lambda>ip. 0 < i_ref ip) (\<lambda>ip. (i_dev ip, i_inum ip)) tbl'"
      unfolding t(2) using None itt.claim_unique [OF itab_invD(4) [OF assms(1)], of "(dev, inum)" j "tbl ! j"]
      by (simp add: find_idx_None)
    ultimately show ?thesis
      using assms(1) len t by (auto simp: itab_inv_def dest!: set_update_subset_insert [THEN subsetD])
  qed
  then show "itab_inv tbl'" and "k < NINODE" and "i_dev (tbl' ! k) = dev" and "i_inum (tbl' ! k) = inum"
    and "0 < i_ref (tbl' ! k)" and "\<And>j. j \<noteq> k \<Longrightarrow> tbl' ! j = tbl ! j" by auto
qed

lemma iget_same:
  assumes "itab_inv tbl" and "iget dev inum tbl = Some (k, t1)"
  shows "iget dev inum t1 = Some (k, t1[k := (t1 ! k)\<lparr>i_ref := i_ref (t1 ! k) + 1\<rparr>])"
proof -
  note g = iget_inv [OF assms]
  have "find_idx (\<lambda>ip. 0 < i_ref ip \<and> (i_dev ip, i_inum ip) = (i_dev (t1 ! k), i_inum (t1 ! k))) t1 = Some k"
    using unique_keys_find [OF itab_invD(4) [OF g(1)], of k] itab_invD(1) [OF g(1)] g(2,5) by simp
  then show ?thesis using g(3,4) by (simp add: iget_def)
qed

subsection \<open>Well-formed file systems\<close>

text \<open>
  The inode number \<open>i\<close> as the disk has it. A device is well formed when every allocated inode is and no
  two of them share a block.
\<close>

definition inode_at :: "'d bio \<Rightarrow> superblock \<Rightarrow> u32 \<Rightarrow> nat \<Rightarrow> 'd \<Rightarrow> inode" where
  "inode_at B sb dev i d = dinode_load
     \<lparr>i_dev = dev, i_inum = of_nat i, i_ref = 0, i_locked = False, i_valid = True, i_type = 0, i_major = 0,
      i_minor = 0, i_nlink = 0, i_size = 0, i_addrs = []\<rparr> (on_disk B sb dev i d)"

definition alloced :: "'d bio \<Rightarrow> superblock \<Rightarrow> u32 \<Rightarrow> nat \<Rightarrow> 'd \<Rightarrow> bool" where
  "alloced B sb dev i d \<longleftrightarrow> d_type (on_disk B sb dev i d) \<noteq> 0"

definition fs_wf :: "'d bio \<Rightarrow> superblock \<Rightarrow> u32 \<Rightarrow> 'd \<Rightarrow> bool" where
  "fs_wf B sb dev d \<longleftrightarrow> meta_used B sb dev d \<and>
     (\<forall>i<unat (sb_ninodes sb). alloced B sb dev i d \<longrightarrow> iwf B sb (inode_at B sb dev i d) d) \<and>
     (\<forall>i<unat (sb_ninodes sb). \<forall>j<unat (sb_ninodes sb). alloced B sb dev i d \<longrightarrow> alloced B sb dev j d \<longrightarrow> i \<noteq> j \<longrightarrow>
        owned B (inode_at B sb dev i d) d \<inter> owned B (inode_at B sb dev j d) d = {})"

lemma fs_wfD:
  assumes "fs_wf B sb dev d"
  shows "meta_used B sb dev d"
    and "i < unat (sb_ninodes sb) \<Longrightarrow> alloced B sb dev i d \<Longrightarrow> iwf B sb (inode_at B sb dev i d) d"
    and "i < unat (sb_ninodes sb) \<Longrightarrow> j < unat (sb_ninodes sb) \<Longrightarrow> alloced B sb dev i d \<Longrightarrow> alloced B sb dev j d \<Longrightarrow> i \<noteq> j \<Longrightarrow>
        owned B (inode_at B sb dev i d) d \<inter> owned B (inode_at B sb dev j d) d = {}"
  using assms unfolding fs_wf_def by blast+

text \<open>The block map of an inode depends on its device and its addresses only.\<close>

lemma pval_addrs_cong: "i_dev ip = i_dev ip' \<Longrightarrow> i_addrs ip = i_addrs ip' \<Longrightarrow> pval B ip d p = pval B ip' d p"
  by (cases p) auto

lemma iwf_addrs_cong:
  assumes "i_dev ip = i_dev ip'" and "i_addrs ip = i_addrs ip'"
  shows "iwf B sb ip d \<longleftrightarrow> iwf B sb ip' d" and "owned B ip d = owned B ip' d"
  using pval_addrs_cong [OF assms, of B d] assms by (auto simp: iwf_def owned_def)

lemma inode_at_simps [simp]:
  "i_dev (inode_at B sb dev i d) = dev"
  "i_inum (inode_at B sb dev i d) = of_nat i"
  "i_addrs (inode_at B sb dev i d) = d_addrs (on_disk B sb dev i d)"
  "i_type (inode_at B sb dev i d) = d_type (on_disk B sb dev i d)"
  by (simp_all add: inode_at_def dinode_load_def)

text \<open>
  A disk on which an inode's image, and the contents of its tables, are as before holds the same block
  map.
\<close>

lemma inode_at_keep:
  assumes wf: "iwf B sb (inode_at B sb dev j d) d"
    and od: "on_disk B sb dev j d' = on_disk B sb dev j d"
    and br: "\<And>b. b \<in> owned B (inode_at B sb dev j d) d \<Longrightarrow> bread B dev b d' = bread B dev b d"
  shows "inode_at B sb dev j d' = inode_at B sb dev j d"
    and "pos_ok p \<Longrightarrow> pval B (inode_at B sb dev j d) d' p = pval B (inode_at B sb dev j d) d p"
    and "owned B (inode_at B sb dev j d') d' = owned B (inode_at B sb dev j d) d"
proof -
  show same: "inode_at B sb dev j d' = inode_at B sb dev j d" using od by (simp add: inode_at_def)
  show pv: "pval B (inode_at B sb dev j d) d' p = pval B (inode_at B sb dev j d) d p" if "pos_ok p" for p
    using that by (rule pval_cong [rotated]) (auto intro!: br simp: owned_def)
  show "owned B (inode_at B sb dev j d') d' = owned B (inode_at B sb dev j d) d"
    unfolding same owned_def using pv by (metis (no_types, lifting))
qed

lemma iwf_keep:
  assumes wf: "iwf B sb ip d" and pv: "\<And>p. pos_ok p \<Longrightarrow> pval B ip d' p = pval B ip d p"
    and bu: "\<And>b. b \<in> owned B ip d \<Longrightarrow> bused B sb (i_dev ip) d' (unat b)"
  shows "iwf B sb ip d'"
  unfolding iwf_def
proof (intro conjI allI impI)
  show "length (i_addrs ip) = NDIRECT + 2" using iwfD(1) [OF wf] .
next
  fix p assume p: "pos_ok p" "pval B ip d' p \<noteq> 0"
  then show "data_block sb (pval B ip d' p)" using iwfD(2) [OF wf] pv by simp
  show "bused B sb (i_dev ip) d' (unat (pval B ip d' p))"
    using p pv [OF p(1)] by (intro bu) (auto simp: owned_def)
next
  fix p q assume "pos_ok p" "pos_ok q" "pval B ip d' p \<noteq> 0" "pval B ip d' p = pval B ip d' q"
  then show "p = q" using iwfD(4) [OF wf, of p q] pv by simp
qed

text \<open>
  The general frame argument: an operation on inode \<open>i\<close> that leaves the other inodes' images and blocks
  alone, keeps their blocks in use, and leaves inode \<open>i\<close> either unallocated or well formed with blocks it
  owned before or that nobody owned, keeps the device well formed.
\<close>

lemma fs_wf_step:
  assumes wf: "fs_wf B sb dev d" and mu: "meta_used B sb dev d'"
    and od: "\<And>j. j < unat (sb_ninodes sb) \<Longrightarrow> j \<noteq> i \<Longrightarrow> on_disk B sb dev j d' = on_disk B sb dev j d"
    and br: "\<And>j b. j < unat (sb_ninodes sb) \<Longrightarrow> alloced B sb dev j d \<Longrightarrow> j \<noteq> i \<Longrightarrow> b \<in> owned B (inode_at B sb dev j d) d \<Longrightarrow>
      bread B dev b d' = bread B dev b d \<and> bused B sb dev d' (unat b)"
    and wfi: "alloced B sb dev i d' \<Longrightarrow> iwf B sb (inode_at B sb dev i d') d'"
    and own: "\<And>j b. alloced B sb dev i d' \<Longrightarrow> j < unat (sb_ninodes sb) \<Longrightarrow> alloced B sb dev j d \<Longrightarrow> j \<noteq> i \<Longrightarrow>
      b \<in> owned B (inode_at B sb dev i d') d' \<Longrightarrow> b \<notin> owned B (inode_at B sb dev j d) d"
  shows "fs_wf B sb dev d'"
proof -
  have al: "alloced B sb dev j d' \<longleftrightarrow> alloced B sb dev j d" if "j < unat (sb_ninodes sb)" "j \<noteq> i" for j
    using od [OF that] by (simp add: alloced_def)
  have keep: "inode_at B sb dev j d' = inode_at B sb dev j d"
    "\<And>p. pos_ok p \<Longrightarrow> pval B (inode_at B sb dev j d) d' p = pval B (inode_at B sb dev j d) d p"
    "owned B (inode_at B sb dev j d') d' = owned B (inode_at B sb dev j d) d"
    if "j < unat (sb_ninodes sb)" "j \<noteq> i" "alloced B sb dev j d" for j
    using inode_at_keep [OF fs_wfD(2) [OF wf that(1,3)] od [OF that(1,2)]] br [OF that(1,3,2)] by blast+
  have "iwf B sb (inode_at B sb dev j d') d'" if j: "j < unat (sb_ninodes sb)" "j \<noteq> i" "alloced B sb dev j d'" for j
  proof -
    have a: "alloced B sb dev j d" using al j by simp
    show ?thesis
      unfolding keep(1) [OF j(1,2) a]
      by (rule iwf_keep [OF fs_wfD(2) [OF wf j(1) a] keep(2) [OF j(1,2) a]]) (use br [OF j(1) a j(2)] in simp_all)
  qed
  then have "\<forall>j<unat (sb_ninodes sb). alloced B sb dev j d' \<longrightarrow> iwf B sb (inode_at B sb dev j d') d'"
    using wfi by metis
  moreover have "owned B (inode_at B sb dev m d') d' \<inter> owned B (inode_at B sb dev n d') d' = {}"
    if lt: "m < unat (sb_ninodes sb)" "n < unat (sb_ninodes sb)" and a: "alloced B sb dev m d'" "alloced B sb dev n d'"
      and ne: "m \<noteq> n" for m n
  proof -
    consider "m = i" "n \<noteq> i" | "n = i" "m \<noteq> i" | "m \<noteq> i" "n \<noteq> i" using ne by blast
    then show ?thesis
    proof cases
      case 1
      then show ?thesis using own [of n] keep(3) [OF lt(2)] a al lt by (metis disjoint_iff)
    next
      case 2
      then show ?thesis using own [of m] keep(3) [OF lt(1)] a al lt by (metis disjoint_iff)
    next
      case 3
      then show ?thesis using keep(3) fs_wfD(3) [OF wf lt] a al lt ne by metis
    qed
  qed
  ultimately show ?thesis using mu unfolding fs_wf_def by blast
qed

lemma itrunc_disk:
  assumes B: "bio_laws B" and sb: "sb_ok sb" and wf: "iwf B sb ip d" and inum: "unat (i_inum ip) < unat (sb_ninodes sb)"
    and f: "freed B sb (i_dev ip) S d d1" and d': "d' = iupdate B sb ip2 (iupdate B sb ip1 d1)"
    and ips: "i_dev ip1 = i_dev ip" "i_inum ip1 = i_inum ip" "length (i_addrs ip1) = NDIRECT + 2"
      "i_dev ip2 = i_dev ip" "i_inum ip2 = i_inum ip" "length (i_addrs ip2) = NDIRECT + 2"
  shows "i < unat (sb_ninodes sb) \<Longrightarrow> on_disk B sb (i_dev ip) i d' =
      (if i = unat (i_inum ip) then dinode_of ip2 else on_disk B sb (i_dev ip) i d)"
    and "n < unat (sb_size sb) \<Longrightarrow> bused B sb (i_dev ip) d' n \<longleftrightarrow> bused B sb (i_dev ip) d n \<and> n \<notin> unat ` S"
    and "data_block sb b \<Longrightarrow> bread B (i_dev ip) b d' = bread B (i_dev ip) b d"
proof -
  have "on_disk B sb (i_dev ip) i d1 = on_disk B sb (i_dev ip) i d" if "i < unat (sb_ninodes sb)" for i
    using f inode_block_not_bmap [OF sb that] by (simp add: on_disk_def freed_def)
  then show "on_disk B sb (i_dev ip) i d' = (if i = unat (i_inum ip) then dinode_of ip2 else on_disk B sb (i_dev ip) i d)"
    if "i < unat (sb_ninodes sb)"
    using that on_disk_iupdate [OF B sb that, of ip1] on_disk_iupdate [OF B sb that, of ip2] ips inum by (simp add: d')
  show "bused B sb (i_dev ip) d' n \<longleftrightarrow> bused B sb (i_dev ip) d n \<and> n \<notin> unat ` S" if "n < unat (sb_size sb)"
    using f that bread_iupdate [OF B] BBLOCK_not_inode_block [OF sb inum that] ips by (simp add: bused_def d' freed_def)
  show "bread B (i_dev ip) b d' = bread B (i_dev ip) b d" if "data_block sb b"
    using bread_iupdate [OF B] inode_block_not_data [OF sb inum that] ips freed_bread [OF f sb that, of "i_dev ip"]
    unfolding d' by metis
qed

lemma owned_data: "iwf B sb ip d \<Longrightarrow> b \<in> owned B ip d \<Longrightarrow> data_block sb b \<and> bused B sb (i_dev ip) d (unat b)"
  using iwfD(2,3) by (fastforce simp: owned_def)

text \<open>Dropping the last reference to an inode without links frees the inode and its blocks.\<close>

lemma iput_last:
  assumes B: "bio_laws B" and sb: "sb_ok sb" and fs: "fs_wf B sb dev d"
    and ip: "i_ref (tbl ! k) = 1" "i_valid (tbl ! k)" "i_nlink (tbl ! k) = 0" "\<not> i_locked (tbl ! k)"
      "i_dev (tbl ! k) = dev" "unat (i_inum (tbl ! k)) = i" "i < unat (sb_ninodes sb)"
      "i_addrs (tbl ! k) = d_addrs (on_disk B sb dev i d)"
    and al: "alloced B sb dev i d"
  shows "\<exists>ip' d'. iput B sb k (tbl, d) = Some (tbl[k := ip'], d') \<and> i_ref ip' = 0 \<and> \<not> i_locked ip' \<and>
     fs_wf B sb dev d' \<and> \<not> alloced B sb dev i d' \<and>
     (\<forall>j<unat (sb_ninodes sb). j \<noteq> i \<longrightarrow> on_disk B sb dev j d' = on_disk B sb dev j d) \<and>
     (\<forall>b. data_block sb b \<longrightarrow> bread B dev b d' = bread B dev b d) \<and>
     (\<forall>n<unat (sb_size sb). bused B sb dev d' n \<longleftrightarrow> bused B sb dev d n \<and> n \<notin> unat ` owned B (inode_at B sb dev i d) d)"
proof -
  let ?ip = "(tbl ! k)\<lparr>i_locked := True\<rparr>"
  have wf: "iwf B sb ?ip d" and own: "owned B ?ip d = owned B (inode_at B sb dev i d) d"
    using fs_wfD(2) [OF fs ip(7) al] iwf_addrs_cong [of ?ip "inode_at B sb dev i d" B] ip by simp_all
  obtain d1 where tr: "itrunc B sb ?ip d = Some (cleared ?ip, iupdate B sb (cleared ?ip) d1)"
    and f: "freed B sb (i_dev ?ip) (owned B ?ip d) d d1" using itrunc_eq [OF B sb wf] by blast
  let ?ip3 = "(cleared ?ip)\<lparr>i_type := 0\<rparr>"
  let ?d' = "iupdate B sb ?ip3 (iupdate B sb (cleared ?ip) d1)" and ?ip' = "?ip3\<lparr>i_valid := False, i_locked := False, i_ref := 0\<rparr>"
  have r: "iput B sb k (tbl, d) = Some (tbl[k := ?ip'], ?d')"
    using tr ip by (simp add: iput_def Let_def) (simp add: cleared_def)
  note td = itrunc_disk [OF B sb wf _ f refl, of "cleared ?ip" ?ip3, simplified]
  have od: "on_disk B sb dev j ?d' = (if j = i then dinode_of ?ip3 else on_disk B sb dev j d)" if "j < unat (sb_ninodes sb)" for j
    using td(1) [of j] that ip by (simp add: cleared_def)
  have bu: "bused B sb dev ?d' n \<longleftrightarrow> bused B sb dev d n \<and> n \<notin> unat ` owned B (inode_at B sb dev i d) d" if "n < unat (sb_size sb)" for n
    using td(2) [of n] that ip own by (simp add: cleared_def)
  have da: "bread B dev b ?d' = bread B dev b d" if "data_block sb b" for b
    using td(3) [of b] that ip by (simp add: cleared_def)
  have na: "\<not> alloced B sb dev i ?d'" using od [OF ip(7)] by (simp add: alloced_def dinode_of_def)
  have keep: "bread B dev b ?d' = bread B dev b d \<and> bused B sb dev ?d' (unat b)"
    if j: "j < unat (sb_ninodes sb)" "alloced B sb dev j d" "j \<noteq> i" "b \<in> owned B (inode_at B sb dev j d) d" for j b
  proof -
    have b: "data_block sb b" "bused B sb dev d (unat b)" using owned_data [OF fs_wfD(2) [OF fs j(1,2)] j(4)] by auto
    have "b \<notin> owned B (inode_at B sb dev i d) d" using fs_wfD(3) [OF fs j(1) ip(7) j(2) al j(3)] j(4) by auto
    then have "unat b \<notin> unat ` owned B (inode_at B sb dev i d) d" by (auto simp flip: word_unat_eq_iff)
    then show ?thesis using da [OF b(1)] bu [of "unat b"] b by (simp add: data_block_def)
  qed
  have mu: "meta_used B sb dev ?d'"
    unfolding meta_used_def
  proof (intro allI impI)
    fix n assume n: "n < datastart sb"
    then have "n \<notin> unat ` owned B (inode_at B sb dev i d) d"
      using owned_data [OF fs_wfD(2) [OF fs ip(7) al]] by (fastforce simp: data_block_def)
    then show "bused B sb dev ?d' n"
      using bu [of n] n fs_wfD(1) [OF fs] sb_okD(3) [OF sb] by (simp add: meta_used_def)
  qed
  have "fs_wf B sb dev ?d'"
    by (rule fs_wf_step [OF fs mu, of i]) (use od keep na in auto)
  then show ?thesis
    using r od bu da na by (intro exI [of _ ?ip'] exI [of _ ?d']) (auto simp: cleared_def)
qed

subsection \<open>Reclaiming orphaned inodes at boot\<close>

definition orphan :: "'d bio \<Rightarrow> superblock \<Rightarrow> u32 \<Rightarrow> nat \<Rightarrow> 'd \<Rightarrow> bool" where
  "orphan B sb dev i d \<longleftrightarrow> alloced B sb dev i d \<and> d_nlink (on_disk B sb dev i d) = 0"

definition idle_table :: "itable \<Rightarrow> bool" where
  "idle_table tbl \<longleftrightarrow> length tbl = NINODE \<and> (\<forall>ip\<in>set tbl. i_ref ip = 0 \<and> \<not> i_locked ip)"

lemma idle_iget:
  assumes "idle_table tbl"
  shows "iget dev inum tbl = Some (0, tbl[0 := (tbl ! 0)\<lparr>i_dev := dev, i_inum := inum, i_ref := 1, i_valid := False\<rparr>])"
proof -
  have "find_idx (\<lambda>ip. 0 < i_ref ip \<and> i_dev ip = dev \<and> i_inum ip = inum) tbl = None"
    using assms by (auto simp: find_idx_None idle_table_def)
  moreover have "find_idx (\<lambda>ip. i_ref ip = 0) tbl = Some 0"
    using assms by (auto simp: find_idx_Some idle_table_def NINODE_def)
  ultimately show ?thesis by (simp add: iget_def)
qed

lemma reclaim_one:
  assumes B: "bio_laws B" and sb: "sb_ok sb" and fs: "fs_wf B sb dev d" and idle: "idle_table tbl"
    and i: "i < unat (sb_ninodes sb)" and orp: "orphan B sb dev i d"
  shows "\<exists>tbl' d'. ireclaim_loop B sb dev (i # inums) (tbl, d) = ireclaim_loop B sb dev inums (tbl', d') \<and>
     idle_table tbl' \<and> fs_wf B sb dev d' \<and> \<not> alloced B sb dev i d' \<and>
     (\<forall>j<unat (sb_ninodes sb). j \<noteq> i \<longrightarrow> on_disk B sb dev j d' = on_disk B sb dev j d) \<and>
     (\<forall>b. data_block sb b \<longrightarrow> bread B dev b d' = bread B dev b d)"
proof -
  have al: "alloced B sb dev i d" and nl: "d_nlink (on_disk B sb dev i d) = 0" using orp by (auto simp: orphan_def)
  have i32: "unat (of_nat i :: u32) = i" using i by (metis le_unat_uoi less_imp_le)
  have len: "0 < length tbl" "\<not> i_locked (tbl ! 0)" using idle by (auto simp: idle_table_def NINODE_def)
  let ?e = "(tbl ! 0)\<lparr>i_dev := dev, i_inum := of_nat i, i_ref := 1, i_valid := False\<rparr>"
  let ?l = "(dinode_load ?e (on_disk B sb dev i d))\<lparr>i_locked := True, i_valid := True\<rparr>"
  let ?u = "?l\<lparr>i_locked := False\<rparr>"
  have g: "iget dev (of_nat i) tbl = Some (0, tbl[0 := ?e])" using idle_iget [OF idle] .
  have l: "ilock B sb 0 (tbl[0 := ?e], d) = Some (tbl[0 := ?l], d)"
    using len al i32 by (simp add: ilock_def Let_def alloced_def on_disk_def dinode_load_def)
  have u: "iunlock 0 (tbl[0 := ?l]) = Some (tbl[0 := ?u])"
    using len by (simp add: iunlock_def Let_def dinode_load_def)
  obtain ip' d' where p: "iput B sb 0 (tbl[0 := ?u], d) = Some ((tbl[0 := ?u])[0 := ip'], d')"
    and ip': "i_ref ip' = 0" "\<not> i_locked ip'" and fs': "fs_wf B sb dev d'" "\<not> alloced B sb dev i d'"
    and od: "\<forall>j<unat (sb_ninodes sb). j \<noteq> i \<longrightarrow> on_disk B sb dev j d' = on_disk B sb dev j d"
    and da: "\<forall>b. data_block sb b \<longrightarrow> bread B dev b d' = bread B dev b d"
    using iput_last [OF B sb fs, of "tbl[0 := ?u]" 0 i] len i i32 al nl by (auto simp: dinode_load_def)
  have "ireclaim_loop B sb dev (i # inums) (tbl, d) = ireclaim_loop B sb dev inums (tbl[0 := ip'], d')"
    using al nl g l u p by (simp add: alloced_def on_disk_def)
  moreover have "idle_table (tbl[0 := ip'])"
    using idle ip' by (auto simp: idle_table_def dest!: set_update_subset_insert [THEN subsetD])
  ultimately show ?thesis using fs' od da by blast
qed

lemma ireclaim_loop_spec:
  assumes B: "bio_laws B" and sb: "sb_ok sb" and "fs_wf B sb dev d" and "idle_table tbl"
    and "\<forall>i\<in>set inums. i < unat (sb_ninodes sb)"
  shows "\<exists>tbl' d'. ireclaim_loop B sb dev inums (tbl, d) = Some (tbl', d') \<and> idle_table tbl' \<and> fs_wf B sb dev d' \<and>
     (\<forall>i\<in>set inums. \<not> orphan B sb dev i d') \<and>
     (\<forall>j<unat (sb_ninodes sb). \<not> orphan B sb dev j d \<longrightarrow> on_disk B sb dev j d' = on_disk B sb dev j d) \<and>
     (\<forall>j<unat (sb_ninodes sb). orphan B sb dev j d \<longrightarrow> alloced B sb dev j d' \<longrightarrow> on_disk B sb dev j d' = on_disk B sb dev j d) \<and>
     (\<forall>b. data_block sb b \<longrightarrow> bread B dev b d' = bread B dev b d)"
  using assms(3-5)
proof (induction inums arbitrary: tbl d)
  case Nil
  then show ?case by simp
next
  case (Cons i inums)
  have i: "i < unat (sb_ninodes sb)" using Cons.prems by simp
  show ?case
  proof (cases "orphan B sb dev i d")
    case False
    then have "ireclaim_loop B sb dev (i # inums) (tbl, d) = ireclaim_loop B sb dev inums (tbl, d)"
      by (auto simp: orphan_def alloced_def on_disk_def)
    moreover have "\<not> orphan B sb dev i d'" if "on_disk B sb dev i d' = on_disk B sb dev i d" for d'
      using that False by (simp add: orphan_def alloced_def)
    ultimately show ?thesis using Cons.IH [OF Cons.prems(1,2)] Cons.prems(3) i False by simp blast
  next
    case True
    obtain tbl1 d1 where r1: "ireclaim_loop B sb dev (i # inums) (tbl, d) = ireclaim_loop B sb dev inums (tbl1, d1)"
      and 1: "idle_table tbl1" "fs_wf B sb dev d1" "\<not> alloced B sb dev i d1"
      "\<forall>j<unat (sb_ninodes sb). j \<noteq> i \<longrightarrow> on_disk B sb dev j d1 = on_disk B sb dev j d"
      "\<forall>b. data_block sb b \<longrightarrow> bread B dev b d1 = bread B dev b d"
      using reclaim_one [OF B sb Cons.prems(1,2) i True] by metis
    obtain tbl' d' where r2: "ireclaim_loop B sb dev inums (tbl1, d1) = Some (tbl', d')"
      and 2: "idle_table tbl'" "fs_wf B sb dev d'" "\<forall>i\<in>set inums. \<not> orphan B sb dev i d'"
      "\<forall>j<unat (sb_ninodes sb). \<not> orphan B sb dev j d1 \<longrightarrow> on_disk B sb dev j d' = on_disk B sb dev j d1"
      "\<forall>j<unat (sb_ninodes sb). orphan B sb dev j d1 \<longrightarrow> alloced B sb dev j d' \<longrightarrow> on_disk B sb dev j d' = on_disk B sb dev j d1"
      "\<forall>b. data_block sb b \<longrightarrow> bread B dev b d' = bread B dev b d1"
      using Cons.IH [OF 1(2,1)] Cons.prems(3) by auto
    have ni: "\<not> orphan B sb dev i d1" using 1(3) by (simp add: orphan_def)
    then have i': "on_disk B sb dev i d' = on_disk B sb dev i d1" "\<not> alloced B sb dev i d'"
      using 2(4) i 1(3) by (auto simp: alloced_def)
    have j: "orphan B sb dev j d1 \<longleftrightarrow> orphan B sb dev j d" if "j < unat (sb_ninodes sb)" "j \<noteq> i" for j
      using 1(4) that by (simp add: orphan_def alloced_def)
    have "on_disk B sb dev j d' = on_disk B sb dev j d" if "j < unat (sb_ninodes sb)" "\<not> orphan B sb dev j d" for j
      using that 2(4) 1(4) j True by metis
    moreover have "on_disk B sb dev j d' = on_disk B sb dev j d"
      if "j < unat (sb_ninodes sb)" "orphan B sb dev j d" "alloced B sb dev j d'" for j
      using that 2(5) 1(4) j i'(2) by metis
    moreover have "\<not> orphan B sb dev i d'" using i'(2) by (simp add: orphan_def)
    ultimately show ?thesis using r1 r2 2(1,2,3,6) 1(5) by simp
  qed
qed

text \<open>
  Property C13. On a well-formed device and with no inode in use, \<^verbatim>\<open>ireclaim\<close> runs to completion without a
  panic; afterwards no allocated inode has a zero link count, every inode that had links is unchanged,
  no data block has changed, the inode table is idle again and the device is well formed.\<close>

theorem ireclaim_frees_orphans:
  assumes "bio_laws B" and "sb_ok sb" and "fs_wf B sb dev d" and "idle_table tbl"
  shows "\<exists>tbl' d'. ireclaim B sb dev (tbl, d) = Some (tbl', d') \<and> idle_table tbl' \<and> fs_wf B sb dev d' \<and>
     (\<forall>i. 1 \<le> i \<and> i < unat (sb_ninodes sb) \<longrightarrow> \<not> orphan B sb dev i d') \<and>
     (\<forall>i<unat (sb_ninodes sb). \<not> orphan B sb dev i d \<longrightarrow> on_disk B sb dev i d' = on_disk B sb dev i d) \<and>
     (\<forall>b. data_block sb b \<longrightarrow> bread B dev b d' = bread B dev b d)"
proof -
  have "\<forall>i\<in>set [1..<unat (sb_ninodes sb)]. i < unat (sb_ninodes sb)" by simp
  from ireclaim_loop_spec [OF assms this] show ?thesis
    unfolding ireclaim_def by (metis atLeastLessThan_iff set_upt)
qed

subsection \<open>Allocating an inode\<close>

lemma on_disk_wr:
  assumes B: "bio_laws B" and sb: "sb_ok sb" and i: "i < unat (sb_ninodes sb)" "j < unat (sb_ninodes sb)"
    and di: "length (d_addrs di) = NDIRECT + 2"
  shows "on_disk B sb dev j (log_write B dev (IBLOCK i sb) (wr_dinode (bread B dev (IBLOCK i sb) d) (64 * (i mod IPB)) di) d) =
    (if j = i then di else on_disk B sb dev j d)"
proof (cases "IBLOCK j sb = IBLOCK i sb")
  case False
  then show ?thesis by (auto simp: on_disk_def bio_lawsD [OF B])
next
  case True
  then have dv: "j div IPB = i div IPB" using IBLOCK_eq_iff [OF sb i(2,1)] by simp
  show ?thesis
  proof (cases "j = i")
    case True
    then show ?thesis using di by (simp add: on_disk_def bio_lawsD [OF B] dinode_roundtrip)
  next
    case False
    then have ne: "j mod IPB \<noteq> i mod IPB" using dv div_mod_eqI by blast
    have "wr_dinode (bread B dev (IBLOCK i sb) d) (64 * (i mod IPB)) di (64 * (j mod IPB) + k) = bread B dev (IBLOCK i sb) d (64 * (j mod IPB) + k)"
      if "k < 64" for k using ne that di by (intro wr_dinode_other) auto
    then show ?thesis
      using True False by (auto simp: on_disk_def bio_lawsD [OF B] intro!: rd_dinode_cong)
  qed
qed

lemma ialloc_loop_cases:
  assumes "ialloc_loop B sb dev ty inums (tbl, d) = Some (r, tbl', d')"
  shows "r = None \<and> tbl' = tbl \<and> d' = d \<and> (\<forall>i\<in>set inums. alloced B sb dev i d) \<or>
    (\<exists>i\<in>set inums. \<exists>k. \<not> alloced B sb dev i d \<and> r = Some k \<and> iget dev (of_nat i) tbl = Some (k, tbl') \<and>
       d' = log_write B dev (IBLOCK i sb) (wr_dinode (bread B dev (IBLOCK i sb) d) (64 * (i mod IPB)) (free_dinode ty)) d)"
  using assms
proof (induction inums)
  case Nil
  then show ?case by simp
next
  case (Cons i inums)
  show ?case
  proof (cases "alloced B sb dev i d")
    case True
    then show ?thesis using Cons by (auto simp: alloced_def on_disk_def Let_def)
  next
    case False
    then show ?thesis using Cons.prems by (auto simp: alloced_def on_disk_def Let_def bind_eq_Some_conv)
  qed
qed

lemma fresh_iwf: "d_addrs (on_disk B sb dev i d) = replicate (NDIRECT + 2) 0 \<Longrightarrow> iwf B sb (inode_at B sb dev i d) d \<and> owned B (inode_at B sb dev i d) d = {}"
proof -
  assume a: "d_addrs (on_disk B sb dev i d) = replicate (NDIRECT + 2) 0"
  have "pval B (inode_at B sb dev i d) d p = 0" if "pos_ok p" for p
    using that a by (cases p) (auto simp: entry_def nth_replicate simp del: replicate_Suc)
  then show ?thesis using a by (auto simp: iwf_def owned_def)
qed

text \<open>
  When \<^verbatim>\<open>ialloc\<close> returns an inode, it is one that was free on the disk; it now has the
  requested type, no links, size 0 and no blocks; the returned table entry refers to it; every other
  inode is unchanged and the device stays well formed. It returns the null pointer only when every inode
  from 1 on is allocated, and then changes nothing.\<close>

theorem ialloc_claims_free_inode:
  assumes B: "bio_laws B" and sb: "sb_ok sb" and fs: "fs_wf B sb dev d" and inv: "itab_inv tbl" and ty: "ty \<noteq> 0"
    and r: "ialloc B sb dev ty (tbl, d) = Some (r, tbl', d')"
  shows "case r of
      None \<Rightarrow> tbl' = tbl \<and> d' = d \<and> (\<forall>i. 1 \<le> i \<and> i < unat (sb_ninodes sb) \<longrightarrow> alloced B sb dev i d)
    | Some k \<Rightarrow> \<exists>i. 1 \<le> i \<and> i < unat (sb_ninodes sb) \<and> \<not> alloced B sb dev i d \<and>
        on_disk B sb dev i d' = free_dinode ty \<and>
        (\<forall>j<unat (sb_ninodes sb). j \<noteq> i \<longrightarrow> on_disk B sb dev j d' = on_disk B sb dev j d) \<and>
        k < NINODE \<and> i_dev (tbl' ! k) = dev \<and> i_inum (tbl' ! k) = of_nat i \<and> 0 < i_ref (tbl' ! k) \<and>
        itab_inv tbl' \<and> fs_wf B sb dev d'"
proof (cases r)
  case None
  then show ?thesis
    using ialloc_loop_cases [OF r [unfolded ialloc_def]] by auto
next
  case (Some k)
  obtain i where i: "1 \<le> i" "i < unat (sb_ninodes sb)" "\<not> alloced B sb dev i d" "iget dev (of_nat i) tbl = Some (k, tbl')"
    and d': "d' = log_write B dev (IBLOCK i sb) (wr_dinode (bread B dev (IBLOCK i sb) d) (64 * (i mod IPB)) (free_dinode ty)) d"
    using ialloc_loop_cases [OF r [unfolded ialloc_def]] Some by auto
  have od: "on_disk B sb dev j d' = (if j = i then free_dinode ty else on_disk B sb dev j d)" if "j < unat (sb_ninodes sb)" for j
    unfolding d' using on_disk_wr [OF B sb i(2) that, of "free_dinode ty"] by (simp add: free_dinode_def)
  have br: "bread B dev b d' = bread B dev b d" if "b \<noteq> IBLOCK i sb" for b
    using that by (auto simp: d' bio_lawsD [OF B])
  have bu: "bused B sb dev d' n = bused B sb dev d n" if "n < unat (sb_size sb)" for n
    using br BBLOCK_not_inode_block [OF sb i(2) that] by (simp add: bused_def)
  have mu: "meta_used B sb dev d'"
    using fs_wfD(1) [OF fs] bu sb_okD(3) [OF sb] by (simp add: meta_used_def)
  have keep: "bread B dev b d' = bread B dev b d \<and> bused B sb dev d' (unat b)"
    if j: "j < unat (sb_ninodes sb)" "alloced B sb dev j d" "b \<in> owned B (inode_at B sb dev j d) d" for j b
  proof -
    have "data_block sb b" "bused B sb dev d (unat b)" using owned_data [OF fs_wfD(2) [OF fs j(1,2)] j(3)] by auto
    then show ?thesis using br [of b] inode_block_not_data [OF sb i(2), of b] bu [of "unat b"] by (auto simp: data_block_def)
  qed
  have fr: "iwf B sb (inode_at B sb dev i d') d'" "owned B (inode_at B sb dev i d') d' = {}"
    using fresh_iwf [of B sb dev i d'] od [OF i(2)] by (simp_all add: free_dinode_def)
  have "fs_wf B sb dev d'"
    by (rule fs_wf_step [OF fs mu, of i]) (use od keep fr in auto)
  then show ?thesis
    using Some i od iget_inv [OF inv i(4)] by auto
qed

text \<open>
  What \<^verbatim>\<open>iupdate\<close> writes is what a later \<^verbatim>\<open>ilock\<close> of the inode reads back: an entry for the same
  inode that is not valid gets exactly the fields that were written, and is locked and valid.\<close>

theorem iupdate_ilock_roundtrip:
  assumes "bio_laws B" and "sb_ok sb" and "unat (i_inum ip) < unat (sb_ninodes sb)" and "length (i_addrs ip) = 13"
    and "i_type ip \<noteq> 0" and "k < length tbl" and "i_dev (tbl ! k) = i_dev ip" and "i_inum (tbl ! k) = i_inum ip"
    and "0 < i_ref (tbl ! k)" and "\<not> i_locked (tbl ! k)" and "\<not> i_valid (tbl ! k)"
  shows "ilock B sb k (tbl, iupdate B sb ip d) =
    Some (tbl[k := ip\<lparr>i_ref := i_ref (tbl ! k), i_locked := True, i_valid := True\<rparr>], iupdate B sb ip d)"
proof -
  have "rd_dinode (bread B (i_dev ip) (IBLOCK (unat (i_inum ip)) sb) (iupdate B sb ip d)) (64 * (unat (i_inum ip) mod IPB)) = dinode_of ip"
    using on_disk_iupdate [OF assms(1-3,3), of "i_dev ip" d] assms(4) by (simp add: on_disk_def NDIRECT_def)
  moreover have "(dinode_load (tbl ! k) (dinode_of ip))\<lparr>i_locked := True, i_valid := True\<rparr> =
      ip\<lparr>i_ref := i_ref (tbl ! k), i_locked := True, i_valid := True\<rparr>"
    using assms(7,8) by (cases "tbl ! k"; cases ip) (simp add: dinode_load_def dinode_of_def)
  moreover have "i_type (dinode_load (tbl ! k) (dinode_of ip)) = i_type ip" by (simp add: dinode_load_def dinode_of_def)
  ultimately show ?thesis
    using assms(5-) by (simp add: ilock_def Let_def)
qed

text \<open>
  The inode table holds at most one referenced entry per inode: looking up the same inode
  again returns the same entry with its count raised, and looking up another inode returns another entry.\<close>

theorem iget_one_entry_per_inode:
  assumes inv: "itab_inv tbl" and g: "iget dev inum tbl = Some (k, t1)"
  shows "itab_inv t1 \<and> (\<exists>t2. iget dev inum t1 = Some (k, t2) \<and> i_ref (t2 ! k) = i_ref (t1 ! k) + 1) \<and>
    (\<forall>dev' inum' k' t2. iget dev' inum' t1 = Some (k', t2) \<longrightarrow> (k' = k \<longleftrightarrow> dev' = dev \<and> inum' = inum))"
proof (intro conjI allI impI)
  note i1 = iget_inv [OF inv g]
  show "itab_inv t1" using i1(1) .
  show "\<exists>t2. iget dev inum t1 = Some (k, t2) \<and> i_ref (t2 ! k) = i_ref (t1 ! k) + 1"
    using iget_same [OF inv g] i1(2) itab_invD(1) [OF i1(1)] by simp
  fix dev' inum' k' t2 assume g2: "iget dev' inum' t1 = Some (k', t2)"
  show "k' = k \<longleftrightarrow> dev' = dev \<and> inum' = inum"
  proof
    assume "dev' = dev \<and> inum' = inum"
    then show "k' = k" using g2 iget_same [OF inv g] by simp
  next
    assume k: "k' = k"
    have "0 < i_ref (t1 ! k)" using i1(5) .
    then have "find_idx (\<lambda>ip. i_ref ip = 0) t1 \<noteq> Some k" by (auto dest: find_idx_SomeD)
    then have "find_idx (\<lambda>ip. 0 < i_ref ip \<and> i_dev ip = dev' \<and> i_inum ip = inum') t1 = Some k"
      using g2 k by (auto simp: iget_def split: option.splits)
    then show "dev' = dev \<and> inum' = inum" using i1(3,4) by (auto dest: find_idx_SomeD)
  qed
qed

subsection \<open>Witnesses\<close>

text \<open>The small disk with an orphaned inode 2 that owns block 5, and an idle table.\<close>

definition orphan_ino :: inode where
  "orphan_ino = demo_ino\<lparr>i_nlink := 0\<rparr>"

definition orphan_disk :: "(u32 \<times> u32) \<Rightarrow> bytes" where
  "orphan_disk = iupdate demo_bio demo_sb orphan_ino demo_disk"

definition idle_tbl :: itable where
  "idle_tbl = replicate NINODE (demo_ino\<lparr>i_ref := 0, i_locked := False, i_valid := False, i_nlink := 0\<rparr>)"

lemma idle_tbl_ok: "idle_table idle_tbl" "itab_inv idle_tbl"
  by (auto simp: idle_table_def idle_tbl_def itab_inv_def unique_keys_def)

lemma demo_ninodes: "unat (sb_ninodes demo_sb) = 16"
  by (simp add: demo_sb_def)

lemma demo_none_alloced: "i < 16 \<Longrightarrow> \<not> alloced demo_bio demo_sb 1 i demo_disk"
  by (auto simp: alloced_def on_disk_def rd_dinode_def rd16_def demo_bio_def demo_disk_def demo_sb_def IBLOCK_def IPB_def)

lemma demo_fs_wf: "fs_wf demo_bio demo_sb 1 demo_disk"
  using demo_none_alloced demo_meta by (auto simp: fs_wf_def demo_sb_def demo_ino_def)

lemma orphan_on_disk:
  "i < 16 \<Longrightarrow> on_disk demo_bio demo_sb 1 i orphan_disk =
     (if i = 2 then dinode_of orphan_ino else on_disk demo_bio demo_sb 1 i demo_disk)"
  unfolding orphan_disk_def
  using on_disk_iupdate [OF demo_bio_laws demo_sb_ok, of i orphan_ino 1 demo_disk]
  by (simp add: orphan_ino_def demo_ino_def demo_sb_def NDIRECT_def)

lemma orphan_bread: "b \<noteq> 2 \<Longrightarrow> bread demo_bio 1 b orphan_disk = bread demo_bio 1 b demo_disk"
  unfolding orphan_disk_def
  by (rule bread_iupdate [OF demo_bio_laws]) (simp add: orphan_ino_def demo_ino_def demo_sb_def IBLOCK_def IPB_def)

lemma orphan_bused: "n < 64 \<Longrightarrow> bused demo_bio demo_sb 1 orphan_disk n = bused demo_bio demo_sb 1 demo_disk n"
  by (simp add: bused_def orphan_bread BBLOCK_def demo_sb_def)

lemma orphan_disk_wf: "fs_wf demo_bio demo_sb 1 orphan_disk"
proof (rule fs_wf_step [OF demo_fs_wf, of _ 2])
  show "meta_used demo_bio demo_sb 1 orphan_disk"
    using demo_meta by (simp add: meta_used_def datastart_def demo_sb_def orphan_bused [unfolded demo_sb_def] demo_ino_def)
  have pv: "pval demo_bio demo_ino orphan_disk p = pval demo_bio demo_ino demo_disk p" if "pos_ok p" for p
    using that by (rule pval_cong [rotated]) (use demo_pval in \<open>auto simp: demo_ino_def\<close>)
  have keep: "iwf demo_bio demo_sb demo_ino orphan_disk"
  proof (rule iwf_keep [OF demo_iwf pv])
    fix b assume "b \<in> owned demo_bio demo_ino demo_disk"
    then show "bused demo_bio demo_sb (i_dev demo_ino) orphan_disk (unat b)"
      using orphan_bused [of 5] demo_bused [of 5] by (simp add: demo_owned) (simp add: demo_ino_def)
  qed
  have same: "i_dev demo_ino = i_dev (inode_at demo_bio demo_sb 1 2 orphan_disk)"
    "i_addrs demo_ino = i_addrs (inode_at demo_bio demo_sb 1 2 orphan_disk)"
    by (simp_all add: orphan_on_disk dinode_of_def orphan_ino_def demo_ino_def)
  show "iwf demo_bio demo_sb (inode_at demo_bio demo_sb 1 2 orphan_disk) orphan_disk"
    using keep iwf_addrs_cong(1) [OF same, of demo_bio demo_sb orphan_disk] by (rule iffD1 [rotated])
next
  fix j assume "j < unat (sb_ninodes demo_sb)" "j \<noteq> 2"
  then show "on_disk demo_bio demo_sb 1 j orphan_disk = on_disk demo_bio demo_sb 1 j demo_disk"
    by (simp add: orphan_on_disk demo_ninodes)
qed (use demo_none_alloced in \<open>auto simp: demo_ninodes\<close>)

lemma orphan_is_orphan: "orphan demo_bio demo_sb 1 2 orphan_disk"
  by (simp add: orphan_def alloced_def orphan_on_disk dinode_of_def orphan_ino_def demo_ino_def)

theorem ireclaim_frees_orphans_witness:
  "orphan demo_bio demo_sb 1 2 orphan_disk \<and>
   (\<exists>tbl' d'. ireclaim demo_bio demo_sb 1 (idle_tbl, orphan_disk) = Some (tbl', d') \<and> \<not> orphan demo_bio demo_sb 1 2 d')"
proof -
  have "(1 :: nat) \<le> 2 \<and> 2 < unat (sb_ninodes demo_sb)" by (simp add: demo_sb_def)
  then show ?thesis
    using ireclaim_frees_orphans [OF demo_bio_laws demo_sb_ok orphan_disk_wf idle_tbl_ok(1)] orphan_is_orphan by blast
qed

theorem ialloc_claims_free_inode_witness:
  "\<exists>k tbl' d' i. ialloc demo_bio demo_sb 1 2 (idle_tbl, orphan_disk) = Some (Some k, tbl', d') \<and>
     \<not> alloced demo_bio demo_sb 1 i orphan_disk \<and> on_disk demo_bio demo_sb 1 i d' = free_dinode 2"
proof -
  let ?s = "(idle_tbl, orphan_disk)"
  have up: "[1..<unat (sb_ninodes demo_sb)] = 1 # [2..<16]" by (simp add: demo_sb_def upt_conv_Cons)
  have "\<not> alloced demo_bio demo_sb 1 1 orphan_disk"
    using demo_none_alloced [of 1] by (simp add: alloced_def orphan_on_disk)
  then have "d_type (rd_dinode (bread demo_bio 1 (IBLOCK 1 demo_sb) orphan_disk) (64 * (1 mod IPB))) = 0"
    by (simp add: alloced_def on_disk_def)
  then obtain k tbl' d' where r: "ialloc demo_bio demo_sb 1 2 ?s = Some (Some k, tbl', d')"
    unfolding ialloc_def up by (simp add: Let_def idle_iget [OF idle_tbl_ok(1)])
  have "\<exists>i. \<not> alloced demo_bio demo_sb 1 i orphan_disk \<and> on_disk demo_bio demo_sb 1 i d' = free_dinode 2"
    using ialloc_claims_free_inode [OF demo_bio_laws demo_sb_ok orphan_disk_wf idle_tbl_ok(2) _ r] by auto
  then show ?thesis using r by blast
qed

theorem iupdate_ilock_roundtrip_witness:
  "ilock demo_bio demo_sb 0 ([demo_ino\<lparr>i_locked := False, i_valid := False, i_size := 7\<rparr>], iupdate demo_bio demo_sb demo_ino demo_disk) =
     Some ([demo_ino], iupdate demo_bio demo_sb demo_ino demo_disk)"
proof -
  let ?t = "[demo_ino\<lparr>i_locked := False, i_valid := False, i_size := 7\<rparr>]"
  have "?t[0 := demo_ino\<lparr>i_ref := i_ref (?t ! 0), i_locked := True, i_valid := True\<rparr>] = [demo_ino]"
    by (simp add: demo_ino_def)
  then show ?thesis
    using iupdate_ilock_roundtrip [OF demo_bio_laws demo_sb_ok, of demo_ino 0 ?t demo_disk]
    by (simp add: demo_ino_def demo_sb_def)
qed

theorem iget_one_entry_per_inode_witness:
  "\<exists>k t1 t2. iget 1 2 idle_tbl = Some (k, t1) \<and> iget 1 2 t1 = Some (k, t2) \<and> i_ref (t2 ! k) = i_ref (t1 ! k) + 1"
  using iget_one_entry_per_inode [OF idle_tbl_ok(2) idle_iget [OF idle_tbl_ok(1)], of 2 1] idle_iget [OF idle_tbl_ok(1), of 1 2]
  by blast

end
