(* ===== verification/FsData.thy ===== *)
theory FsData
  imports FsTable
begin

text \<open>
  File contents of \<^verbatim>\<open>kernel/fs.c\<close> (Lab 5, Task 5.1): \<^verbatim>\<open>readi\<close> and \<^verbatim>\<open>writei\<close>, with \<^verbatim>\<open>either_copyout\<close> and
  \<^verbatim>\<open>either_copyin\<close> of \<^verbatim>\<open>kernel/proc.c\<close> (Lab 3, Task 3.1). Kernel memory is a function from addresses to
  bytes; user memory is an arbitrary state that \<^verbatim>\<open>copyout\<close> and \<^verbatim>\<open>copyin\<close> of \<^verbatim>\<open>vm.c\<close> (parameters) access and
  that may fail. The lemmas relate the calls to the byte contents \<open>fbyte\<close> of the file: a write changes
  exactly the bytes it reports, a read returns them.
\<close>

record 'u vmcopy =
  vm_copyout :: "u64 \<Rightarrow> u8 list \<Rightarrow> 'u \<Rightarrow> bool \<times> 'u"
  vm_copyin :: "u64 \<Rightarrow> nat \<Rightarrow> 'u \<Rightarrow> bool \<times> u8 list"

type_synonym kmem = "u64 \<Rightarrow> u8"

fun store :: "kmem \<Rightarrow> u64 \<Rightarrow> u8 list \<Rightarrow> kmem" where
  "store m a [] = m"
| "store m a (x # xs) = store (m(a := x)) (a + 1) xs"

definition load :: "kmem \<Rightarrow> u64 \<Rightarrow> nat \<Rightarrow> u8 list" where
  "load m a n = map (\<lambda>i. m (a + of_nat i)) [0..<n]"

definition either_copyout :: "'u vmcopy \<Rightarrow> bool \<Rightarrow> u64 \<Rightarrow> u8 list \<Rightarrow> kmem \<times> 'u \<Rightarrow> bool \<times> kmem \<times> 'u" where
  "either_copyout C user_dst dst src = (\<lambda>(km, um).
     if user_dst then (let (r, um') = vm_copyout C dst src um in (r, km, um'))
     else (True, store km dst src, um))"

definition either_copyin :: "'u vmcopy \<Rightarrow> bool \<Rightarrow> u64 \<Rightarrow> nat \<Rightarrow> kmem \<times> 'u \<Rightarrow> bool \<times> u8 list" where
  "either_copyin C user_src src n = (\<lambda>(km, um).
     if user_src then vm_copyin C src n um else (True, load km src n))"

subsection \<open>Reading\<close>

function readi_loop :: "'d bio \<Rightarrow> superblock \<Rightarrow> 'u vmcopy \<Rightarrow> bool \<Rightarrow> nat \<Rightarrow> nat \<Rightarrow> nat \<Rightarrow> u64 \<Rightarrow> inode \<Rightarrow> kmem \<times> 'u \<Rightarrow> 'd \<Rightarrow>
    (int \<times> inode \<times> (kmem \<times> 'u) \<times> 'd) option" where
  "readi_loop B sb C user_dst n tot off dst ip mem d =
     (if tot < n then
        (case bmap B sb ip (off div BSIZE) d of
           None \<Rightarrow> None
         | Some (addr, ip1, d1) \<Rightarrow>
             if addr = 0 then Some (int tot, ip1, mem, d1)
             else
               let m = min (n - tot) (BSIZE - off mod BSIZE);
                   a = bread B (i_dev ip1) addr d1;
                   (ok, mem1) = either_copyout C user_dst dst (map (\<lambda>i. a (off mod BSIZE + i)) [0..<m]) mem
               in if \<not> ok then Some (- 1, ip1, mem1, d1)
                  else readi_loop B sb C user_dst n (tot + m) (off + m) (dst + of_nat m) ip1 mem1 d1)
      else Some (int tot, ip, mem, d))"
  by pat_completeness auto

termination
  by (relation "measure (\<lambda>(B, sb, C, user_dst, n, tot, off, dst, ip, mem, d). n - tot)") (auto simp: Let_def)

declare readi_loop.simps [simp del]

definition readi :: "'d bio \<Rightarrow> superblock \<Rightarrow> 'u vmcopy \<Rightarrow> inode \<Rightarrow> bool \<Rightarrow> u64 \<Rightarrow> u32 \<Rightarrow> u32 \<Rightarrow> kmem \<times> 'u \<Rightarrow> 'd \<Rightarrow>
    (int \<times> inode \<times> (kmem \<times> 'u) \<times> 'd) option" where
  "readi B sb C ip user_dst dst off n mem d =
     (if off > i_size ip \<or> off + n < off then Some (0, ip, mem, d)
      else let n1 = (if off + n > i_size ip then i_size ip - off else n)
           in readi_loop B sb C user_dst (unat n1) 0 (unat off) dst ip mem d)"

subsection \<open>Writing\<close>

definition patch :: "bytes \<Rightarrow> nat \<Rightarrow> u8 list \<Rightarrow> bytes" where
  "patch a p xs = (\<lambda>i. if p \<le> i \<and> i < p + length xs then xs ! (i - p) else a i)"

text \<open>The loop of \<^verbatim>\<open>writei\<close> ends with the number of bytes written, the offset reached and the inode.\<close>

function writei_loop :: "'d bio \<Rightarrow> superblock \<Rightarrow> 'u vmcopy \<Rightarrow> bool \<Rightarrow> kmem \<times> 'u \<Rightarrow> nat \<Rightarrow> nat \<Rightarrow> nat \<Rightarrow> u64 \<Rightarrow> inode \<Rightarrow> 'd \<Rightarrow>
    (nat \<times> nat \<times> inode \<times> 'd) option" where
  "writei_loop B sb C user_src mem n tot off src ip d =
     (if tot < n then
        (case bmap B sb ip (off div BSIZE) d of
           None \<Rightarrow> None
         | Some (addr, ip1, d1) \<Rightarrow>
             if addr = 0 then Some (tot, off, ip1, d1)
             else
               let m = min (n - tot) (BSIZE - off mod BSIZE);
                   a = bread B (i_dev ip1) addr d1;
                   (ok, xs) = either_copyin C user_src src m mem
               in if \<not> ok then Some (tot, off, ip1, release_unlogged B (i_dev ip1) addr (patch a (off mod BSIZE) xs) d1)
                  else writei_loop B sb C user_src mem n (tot + m) (off + m) (src + of_nat m) ip1
                         (log_write B (i_dev ip1) addr (patch a (off mod BSIZE) xs) d1))
      else Some (tot, off, ip, d))"
  by pat_completeness auto

termination
  by (relation "measure (\<lambda>(B, sb, C, user_src, mem, n, tot, off, src, ip, d). n - tot)") (auto simp: Let_def)

declare writei_loop.simps [simp del]

definition writei :: "'d bio \<Rightarrow> superblock \<Rightarrow> 'u vmcopy \<Rightarrow> inode \<Rightarrow> bool \<Rightarrow> u64 \<Rightarrow> u32 \<Rightarrow> u32 \<Rightarrow> kmem \<times> 'u \<Rightarrow> 'd \<Rightarrow>
    (int \<times> inode \<times> 'd) option" where
  "writei B sb C ip user_src src off n mem d =
     (if off > i_size ip \<or> off + n < off then Some (- 1, ip, d)
      else if unat (off + n) > MAXFILE * BSIZE then Some (- 1, ip, d)
      else
        (case writei_loop B sb C user_src mem (unat n) 0 (unat off) src ip d of
           None \<Rightarrow> None
         | Some (tot, off1, ip1, d1) \<Rightarrow>
             let ip2 = (if off1 > unat (i_size ip1) then ip1\<lparr>i_size := of_nat off1\<rparr> else ip1)
             in Some (int tot, ip2, iupdate B sb ip2 d1)))"

subsection \<open>File contents\<close>

text \<open>The byte at offset \<open>o\<close>; a block that is not mapped reads as zeros, which is what mapping it gives.\<close>

definition fbyte :: "'d bio \<Rightarrow> inode \<Rightarrow> 'd \<Rightarrow> nat \<Rightarrow> u8" where
  "fbyte B ip d p = (let b = fblock B ip d (p div BSIZE) in if b = 0 then 0 else bread B (i_dev ip) b d (p mod BSIZE))"

lemma lt_maxfile: "p < MAXFILE * BSIZE \<Longrightarrow> p div BSIZE < MAXFILE"
  by (simp add: less_mult_imp_div_less)

lemma bmap_fbyte:
  assumes sb: "sb_ok sb" and wf: "iwf B sb ip d" and q: "bmap_post B sb (pos_of bn) ip d addr ip' d'"
    and p: "p < MAXFILE * BSIZE"
  shows "fbyte B ip' d' p = fbyte B ip d p"
proof -
  note e = bmap_postD(1) [OF q]
  have dev: "i_dev ip' = i_dev ip" using extendsD(3) [OF e] by (simp add: same_meta_simps)
  let ?n = "p div BSIZE"
  have n: "?n < MAXFILE" using lt_maxfile [OF p] .
  show ?thesis
  proof (cases "fblock B ip d ?n = 0")
    case False
    then show ?thesis using extends_data [OF sb wf e n False] dev by (simp add: fbyte_def)
  next
    case True
    show ?thesis
    proof (cases "?n = bn")
      case bn: True
      then have f: "fblock B ip' d' ?n = addr" using bmap_postD(2) [OF q] by (simp add: fblock_def)
      have "bread B (i_dev ip) addr d' (p mod BSIZE) = 0" if "addr \<noteq> 0"
        using bmap_postD(5) [OF q that] True bn by (simp add: fblock_def)
      then show ?thesis using True f dev by (simp add: fbyte_def)
    next
      case False
      have "pval B ip' d' (pos_of ?n) = pval B ip d (pos_of ?n)"
        using extendsD(4) [OF e pos_of_ok [OF n]] pos_of_leaf [of ?n] pos_of_inj [of ?n bn] False by metis
      then have "fblock B ip' d' ?n = 0" using True by (simp add: fblock_def)
      then show ?thesis using True by (simp add: fbyte_def)
    qed
  qed
qed

text \<open>
  \<open>file_frame\<close>: the inode may have gained blocks that were free; blocks in use that it does not own keep
  their contents and stay in use.
\<close>

definition file_frame :: "'d bio \<Rightarrow> superblock \<Rightarrow> inode \<Rightarrow> 'd \<Rightarrow> inode \<Rightarrow> 'd \<Rightarrow> bool" where
  "file_frame B sb ip d ip' d' \<longleftrightarrow> iwf B sb ip' d' \<and> meta_used B sb (i_dev ip) d' \<and> same_meta ip ip' \<and>
     (\<forall>n<unat (sb_size sb). bused B sb (i_dev ip) d n \<longrightarrow> bused B sb (i_dev ip) d' n) \<and>
     (\<forall>q. pos_ok q \<longrightarrow> pval B ip d q \<noteq> 0 \<longrightarrow> pval B ip' d' q = pval B ip d q) \<and>
     (\<forall>b\<in>owned B ip' d' - owned B ip d. \<not> bused B sb (i_dev ip) d (unat b)) \<and>
     (\<forall>b. b \<noteq> 0 \<and> \<not> is_bmap sb b \<and> unat b < unat (sb_size sb) \<and> bused B sb (i_dev ip) d (unat b) \<and>
        b \<notin> owned B ip d \<longrightarrow> bread B (i_dev ip) b d' = bread B (i_dev ip) b d)"

lemma file_frameD:
  assumes "file_frame B sb ip d ip' d'"
  shows "iwf B sb ip' d'" and "meta_used B sb (i_dev ip) d'" and "same_meta ip ip'"
    and "n < unat (sb_size sb) \<Longrightarrow> bused B sb (i_dev ip) d n \<Longrightarrow> bused B sb (i_dev ip) d' n"
    and "b \<in> owned B ip' d' \<Longrightarrow> b \<notin> owned B ip d \<Longrightarrow> \<not> bused B sb (i_dev ip) d (unat b)"
    and "b \<noteq> 0 \<Longrightarrow> \<not> is_bmap sb b \<Longrightarrow> unat b < unat (sb_size sb) \<Longrightarrow> bused B sb (i_dev ip) d (unat b) \<Longrightarrow>
        b \<notin> owned B ip d \<Longrightarrow> bread B (i_dev ip) b d' = bread B (i_dev ip) b d"
    and "pos_ok q \<Longrightarrow> pval B ip d q \<noteq> 0 \<Longrightarrow> pval B ip' d' q = pval B ip d q"
  using assms unfolding file_frame_def by blast+

lemma file_frame_refl: "iwf B sb ip d \<Longrightarrow> meta_used B sb (i_dev ip) d \<Longrightarrow> file_frame B sb ip d ip d"
  by (simp add: file_frame_def)

lemma file_frame_trans:
  assumes 1: "file_frame B sb ip d ip1 d1" and 2: "file_frame B sb ip1 d1 ip2 d2"
  shows "file_frame B sb ip d ip2 d2"
proof -
  have dev: "i_dev ip1 = i_dev ip" using file_frameD(3) [OF 1] by (simp add: same_meta_simps)
  note f1 = file_frameD [OF 1] and f2 = file_frameD [OF 2, unfolded dev]
  show ?thesis
    unfolding file_frame_def
  proof (intro conjI allI impI ballI)
    show "same_meta ip ip2" using same_meta_trans [OF f1(3) f2(3)] .
  next
    fix b assume b: "b \<in> owned B ip2 d2 - owned B ip d"
    have "unat b < unat (sb_size sb)" using owned_data [OF f2(1), of b] b by (simp add: data_block_def)
    then show "\<not> bused B sb (i_dev ip) d (unat b)"
      using b f1(4,5) f2(5) by blast
  next
    fix b assume b: "b \<noteq> 0 \<and> \<not> is_bmap sb b \<and> unat b < unat (sb_size sb) \<and> bused B sb (i_dev ip) d (unat b) \<and> b \<notin> owned B ip d"
    then have "b \<notin> owned B ip1 d1" "bused B sb (i_dev ip) d1 (unat b)" using f1(4,5) by blast+
    then show "bread B (i_dev ip) b d2 = bread B (i_dev ip) b d" using f1(6) f2(6) b by metis
  qed (use f1 f2 in auto)
qed

lemma extends_frame:
  assumes "extends B sb p ip d ip' d'"
  shows "file_frame B sb ip d ip' d'"
proof -
  note e = extendsD [OF assms]
  show ?thesis
    unfolding file_frame_def
  proof (intro conjI allI impI ballI)
    fix b assume "b \<in> owned B ip' d' - owned B ip d"
    then obtain q where q: "pos_ok q" "b = pval B ip' d' q" "b \<noteq> 0" "b \<notin> owned B ip d" by (auto simp: owned_def)
    have "pval B ip' d' q \<noteq> pval B ip d q" using q by (auto simp: owned_def)
    then show "\<not> bused B sb (i_dev ip) d (unat b)" using e(4) [OF q(1)] q(2) by simp
  next
    fix b assume b: "b \<noteq> 0 \<and> \<not> is_bmap sb b \<and> unat b < unat (sb_size sb) \<and> bused B sb (i_dev ip) d (unat b) \<and> b \<notin> owned B ip d"
    have "\<forall>q. pos_ok q \<longrightarrow> is_table q \<longrightarrow> pval B ip d q \<noteq> b" using b by (auto simp: owned_def)
    then show "bread B (i_dev ip) b d' = bread B (i_dev ip) b d" using e(7) b by blast
  next
    fix q assume "pos_ok q" "pval B ip d q \<noteq> 0"
    then show "pval B ip' d' q = pval B ip d q" using e(4) by blast
  qed (use e in auto)
qed

text \<open>Writing into a data block of the file changes the contents of that block and nothing else.\<close>

lemma data_write:
  assumes B: "bio_laws B" and sb: "sb_ok sb" and wf: "iwf B sb ip d" and mu: "meta_used B sb (i_dev ip) d"
    and bn: "bn < MAXFILE" and addr: "fblock B ip d bn = addr" "addr \<noteq> 0"
    and other: "\<And>dev b. \<not> (dev = i_dev ip \<and> b = addr) \<Longrightarrow> bread B dev b d' = bread B dev b d"
  shows "file_frame B sb ip d ip d'" and "fblock B ip d' n = fblock B ip d n \<or> \<not> n < MAXFILE"
    and "bused B sb (i_dev ip) d' m = bused B sb (i_dev ip) d m \<or> \<not> m < unat (sb_size sb)"
proof -
  have ok: "pos_ok (pos_of bn)" using pos_of_ok [OF bn] .
  have pb: "pval B ip d (pos_of bn) = addr" using addr(1) by (simp add: fblock_def)
  have db: "data_block sb addr" and ow: "addr \<in> owned B ip d"
    using iwfD(2) [OF wf ok] pb addr(2) ok by (auto simp: owned_def)
  have pv: "pval B ip d' q = pval B ip d q" if "pos_ok q" for q
  proof (rule pval_cong [OF _ that])
    fix p assume p: "pos_ok p" "is_table p" "pval B ip d p \<noteq> 0"
    have "pval B ip d p \<noteq> addr" using iwfD(4) [OF wf p(1) ok p(3)] pb pos_of_leaf p(2) by metis
    then show "bread B (i_dev ip) (pval B ip d p) d' = bread B (i_dev ip) (pval B ip d p) d" using other by simp
  qed
  have bu: "bused B sb (i_dev ip) d' m = bused B sb (i_dev ip) d m" if "m < unat (sb_size sb)" for m
  proof -
    have "BBLOCK m sb \<noteq> addr" using BBLOCK_is_bmap [OF that] data_block_not_bmap [OF sb db] by metis
    then show ?thesis using other by (simp add: bused_def)
  qed
  have "iwf B sb ip d'"
    using iwf_keep [OF wf pv] owned_data [OF wf] bu by (auto simp: data_block_def)
  moreover have "meta_used B sb (i_dev ip) d'"
    using mu bu sb_okD(3) [OF sb] by (simp add: meta_used_def)
  moreover have "owned B ip d' = owned B ip d" unfolding owned_def using pv by (metis (no_types, lifting))
  moreover have "bread B (i_dev ip) b d' = bread B (i_dev ip) b d" if "b \<notin> owned B ip d" for b
    using other [of "i_dev ip" b] ow that by auto
  ultimately show "file_frame B sb ip d ip d'"
    using bu pv by (auto simp: file_frame_def)
  show "fblock B ip d' n = fblock B ip d n \<or> \<not> n < MAXFILE" using pv pos_of_ok by (auto simp: fblock_def)
  show "bused B sb (i_dev ip) d' m = bused B sb (i_dev ip) d m \<or> \<not> m < unat (sb_size sb)" using bu by auto
qed

subsection \<open>Writing changes exactly the bytes it reports\<close>

definition src_ok :: "'u vmcopy \<Rightarrow> bool \<Rightarrow> kmem \<times> 'u \<Rightarrow> u64 \<Rightarrow> (nat \<Rightarrow> u8) \<Rightarrow> bool" where
  "src_ok C user mem src s \<longleftrightarrow> (\<forall>k m. either_copyin C user (src + of_nat k) m mem = (True, map s [k..<k + m]))"

lemma src_okD: "src_ok C user mem src s \<Longrightarrow> either_copyin C user (src + of_nat k) m mem = (True, map s [k..<k + m])"
  by (simp add: src_ok_def)

lemma src_ok_kernel: "src_ok C False mem src (\<lambda>k. fst mem (src + of_nat k))"
proof -
  have "load km (src + of_nat k) m = map (\<lambda>k. km (src + of_nat k)) [k..<k + m]" for km k m
    by (rule nth_equalityI) (simp_all add: load_def add.assoc)
  then show ?thesis by (cases mem) (simp add: src_ok_def either_copyin_def)
qed

lemma patch_fbyte:
  assumes B: "bio_laws B" and sb: "sb_ok sb" and wf: "iwf B sb ip d" and mu: "meta_used B sb (i_dev ip) d"
    and off: "off < MAXFILE * BSIZE" and addr: "fblock B ip d (off div BSIZE) = addr" "addr \<noteq> 0"
    and len: "length xs \<le> BSIZE - off mod BSIZE" and p: "p < MAXFILE * BSIZE"
    and d': "d' = log_write B (i_dev ip) addr (patch (bread B (i_dev ip) addr d) (off mod BSIZE) xs) d"
  shows "fbyte B ip d' p = (if off \<le> p \<and> p < off + length xs then xs ! (p - off) else fbyte B ip d p)"
proof -
  let ?bn = "off div BSIZE" and ?n = "p div BSIZE"
  have other: "\<not> (dev = i_dev ip \<and> b = addr) \<Longrightarrow> bread B dev b d' = bread B dev b d" for dev b
    by (auto simp: d' bio_lawsD [OF B])
  have bn: "?bn < MAXFILE" "?n < MAXFILE" using lt_maxfile off p by blast+
  have fb: "fblock B ip d' ?n = fblock B ip d ?n"
    using data_write(2) [OF B sb wf mu bn(1) addr other, of ?n] bn(2) by auto
  have eq: "off = ?bn * BSIZE + off mod BSIZE" "p = ?n * BSIZE + p mod BSIZE" "p mod BSIZE < BSIZE" "off mod BSIZE < BSIZE"
    by simp_all
  show ?thesis
  proof (cases "?n = ?bn")
    case True
    have iff: "off \<le> p \<and> p < off + length xs \<longleftrightarrow> off mod BSIZE \<le> p mod BSIZE \<and> p mod BSIZE < off mod BSIZE + length xs"
      using True eq(1,2) by linarith
    have sub: "p - off = p mod BSIZE - off mod BSIZE" using True eq(1,2) by linarith
    have "bread B (i_dev ip) addr d' = patch (bread B (i_dev ip) addr d) (off mod BSIZE) xs"
      by (simp add: d' bio_lawsD [OF B])
    moreover have "fblock B ip d' ?n = addr" "fblock B ip d ?n = addr" using fb True addr(1) by simp_all
    ultimately show ?thesis
      unfolding iff sub using addr(2) by (simp add: fbyte_def patch_def)
  next
    case False
    have "\<not> (off \<le> p \<and> p < off + length xs)"
    proof
      assume "off \<le> p \<and> p < off + length xs"
      then have "p < ?bn * BSIZE + BSIZE" "?bn * BSIZE \<le> p" using eq(1,4) len by arith+
      then have "?n = ?bn" by (intro div_nat_eqI) simp_all
      then show False using False by simp
    qed
    moreover have "fblock B ip d ?n \<noteq> addr"
      using fblock_inj [OF wf bn(2,1)] addr False by auto
    ultimately show ?thesis
      unfolding fbyte_def fb Let_def using other [of "i_dev ip" "fblock B ip d ?n"] by auto
  qed
qed

lemma writei_loop_spec:
  assumes B: "bio_laws B" and sb: "sb_ok sb"
    and "iwf B sb ip d" and "meta_used B sb (i_dev ip) d" and "tot \<le> n" and "off + (n - tot) \<le> MAXFILE * BSIZE"
    and src: "src_ok C user mem src0 s" and "src = src0 + of_nat tot"
  shows "\<exists>tot' ip' d'. writei_loop B sb C user mem n tot off src ip d = Some (tot', off + (tot' - tot), ip', d') \<and>
     tot \<le> tot' \<and> tot' \<le> n \<and> file_frame B sb ip d ip' d' \<and>
     (tot' < n \<longrightarrow> (\<forall>m<unat (sb_size sb). bused B sb (i_dev ip) d' m)) \<and>
     (\<forall>p. off \<le> p \<and> p < off + (tot' - tot) \<longrightarrow> fblock B ip' d' (p div BSIZE) \<noteq> 0) \<and>
     (\<forall>p<MAXFILE * BSIZE. fbyte B ip' d' p =
        (if off \<le> p \<and> p < off + (tot' - tot) then s (tot + (p - off)) else fbyte B ip d p))"
  using assms(3-6,8)
proof (induction "n - tot" arbitrary: tot off src ip d rule: less_induct)
  case less
  note wf = less.prems(1) and mu = less.prems(2)
  show ?case
  proof (cases "tot < n")
    case False
    then show ?thesis using less.prems file_frame_refl [OF wf mu] by (subst writei_loop.simps) auto
  next
    case True
    have offlt: "off < MAXFILE * BSIZE" using less.prems(4) True by linarith
    obtain addr ip1 d1 where bm: "bmap B sb ip (off div BSIZE) d = Some (addr, ip1, d1)"
      and q: "bmap_post B sb (pos_of (off div BSIZE)) ip d addr ip1 d1"
      using bmap_spec [OF B sb mu wf lt_maxfile [OF offlt]] by blast
    note e = extends_frame [OF bmap_postD(1) [OF q]]
    have dev: "i_dev ip1 = i_dev ip" using file_frameD(3) [OF e] by (simp add: same_meta_simps)
    note fb1 = bmap_fbyte [OF sb wf q]
    show ?thesis
    proof (cases "addr = 0")
      case a0: True
      then have "writei_loop B sb C user mem n tot off src ip d = Some (tot, off, ip1, d1)"
        using True bm by (subst writei_loop.simps) simp
      then show ?thesis using e fb1 bmap_postD(4) [OF q a0] less.prems(3) by auto
    next
      case nz: False
      define m where "m = min (n - tot) (BSIZE - off mod BSIZE)"
      let ?xs = "map s [tot..<tot + m]"
      let ?d2 = "log_write B (i_dev ip1) addr (patch (bread B (i_dev ip1) addr d1) (off mod BSIZE) ?xs) d1"
      have m: "0 < m" "m \<le> n - tot" "m \<le> BSIZE - off mod BSIZE" using True by (simp_all add: m_def)
      have fbl: "fblock B ip1 d1 (off div BSIZE) = addr" using bmap_postD(2) [OF q] by (simp add: fblock_def)
      have wf1: "iwf B sb ip1 d1" and mu1: "meta_used B sb (i_dev ip1) d1" using file_frameD(1,2) [OF e] dev by auto
      have step: "writei_loop B sb C user mem n tot off src ip d =
          writei_loop B sb C user mem n (tot + m) (off + m) (src + of_nat m) ip1 ?d2"
        using True bm nz src_okD [OF src, of tot m] less.prems(5) by (subst writei_loop.simps) (simp add: Let_def flip: m_def)
      have fr2: "file_frame B sb ip1 d1 ip1 ?d2"
        by (rule data_write(1) [OF B sb wf1 mu1 lt_maxfile [OF offlt] fbl nz]) (auto simp: bio_lawsD [OF B])
      have fb2: "fbyte B ip1 ?d2 p = (if off \<le> p \<and> p < off + m then s (tot + (p - off)) else fbyte B ip d p)"
        if "p < MAXFILE * BSIZE" for p
      proof -
        have "?xs ! (p - off) = s (tot + (p - off))" if "off \<le> p \<and> p < off + m"
        proof -
          have "p - off < m" using that by linarith
          then show ?thesis by simp
        qed
        then show ?thesis
          using patch_fbyte [OF B sb wf1 mu1 offlt fbl nz _ that refl, of ?xs] fb1 [OF that] m(3) by simp
      qed
      obtain tot' ip' d' where r: "writei_loop B sb C user mem n (tot + m) (off + m) (src + of_nat m) ip1 ?d2 =
            Some (tot', off + m + (tot' - (tot + m)), ip', d')"
        and t: "tot + m \<le> tot'" "tot' \<le> n" and fr3: "file_frame B sb ip1 ?d2 ip' d'"
        and mp: "\<forall>p. off + m \<le> p \<and> p < off + m + (tot' - (tot + m)) \<longrightarrow> fblock B ip' d' (p div BSIZE) \<noteq> 0"
        and full: "tot' < n \<longrightarrow> (\<forall>m<unat (sb_size sb). bused B sb (i_dev ip1) d' m)"
        and fb3: "\<forall>p<MAXFILE * BSIZE. fbyte B ip' d' p = (if off + m \<le> p \<and> p < off + m + (tot' - (tot + m))
            then s (tot + m + (p - (off + m))) else fbyte B ip1 ?d2 p)"
      proof -
        have lt: "n - (tot + m) < n - tot" and le: "tot + m \<le> n"
          and le2: "off + m + (n - (tot + m)) \<le> MAXFILE * BSIZE" using m True less.prems(4) by linarith+
        have sr: "src + of_nat m = src0 + of_nat (tot + m)" using less.prems(5) by (simp only: of_nat_add add.assoc)
        show ?thesis
          using less.hyps [OF lt file_frameD(1,2) [OF fr2] le le2 sr] that by blast
      qed
      have end_off: "off + m + (tot' - (tot + m)) = off + (tot' - tot)" using t by linarith
      have "fbyte B ip' d' p = (if off \<le> p \<and> p < off + (tot' - tot) then s (tot + (p - off)) else fbyte B ip d p)"
        if "p < MAXFILE * BSIZE" for p
      proof -
        consider "off + m \<le> p" | "off \<le> p" "p < off + m" | "p < off" by linarith
        then show ?thesis
        proof cases
          case 1
          then have "tot + m + (p - (off + m)) = tot + (p - off)" by linarith
          then show ?thesis using fb3 fb2 [OF that] that t 1 by (auto simp: end_off)
        next
          case 2
          then have "p < off + (tot' - tot)" "p < off + tot' - tot" using t by linarith+
          then show ?thesis using fb3 fb2 [OF that] that 2 by simp
        next
          case 3
          then show ?thesis using fb3 fb2 [OF that] that by simp
        qed
      qed
      moreover have "fblock B ip' d' (p div BSIZE) \<noteq> 0" if "off \<le> p" "p < off + (tot' - tot)" for p
      proof (cases "off + m \<le> p")
        case True
        then show ?thesis using mp that end_off by simp
      next
        case False
        have "p < off div BSIZE * BSIZE + BSIZE" "off div BSIZE * BSIZE \<le> p"
          using False that m div_mult_mod_eq [of off BSIZE] mod_less_divisor [of BSIZE off] by linarith+
        then have eq: "p div BSIZE = off div BSIZE" by (intro div_nat_eqI) simp_all
        show ?thesis
          unfolding eq using file_frameD(7) [OF file_frame_trans [OF fr2 fr3] pos_of_ok [OF lt_maxfile [OF offlt]]] fbl nz
          by (simp add: fblock_def)
      qed
      ultimately show ?thesis
        using end_off step r t full dev file_frame_trans [OF e file_frame_trans [OF fr2 fr3]]
        by (intro exI [of _ tot'] exI [of _ ip'] exI [of _ d']) simp
    qed
  qed
qed

subsection \<open>Reading returns the contents\<close>

definition dst_ok :: "'u vmcopy \<Rightarrow> bool \<Rightarrow> bool" where
  "dst_ok C user \<longleftrightarrow> (\<forall>a xs mem. fst (either_copyout C user a xs mem)) \<and>
     (\<forall>a xs ys mem. snd (either_copyout C user (a + of_nat (length xs)) ys (snd (either_copyout C user a xs mem))) =
        snd (either_copyout C user a (xs @ ys) mem)) \<and> (\<forall>a mem. snd (either_copyout C user a [] mem) = mem)"

lemma store_append: "store m a (xs @ ys) = store (store m a xs) (a + of_nat (length xs)) ys"
  by (induction xs arbitrary: m a) (simp_all add: algebra_simps)

lemma dst_ok_kernel: "dst_ok C False"
  by (auto simp: dst_ok_def either_copyout_def store_append split: prod.splits)

lemma dst_okD:
  assumes "dst_ok C user"
  shows "fst (either_copyout C user a xs mem)"
    and "snd (either_copyout C user (a + of_nat (length xs)) ys (snd (either_copyout C user a xs mem))) =
        snd (either_copyout C user a (xs @ ys) mem)"
    and "snd (either_copyout C user a [] mem) = mem"
  using assms unfolding dst_ok_def by blast+

text \<open>The bytes of a mapped block that a read takes are bytes of the file.\<close>

lemma block_bytes:
  assumes "fblock B ip d (off div BSIZE) = addr" and "addr \<noteq> 0" and "m \<le> BSIZE - off mod BSIZE"
  shows "map (\<lambda>i. bread B (i_dev ip) addr d (off mod BSIZE + i)) [0..<m] = map (fbyte B ip d) [off..<off + m]"
proof (rule nth_equalityI)
  fix i assume "i < length (map (\<lambda>i. bread B (i_dev ip) addr d (off mod BSIZE + i)) [0..<m])"
  then have i: "i < m" "off mod BSIZE + i < BSIZE" using assms(3) by simp_all
  have "(off + i) div BSIZE = off div BSIZE" "(off + i) mod BSIZE = off mod BSIZE + i"
  proof -
    have s: "off = off div BSIZE * BSIZE + off mod BSIZE" by simp
    have "off div BSIZE * BSIZE \<le> off + i" "off + i < off div BSIZE * BSIZE + BSIZE" using s i(2) by linarith+
    then show dv: "(off + i) div BSIZE = off div BSIZE" by (intro div_nat_eqI) simp_all
    have "off + i = (off + i) div BSIZE * BSIZE + (off + i) mod BSIZE" by simp
    then show "(off + i) mod BSIZE = off mod BSIZE + i" using s unfolding dv by linarith
  qed
  then show "map (\<lambda>i. bread B (i_dev ip) addr d (off mod BSIZE + i)) [0..<m] ! i = map (fbyte B ip d) [off..<off + m] ! i"
    using i assms(1,2) by (simp add: fbyte_def)
qed simp

lemma map_upt_cong: "(\<And>p. a \<le> p \<Longrightarrow> p < b \<Longrightarrow> f p = g p) \<Longrightarrow> map f [a..<b] = map g [a..<b]"
  by simp

lemma readi_loop_spec:
  assumes B: "bio_laws B" and sb: "sb_ok sb"
    and "iwf B sb ip d" and "meta_used B sb (i_dev ip) d" and "tot \<le> n" and "off + (n - tot) \<le> MAXFILE * BSIZE"
    and dst: "dst_ok C user"
  shows "\<exists>tot' ip' d'. readi_loop B sb C user n tot off dst ip mem d =
       Some (int tot', ip', snd (either_copyout C user dst (map (fbyte B ip d) [off..<off + (tot' - tot)]) mem), d') \<and>
     tot \<le> tot' \<and> tot' \<le> n \<and> file_frame B sb ip d ip' d' \<and>
     (tot' < n \<longrightarrow> (\<forall>m<unat (sb_size sb). bused B sb (i_dev ip) d' m)) \<and>
     ((\<forall>p. off \<le> p \<and> p < off + (n - tot) \<longrightarrow> fblock B ip d (p div BSIZE) \<noteq> 0) \<longrightarrow> tot' = n \<and> ip' = ip \<and> d' = d) \<and>
     (\<forall>p<MAXFILE * BSIZE. fbyte B ip' d' p = fbyte B ip d p)"
  using assms(3-6)
proof (induction "n - tot" arbitrary: tot off dst mem ip d rule: less_induct)
  case less
  note wf = less.prems(1) and mu = less.prems(2)
  show ?case
  proof (cases "tot < n")
    case False
    then show ?thesis
      using less.prems file_frame_refl [OF wf mu] by (subst readi_loop.simps) (auto simp: dst_okD(3) [OF dst])
  next
    case True
    have offlt: "off < MAXFILE * BSIZE" using less.prems(4) True by linarith
    obtain addr ip1 d1 where bm: "bmap B sb ip (off div BSIZE) d = Some (addr, ip1, d1)"
      and q: "bmap_post B sb (pos_of (off div BSIZE)) ip d addr ip1 d1"
      using bmap_spec [OF B sb mu wf lt_maxfile [OF offlt]] by blast
    note e = extends_frame [OF bmap_postD(1) [OF q]]
    have dev: "i_dev ip1 = i_dev ip" using file_frameD(3) [OF e] by (simp add: same_meta_simps)
    note fb1 = bmap_fbyte [OF sb wf q]
    have fbl: "fblock B ip1 d1 (off div BSIZE) = addr" using bmap_postD(2) [OF q] by (simp add: fblock_def)
    have noop: "ip1 = ip \<and> d1 = d \<and> addr \<noteq> 0" if "\<forall>p. off \<le> p \<and> p < off + (n - tot) \<longrightarrow> fblock B ip d (p div BSIZE) \<noteq> 0"
    proof -
      have "off \<le> off \<and> off < off + (n - tot)" using True by linarith
      then have "fblock B ip d (off div BSIZE) \<noteq> 0" using that by blast
      then show ?thesis using bmap_postD(3) [OF q] fbl by (auto simp: fblock_def)
    qed
    show ?thesis
    proof (cases "addr = 0")
      case a0: True
      then have "readi_loop B sb C user n tot off dst ip mem d = Some (int tot, ip1, mem, d1)"
        using True bm by (subst readi_loop.simps) simp
      moreover have "\<not> (\<forall>p. off \<le> p \<and> p < off + (n - tot) \<longrightarrow> fblock B ip d (p div BSIZE) \<noteq> 0)" using noop a0 by blast
      ultimately show ?thesis
        using e fb1 bmap_postD(4) [OF q a0] less.prems(3)
        by (intro exI [of _ tot] exI [of _ ip1] exI [of _ d1]) (auto simp: dst_okD(3) [OF dst])
    next
      case nz: False
      define m where "m = min (n - tot) (BSIZE - off mod BSIZE)"
      have m: "0 < m" "m \<le> n - tot" "m \<le> BSIZE - off mod BSIZE" using True by (simp_all add: m_def)
      let ?xs = "map (fbyte B ip1 d1) [off..<off + m]"
      let ?mem = "snd (either_copyout C user dst ?xs mem)"
      have step: "readi_loop B sb C user n tot off dst ip mem d =
          readi_loop B sb C user n (tot + m) (off + m) (dst + of_nat m) ip1 ?mem d1"
        using True bm nz dst_okD(1) [OF dst, of dst ?xs mem] block_bytes [OF fbl nz m(3)]
        by (subst readi_loop.simps) (simp add: Let_def split_beta flip: m_def)
      have lt: "n - (tot + m) < n - tot" and le: "tot + m \<le> n" and le2: "off + m + (n - (tot + m)) \<le> MAXFILE * BSIZE"
        using m True less.prems(4) by linarith+
      have mu1: "meta_used B sb (i_dev ip1) d1" using file_frameD(2) [OF e] dev by simp
      obtain tot' ip' d' where r: "readi_loop B sb C user n (tot + m) (off + m) (dst + of_nat m) ip1 ?mem d1 =
          Some (int tot', ip', snd (either_copyout C user (dst + of_nat m)
            (map (fbyte B ip1 d1) [off + m..<off + m + (tot' - (tot + m))]) ?mem), d')"
        and t: "tot + m \<le> tot'" "tot' \<le> n" and fr: "file_frame B sb ip1 d1 ip' d'"
        and full: "tot' < n \<longrightarrow> (\<forall>m<unat (sb_size sb). bused B sb (i_dev ip1) d' m)"
        and no: "(\<forall>p. off + m \<le> p \<and> p < off + m + (n - (tot + m)) \<longrightarrow> fblock B ip1 d1 (p div BSIZE) \<noteq> 0) \<longrightarrow> tot' = n \<and> ip' = ip1 \<and> d' = d1"
        and fb: "\<forall>p<MAXFILE * BSIZE. fbyte B ip' d' p = fbyte B ip1 d1 p"
        using less.hyps [OF lt file_frameD(1) [OF e] mu1 le le2, of "dst + of_nat m" ?mem] by blast
      have end_off: "off + m + (tot' - (tot + m)) = off + (tot' - tot)" using t by linarith
      have cat: "?xs @ map (fbyte B ip1 d1) [off + m..<off + (tot' - tot)] = map (fbyte B ip d) [off..<off + (tot' - tot)]"
      proof -
        have sp: "[off..<off + (tot' - tot)] = [off..<off + m] @ [off + m..<off + (tot' - tot)]"
          using t upt_add_eq_append [of off "off + m" "tot' - tot - m"] by simp
        have lt2: "off + (tot' - tot) \<le> MAXFILE * BSIZE" using t less.prems(4) by linarith
        show ?thesis unfolding sp map_append
          by (intro arg_cong2 [where f = "(@)"] map_upt_cong fb1) (use lt2 t in linarith)+
      qed
      have "snd (either_copyout C user (dst + of_nat m) (map (fbyte B ip1 d1) [off + m..<off + m + (tot' - (tot + m))]) ?mem) =
          snd (either_copyout C user dst (map (fbyte B ip d) [off..<off + (tot' - tot)]) mem)"
        using dst_okD(2) [OF dst, of dst ?xs _ mem] cat by (simp only: end_off) simp
      moreover have "tot' = n \<and> ip' = ip \<and> d' = d" if all: "\<forall>p. off \<le> p \<and> p < off + (n - tot) \<longrightarrow> fblock B ip d (p div BSIZE) \<noteq> 0"
      proof -
        have "\<forall>p. off + m \<le> p \<and> p < off + m + (n - (tot + m)) \<longrightarrow> fblock B ip1 d1 (p div BSIZE) \<noteq> 0"
          using all noop [OF all] m by auto
        then show ?thesis using no noop [OF all] by simp
      qed
      ultimately show ?thesis
        using step r t full dev file_frame_trans [OF e fr] fb fb1
        by (intro exI [of _ tot'] exI [of _ ip'] exI [of _ d']) simp
    qed
  qed
qed

subsection \<open>Committing a write\<close>

text \<open>
  An in-memory inode is in step with the disk when its number is one of an allocated inode and its
  addresses are those of the disk image.
\<close>

definition in_step :: "'d bio \<Rightarrow> superblock \<Rightarrow> inode \<Rightarrow> 'd \<Rightarrow> bool" where
  "in_step B sb ip d \<longleftrightarrow> unat (i_inum ip) < unat (sb_ninodes sb) \<and> alloced B sb (i_dev ip) (unat (i_inum ip)) d \<and>
     i_type ip \<noteq> 0 \<and> i_addrs ip = d_addrs (on_disk B sb (i_dev ip) (unat (i_inum ip)) d)"

lemma in_step_wf:
  assumes "fs_wf B sb (i_dev ip) d" and "in_step B sb ip d"
  shows "iwf B sb ip d" and "owned B (inode_at B sb (i_dev ip) (unat (i_inum ip)) d) d = owned B ip d"
proof -
  have "i_dev ip = i_dev (inode_at B sb (i_dev ip) (unat (i_inum ip)) d)"
    "i_addrs ip = i_addrs (inode_at B sb (i_dev ip) (unat (i_inum ip)) d)"
    using assms(2) by (auto simp: in_step_def)
  note c = iwf_addrs_cong [OF this]
  have "iwf B sb (inode_at B sb (i_dev ip) (unat (i_inum ip)) d) d"
    using fs_wfD(2) [OF assms(1)] assms(2) by (simp add: in_step_def)
  then show "iwf B sb ip d" by (rule iffD2 [OF c(1)])
  show "owned B (inode_at B sb (i_dev ip) (unat (i_inum ip)) d) d = owned B ip d" by (rule c(2) [symmetric])
qed

lemma iupdate_keeps:
  assumes B: "bio_laws B" and sb: "sb_ok sb" and inum: "unat (i_inum ip) < unat (sb_ninodes sb)"
  shows "data_block sb b \<Longrightarrow> bread B (i_dev ip) b (iupdate B sb ip d) = bread B (i_dev ip) b d"
    and "n < unat (sb_size sb) \<Longrightarrow> bused B sb (i_dev ip) (iupdate B sb ip d) n = bused B sb (i_dev ip) d n"
  using bread_iupdate [OF B, of "i_dev ip" ip _ sb d] inode_block_not_data [OF sb inum] BBLOCK_not_inode_block [OF sb inum]
  by (auto simp: bused_def) metis

lemma pval_iupdate:
  assumes B: "bio_laws B" and sb: "sb_ok sb" and inum: "unat (i_inum ip) < unat (sb_ninodes sb)"
    and wf: "iwf B sb ip0 d" and dev: "i_dev ip0 = i_dev ip" and q: "pos_ok q"
  shows "pval B ip0 (iupdate B sb ip d) q = pval B ip0 d q"
  by (rule pval_cong [OF _ q]) (use iupdate_keeps(1) [OF B sb inum] iwfD(2) [OF wf] dev in auto)

lemma fbyte_keep:
  assumes wf: "iwf B sb ip d" and pv: "\<And>q. pos_ok q \<Longrightarrow> pval B ip d' q = pval B ip d q"
    and br: "\<And>b. b \<in> owned B ip d \<Longrightarrow> bread B (i_dev ip) b d' = bread B (i_dev ip) b d" and p: "p < MAXFILE * BSIZE"
  shows "fbyte B ip d' p = fbyte B ip d p"
proof -
  have ok: "pos_ok (pos_of (p div BSIZE))" using pos_of_ok [OF lt_maxfile [OF p]] .
  have f: "fblock B ip d' (p div BSIZE) = fblock B ip d (p div BSIZE)" using pv [OF ok] by (simp add: fblock_def)
  have "fblock B ip d (p div BSIZE) \<noteq> 0 \<Longrightarrow> fblock B ip d (p div BSIZE) \<in> owned B ip d"
    using ok by (auto simp: owned_def fblock_def)
  then show ?thesis unfolding fbyte_def f Let_def using br by auto
qed

lemma commit_frame:
  assumes B: "bio_laws B" and sb: "sb_ok sb" and fs: "fs_wf B sb (i_dev ip) d" and st: "in_step B sb ip d"
    and fr: "file_frame B sb ip d ip1 d1" and ip2: "ip2 = ip1\<lparr>i_size := z\<rparr>"
  shows "fs_wf B sb (i_dev ip) (iupdate B sb ip2 d1)" and "in_step B sb ip2 (iupdate B sb ip2 d1)"
    and "on_disk B sb (i_dev ip) (unat (i_inum ip)) (iupdate B sb ip2 d1) = dinode_of ip2"
    and "p < MAXFILE * BSIZE \<Longrightarrow> fbyte B ip2 (iupdate B sb ip2 d1) p = fbyte B ip1 d1 p"
    and "j < unat (sb_ninodes sb) \<Longrightarrow> j \<noteq> unat (i_inum ip) \<Longrightarrow>
      on_disk B sb (i_dev ip) j (iupdate B sb ip2 d1) = on_disk B sb (i_dev ip) j d"
    and "j < unat (sb_ninodes sb) \<Longrightarrow> j \<noteq> unat (i_inum ip) \<Longrightarrow> alloced B sb (i_dev ip) j d \<Longrightarrow> p < MAXFILE * BSIZE \<Longrightarrow>
      fbyte B (inode_at B sb (i_dev ip) j (iupdate B sb ip2 d1)) (iupdate B sb ip2 d1) p =
      fbyte B (inode_at B sb (i_dev ip) j d) d p"
    and "j < unat (sb_ninodes sb) \<Longrightarrow> j \<noteq> unat (i_inum ip) \<Longrightarrow> alloced B sb (i_dev ip) j d \<Longrightarrow> n < MAXFILE \<Longrightarrow>
      fblock B (inode_at B sb (i_dev ip) j (iupdate B sb ip2 d1)) (iupdate B sb ip2 d1) n =
      fblock B (inode_at B sb (i_dev ip) j d) d n"
    and "n < MAXFILE \<Longrightarrow> fblock B ip d n \<noteq> 0 \<Longrightarrow> fblock B ip2 (iupdate B sb ip2 d1) n \<noteq> 0"
proof -
  let ?dev = "i_dev ip" and ?i = "unat (i_inum ip)" and ?d' = "iupdate B sb ip2 d1"
  note f = file_frameD [OF fr]
  have sm: "i_dev ip1 = ?dev" "i_inum ip1 = i_inum ip" "i_type ip1 = i_type ip" using f(3) by (simp_all add: same_meta_simps)
  have m2: "i_dev ip2 = ?dev" "i_inum ip2 = i_inum ip" "i_type ip2 = i_type ip" "i_addrs ip2 = i_addrs ip1" by (simp_all add: ip2 sm)
  have inum: "unat (i_inum ip2) < unat (sb_ninodes sb)" "?i < unat (sb_ninodes sb)" and al: "alloced B sb ?dev ?i d"
    using st m2 by (auto simp: in_step_def)
  have wf: "iwf B sb ip d" and own: "owned B (inode_at B sb ?dev ?i d) d = owned B ip d" using in_step_wf [OF fs st] .
  have wf2: "iwf B sb ip2 d1" and own2: "owned B ip2 d1 = owned B ip1 d1"
    using iwf_addrs_cong [of ip2 ip1 B] f(1) m2 sm by simp_all
  have len: "length (i_addrs ip2) = NDIRECT + 2" using iwfD(1) [OF wf2] .
  note k1 = iupdate_keeps(1) [OF B sb inum(1), unfolded m2] and k2 = iupdate_keeps(2) [OF B sb inum(1), unfolded m2]
  have meta: "bused B sb ?dev d n" if "n < datastart sb" for n using fs_wfD(1) [OF fs] that by (simp add: meta_used_def)
  have od1: "on_disk B sb ?dev j d1 = on_disk B sb ?dev j d" if j: "j < unat (sb_ninodes sb)" for j
  proof -
    have lt: "unat (IBLOCK j sb) < datastart sb" using unat_IBLOCK(2) [OF sb j] by (simp add: datastart_def)
    have "0 < unat (IBLOCK j sb)" using unat_IBLOCK(1) [OF sb j] sb_okD(1) [OF sb] by simp
    then have "IBLOCK j sb \<noteq> 0" by auto
    moreover have "IBLOCK j sb \<notin> owned B ip d" using owned_data [OF wf, of "IBLOCK j sb"] lt by (auto simp: data_block_def)
    ultimately have "bread B ?dev (IBLOCK j sb) d1 = bread B ?dev (IBLOCK j sb) d"
      using f(6) inode_block_not_bmap [OF sb j] meta [OF lt] lt sb_okD(3) [OF sb] by simp
    then show ?thesis by (simp add: on_disk_def)
  qed
  have od: "on_disk B sb ?dev j ?d' = (if j = ?i then dinode_of ip2 else on_disk B sb ?dev j d)" if j: "j < unat (sb_ninodes sb)" for j
    using on_disk_iupdate [OF B sb j inum(1) len, of ?dev d1] od1 [OF j] m2 by simp
  show od_i: "on_disk B sb ?dev ?i ?d' = dinode_of ip2" using od [OF inum(2)] by simp
  show od_j: "on_disk B sb ?dev j ?d' = on_disk B sb ?dev j d" if "j < unat (sb_ninodes sb)" "j \<noteq> ?i" for j
    using od that by simp
  have pv2: "pval B ip2 ?d' q = pval B ip2 d1 q" if "pos_ok q" for q
    using pval_iupdate [OF B sb inum(1) wf2 refl that] .
  have wf2': "iwf B sb ip2 ?d'"
    by (rule iwf_keep [OF wf2 pv2]) (use owned_data [OF wf2] k2 m2 in \<open>auto simp: data_block_def\<close>)
  have ati: "i_dev ip2 = i_dev (inode_at B sb ?dev ?i ?d')" "i_addrs ip2 = i_addrs (inode_at B sb ?dev ?i ?d')"
    using od_i m2 by (simp_all add: dinode_of_def)
  have owni: "owned B (inode_at B sb ?dev ?i ?d') ?d' = owned B ip1 d1"
  proof -
    have "owned B ip2 ?d' = owned B ip2 d1" unfolding owned_def using pv2 by (metis (no_types, lifting))
    then show ?thesis using iwf_addrs_cong(2) [OF ati] own2 by metis
  qed
  have keep: "bread B ?dev b ?d' = bread B ?dev b d \<and> bused B sb ?dev ?d' (unat b)"
    if j: "j < unat (sb_ninodes sb)" "alloced B sb ?dev j d" "j \<noteq> ?i" "b \<in> owned B (inode_at B sb ?dev j d) d" for j b
  proof -
    have b: "data_block sb b" "bused B sb ?dev d (unat b)" using owned_data [OF fs_wfD(2) [OF fs j(1,2)] j(4)] by auto
    have "b \<notin> owned B ip d" using fs_wfD(3) [OF fs j(1) inum(2) j(2) al j(3)] j(4) own by auto
    then have "bread B ?dev b d1 = bread B ?dev b d"
      using f(6) b data_block_nz [OF b(1)] data_block_not_bmap [OF sb b(1)] by (simp add: data_block_def)
    then show ?thesis using k1 [OF b(1)] k2 f(4) b by (simp add: data_block_def)
  qed
  have mu': "meta_used B sb ?dev ?d'"
    using f(2) k2 sb_okD(3) [OF sb] by (simp add: meta_used_def)
  show "fs_wf B sb ?dev ?d'"
  proof (rule fs_wf_step [OF fs mu', of ?i])
    show "iwf B sb (inode_at B sb ?dev ?i ?d') ?d'" using wf2' by (rule iffD1 [OF iwf_addrs_cong(1) [OF ati]])
  next
    fix j b assume j: "j < unat (sb_ninodes sb)" "alloced B sb ?dev j d" "j \<noteq> ?i" and "b \<in> owned B (inode_at B sb ?dev ?i ?d') ?d'"
    then have b: "b \<in> owned B ip1 d1" using owni by simp
    show "b \<notin> owned B (inode_at B sb ?dev j d) d"
      using fs_wfD(3) [OF fs j(1) inum(2) j(2) al j(3)] own f(5) [OF b] owned_data [OF fs_wfD(2) [OF fs j(1,2)], of b] by auto
  qed (use od_j keep in auto)
  show "in_step B sb ip2 ?d'"
    using od_i inum(2) m2 st by (auto simp: in_step_def alloced_def dinode_of_def)
  show "fbyte B ip2 ?d' p = fbyte B ip1 d1 p" if p: "p < MAXFILE * BSIZE"
  proof -
    have "fbyte B ip2 ?d' p = fbyte B ip2 d1 p"
      by (rule fbyte_keep [OF wf2 pv2 _ p]) (use owned_data [OF wf2] k1 m2 in auto)
    also have "\<dots> = fbyte B ip1 d1 p"
      using pval_addrs_cong [of ip2 ip1 B d1] m2 sm by (simp add: fbyte_def fblock_def Let_def)
    finally show ?thesis .
  qed
  have frj: "inode_at B sb ?dev j ?d' = inode_at B sb ?dev j d"
    "\<And>b. b \<in> owned B (inode_at B sb ?dev j d) d \<Longrightarrow> bread B ?dev b ?d' = bread B ?dev b d"
    "\<And>q. pos_ok q \<Longrightarrow> pval B (inode_at B sb ?dev j d) ?d' q = pval B (inode_at B sb ?dev j d) d q"
    if j: "j < unat (sb_ninodes sb)" "j \<noteq> ?i" "alloced B sb ?dev j d"
  proof -
    show br: "\<And>b. b \<in> owned B (inode_at B sb ?dev j d) d \<Longrightarrow> bread B ?dev b ?d' = bread B ?dev b d" using keep j by blast
    show "inode_at B sb ?dev j ?d' = inode_at B sb ?dev j d" using od_j [OF j(1,2)] by (simp add: inode_at_def)
    show "pval B (inode_at B sb ?dev j d) ?d' q = pval B (inode_at B sb ?dev j d) d q" if "pos_ok q" for q
      using inode_at_keep(2) [OF fs_wfD(2) [OF fs j(1,3)] od_j [OF j(1,2)] br that] by blast
  qed
  show "fbyte B (inode_at B sb ?dev j ?d') ?d' p = fbyte B (inode_at B sb ?dev j d) d p"
    if j: "j < unat (sb_ninodes sb)" "j \<noteq> ?i" "alloced B sb ?dev j d" and p: "p < MAXFILE * BSIZE"
    unfolding frj(1) [OF j] by (rule fbyte_keep [OF fs_wfD(2) [OF fs j(1,3)] frj(3) [OF j] _ p]) (use frj(2) [OF j] in simp_all)
  show "fblock B (inode_at B sb ?dev j ?d') ?d' n = fblock B (inode_at B sb ?dev j d) d n"
    if j: "j < unat (sb_ninodes sb)" "j \<noteq> ?i" "alloced B sb ?dev j d" and n: "n < MAXFILE"
    unfolding frj(1) [OF j] fblock_def by (rule frj(3) [OF j pos_of_ok [OF n]])
  show "fblock B ip2 ?d' n \<noteq> 0" if n: "n < MAXFILE" "fblock B ip d n \<noteq> 0"
  proof -
    have ok: "pos_ok (pos_of n)" using pos_of_ok [OF n(1)] .
    have "pval B ip2 ?d' (pos_of n) = pval B ip1 d1 (pos_of n)"
      unfolding pv2 [OF ok] by (rule pval_addrs_cong) (simp_all add: ip2)
    then show ?thesis using f(7) [OF ok] n(2) by (simp add: fblock_def)
  qed
qed

lemma MAXFILE_bytes: "MAXFILE * BSIZE = 67382272"
  by (simp add: MAXFILE_def NDIRECT_def NINDIRECT_def NDOUBLY_INDIRECT_def)

lemma unat_add_small: "unat (a :: u32) + unat b < 2 ^ 32 \<Longrightarrow> unat (a + b) = unat a + unat b"
  by (simp add: unat_word_ariths)

text \<open>The guards of \<^verbatim>\<open>writei\<close> and \<^verbatim>\<open>readi\<close> for a range that ends within the largest file.\<close>

lemma range_guard:
  fixes off n :: u32
  assumes "unat off + unat n \<le> MAXFILE * BSIZE"
  shows "unat (off + n) = unat off + unat n" and "\<not> off + n < off"
proof -
  show s: "unat (off + n) = unat off + unat n" using assms by (intro unat_add_small) (simp add: MAXFILE_bytes)
  show "\<not> off + n < off" unfolding word_less_nat_alt s by simp
qed

lemma writei_spec:
  assumes B: "bio_laws B" and sb: "sb_ok sb" and fs: "fs_wf B sb (i_dev ip) d" and st: "in_step B sb ip d"
    and off: "off \<le> i_size ip" and n: "unat off + unat n \<le> MAXFILE * BSIZE" and src: "src_ok C user mem src s"
  shows "\<exists>tot ip' d'. writei B sb C ip user src off n mem d = Some (int tot, ip', d') \<and> tot \<le> unat n \<and>
     fs_wf B sb (i_dev ip) d' \<and> in_step B sb ip' d' \<and> i_dev ip' = i_dev ip \<and> i_inum ip' = i_inum ip \<and>
     on_disk B sb (i_dev ip) (unat (i_inum ip)) d' = dinode_of ip' \<and>
     (\<forall>p. unat off \<le> p \<and> p < unat off + tot \<longrightarrow> fblock B ip' d' (p div BSIZE) \<noteq> 0) \<and>
     unat (i_size ip') = max (unat (i_size ip)) (unat off + tot) \<and>
     (\<forall>p<MAXFILE * BSIZE. fbyte B ip' d' p =
        (if unat off \<le> p \<and> p < unat off + tot then s (p - unat off) else fbyte B ip d p)) \<and>
     (tot < unat n \<longrightarrow> (\<forall>m<unat (sb_size sb). bused B sb (i_dev ip) d' m)) \<and>
     (\<forall>j<unat (sb_ninodes sb). j \<noteq> unat (i_inum ip) \<longrightarrow> on_disk B sb (i_dev ip) j d' = on_disk B sb (i_dev ip) j d) \<and>
     (\<forall>j<unat (sb_ninodes sb). j \<noteq> unat (i_inum ip) \<longrightarrow> alloced B sb (i_dev ip) j d \<longrightarrow>
        (\<forall>p<MAXFILE * BSIZE. fbyte B (inode_at B sb (i_dev ip) j d') d' p = fbyte B (inode_at B sb (i_dev ip) j d) d p))"
proof -
  note rg = range_guard [OF n]
  have wf: "iwf B sb ip d" using in_step_wf(1) [OF fs st] .
  obtain tot ip1 d1 where r: "writei_loop B sb C user mem (unat n) 0 (unat off) src ip d = Some (tot, unat off + (tot - 0), ip1, d1)"
    and t: "tot \<le> unat n" and fr: "file_frame B sb ip d ip1 d1"
    and full: "tot < unat n \<longrightarrow> (\<forall>m<unat (sb_size sb). bused B sb (i_dev ip) d1 m)"
    and mp: "\<forall>p. unat off \<le> p \<and> p < unat off + (tot - 0) \<longrightarrow> fblock B ip1 d1 (p div BSIZE) \<noteq> 0"
    and fb: "\<forall>p<MAXFILE * BSIZE. fbyte B ip1 d1 p = (if unat off \<le> p \<and> p < unat off + (tot - 0) then s (0 + (p - unat off)) else fbyte B ip d p)"
    using writei_loop_spec [OF B sb wf fs_wfD(1) [OF fs], of 0 "unat n" "unat off" C user mem src s src] n src by auto
  have sm: "i_dev ip1 = i_dev ip" "i_inum ip1 = i_inum ip" "i_size ip1 = i_size ip" using file_frameD(3) [OF fr] by (simp_all add: same_meta_simps)
  let ?z = "if unat off + tot > unat (i_size ip) then of_nat (unat off + tot) else i_size ip"
  define ip2 where "ip2 = ip1\<lparr>i_size := ?z\<rparr>"
  let ?d' = "iupdate B sb ip2 d1"
  have small: "unat off + tot < 2 ^ 32" using n t by (simp add: MAXFILE_bytes)
  have sz: "unat (i_size ip2) = max (unat (i_size ip)) (unat off + tot)"
  proof -
    have "unat (of_nat (unat off + tot) :: u32) = unat off + tot"
      using small by (simp add: unat_of_nat del: of_nat_add)
    then show ?thesis by (simp add: ip2_def del: of_nat_add)
  qed
  have g: "\<not> i_size ip < off" "\<not> MAXFILE * BSIZE < unat (off + n)" using off rg(1) n by auto
  have "(if unat (i_size ip1) < unat off + tot then ip1\<lparr>i_size := of_nat (unat off + tot)\<rparr> else ip1) = ip2"
    using sm by (auto simp: ip2_def)
  then have w: "writei B sb C ip user src off n mem d = Some (int tot, ip2, ?d')"
    using r g rg(2) by (simp add: writei_def Let_def)
  note c = commit_frame [OF B sb fs st fr ip2_def]
  have inum: "unat (i_inum ip2) < unat (sb_ninodes sb)" "i_dev ip2 = i_dev ip" using st sm by (simp_all add: in_step_def ip2_def)
  have full': "tot < unat n \<longrightarrow> (\<forall>m<unat (sb_size sb). bused B sb (i_dev ip) ?d' m)"
    using full iupdate_keeps(2) [OF B sb inum(1)] inum(2) by simp
  have wf1: "iwf B sb ip1 d1" using file_frameD(1) [OF fr] .
  have same: "i_dev ip2 = i_dev ip1" "i_addrs ip2 = i_addrs ip1" by (simp_all add: ip2_def)
  have wf2: "iwf B sb ip2 d1" using wf1 by (rule iffD2 [OF iwf_addrs_cong(1) [OF same]])
  have mp': "fblock B ip2 ?d' (p div BSIZE) \<noteq> 0" if "unat off \<le> p" "p < unat off + tot" for p
  proof -
    have "p div BSIZE < MAXFILE" using that n t by (intro lt_maxfile) linarith
    then have "fblock B ip2 ?d' (p div BSIZE) = fblock B ip2 d1 (p div BSIZE)"
      using pval_iupdate [OF B sb inum(1) wf2 refl] pos_of_ok by (simp add: fblock_def)
    also have "\<dots> = fblock B ip1 d1 (p div BSIZE)"
      unfolding fblock_def by (rule pval_addrs_cong [OF same])
    finally show ?thesis using mp that by simp
  qed
  show ?thesis
    using mp' w t inum(2) sm(2) c(1-3) sz full' c(4) fb c(5,6)
    by (intro exI [of _ tot] exI [of _ ip2] exI [of _ ?d']) (simp add: ip2_def [THEN arg_cong [where f = i_inum]])
qed

text \<open>The frame behind \<open>writei_spec\<close>, for clients that look at the inode and at the block map.\<close>

lemma writei_frame:
  assumes B: "bio_laws B" and sb: "sb_ok sb" and fs: "fs_wf B sb (i_dev ip) d" and st: "in_step B sb ip d"
    and off: "off \<le> i_size ip" and n: "unat off + unat n \<le> MAXFILE * BSIZE" and src: "src_ok C user mem src s"
    and w: "writei B sb C ip user src off n mem d = Some (r, ip', d')"
  obtains ip1 d1 z where "file_frame B sb ip d ip1 d1" "ip' = ip1\<lparr>i_size := z\<rparr>" "d' = iupdate B sb ip' d1"
proof -
  note rg = range_guard [OF n]
  have wf: "iwf B sb ip d" using in_step_wf(1) [OF fs st] .
  obtain tot ip1 d1 where r: "writei_loop B sb C user mem (unat n) 0 (unat off) src ip d = Some (tot, unat off + (tot - 0), ip1, d1)"
    and fr: "file_frame B sb ip d ip1 d1"
    using writei_loop_spec [OF B sb wf fs_wfD(1) [OF fs], of 0 "unat n" "unat off" C user mem src s src] n src by auto
  have g: "\<not> i_size ip < off" "\<not> MAXFILE * BSIZE < unat (off + n)" using off rg(1) n by auto
  let ?ip = "if unat (i_size ip1) < unat off + tot then ip1\<lparr>i_size := of_nat (unat off + tot)\<rparr> else ip1"
  have i: "ip' = ?ip" and d: "d' = iupdate B sb ip' d1" using w r g rg(2) by (auto simp: writei_def Let_def)
  have "ip' = ip1\<lparr>i_size := i_size ?ip\<rparr>" unfolding i by simp
  then show ?thesis using that fr d by blast
qed

lemma writei_keeps_blocks:
  assumes B: "bio_laws B" and sb: "sb_ok sb" and fs: "fs_wf B sb (i_dev ip) d" and st: "in_step B sb ip d"
    and off: "off \<le> i_size ip" and n: "unat off + unat n \<le> MAXFILE * BSIZE" and src: "src_ok C user mem src s"
    and w: "writei B sb C ip user src off n mem d = Some (r, ip', d')" and bn: "bn < MAXFILE" "fblock B ip d bn \<noteq> 0"
  shows "fblock B ip' d' bn = fblock B ip d bn"
proof -
  obtain ip1 d1 z where fr: "file_frame B sb ip d ip1 d1" and ip': "ip' = ip1\<lparr>i_size := z\<rparr>" and d': "d' = iupdate B sb ip' d1"
    by (rule writei_frame [OF B sb fs st off n src w])
  have sm: "i_inum ip1 = i_inum ip" using file_frameD(3) [OF fr] by (simp add: same_meta_simps)
  have inum: "unat (i_inum ip') < unat (sb_ninodes sb)" using st sm by (simp add: in_step_def ip')
  have same: "i_dev ip' = i_dev ip1" "i_addrs ip' = i_addrs ip1" by (simp_all add: ip')
  have wf: "iwf B sb ip' d1" using file_frameD(1) [OF fr] by (rule iffD2 [OF iwf_addrs_cong(1) [OF same]])
  have "pval B ip' d' (pos_of bn) = pval B ip' d1 (pos_of bn)" unfolding d' using pval_iupdate [OF B sb inum wf refl] pos_of_ok [OF bn(1)] by simp
  also have "\<dots> = pval B ip1 d1 (pos_of bn)" by (rule pval_addrs_cong [OF same])
  also have "\<dots> = pval B ip d (pos_of bn)" using file_frameD(7) [OF fr pos_of_ok [OF bn(1)]] bn(2) by (simp add: fblock_def)
  finally show ?thesis by (simp add: fblock_def)
qed

text \<open>A write inside one block is written as a whole or not at all.\<close>

lemma writei_one_block:
  assumes "writei B sb C ip False src off n mem d = Some (r, ip', d')" and "unat off mod BSIZE + unat n \<le> BSIZE"
  shows "r \<in> {- 1, 0, int (unat n)}"
proof -
  have "tot \<in> {0, unat n}" if l: "writei_loop B sb C False mem (unat n) 0 (unat off) src ip d = Some (tot, off1, ip1, d1)" for tot off1 ip1 d1
  proof (cases "bmap B sb ip (unat off div BSIZE) d")
    case None
    then show ?thesis using l by (subst (asm) writei_loop.simps) (auto split: if_splits)
  next
    case (Some q)
    obtain addr ip2 d2 where q: "q = (addr, ip2, d2)" by (cases q) auto
    have m: "min (unat n - 0) (BSIZE - unat off mod BSIZE) = unat n" using assms(2) by simp
    have fin: "writei_loop B sb C False mem (unat n) (unat n) off2 src2 ip3 d3 = Some (unat n, off2, ip3, d3)" for off2 src2 ip3 d3
      by (subst writei_loop.simps) simp
    obtain xs where x: "either_copyin C False src (unat n) mem = (True, xs)" by (cases mem) (simp add: either_copyin_def)
    show ?thesis
      using l unfolding writei_loop.simps [of B sb C False mem "unat n" 0] Some q m
      by (simp add: x fin Let_def split: if_splits)
  qed
  then show ?thesis using assms(1) by (auto simp: writei_def Let_def split: if_splits option.splits)
qed

text \<open>Into a block that is there it succeeds.\<close>

lemma writei_mapped:
  assumes B: "bio_laws B" and sb: "sb_ok sb" and fs: "fs_wf B sb (i_dev ip) d" and st: "in_step B sb ip d"
    and w: "writei B sb C ip False src off n mem d = Some (r, ip', d')" and r: "0 \<le> r" and n: "unat off mod BSIZE + unat n \<le> BSIZE"
    and bn: "unat off < MAXFILE * BSIZE" "fblock B ip d (unat off div BSIZE) \<noteq> 0"
  shows "r = int (unat n)"
proof -
  obtain tot off1 ip1 d1 where l: "writei_loop B sb C False mem (unat n) 0 (unat off) src ip d = Some (tot, off1, ip1, d1)" and rt: "r = int tot"
    using w r by (auto simp: writei_def Let_def split: if_splits option.splits)
  obtain addr ip2 d2 where b: "bmap B sb ip (unat off div BSIZE) d = Some (addr, ip2, d2)"
    and bp: "bmap_post B sb (pos_of (unat off div BSIZE)) ip d addr ip2 d2"
    using bmap_spec [OF B sb fs_wfD(1) [OF fs] in_step_wf(1) [OF fs st] lt_maxfile [OF bn(1)]] by blast
  have a: "addr \<noteq> 0" using bmap_postD(2,3) [OF bp] bn(2) by (auto simp: fblock_def)
  have m: "min (unat n - 0) (BSIZE - unat off mod BSIZE) = unat n" using n by simp
  have fin: "writei_loop B sb C False mem (unat n) (unat n) off2 src2 ip3 d3 = Some (unat n, off2, ip3, d3)" for off2 src2 ip3 d3
    by (subst writei_loop.simps) simp
  obtain xs where x: "either_copyin C False src (unat n) mem = (True, xs)" by (cases mem) (simp add: either_copyin_def)
  have "tot = unat n"
    using l a unfolding writei_loop.simps [of B sb C False mem "unat n" 0] b m
    by (simp add: x fin Let_def split: if_splits)
  then show ?thesis using rt by simp
qed

text \<open>A write at the start of the file that fails finds no free block for it and changes nothing.\<close>

lemma writei_fails:
  assumes B: "bio_laws B" and sb: "sb_ok sb" and fs: "fs_wf B sb (i_dev ip) d"
    and w: "writei B sb C ip False src 0 n mem d = Some (r, ip', d')" and n: "n \<noteq> 0" "unat n \<le> BSIZE" and r: "r \<noteq> int (unat n)"
  shows "r = 0" and "ip' = ip" and "d' = iupdate B sb ip d" and "\<forall>m<unat (sb_size sb). bused B sb (i_dev ip) d m"
proof -
  have pos: "0 < unat n" using n(1) by (simp add: unat_gt_0)
  have le: "\<not> MAXFILE * BSIZE < unat n" using n(2) by (simp add: MAXFILE_bytes)
  obtain tot off1 ip1 d1 where l: "writei_loop B sb C False mem (unat n) 0 0 src ip d = Some (tot, off1, ip1, d1)"
    and res: "r = int tot" "ip' = (if off1 > unat (i_size ip1) then ip1\<lparr>i_size := of_nat off1\<rparr> else ip1)" "d' = iupdate B sb ip' d1"
    using w le by (auto simp: writei_def Let_def split: option.splits)
  obtain addr ip2 d2 where q: "bmap_addr B sb ip 0 d = (addr, ip2, d2)" by (metis surj_pair)
  have bm: "bmap B sb ip (0 div BSIZE) d = Some (addr, ip2, d2)" using q by (simp add: bmap_def NDIRECT_def)
  have m: "min (unat n - 0) (BSIZE - 0 mod BSIZE) = unat n" using n(2) by simp
  have fin: "writei_loop B sb C False mem (unat n) (unat n) off2 src2 ip3 d3 = Some (unat n, off2, ip3, d3)" for off2 src2 ip3 d3
    by (subst writei_loop.simps) simp
  obtain xs where x: "either_copyin C False src (unat n) mem = (True, xs)" by (cases mem) (simp add: either_copyin_def)
  have "tot \<noteq> unat n" using r res(1) by metis
  then have a: "addr = 0 \<and> tot = 0 \<and> off1 = 0 \<and> ip1 = ip2 \<and> d1 = d2"
    using l pos unfolding writei_loop.simps [of B sb C False mem "unat n" 0] bm m
    by (simp add: x fin Let_def split: if_splits)
  obtain a1 d3 where al: "balloc B sb (i_dev ip) d = (a1, d3)" by (cases "balloc B sb (i_dev ip) d")
  have "a1 = 0" "ip2 = ip" "d2 = d3" using q a al by (auto simp: bmap_addr_def Let_def split: if_splits)
  then show "r = 0" "ip' = ip" "d' = iupdate B sb ip d" "\<forall>m<unat (sb_size sb). bused B sb (i_dev ip) d m"
    using a res balloc_spec(1,2) [OF B sb fs_wfD(1) [OF fs] al] by auto
qed


lemma readi_spec:
  assumes B: "bio_laws B" and sb: "sb_ok sb" and fs: "fs_wf B sb (i_dev ip) d" and st: "in_step B sb ip d"
    and size: "unat (i_size ip) \<le> MAXFILE * BSIZE" and mapped: "\<forall>p<unat (i_size ip). fblock B ip d (p div BSIZE) \<noteq> 0"
    and off: "off \<le> i_size ip" and n: "\<not> off + n < off" and dst: "dst_ok C user"
  shows "\<exists>k. k = min (unat n) (unat (i_size ip) - unat off) \<and>
     readi B sb C ip user dst off n mem d =
       Some (int k, ip, snd (either_copyout C user dst (map (fbyte B ip d) [unat off..<unat off + k]) mem), d)"
proof -
  have wf: "iwf B sb ip d" using in_step_wf(1) [OF fs st] .
  let ?n = "if i_size ip < off + n then i_size ip - off else n"
  let ?k = "min (unat n) (unat (i_size ip) - unat off)"
  have le: "unat off \<le> unat (i_size ip)" using off by (simp add: word_le_nat_alt)
  have sum: "unat (off + n) = unat off + unat n" using n by (metis not_less unat_plus_simple)
  have k: "unat ?n = ?k"
    using le sum off by (auto simp: word_less_nat_alt unat_sub)
  have ub: "unat off + ?k \<le> unat (i_size ip)" using le by linarith
  obtain tot' ip' d' where r: "readi_loop B sb C user ?k 0 (unat off) dst ip mem d =
       Some (int tot', ip', snd (either_copyout C user dst (map (fbyte B ip d) [unat off..<unat off + (tot' - 0)]) mem), d')"
    and no: "(\<forall>p. unat off \<le> p \<and> p < unat off + (?k - 0) \<longrightarrow> fblock B ip d (p div BSIZE) \<noteq> 0) \<longrightarrow> tot' = ?k \<and> ip' = ip \<and> d' = d"
    using readi_loop_spec [OF B sb wf fs_wfD(1) [OF fs], of 0 ?k "unat off" C user dst mem] ub size dst by auto
  have "\<forall>p. unat off \<le> p \<and> p < unat off + (?k - 0) \<longrightarrow> fblock B ip d (p div BSIZE) \<noteq> 0"
    using mapped ub by auto
  then have "tot' = ?k \<and> ip' = ip \<and> d' = d" using no by blast
  moreover have "\<not> i_size ip < off" using off by simp
  ultimately show ?thesis
    using r n k by (intro exI [of _ ?k]) (simp add: readi_def Let_def)
qed

text \<open>
  Reading from a file whose blocks below its size are all mapped returns the bytes of the
  file from \<open>off\<close> on, \<open>n\<close> of them or as many as there are before the end, copied to the destination in
  order, and changes neither the inode nor the disk.\<close>

theorem readi_returns_contents:
  assumes B: "bio_laws B" and sb: "sb_ok sb" and fs: "fs_wf B sb (i_dev ip) d" and st: "in_step B sb ip d"
    and size: "unat (i_size ip) \<le> MAXFILE * BSIZE" and mapped: "\<forall>p<unat (i_size ip). fblock B ip d (p div BSIZE) \<noteq> 0"
    and off: "off \<le> i_size ip" and n: "\<not> off + n < off" and dst: "dst_ok C user"
  shows "\<exists>k. k = min (unat n) (unat (i_size ip) - unat off) \<and>
     readi B sb C ip user dst off n mem d =
       Some (int k, ip, snd (either_copyout C user dst (map (fbyte B ip d) [unat off..<unat off + k]) mem), d)"
  using readi_spec [OF assms] .

text \<open>A range of mapped blocks inside the file is read as a whole.\<close>

lemma readi_range:
  assumes B: "bio_laws B" and sb: "sb_ok sb" and fs: "fs_wf B sb (i_dev ip) d" and st: "in_step B sb ip d"
    and n: "unat off + unat n \<le> MAXFILE * BSIZE" and size: "unat off + unat n \<le> unat (i_size ip)"
    and mp: "\<forall>p. unat off \<le> p \<and> p < unat off + unat n \<longrightarrow> fblock B ip d (p div BSIZE) \<noteq> 0" and dst: "dst_ok C user"
  shows "readi B sb C ip user dst off n mem d =
    Some (int (unat n), ip, snd (either_copyout C user dst (map (fbyte B ip d) [unat off..<unat off + unat n]) mem), d)"
proof -
  note rg = range_guard [OF n]
  have wf: "iwf B sb ip d" using in_step_wf(1) [OF fs st] .
  have "\<exists>tot' ip' d'. readi_loop B sb C user (unat n) 0 (unat off) dst ip mem d =
       Some (int tot', ip', snd (either_copyout C user dst (map (fbyte B ip d) [unat off..<unat off + (tot' - 0)]) mem), d') \<and>
     ((\<forall>p. unat off \<le> p \<and> p < unat off + (unat n - 0) \<longrightarrow> fblock B ip d (p div BSIZE) \<noteq> 0) \<longrightarrow> tot' = unat n \<and> ip' = ip \<and> d' = d)"
    using readi_loop_spec [OF B sb wf fs_wfD(1) [OF fs], of 0 "unat n" "unat off" C user dst mem] n dst by auto
  then have "readi_loop B sb C user (unat n) 0 (unat off) dst ip mem d =
       Some (int (unat n), ip, snd (either_copyout C user dst (map (fbyte B ip d) [unat off..<unat off + unat n]) mem), d)"
    using mp by auto
  moreover have "\<not> i_size ip < off" "\<not> i_size ip < off + n" using size rg(1) by (simp_all add: word_less_nat_alt not_less)
  ultimately show ?thesis using rg(2) by (simp add: readi_def Let_def)
qed

text \<open>
  A write that reports all its bytes written is read back: reading the same range of the
  inode it returned delivers exactly the source bytes and changes nothing.\<close>

theorem write_then_read:
  assumes B: "bio_laws B" and sb: "sb_ok sb" and fs: "fs_wf B sb (i_dev ip) d" and st: "in_step B sb ip d"
    and off: "off \<le> i_size ip" and n: "unat off + unat n \<le> MAXFILE * BSIZE" and src: "src_ok C user mem src s"
    and w: "writei B sb C ip user src off n mem d = Some (int (unat n), ip', d')" and dst: "dst_ok C user'"
  shows "readi B sb C ip' user' dst off n mem' d' =
    Some (int (unat n), ip', snd (either_copyout C user' dst (map s [0..<unat n]) mem'), d')"
proof -
  obtain tot where "writei B sb C ip user src off n mem d = Some (int tot, ip', d')"
    and st': "in_step B sb ip' d'" and fs': "fs_wf B sb (i_dev ip) d'" and dev: "i_dev ip' = i_dev ip"
    and mp0: "\<forall>p. unat off \<le> p \<and> p < unat off + tot \<longrightarrow> fblock B ip' d' (p div BSIZE) \<noteq> 0"
    and sz0: "unat (i_size ip') = max (unat (i_size ip)) (unat off + tot)"
    and fb0: "\<forall>p<MAXFILE * BSIZE. fbyte B ip' d' p = (if unat off \<le> p \<and> p < unat off + tot then s (p - unat off) else fbyte B ip d p)"
    using writei_spec [OF B sb fs st off n src] unfolding w option.inject prod.inject by metis
  then have "tot = unat n" using w by (metis int_int_eq option.inject prod.inject)
  note mp = mp0 [unfolded this] and sz = sz0 [unfolded this] and fb = fb0 [unfolded this]
  have "map (fbyte B ip' d') [unat off..<unat off + unat n] = map s [0..<unat n]"
    by (rule nth_equalityI) (use fb n in auto)
  moreover have "unat off + unat n \<le> unat (i_size ip')" using sz by simp
  ultimately show ?thesis using readi_range [OF B sb fs' [folded dev] st' n _ mp dst] by simp
qed

text \<open>
  \<^verbatim>\<open>writei\<close> refuses, with -1 and no change, an offset beyond the end of the file, a range that
  wraps around 32 bits, and a range that ends beyond \<^verbatim>\<open>MAXFILE * BSIZE\<close> = 67382272 bytes; \<^verbatim>\<open>readi\<close> returns 0
  bytes for the first two.\<close>

theorem writei_refuses_bad_range:
  "off > i_size ip \<or> unat off + unat n \<ge> 2 ^ 32 \<or> unat off + unat n > 67382272 \<longrightarrow>
     writei B sb C ip user src off n mem d = Some (- 1, ip, d) \<and>
     (off > i_size ip \<or> unat off + unat n \<ge> 2 ^ 32 \<longrightarrow> readi B sb C ip user dst off n mem' d = Some (0, ip, mem', d))"
proof -
  have wrap: "off + n < off \<longleftrightarrow> unat off + unat n \<ge> 2 ^ 32"
    using no_olen_add_nat [of off n] by (simp add: not_less flip: not_le)
  have "\<not> off + n < off \<Longrightarrow> unat (off + n) = unat off + unat n" by (metis not_less unat_plus_simple)
  then show ?thesis using wrap by (auto simp: writei_def readi_def MAXFILE_bytes)
qed

subsection \<open>Witnesses\<close>

definition demo_vm :: "unit vmcopy" where
  "demo_vm = \<lparr>vm_copyout = (\<lambda>a xs u. (False, u)), vm_copyin = (\<lambda>a n u. (False, []))\<rparr>"

definition demo_mem :: kmem where
  "demo_mem = (\<lambda>a. ucast a)"

text \<open>The inode as \<^verbatim>\<open>ilock\<close> reads it from the disk on which block 5 belongs to inode 2.\<close>

lemma orphan_in_step: "in_step demo_bio demo_sb orphan_ino orphan_disk"
  by (simp add: in_step_def orphan_ino_def demo_ino_def alloced_def orphan_on_disk demo_ninodes dinode_of_def)

lemma orphan_fs_wf: "fs_wf demo_bio demo_sb (i_dev orphan_ino) orphan_disk"
  using orphan_disk_wf by (simp add: orphan_ino_def demo_ino_def)

lemma orphan_size: "i_size orphan_ino = 100"
  by (simp add: orphan_ino_def demo_ino_def)


lemma orphan_mapped: "p < 100 \<Longrightarrow> fblock demo_bio orphan_ino orphan_disk (p div BSIZE) = 5"
  by (simp add: fblock_def pos_of_def NDIRECT_def orphan_ino_def demo_ino_def)

theorem readi_returns_contents_witness:
  "readi demo_bio demo_sb demo_vm orphan_ino False 0 90 20 (demo_mem, ()) orphan_disk =
     Some (10, orphan_ino, (store demo_mem 0 (map (fbyte demo_bio orphan_ino orphan_disk) [90..<100]), ()), orphan_disk)"
proof -
  have mp: "\<forall>p<unat (i_size orphan_ino). fblock demo_bio orphan_ino orphan_disk (p div BSIZE) \<noteq> 0"
    using orphan_mapped by (simp add: orphan_size)
  show ?thesis
    using readi_returns_contents [OF demo_bio_laws demo_sb_ok orphan_fs_wf orphan_in_step _ mp _ _ dst_ok_kernel,
        of 90 20 demo_vm 0 "(demo_mem, ())"]
    by (simp add: orphan_size MAXFILE_bytes either_copyout_def)
qed

theorem write_then_read_witness:
  "\<exists>ip' d'. writei demo_bio demo_sb demo_vm orphan_ino False 0 90 5 (demo_mem, ()) orphan_disk = Some (5, ip', d') \<and>
     readi demo_bio demo_sb demo_vm ip' False 0 90 5 (\<lambda>_. 0, ()) d' = Some (5, ip', (store (\<lambda>_. 0) 0 [0, 1, 2, 3, 4], ()), d')"
proof -
  have bm: "bmap demo_bio demo_sb orphan_ino 0 orphan_disk = Some (5, orphan_ino, orphan_disk)"
    by (simp add: bmap_def bmap_addr_def NDIRECT_def orphan_ino_def demo_ino_def)
  have "\<exists>ip' d'. writei_loop demo_bio demo_sb demo_vm False (demo_mem, ()) 5 0 90 0 orphan_ino orphan_disk = Some (5, 95, ip', d')"
    by (subst writei_loop.simps, subst writei_loop.simps) (simp add: bm Let_def either_copyin_def)
  then obtain ip' d' where w: "writei demo_bio demo_sb demo_vm orphan_ino False 0 90 5 (demo_mem, ()) orphan_disk = Some (int (unat (5 :: u32)), ip', d')"
    by (auto simp: writei_def orphan_size MAXFILE_bytes Let_def)
  have "readi demo_bio demo_sb demo_vm ip' False 0 90 5 (\<lambda>_. 0, ()) d' =
      Some (int (unat (5 :: u32)), ip', snd (either_copyout demo_vm False 0 (map (\<lambda>k. fst (demo_mem, ()) (0 + of_nat k)) [0..<unat (5 :: u32)]) (\<lambda>_. 0, ())), d')"
    by (rule write_then_read [OF demo_bio_laws demo_sb_ok orphan_fs_wf orphan_in_step _ _ src_ok_kernel w dst_ok_kernel])
      (simp_all add: orphan_size MAXFILE_bytes)
  moreover have "map (\<lambda>k. fst (demo_mem, ()) (0 + of_nat k)) [0..<unat (5 :: u32)] = [0, 1, 2, 3, 4]"
    by (simp add: demo_mem_def upt_conv_Cons)
  ultimately show ?thesis using w by (auto simp: either_copyout_def)
qed

theorem writei_refuses_bad_range_witness:
  "writei demo_bio demo_sb demo_vm orphan_ino False 0 101 1 (demo_mem, ()) orphan_disk = Some (- 1, orphan_ino, orphan_disk)"
  using writei_refuses_bad_range [of orphan_ino 101 1 demo_bio demo_sb demo_vm False 0 "(demo_mem, ())" orphan_disk 0 "(demo_mem, ())"]
  by (simp add: orphan_size)

end
