(* ===== verification/FsDir.thy ===== *)
theory FsDir
  imports FsData
begin

unbundle bit_operations_syntax

text \<open>
  Directories and path names of \<^verbatim>\<open>kernel/fs.c\<close> (Lab 5, Task 5.1): \<^verbatim>\<open>namecmp\<close>, \<^verbatim>\<open>dirlookup\<close>, \<^verbatim>\<open>dirlink\<close>,
  \<^verbatim>\<open>skipelem\<close>, \<^verbatim>\<open>namex\<close>, \<^verbatim>\<open>namei\<close> and \<^verbatim>\<open>nameiparent\<close>. A path is the list of the bytes before its
  terminator; a name is the list of the bytes of its buffer, read as zero beyond its end. The local
  \<^verbatim>\<open>struct dirent de\<close> is a kernel memory of its own at address 0. \<open>None\<close> is a panic or a call that does not return.
\<close>

subsection \<open>Names and entries\<close>

definition DIRSIZ :: nat where
  "DIRSIZ = 14"

definition T_DIR :: u16 where
  "T_DIR = 1"

record dirent =
  de_inum :: u16
  de_name :: "u8 list"

definition cbyte :: "u8 list \<Rightarrow> nat \<Rightarrow> u8" where
  "cbyte s i = (if i < length s then s ! i else 0)"

text \<open>\<^verbatim>\<open>strncmp\<close> and \<^verbatim>\<open>strncpy\<close> of the C library.\<close>

fun strncmp :: "nat \<Rightarrow> u8 list \<Rightarrow> u8 list \<Rightarrow> nat \<Rightarrow> int" where
  "strncmp 0 s t i = 0"
| "strncmp (Suc n) s t i =
     (if cbyte s i \<noteq> 0 \<and> cbyte s i = cbyte t i then strncmp n s t (Suc i)
      else uint (cbyte s i) - uint (cbyte t i))"

fun strncpy :: "nat \<Rightarrow> u8 list \<Rightarrow> nat \<Rightarrow> u8 list" where
  "strncpy 0 t i = []"
| "strncpy (Suc n) t i = (if cbyte t i = 0 then replicate (Suc n) 0 else cbyte t i # strncpy n t (Suc i))"

definition namecmp :: "u8 list \<Rightarrow> u8 list \<Rightarrow> int" where
  "namecmp s t = strncmp DIRSIZ s t 0"

definition rd_dirent :: "(nat \<Rightarrow> u8) \<Rightarrow> dirent" where
  "rd_dirent m = \<lparr>de_inum = rd16 m 0, de_name = map m [2..<2 + DIRSIZ]\<rparr>"

definition dirent_bytes :: "dirent \<Rightarrow> u8 list" where
  "dirent_bytes de = ucast (de_inum de) # ucast (drop_bit 8 (de_inum de)) # de_name de"

definition kernel_vm :: "unit vmcopy" where
  "kernel_vm = \<lparr>vm_copyout = (\<lambda>a xs u. (False, u)), vm_copyin = (\<lambda>a n u. (False, []))\<rparr>"

subsection \<open>Scanning a directory\<close>

text \<open>
  The loop that \<^verbatim>\<open>dirlookup\<close> and \<^verbatim>\<open>dirlink\<close> share: it reads the entries in order up to the first one that
  satisfies a condition, and yields that entry, if any, with the offset reached.
\<close>

function dirscan :: "'d bio \<Rightarrow> superblock \<Rightarrow> (dirent \<Rightarrow> bool) \<Rightarrow> u32 \<Rightarrow> inode \<Rightarrow> 'd \<Rightarrow>
    (dirent option \<times> u32 \<times> inode \<times> 'd) option" where
  "dirscan B sb stop off dp d =
     (if off < i_size dp then
        (case readi B sb kernel_vm dp False 0 off 16 (\<lambda>_. 0, ()) d of
           None \<Rightarrow> None
         | Some (r, dp1, (m, _), d1) \<Rightarrow>
             if r \<noteq> 16 then None
             else let de = rd_dirent (\<lambda>i. m (of_nat i)) in
               if stop de then Some (Some de, off, dp1, d1)
               else dirscan B sb stop (off + 16) dp1 d1)
      else Some (None, off, dp, d))"
  by pat_completeness auto

text \<open>Reading an entry that would wrap around 32 bits reads nothing, so that the offset increases.\<close>

termination
proof (relation "measure (\<lambda>(B, sb, stop, off, dp, d). 2 ^ 32 - unat off)")
  fix B :: "'d bio" and sb :: superblock and stop :: "dirent \<Rightarrow> bool" and off :: u32
    and dp :: inode and d :: 'd
    and p :: "int \<times> inode \<times> (kmem \<times> unit) \<times> 'd" and r :: int and q :: "inode \<times> (kmem \<times> unit) \<times> 'd"
    and dp1 :: inode and q' :: "(kmem \<times> unit) \<times> 'd" and w :: "kmem \<times> unit" and d1 :: 'd and m :: kmem and u :: unit and de :: dirent
  assume a: "readi B sb kernel_vm dp False 0 off 16 (\<lambda>_. 0, ()) d = Some p" "(r, q) = p" "(dp1, q') = q" "(w, d1) = q'" "(m, u) = w"
    and r: "\<not> r \<noteq> 16" and st: "off < i_size dp"
  have "\<not> off + 16 < off" using a r by (auto simp: readi_def split: if_splits)
  then have "unat (off + 16) = unat off + unat (16 :: u32)" by (metis not_less unat_plus_simple)
  moreover have "unat off < 2 ^ 32" using unsigned_less [of off, where ?'a = nat] by simp
  ultimately show "((B, sb, stop, off + 16, dp1, d1), B, sb, stop, off, dp, d)
      \<in> measure (\<lambda>(B, sb, stop, off, dp, d). 2 ^ 32 - unat off)" by simp
qed simp

declare dirscan.simps [simp del]

type_synonym 'd fstate = "itable \<times> 'd"

text \<open>\<^verbatim>\<open>dirlookup\<close> yields the pointer and the offset that it stores in \<^verbatim>\<open>*poff\<close>.\<close>

definition dirlookup :: "'d bio \<Rightarrow> superblock \<Rightarrow> nat \<Rightarrow> u8 list \<Rightarrow> 'd fstate \<Rightarrow> ((nat \<times> u32) option \<times> 'd fstate) option" where
  "dirlookup B sb k name = (\<lambda>(tbl, d).
     let dp = tbl ! k in
     if i_type dp \<noteq> T_DIR then None
     else
       (case dirscan B sb (\<lambda>de. de_inum de \<noteq> 0 \<and> namecmp name (de_name de) = 0) 0 dp d of
          None \<Rightarrow> None
        | Some (None, off, dp1, d1) \<Rightarrow> Some (None, tbl[k := dp1], d1)
        | Some (Some de, off, dp1, d1) \<Rightarrow>
            do { (j, tbl1) \<leftarrow> iget (i_dev dp1) (ucast (de_inum de)) (tbl[k := dp1]);
                 Some (Some (j, off), tbl1, d1) }))"

definition dirlink :: "'d bio \<Rightarrow> superblock \<Rightarrow> nat \<Rightarrow> u8 list \<Rightarrow> u32 \<Rightarrow> 'd fstate \<Rightarrow> (int \<times> 'd fstate) option" where
  "dirlink B sb k name inum s =
     do { (found, tbl1, d1) \<leftarrow> dirlookup B sb k name s;
          case found of
            Some (j, _) \<Rightarrow> do { s2 \<leftarrow> iput B sb j (tbl1, d1); Some (- 1, s2) }
          | None \<Rightarrow>
              do { (_, off, dp2, d2) \<leftarrow> dirscan B sb (\<lambda>de. de_inum de = 0) 0 (tbl1 ! k) d1;
                   let de = \<lparr>de_inum = ucast inum, de_name = strncpy DIRSIZ name 0\<rparr>;
                       m = store (\<lambda>_. 0) 0 (dirent_bytes de)
                   in do { (r, dp3, d3) \<leftarrow> writei B sb kernel_vm dp2 False 0 off 16 (m, ()) d2;
                           Some (if r \<noteq> 16 then - 1 else 0, tbl1[k := dp3], d3) } } }"

subsection \<open>Paths\<close>

abbreviation slash :: u8 where
  "slash \<equiv> 47"

text \<open>\<^verbatim>\<open>skipelem\<close> yields the rest of the path and the contents of the name buffer.\<close>

definition skipelem :: "u8 list \<Rightarrow> u8 list \<Rightarrow> (u8 list \<times> u8 list) option" where
  "skipelem path name =
     (let path1 = dropWhile (\<lambda>c. c = slash) path in
      if path1 = [] then None
      else
        let s = takeWhile (\<lambda>c. c \<noteq> slash) path1;
            path2 = dropWhile (\<lambda>c. c \<noteq> slash) path1;
            len = length s;
            name1 = (if len \<ge> DIRSIZ then take DIRSIZ s @ drop DIRSIZ name else s @ [0] @ drop (len + 1) name)
        in Some (dropWhile (\<lambda>c. c = slash) path2, name1))"

lemma skipelem_shorter:
  assumes "skipelem path name = Some (path', name')"
  shows "length path' < length path"
proof -
  let ?p = "dropWhile (\<lambda>c. c = slash) path"
  have "?p \<noteq> []" and p': "path' = dropWhile (\<lambda>c. c = slash) (dropWhile (\<lambda>c. c \<noteq> slash) ?p)"
    using assms by (auto simp: skipelem_def Let_def split: if_splits)
  then have "hd ?p \<noteq> slash" using hd_dropWhile [of "\<lambda>c. c = slash" path] by blast
  then have "length (dropWhile (\<lambda>c. c \<noteq> slash) ?p) < length ?p"
    using \<open>?p \<noteq> []\<close> by (cases ?p) (simp_all add: length_dropWhile_le le_imp_less_Suc)
  moreover have "length path' \<le> length (dropWhile (\<lambda>c. c \<noteq> slash) ?p)"
    unfolding p' by (rule length_dropWhile_le)
  moreover have "length ?p \<le> length path" by (rule length_dropWhile_le)
  ultimately show ?thesis by linarith
qed

function namex_loop :: "'d bio \<Rightarrow> superblock \<Rightarrow> bool \<Rightarrow> u8 list \<Rightarrow> u8 list \<Rightarrow> nat \<Rightarrow> 'd fstate \<Rightarrow>
    (nat option \<times> u8 list \<times> 'd fstate) option" where
  "namex_loop B sb parent path name k s =
     (case skipelem path name of
        None \<Rightarrow>
          if parent then do { s1 \<leftarrow> iput B sb k s; Some (None, name, s1) }
          else Some (Some k, name, s)
      | Some (path1, name1) \<Rightarrow>
          do { s1 \<leftarrow> ilock B sb k s;
               if i_type (fst s1 ! k) \<noteq> T_DIR then do { s2 \<leftarrow> iunlockput B sb k s1; Some (None, name1, s2) }
               else if parent \<and> path1 = [] then
                 do { tbl2 \<leftarrow> iunlock k (fst s1); Some (Some k, name1, tbl2, snd s1) }
               else
                 do { (found, s2) \<leftarrow> dirlookup B sb k name1 s1;
                      s3 \<leftarrow> iunlockput B sb k s2;
                      case found of
                        None \<Rightarrow> Some (None, name1, s3)
                      | Some (next, _) \<Rightarrow> namex_loop B sb parent path1 name1 next s3 } })"
  by pat_completeness auto

termination
  by (relation "measure (\<lambda>(B, sb, parent, path, name, k, s). length path)") (auto dest: skipelem_shorter)

declare namex_loop.simps [simp del]

definition namex :: "'d bio \<Rightarrow> superblock \<Rightarrow> nat \<Rightarrow> u8 list \<Rightarrow> bool \<Rightarrow> u8 list \<Rightarrow> 'd fstate \<Rightarrow>
    (nat option \<times> u8 list \<times> 'd fstate) option" where
  "namex B sb cwd path parent name = (\<lambda>(tbl, d).
     do { (k, tbl1) \<leftarrow> (if path \<noteq> [] \<and> hd path = slash then iget ROOTDEV ROOTINO tbl else Some (idup cwd tbl));
          namex_loop B sb parent path name k (tbl1, d) })"

definition namei :: "'d bio \<Rightarrow> superblock \<Rightarrow> nat \<Rightarrow> u8 list \<Rightarrow> 'd fstate \<Rightarrow> (nat option \<times> 'd fstate) option" where
  "namei B sb cwd path s =
     do { (r, _, s1) \<leftarrow> namex B sb cwd path False (replicate DIRSIZ 0) s; Some (r, s1) }"

definition nameiparent :: "'d bio \<Rightarrow> superblock \<Rightarrow> nat \<Rightarrow> u8 list \<Rightarrow> u8 list \<Rightarrow> 'd fstate \<Rightarrow>
    (nat option \<times> u8 list \<times> 'd fstate) option" where
  "nameiparent B sb cwd path name s = namex B sb cwd path True name s"

end
