(* ===== verification/FsTree.thy ===== *)
theory FsTree
  imports FsDir
begin

unbundle bit_operations_syntax

text \<open>
  Directories as finite maps from names to inode numbers and paths as walks through them. \<open>dirents\<close> reads
  the entries off the contents of a file, \<open>dmap\<close> is the map they stand for; \<^verbatim>\<open>dirlookup\<close> and \<^verbatim>\<open>dirlink\<close> are
  its lookup and update. \<open>walk\<close> follows the elements of a path; \<^verbatim>\<open>namex\<close> computes it and leaves exactly the
  references of its caller in the inode table.
\<close>

subsection \<open>Names\<close>

text \<open>What \<^verbatim>\<open>namecmp\<close> compares: the bytes up to a terminator, at most \<^verbatim>\<open>DIRSIZ\<close> of them.\<close>

definition cname :: "u8 list \<Rightarrow> u8 list" where
  "cname s = takeWhile (\<lambda>c. c \<noteq> 0) (take DIRSIZ s)"

lemma take_drop_step: "take (Suc n) (drop i s) = (if i < length s then s ! i # take n (drop (Suc i) s) else [])"
  by (simp add: Cons_nth_drop_Suc [symmetric])

lemma uint_diff_0: "uint (a :: u8) - uint b = 0 \<longleftrightarrow> a = b"
  by (metis eq_iff_diff_eq_0 word_eq_iff_unsigned)

lemma unat_of_nat32: "k < 2 ^ 32 \<Longrightarrow> unat (of_nat k :: u32) = k"
  by (simp add: unat_of_nat take_bit_eq_mod)

lemma strncmp_eq_0:
  "strncmp n s t i = 0 \<longleftrightarrow>
     takeWhile (\<lambda>c. c \<noteq> 0) (take n (drop i s)) = takeWhile (\<lambda>c. c \<noteq> 0) (take n (drop i t))"
proof (induction n arbitrary: i)
  case 0
  then show ?case by simp
next
  case (Suc n)
  show ?case
    using Suc.IH [of "Suc i"] unfolding take_drop_step
    by (auto simp: cbyte_def uint_diff_0 simp del: unsigned_eq_0_iff right_minus_eq)
qed

lemma namecmp_eq_0: "namecmp s t = 0 \<longleftrightarrow> cname s = cname t"
  using strncmp_eq_0 [of DIRSIZ s t 0] by (simp add: namecmp_def cname_def)

lemma length_strncpy [simp]: "length (strncpy n t i) = n"
  by (induction n t i rule: strncpy.induct) simp_all

lemma strncpy_same:
  "takeWhile (\<lambda>c. c \<noteq> 0) (strncpy n t i) = takeWhile (\<lambda>c. c \<noteq> 0) (take n (drop i t))"
proof (induction n t i rule: strncpy.induct)
  case (1 t i)
  then show ?case by simp
next
  case (2 n t i)
  then show ?case unfolding take_drop_step by (auto simp: cbyte_def)
qed

lemma cname_strncpy: "cname (strncpy DIRSIZ name 0) = cname name"
  using strncpy_same [of DIRSIZ name 0] by (simp add: cname_def)

subsection \<open>Entries\<close>

lemma unat_minus_one: "(w :: u64) \<noteq> 0 \<Longrightarrow> unat (w - 1) = unat w - 1"
  by (rule unat_minus_one)

lemma store_lookup:
  assumes "length xs < 2 ^ 64"
  shows "store m a xs b = (if unat (b - a) < length xs then xs ! unat (b - a) else m b)"
  using assms
proof (induction xs arbitrary: m a)
  case Nil
  then show ?case by simp
next
  case (Cons x xs)
  note IH = Cons.IH [of "m(a := x)" "a + 1"]
  show ?case
  proof (cases "b = a")
    case True
    have "b - (a + 1) = - 1" using True by simp
    then have "unat (b - (a + 1)) = 2 ^ 64 - 1" by (simp add: unsigned_minus_1_eq_mask mask_eq_exp_minus_1)
    then show ?thesis using IH Cons.prems True by (simp add: fun_upd_def)
  next
    case False
    then have "b - a \<noteq> 0" by simp
    then have "unat (b - (a + 1)) = unat (b - a) - 1" "0 < unat (b - a)"
      using unat_minus_one [of "b - a"] by (simp_all add: diff_diff_eq unat_gt_0)
    then show ?thesis using IH Cons.prems False by (cases "unat (b - a)") (auto simp: fun_upd_def)
  qed
qed

lemma store_at: "length xs < 2 ^ 64 \<Longrightarrow> i < length xs \<Longrightarrow> store m 0 xs (of_nat i) = xs ! i"
  by (simp add: store_lookup unat_of_nat take_bit_eq_mod)

lemma rd_dirent_cong: "(\<And>i. i < 16 \<Longrightarrow> f i = g i) \<Longrightarrow> rd_dirent f = rd_dirent g"
  by (auto simp: rd_dirent_def rd16_def DIRSIZ_def)

lemma rd_dirent_bytes:
  assumes "length (de_name de) = DIRSIZ" and "\<And>i. i < 16 \<Longrightarrow> f i = dirent_bytes de ! i"
  shows "rd_dirent f = de"
proof -
  have "f 0 = ucast (de_inum de)" "f 1 = ucast (drop_bit 8 (de_inum de))"
    using assms(2) [of 0] assms(2) [of 1] by (simp_all add: dirent_bytes_def)
  then have "rd16 f 0 = rd16 (wr16 f 0 (de_inum de)) 0"
    by (simp add: rd16_def wr16_def)
  moreover have "map f [2..<16] = de_name de"
  proof (rule nth_equalityI)
    fix i assume "i < length (map f [2..<16])"
    then show "map f [2..<16] ! i = de_name de ! i"
      using assms(2) [of "2 + i"] by (simp add: dirent_bytes_def del: upt_rec_numeral)
  qed (use assms(1) in \<open>simp add: DIRSIZ_def\<close>)
  ultimately show ?thesis by (simp add: rd_dirent_def DIRSIZ_def)
qed

lemma length_dirent_bytes: "length (de_name de) = DIRSIZ \<Longrightarrow> length (dirent_bytes de) = 16"
  by (simp add: dirent_bytes_def DIRSIZ_def)

definition dirents :: "'d bio \<Rightarrow> inode \<Rightarrow> 'd \<Rightarrow> dirent list" where
  "dirents B dp d = map (\<lambda>j. rd_dirent (\<lambda>i. fbyte B dp d (16 * j + i))) [0..<unat (i_size dp) div 16]"

definition dmap :: "dirent list \<Rightarrow> u8 list \<Rightarrow> u16 option" where
  "dmap es x = map_option de_inum (find (\<lambda>e. de_inum e \<noteq> 0 \<and> cname (de_name e) = x) es)"

text \<open>The place of the first entry with a name.\<close>

definition slot_of :: "dirent list \<Rightarrow> u8 list \<Rightarrow> nat option" where
  "slot_of es x = find_idx (\<lambda>e. de_inum e \<noteq> 0 \<and> cname (de_name e) = x) es"

text \<open>A directory file: a whole number of entries, all of them on disk.\<close>

definition dir_ok :: "'d bio \<Rightarrow> inode \<Rightarrow> 'd \<Rightarrow> bool" where
  "dir_ok B dp d \<longleftrightarrow> unat (i_size dp) \<le> MAXFILE * BSIZE \<and> 16 dvd unat (i_size dp) \<and>
     (\<forall>p<unat (i_size dp). fblock B dp d (p div BSIZE) \<noteq> 0)"

subsection \<open>Scanning reads the entries in order\<close>

lemma read_dirent:
  assumes B: "bio_laws B" and sb: "sb_ok sb" and fs: "fs_wf B sb (i_dev dp) d" and st: "in_step B sb dp d"
    and ok: "dir_ok B dp d" and j: "16 * j < unat (i_size dp)"
  shows "\<exists>m. readi B sb kernel_vm dp False 0 (of_nat (16 * j)) 16 (\<lambda>_. 0, ()) d = Some (16, dp, (m, ()), d) \<and>
     rd_dirent (\<lambda>i. m (of_nat i)) = dirents B dp d ! j"
proof -
  let ?off = "of_nat (16 * j) :: u32" and ?xs = "map (fbyte B dp d) [16 * j..<16 * j + 16]"
  have sz: "unat (i_size dp) \<le> 67382272" using ok by (simp add: dir_ok_def MAXFILE_bytes)
  have off: "unat ?off = 16 * j" using j sz by (intro unat_of_nat32) simp
  have le: "16 * j + 16 \<le> unat (i_size dp)" using ok j unfolding dir_ok_def by (auto elim!: dvdE)
  have "?off \<le> i_size dp" using j off by (simp add: word_le_nat_alt)
  moreover have "\<not> ?off + 16 < ?off"
    using range_guard(2) [of ?off 16] le sz off by (simp add: MAXFILE_bytes)
  moreover have "\<forall>p<unat (i_size dp). fblock B dp d (p div BSIZE) \<noteq> 0" "unat (i_size dp) \<le> MAXFILE * BSIZE"
    using ok by (simp_all add: dir_ok_def)
  ultimately have "readi B sb kernel_vm dp False 0 ?off 16 (\<lambda>_. 0, ()) d =
      Some (16, dp, (store (\<lambda>_. 0) 0 ?xs, ()), d)"
    using readi_spec [OF B sb fs st _ _ _ _ dst_ok_kernel, of ?off 16 kernel_vm 0 "(\<lambda>_. 0, ())"] off le
    by (simp add: either_copyout_def)
  moreover have "rd_dirent (\<lambda>i. store (\<lambda>_. 0) 0 ?xs (of_nat i)) = rd_dirent (\<lambda>i. fbyte B dp d (16 * j + i))"
    by (rule rd_dirent_cong) (simp add: store_at)
  moreover have "j < unat (i_size dp) div 16" using le by simp
  ultimately show ?thesis by (auto simp: dirents_def)
qed

lemma dirscan_spec:
  assumes B: "bio_laws B" and sb: "sb_ok sb" and fs: "fs_wf B sb (i_dev dp) d" and st: "in_step B sb dp d"
    and ok: "dir_ok B dp d" and j: "j \<le> length (dirents B dp d)"
  shows "dirscan B sb stop (of_nat (16 * j)) dp d =
     (case find_idx stop (drop j (dirents B dp d)) of
        None \<Rightarrow> Some (None, i_size dp, dp, d)
      | Some n \<Rightarrow> Some (Some (dirents B dp d ! (j + n)), of_nat (16 * (j + n)), dp, d))"
  using j
proof (induction "length (dirents B dp d) - j" arbitrary: j)
  case 0
  have sz: "unat (i_size dp) = 16 * j" using 0 ok by (simp add: dirents_def dir_ok_def)
  then have "unat (of_nat (16 * j) :: u32) = unat (i_size dp)"
    using ok by (subst unat_of_nat32) (simp_all add: dir_ok_def MAXFILE_bytes)
  then have "of_nat (16 * j) = i_size dp" by (rule word_unat_eq_iff [THEN iffD2])
  then show ?case using 0 by (subst dirscan.simps) simp
next
  case (Suc n)
  let ?es = "dirents B dp d"
  have j: "j < length ?es" using Suc.hyps(2) by linarith
  then have lt: "16 * j < unat (i_size dp)" by (simp add: dirents_def less_mult_imp_div_less)
  have "unat (i_size dp) \<le> 67382272" using ok by (simp add: dir_ok_def MAXFILE_bytes)
  then have "unat (of_nat (16 * j) :: u32) = 16 * j" using lt by (intro unat_of_nat32) simp
  then have wlt: "of_nat (16 * j) < i_size dp" using lt by (simp add: word_less_nat_alt)
  have IH: "dirscan B sb stop (of_nat (16 * Suc j)) dp d = (case find_idx stop (drop (Suc j) ?es) of
        None \<Rightarrow> Some (None, i_size dp, dp, d) | Some n \<Rightarrow> Some (Some (?es ! (Suc j + n)), of_nat (16 * (Suc j + n)), dp, d))"
    using Suc j by (intro Suc.hyps(1)) auto
  have dr: "drop j ?es = ?es ! j # drop (Suc j) ?es" using j by (simp add: Cons_nth_drop_Suc)
  obtain m where "readi B sb kernel_vm dp False 0 (of_nat (16 * j)) 16 (\<lambda>_. 0, ()) d = Some (16, dp, (m, ()), d)"
    and "rd_dirent (\<lambda>i. m (of_nat i)) = ?es ! j"
    using read_dirent [OF B sb fs st ok lt] by blast
  then have "dirscan B sb stop (of_nat (16 * j)) dp d =
      (if stop (?es ! j) then Some (Some (?es ! j), of_nat (16 * j), dp, d) else dirscan B sb stop (of_nat (16 * Suc j)) dp d)"
    using wlt by (subst dirscan.simps) (simp add: algebra_simps)
  then show ?case unfolding IH dr by (auto split: option.splits)
qed

subsection \<open>Looking up a name\<close>

lemma find_find_idx: "find P xs = map_option ((!) xs) (find_idx P xs)"
  by (induction xs) (auto split: option.splits simp: option.map_comp comp_def)

lemma dirlookup_spec:
  assumes B: "bio_laws B" and sb: "sb_ok sb" and fs: "fs_wf B sb (i_dev (tbl ! k)) d" and st: "in_step B sb (tbl ! k) d"
    and ok: "dir_ok B (tbl ! k) d" and ty: "i_type (tbl ! k) = T_DIR"
  shows "dmap (dirents B (tbl ! k) d) (cname name) = None \<Longrightarrow> dirlookup B sb k name (tbl, d) = Some (None, tbl, d)"
    and "dmap (dirents B (tbl ! k) d) (cname name) = Some i \<Longrightarrow> iget (i_dev (tbl ! k)) (ucast i) tbl = Some (j, tbl') \<Longrightarrow>
      \<exists>m. slot_of (dirents B (tbl ! k) d) (cname name) = Some m \<and> dirlookup B sb k name (tbl, d) = Some (Some (j, of_nat (16 * m)), tbl', d)"
proof -
  let ?stop = "\<lambda>de. de_inum de \<noteq> 0 \<and> namecmp name (de_name de) = 0" and ?es = "dirents B (tbl ! k) d"
  have stop: "?stop = (\<lambda>e. de_inum e \<noteq> 0 \<and> cname (de_name e) = cname name)"
    by (auto simp: namecmp_eq_0)
  have sc: "dirscan B sb ?stop 0 (tbl ! k) d = (case find_idx ?stop ?es of
        None \<Rightarrow> Some (None, i_size (tbl ! k), tbl ! k, d) | Some n \<Rightarrow> Some (Some (?es ! n), of_nat (16 * n), tbl ! k, d))"
    using dirscan_spec [OF B sb fs st ok, of 0 ?stop] by (auto split: option.splits)
  have dm: "dmap ?es (cname name) = map_option (\<lambda>n. de_inum (?es ! n)) (find_idx ?stop ?es)"
    unfolding dmap_def stop find_find_idx by (simp add: option.map_comp comp_def)
  show "dmap ?es (cname name) = None \<Longrightarrow> dirlookup B sb k name (tbl, d) = Some (None, tbl, d)"
    using sc dm ty by (simp add: dirlookup_def)
  show "\<exists>m. slot_of ?es (cname name) = Some m \<and> dirlookup B sb k name (tbl, d) = Some (Some (j, of_nat (16 * m)), tbl', d)"
    if some: "dmap ?es (cname name) = Some i" and g: "iget (i_dev (tbl ! k)) (ucast i) tbl = Some (j, tbl')"
  proof -
    obtain n where n: "find_idx ?stop ?es = Some n" "i = de_inum (?es ! n)" using some unfolding dm by auto
    then have "dirscan B sb ?stop 0 (tbl ! k) d = Some (Some (?es ! n), of_nat (16 * n), tbl ! k, d)" using sc by simp
    then show ?thesis using ty g n unfolding stop by (simp add: dirlookup_def slot_of_def stop)
  qed
qed

subsection \<open>References in the inode table\<close>

definition ikey :: "inode \<Rightarrow> u32 \<times> u32" where
  "ikey ip = (i_dev ip, i_inum ip)"

lemma ikey_ref_upd: "ip = ip'\<lparr>i_ref := r\<rparr> \<Longrightarrow> ikey ip = ikey ip'"
  by (simp add: ikey_def)

lemma valid_ref_upd: "ip = ip'\<lparr>i_ref := r\<rparr> \<Longrightarrow> i_valid ip = i_valid ip'"
  by simp

text \<open>The number of references to an inode, over all entries.\<close>

definition refs :: "itable \<Rightarrow> u32 \<times> u32 \<Rightarrow> int" where
  "refs tbl x = sum_list (map (\<lambda>ip. if ikey ip = x then i_ref ip else 0) tbl)"

abbreviation held :: "itable \<Rightarrow> (u32 \<times> u32) set" where
  "held tbl \<equiv> {x. 0 < refs tbl x}"

lemma refs_update:
  "k < length tbl \<Longrightarrow> refs (tbl[k := ip]) x =
     refs tbl x - (if ikey (tbl ! k) = x then i_ref (tbl ! k) else 0) + (if ikey ip = x then i_ref ip else 0)"
  by (simp add: refs_def map_update sum_list_update_int)

lemma itab_inv_distinct:
  assumes "itab_inv tbl" and "k < NINODE" and "j < NINODE" and "0 < i_ref (tbl ! k)" and "0 < i_ref (tbl ! j)"
    and "ikey (tbl ! k) = ikey (tbl ! j)"
  shows "k = j"
  using unique_keysD [OF itab_invD(4) [OF assms(1)]] assms itab_invD(1) [OF assms(1)] by (simp add: ikey_def)

lemma refs_entry:
  assumes inv: "itab_inv tbl" and k: "k < NINODE" "0 < i_ref (tbl ! k)"
  shows "refs tbl (ikey (tbl ! k)) = i_ref (tbl ! k)"
proof -
  note len = itab_invD(1) [OF inv]
  let ?f = "\<lambda>ip. if ikey ip = ikey (tbl ! k) then i_ref ip else 0"
  have "refs tbl (ikey (tbl ! k)) = (\<Sum>j = 0..<NINODE. ?f (tbl ! j))"
    by (simp add: refs_def sum_list_sum_nth len)
  also have "\<dots> = (\<Sum>j = 0..<NINODE. if j = k then i_ref (tbl ! k) else 0)"
  proof (rule sum.cong)
    fix j assume "j \<in> {0..<NINODE}"
    then have j: "j < NINODE" by simp
    have "i_ref (tbl ! j) = 0" if "j \<noteq> k" "ikey (tbl ! j) = ikey (tbl ! k)"
      using itab_inv_distinct [OF inv j k(1) _ k(2) that(2)] itab_invD(2) [OF inv j] that(1) by fastforce
    then show "?f (tbl ! j) = (if j = k then i_ref (tbl ! k) else 0)" by auto
  qed simp
  also have "\<dots> = i_ref (tbl ! k)" using k(1) by simp
  finally show ?thesis .
qed

lemma refs_nonneg: "itab_inv tbl \<Longrightarrow> 0 \<le> refs tbl x"
  unfolding refs_def by (rule sum_list_nonneg) (auto simp: itab_inv_def)

lemma held_entry:
  assumes inv: "itab_inv tbl" and x: "x \<in> held tbl"
  obtains k where "k < NINODE" "0 < i_ref (tbl ! k)" "ikey (tbl ! k) = x"
proof -
  have "\<exists>ip\<in>set tbl. ikey ip = x \<and> 0 < i_ref ip"
  proof (rule ccontr)
    assume "\<not> ?thesis"
    then have "refs tbl x \<le> 0" unfolding refs_def
      by (intro sum_list_nonpos) (auto simp: not_less)
    then show False using x by simp
  qed
  then show ?thesis using that itab_invD(1) [OF inv] by (metis in_set_conv_nth)
qed

lemma held_image: "itab_inv tbl \<Longrightarrow> held tbl = (\<lambda>k. ikey (tbl ! k)) ` {k. k < NINODE \<and> 0 < i_ref (tbl ! k)}"
proof (intro set_eqI iffI)
  fix x assume "itab_inv tbl" "x \<in> held tbl"
  then show "x \<in> (\<lambda>k. ikey (tbl ! k)) ` {k. k < NINODE \<and> 0 < i_ref (tbl ! k)}" by (rule held_entry) blast
qed (auto simp: refs_entry)

lemma finite_held: "itab_inv tbl \<Longrightarrow> finite (held tbl)"
  by (simp add: held_image)

text \<open>A change of one count adds at most one inode.\<close>

lemma card_held_upd:
  assumes inv: "itab_inv tbl" and R: "R = (refs tbl)(x := v)"
  shows "card {y. 0 < R y} \<le> Suc (card (held tbl))"
proof -
  have "{y. 0 < R y} \<subseteq> insert x (held tbl)" by (auto simp: R)
  then have "card {y. 0 < R y} \<le> card (insert x (held tbl))" using finite_held [OF inv] by (intro card_mono) auto
  also have "\<dots> \<le> Suc (card (held tbl))" by (rule card_insert_le_m1) auto
  finally show ?thesis .
qed

lemma free_entry:
  assumes inv: "itab_inv tbl" and c: "card (held tbl) < NINODE"
  shows "\<exists>ip\<in>set tbl. i_ref ip = 0"
proof (rule ccontr)
  assume "\<not> ?thesis"
  then have "0 < i_ref (tbl ! k)" if "k < NINODE" for k
    using that itab_invD(1,2) [OF inv] by (metis nth_mem order_le_less)
  then have "held tbl = (\<lambda>k. ikey (tbl ! k)) ` {..<NINODE}" "inj_on (\<lambda>k. ikey (tbl ! k)) {..<NINODE}"
    using held_image [OF inv] itab_inv_distinct [OF inv] by (auto intro!: inj_onI)
  then have "card (held tbl) = NINODE" by (simp add: card_image)
  then show False using c by simp
qed

lemma iget_refs:
  assumes inv: "itab_inv tbl" and room: "(dev, inum) \<in> held tbl \<or> card (held tbl) < NINODE"
  shows "\<exists>k tbl'. iget dev inum tbl = Some (k, tbl') \<and> refs tbl' = (refs tbl)((dev, inum) := refs tbl (dev, inum) + 1) \<and>
     (0 < i_ref (tbl ! k) \<and> ikey (tbl ! k) = (dev, inum) \<and> tbl' = tbl[k := (tbl ! k)\<lparr>i_ref := i_ref (tbl ! k) + 1\<rparr>] \<or>
      i_ref (tbl ! k) = 0 \<and> tbl' = tbl[k := (tbl ! k)\<lparr>i_dev := dev, i_inum := inum, i_ref := 1, i_valid := False\<rparr>])"
proof (cases "find_idx (\<lambda>ip. 0 < i_ref ip \<and> i_dev ip = dev \<and> i_inum ip = inum) tbl")
  case (Some k)
  then have k: "k < length tbl" "0 < i_ref (tbl ! k)" "ikey (tbl ! k) = (dev, inum)"
    using find_idx_SomeD [OF Some] by (auto simp: ikey_def)
  then show ?thesis
    using Some by (auto simp: iget_def refs_update fun_eq_iff) (simp_all add: ikey_def)
next
  case None
  have "(dev, inum) \<notin> held tbl"
  proof
    assume "(dev, inum) \<in> held tbl"
    then obtain k where "k < NINODE" "0 < i_ref (tbl ! k)" "ikey (tbl ! k) = (dev, inum)"
      by (rule held_entry [OF inv])
    then show False using None itab_invD(1) [OF inv] by (auto simp: find_idx_None ikey_def)
  qed
  then obtain k where k: "find_idx (\<lambda>ip. i_ref ip = 0) tbl = Some k"
    using room free_entry [OF inv] find_idx_exists [of _ tbl "\<lambda>ip. i_ref ip = 0"] by blast
  then have "k < length tbl" "i_ref (tbl ! k) = 0" using find_idx_SomeD [OF k] by auto
  then show ?thesis
    using None k by (auto simp: iget_def refs_update fun_eq_iff) (auto simp: ikey_def)
qed

subsection \<open>A table that agrees with the disk\<close>

text \<open>
  Every referenced entry is an allocated inode of the device, loaded entries agree with the disk, and
  the locked entries are those in \<open>L\<close>.
\<close>

definition cached :: "'d bio \<Rightarrow> superblock \<Rightarrow> u32 \<Rightarrow> nat set \<Rightarrow> itable \<Rightarrow> 'd \<Rightarrow> bool" where
  "cached B sb dev L tbl d \<longleftrightarrow> itab_inv tbl \<and>
     (\<forall>k<NINODE. (i_locked (tbl ! k) \<longleftrightarrow> k \<in> L) \<and> (0 < i_ref (tbl ! k) \<longrightarrow>
        i_dev (tbl ! k) = dev \<and> unat (i_inum (tbl ! k)) < unat (sb_ninodes sb) \<and> alloced B sb dev (unat (i_inum (tbl ! k))) d \<and>
        (i_valid (tbl ! k) \<longrightarrow> dinode_of (tbl ! k) = on_disk B sb dev (unat (i_inum (tbl ! k))) d)))"

lemma cachedD:
  assumes "cached B sb dev L tbl d"
  shows "itab_inv tbl" and "k < NINODE \<Longrightarrow> i_locked (tbl ! k) \<longleftrightarrow> k \<in> L"
    and "k < NINODE \<Longrightarrow> 0 < i_ref (tbl ! k) \<Longrightarrow> i_dev (tbl ! k) = dev"
    and "k < NINODE \<Longrightarrow> 0 < i_ref (tbl ! k) \<Longrightarrow> unat (i_inum (tbl ! k)) < unat (sb_ninodes sb)"
    and "k < NINODE \<Longrightarrow> 0 < i_ref (tbl ! k) \<Longrightarrow> alloced B sb dev (unat (i_inum (tbl ! k))) d"
    and "k < NINODE \<Longrightarrow> 0 < i_ref (tbl ! k) \<Longrightarrow> i_valid (tbl ! k) \<Longrightarrow>
      dinode_of (tbl ! k) = on_disk B sb dev (unat (i_inum (tbl ! k))) d"
  using assms by (auto simp: cached_def)

lemma cached_update:
  assumes c: "cached B sb dev L tbl d" and inv: "itab_inv (tbl[k := ip])"
    and L: "\<And>j. j < NINODE \<Longrightarrow> j \<noteq> k \<Longrightarrow> j \<in> L' \<longleftrightarrow> j \<in> L" "i_locked ip \<longleftrightarrow> k \<in> L'"
    and ip: "0 < i_ref ip \<Longrightarrow> i_dev ip = dev \<and> unat (i_inum ip) < unat (sb_ninodes sb) \<and> alloced B sb dev (unat (i_inum ip)) d \<and>
       (i_valid ip \<longrightarrow> dinode_of ip = on_disk B sb dev (unat (i_inum ip)) d)"
  shows "cached B sb dev L' (tbl[k := ip]) d"
  unfolding cached_def
proof (intro conjI allI impI inv)
  have len: "length tbl = NINODE" using itab_invD(1) [OF inv] by simp
  fix j assume j: "j < NINODE"
  show "i_locked (tbl[k := ip] ! j) = (j \<in> L')" using j len L cachedD(2) [OF c j] by (cases "j = k") auto
  assume r: "0 < i_ref (tbl[k := ip] ! j)"
  show "i_dev (tbl[k := ip] ! j) = dev" using j len r ip cachedD(3) [OF c j] by (cases "j = k") auto
  show "unat (i_inum (tbl[k := ip] ! j)) < unat (sb_ninodes sb)" using j len r ip cachedD(4) [OF c j] by (cases "j = k") auto
  show "alloced B sb dev (unat (i_inum (tbl[k := ip] ! j))) d" using j len r ip cachedD(5) [OF c j] by (cases "j = k") auto
  assume "i_valid (tbl[k := ip] ! j)"
  then show "dinode_of (tbl[k := ip] ! j) = on_disk B sb dev (unat (i_inum (tbl[k := ip] ! j))) d"
    using j len r ip cachedD(6) [OF c j] by (cases "j = k") auto
qed

lemma dinode_of_simps: "dinode_of (ip\<lparr>i_ref := r\<rparr>) = dinode_of ip" "dinode_of (ip\<lparr>i_locked := b\<rparr>) = dinode_of ip"
  by (simp_all add: dinode_of_def)

lemma iget_cached:
  assumes c: "cached B sb dev L tbl d" and i: "unat inum < unat (sb_ninodes sb)" "alloced B sb dev (unat inum) d"
    and room: "card (held tbl) < NINODE"
  shows "\<exists>k tbl'. iget dev inum tbl = Some (k, tbl') \<and> cached B sb dev L tbl' d \<and> k < NINODE \<and> 0 < i_ref (tbl' ! k) \<and>
     ikey (tbl' ! k) = (dev, inum) \<and> refs tbl' = (refs tbl)((dev, inum) := refs tbl (dev, inum) + 1) \<and>
     (\<forall>j<NINODE. 0 < i_ref (tbl ! j) \<longrightarrow> tbl' ! j = (tbl ! j)\<lparr>i_ref := i_ref (tbl' ! j)\<rparr> \<and> 0 < i_ref (tbl' ! j))"
proof -
  note inv = cachedD(1) [OF c] and len = itab_invD(1) [OF cachedD(1) [OF c]]
  obtain k tbl' where g: "iget dev inum tbl = Some (k, tbl')"
    and rf: "refs tbl' = (refs tbl)((dev, inum) := refs tbl (dev, inum) + 1)"
    and two: "0 < i_ref (tbl ! k) \<and> ikey (tbl ! k) = (dev, inum) \<and> tbl' = tbl[k := (tbl ! k)\<lparr>i_ref := i_ref (tbl ! k) + 1\<rparr>] \<or>
      i_ref (tbl ! k) = 0 \<and> tbl' = tbl[k := (tbl ! k)\<lparr>i_dev := dev, i_inum := inum, i_ref := 1, i_valid := False\<rparr>]"
    using iget_refs [OF inv, of dev inum] room by blast
  note gi = iget_inv [OF inv g]
  have unl: "i_locked (tbl ! k) \<longleftrightarrow> k \<in> L" using cachedD(2) [OF c gi(2)] .
  have "cached B sb dev L tbl' d"
    using two
  proof
    assume a: "0 < i_ref (tbl ! k) \<and> ikey (tbl ! k) = (dev, inum) \<and> tbl' = tbl[k := (tbl ! k)\<lparr>i_ref := i_ref (tbl ! k) + 1\<rparr>]"
    then have t: "tbl' = tbl[k := (tbl ! k)\<lparr>i_ref := i_ref (tbl ! k) + 1\<rparr>]" and r: "0 < i_ref (tbl ! k)" by auto
    show ?thesis
      unfolding t by (rule cached_update [OF c gi(1) [unfolded t]]) (use cachedD(3-6) [OF c gi(2) r] unl in \<open>simp_all add: dinode_of_simps\<close>)
  next
    assume a: "i_ref (tbl ! k) = 0 \<and> tbl' = tbl[k := (tbl ! k)\<lparr>i_dev := dev, i_inum := inum, i_ref := 1, i_valid := False\<rparr>]"
    then have t: "tbl' = tbl[k := (tbl ! k)\<lparr>i_dev := dev, i_inum := inum, i_ref := 1, i_valid := False\<rparr>]" by auto
    show ?thesis unfolding t by (rule cached_update [OF c gi(1) [unfolded t]]) (use i unl in simp_all)
  qed
  moreover have "tbl' ! j = (tbl ! j)\<lparr>i_ref := i_ref (tbl' ! j)\<rparr> \<and> 0 < i_ref (tbl' ! j)" if "j < NINODE" "0 < i_ref (tbl ! j)" for j
    using two that len gi(2) by (cases "j = k") auto
  ultimately show ?thesis using g gi rf by (auto simp: ikey_def)
qed

subsection \<open>A well-formed tree\<close>

text \<open>
  Every allocated inode has a link, every directory is a directory file, and its entries name
  allocated inodes.
\<close>

definition tree_ok :: "'d bio \<Rightarrow> superblock \<Rightarrow> u32 \<Rightarrow> 'd \<Rightarrow> bool" where
  "tree_ok B sb dev d \<longleftrightarrow> fs_wf B sb dev d \<and>
     (\<forall>i<unat (sb_ninodes sb). alloced B sb dev i d \<longrightarrow> d_nlink (on_disk B sb dev i d) \<noteq> 0 \<and>
        (d_type (on_disk B sb dev i d) = T_DIR \<longrightarrow> dir_ok B (inode_at B sb dev i d) d \<and>
           (\<forall>e\<in>set (dirents B (inode_at B sb dev i d) d). de_inum e \<noteq> 0 \<longrightarrow>
              unat (de_inum e) < unat (sb_ninodes sb) \<and> alloced B sb dev (unat (de_inum e)) d)))"

lemma tree_okD:
  assumes "tree_ok B sb dev d"
  shows "fs_wf B sb dev d"
    and "i < unat (sb_ninodes sb) \<Longrightarrow> alloced B sb dev i d \<Longrightarrow> d_nlink (on_disk B sb dev i d) \<noteq> 0"
    and "i < unat (sb_ninodes sb) \<Longrightarrow> alloced B sb dev i d \<Longrightarrow> d_type (on_disk B sb dev i d) = T_DIR \<Longrightarrow> dir_ok B (inode_at B sb dev i d) d"
    and "i < unat (sb_ninodes sb) \<Longrightarrow> alloced B sb dev i d \<Longrightarrow> d_type (on_disk B sb dev i d) = T_DIR \<Longrightarrow>
       e \<in> set (dirents B (inode_at B sb dev i d) d) \<Longrightarrow> de_inum e \<noteq> 0 \<Longrightarrow>
       unat (de_inum e) < unat (sb_ninodes sb) \<and> alloced B sb dev (unat (de_inum e)) d"
  using assms by (auto simp: tree_ok_def)

abbreviation dlist :: "'d bio \<Rightarrow> superblock \<Rightarrow> u32 \<Rightarrow> 'd \<Rightarrow> nat \<Rightarrow> dirent list" where
  "dlist B sb dev d i \<equiv> dirents B (inode_at B sb dev i d) d"

definition dirmap :: "'d bio \<Rightarrow> superblock \<Rightarrow> u32 \<Rightarrow> 'd \<Rightarrow> nat \<Rightarrow> u8 list \<Rightarrow> u16 option" where
  "dirmap B sb dev d i = dmap (dirents B (inode_at B sb dev i d) d)"

lemma dmap_SomeD: "dmap es x = Some i \<Longrightarrow> \<exists>e\<in>set es. de_inum e = i \<and> i \<noteq> 0"
  by (auto simp: dmap_def find_Some_iff)

lemma dirmap_target:
  assumes "tree_ok B sb dev d" and "i < unat (sb_ninodes sb)" and "alloced B sb dev i d"
    and "d_type (on_disk B sb dev i d) = T_DIR" and "dirmap B sb dev d i x = Some j"
  shows "unat j < unat (sb_ninodes sb)" and "alloced B sb dev (unat j) d"
  using tree_okD(4) [OF assms(1-4)] dmap_SomeD [OF assms(5) [unfolded dirmap_def]] by auto

text \<open>An entry that is loaded looks like the inode on disk.\<close>

lemma fbyte_cong: "i_dev ip = i_dev ip' \<Longrightarrow> i_addrs ip = i_addrs ip' \<Longrightarrow> fbyte B ip d p = fbyte B ip' d p"
  using pval_addrs_cong [of ip ip' B d "pos_of (p div BSIZE)"] by (simp add: fbyte_def fblock_def Let_def)

lemma loaded_dir:
  assumes "dinode_of ip = on_disk B sb dev i d" and "i_dev ip = dev"
  shows "dirents B ip d = dirents B (inode_at B sb dev i d) d" and "dir_ok B ip d = dir_ok B (inode_at B sb dev i d) d"
    and "i_type ip = d_type (on_disk B sb dev i d)" and "i_nlink ip = d_nlink (on_disk B sb dev i d)"
    and "i_addrs ip = d_addrs (on_disk B sb dev i d)"
proof -
  let ?q = "inode_at B sb dev i d"
  have od: "on_disk B sb dev i d = dinode_of ip" using assms(1) by simp
  have s: "i_dev ip = i_dev ?q" "i_addrs ip = i_addrs ?q" "i_size ip = i_size ?q"
    using assms(2) od by (simp_all add: dinode_of_def inode_at_def dinode_load_def)
  have "fbyte B ip d p = fbyte B ?q d p" for p using fbyte_cong [OF s(1,2)] .
  then show "dirents B ip d = dirents B ?q d" using s(3) by (simp add: dirents_def)
  have "fblock B ip d n = fblock B ?q d n" for n using pval_addrs_cong [OF s(1,2)] by (simp add: fblock_def)
  then show "dir_ok B ip d = dir_ok B ?q d" using s(3) by (simp add: dir_ok_def)
qed (use assms in \<open>auto simp: dinode_of_def dest: sym\<close>)

subsection \<open>Locking and releasing entries\<close>

lemma same_refs:
  "k < length tbl \<Longrightarrow> ikey ip = ikey (tbl ! k) \<Longrightarrow> i_ref ip = i_ref (tbl ! k) \<Longrightarrow> refs (tbl[k := ip]) = refs tbl"
  by (auto simp: refs_update fun_eq_iff)

lemma ilock_cached:
  assumes c: "cached B sb dev L tbl d" and k: "k < NINODE" "0 < i_ref (tbl ! k)" "k \<notin> L"
  shows "\<exists>ip. ilock B sb k (tbl, d) = Some (tbl[k := ip], d) \<and> cached B sb dev (insert k L) (tbl[k := ip]) d \<and>
     ikey ip = ikey (tbl ! k) \<and> i_ref ip = i_ref (tbl ! k) \<and> i_valid ip \<and>
     dinode_of ip = on_disk B sb dev (unat (i_inum ip)) d \<and> in_step B sb ip d"
proof -
  note inv = cachedD(1) [OF c] and e = cachedD(3-6) [OF c k(1,2)]
  define p where "p = tbl ! k"
  define ip where "ip = (if i_valid p then p\<lparr>i_locked := True\<rparr>
     else (dinode_load p (on_disk B sb dev (unat (i_inum p)) d))\<lparr>i_locked := True, i_valid := True\<rparr>)"
  note e' = e [folded p_def]
  have ty: "d_type (on_disk B sb dev (unat (i_inum p)) d) \<noteq> 0" using e'(3) by (simp add: alloced_def)
  have meta: "ikey ip = ikey p" "i_ref ip = i_ref p" "i_valid ip" "i_locked ip" "i_dev ip = dev" "i_inum ip = i_inum p"
    using e'(1) by (simp_all add: ip_def ikey_def dinode_load_def)
  have dn: "dinode_of ip = on_disk B sb dev (unat (i_inum p)) d"
    using e'(4) by (simp add: ip_def dinode_of_def dinode_load_def)
  have "ilock B sb k (tbl, d) = Some (tbl[k := ip], d)"
    using k cachedD(2) [OF c k(1)] e'(1) ty
    by (simp add: ilock_def on_disk_def [symmetric] Let_def ip_def flip: p_def) (simp add: dinode_load_def)
  moreover have "itab_inv (tbl[k := ip])"
    using meta e'(1) k by (intro itab_inv_update [OF inv]) (simp_all flip: p_def)
  then have "cached B sb dev (insert k L) (tbl[k := ip]) d"
    by (rule cached_update [OF c]) (use meta dn e' in simp_all)
  moreover have "in_step B sb ip d"
    using meta e'(2,3) loaded_dir(3,5) [OF dn meta(5)] ty by (simp add: in_step_def)
  ultimately show ?thesis using meta dn by (intro exI [of _ ip]) (simp flip: p_def)
qed

lemma iunlock_cached:
  assumes c: "cached B sb dev L tbl d" and k: "k < NINODE" "k \<in> L"
  shows "iunlock k tbl = Some (tbl[k := (tbl ! k)\<lparr>i_locked := False\<rparr>])"
    and "cached B sb dev (L - {k}) (tbl[k := (tbl ! k)\<lparr>i_locked := False\<rparr>]) d"
    and "refs (tbl[k := (tbl ! k)\<lparr>i_locked := False\<rparr>]) = refs tbl"
proof -
  note inv = cachedD(1) [OF c]
  have l: "i_locked (tbl ! k)" "0 < i_ref (tbl ! k)" using cachedD(2) [OF c k(1)] k itab_invD(3) [OF inv k(1)] by auto
  then show "iunlock k tbl = Some (tbl[k := (tbl ! k)\<lparr>i_locked := False\<rparr>])" by (simp add: iunlock_def)
  show "cached B sb dev (L - {k}) (tbl[k := (tbl ! k)\<lparr>i_locked := False\<rparr>]) d"
    using l cachedD(3-6) [OF c k(1) l(2)]
    by (intro cached_update [OF c itab_inv_update [OF inv]]) (simp_all add: dinode_of_simps)
  show "refs (tbl[k := (tbl ! k)\<lparr>i_locked := False\<rparr>]) = refs tbl"
    using k itab_invD(1) [OF inv] by (intro same_refs) (simp_all add: ikey_def)
qed

text \<open>In a well-formed tree giving up a reference does not free the inode.\<close>

lemma iput_stays:
  assumes c: "cached B sb dev L tbl d" and k: "k < NINODE" "0 < i_ref (tbl ! k)" and ul: "k \<notin> L \<or> 1 < i_ref (tbl ! k)"
    and stay: "i_valid (tbl ! k) \<Longrightarrow> i_nlink (tbl ! k) = 0 \<Longrightarrow> 1 < i_ref (tbl ! k)"
  shows "\<exists>tbl'. iput B sb k (tbl, d) = Some (tbl', d) \<and> cached B sb dev L tbl' d \<and>
     refs tbl' = (refs tbl)(ikey (tbl ! k) := refs tbl (ikey (tbl ! k)) - 1) \<and>
     (\<forall>j. j \<noteq> k \<longrightarrow> tbl' ! j = tbl ! j) \<and> tbl' ! k = (tbl ! k)\<lparr>i_ref := i_ref (tbl ! k) - 1\<rparr>"
proof -
  note inv = cachedD(1) [OF c] and e = cachedD(3-6) [OF c k(1,2)] and len = itab_invD(1) [OF cachedD(1) [OF c]]
  let ?ip = "(tbl ! k)\<lparr>i_ref := i_ref (tbl ! k) - 1\<rparr>"
  have "iput B sb k (tbl, d) = Some (tbl[k := ?ip], d)" using stay by (auto simp: iput_def Let_def)
  moreover have "cached B sb dev L (tbl[k := ?ip]) d"
    using k ul e cachedD(2) [OF c k(1)]
    by (intro cached_update [OF c itab_inv_update [OF inv]]) (auto simp: dinode_of_simps)
  moreover have "refs (tbl[k := ?ip]) = (refs tbl)(ikey (tbl ! k) := refs tbl (ikey (tbl ! k)) - 1)"
    using k len by (auto simp: refs_update fun_eq_iff ikey_def)
  ultimately show ?thesis using k len by (intro exI [of _ "tbl[k := ?ip]"]) simp
qed

lemma iput_cached:
  assumes tr: "tree_ok B sb dev d" and c: "cached B sb dev L tbl d" and k: "k < NINODE" "0 < i_ref (tbl ! k)"
    and ul: "k \<notin> L \<or> 1 < i_ref (tbl ! k)"
  shows "\<exists>tbl'. iput B sb k (tbl, d) = Some (tbl', d) \<and> cached B sb dev L tbl' d \<and>
     refs tbl' = (refs tbl)(ikey (tbl ! k) := refs tbl (ikey (tbl ! k)) - 1) \<and>
     (\<forall>j. j \<noteq> k \<longrightarrow> tbl' ! j = tbl ! j) \<and> tbl' ! k = (tbl ! k)\<lparr>i_ref := i_ref (tbl ! k) - 1\<rparr>"
proof (rule iput_stays [OF c k ul])
  note e = cachedD(3-6) [OF c k]
  show "1 < i_ref (tbl ! k)" if "i_valid (tbl ! k)" "i_nlink (tbl ! k) = 0"
    using loaded_dir(4) [OF e(4) [OF that(1)] e(1)] tree_okD(2) [OF tr e(2,3)] that(2) by simp
qed

lemma iunlockput_stays:
  assumes c: "cached B sb dev L tbl d" and k: "k < NINODE" "k \<in> L"
    and stay: "i_valid (tbl ! k) \<Longrightarrow> i_nlink (tbl ! k) = 0 \<Longrightarrow> 1 < i_ref (tbl ! k)"
  shows "\<exists>tbl'. iunlockput B sb k (tbl, d) = Some (tbl', d) \<and> cached B sb dev (L - {k}) tbl' d \<and>
     refs tbl' = (refs tbl)(ikey (tbl ! k) := refs tbl (ikey (tbl ! k)) - 1) \<and> (\<forall>j. j \<noteq> k \<longrightarrow> tbl' ! j = tbl ! j) \<and>
     tbl' ! k = (tbl ! k)\<lparr>i_locked := False, i_ref := i_ref (tbl ! k) - 1\<rparr>"
proof -
  note u = iunlock_cached [OF c k] and len = itab_invD(1) [OF cachedD(1) [OF c]]
  let ?t = "tbl[k := (tbl ! k)\<lparr>i_locked := False\<rparr>]"
  have r: "0 < i_ref (?t ! k)" "ikey (?t ! k) = ikey (tbl ! k)"
    using cachedD(2) [OF c k(1)] k itab_invD(3) [OF cachedD(1) [OF c] k(1)] len by (simp_all add: ikey_def)
  have nl: "k \<notin> L - {k} \<or> 1 < i_ref (?t ! k)" by simp
  have st: "i_valid (?t ! k) \<Longrightarrow> i_nlink (?t ! k) = 0 \<Longrightarrow> 1 < i_ref (?t ! k)" using stay k(1) len by simp
  show ?thesis
    using iput_stays [OF u(2) k(1) r(1) nl st] u(1,3) r(2) k len by (auto simp: iunlockput_def)
qed

lemma iunlockput_cached:
  assumes tr: "tree_ok B sb dev d" and c: "cached B sb dev L tbl d" and k: "k < NINODE" "k \<in> L"
  shows "\<exists>tbl'. iunlockput B sb k (tbl, d) = Some (tbl', d) \<and> cached B sb dev (L - {k}) tbl' d \<and>
     refs tbl' = (refs tbl)(ikey (tbl ! k) := refs tbl (ikey (tbl ! k)) - 1) \<and> (\<forall>j. j \<noteq> k \<longrightarrow> tbl' ! j = tbl ! j) \<and>
     tbl' ! k = (tbl ! k)\<lparr>i_locked := False, i_ref := i_ref (tbl ! k) - 1\<rparr>"
proof (rule iunlockput_stays [OF c k])
  have "0 < i_ref (tbl ! k)" using cachedD(2) [OF c k(1)] k itab_invD(3) [OF cachedD(1) [OF c] k(1)] by simp
  note e = cachedD(3-6) [OF c k(1) this]
  show "1 < i_ref (tbl ! k)" if "i_valid (tbl ! k)" "i_nlink (tbl ! k) = 0"
    using loaded_dir(4) [OF e(4) [OF that(1)] e(1)] tree_okD(2) [OF tr e(2,3)] that(2) by simp
qed

lemma ucast_inum: "unat (ucast (j :: u16) :: u32) = unat j"
proof -
  have "unat j < 2 ^ 16" using unsigned_less [of j, where ?'a = nat] by simp
  then show ?thesis by (simp add: unsigned_ucast_eq take_bit_nat_eq_self)
qed

text \<open>
  Looking up a name in a locked directory takes a reference on the inode found; if that is the
  directory itself, it then has at least two.
\<close>

lemma dirlookup_cached:
  assumes B: "bio_laws B" and sb: "sb_ok sb" and tr: "tree_ok B sb dev d" and c: "cached B sb dev L tbl d"
    and k: "k < NINODE" and kL: "k \<in> L" and st: "in_step B sb (tbl ! k) d"
    and dn: "dinode_of (tbl ! k) = on_disk B sb dev i d" "i < unat (sb_ninodes sb)"
    and ty: "d_type (on_disk B sb dev i d) = T_DIR" and room: "card (held tbl) < NINODE"
  shows "dirmap B sb dev d i (cname name) = None \<Longrightarrow> dirlookup B sb k name (tbl, d) = Some (None, tbl, d)"
    and "dirmap B sb dev d i (cname name) = Some j \<Longrightarrow>
      \<exists>n off tbl'. dirlookup B sb k name (tbl, d) = Some (Some (n, off), tbl', d) \<and> cached B sb dev L tbl' d \<and>
        n < NINODE \<and> 0 < i_ref (tbl' ! n) \<and> ikey (tbl' ! n) = (dev, ucast j) \<and> ikey (tbl' ! k) = ikey (tbl ! k) \<and>
        refs tbl' = (refs tbl)((dev, ucast j) := refs tbl (dev, ucast j) + 1) \<and> (n = k \<longrightarrow> 1 < i_ref (tbl' ! k)) \<and>
        (\<forall>j<NINODE. 0 < i_ref (tbl ! j) \<longrightarrow> ikey (tbl' ! j) = ikey (tbl ! j) \<and> 0 < i_ref (tbl' ! j) \<and> i_valid (tbl' ! j) = i_valid (tbl ! j)) \<and>
        (\<exists>m. slot_of (dlist B sb dev d i) (cname name) = Some m \<and> off = of_nat (16 * m))"
proof -
  note inv = cachedD(1) [OF c]
  have r: "0 < i_ref (tbl ! k)" using itab_invD(3) [OF inv k] cachedD(2) [OF c k] kL by simp
  have dev: "i_dev (tbl ! k) = dev" using cachedD(3) [OF c k r] .
  note ld = loaded_dir [OF dn(1) dev]
  have al: "alloced B sb dev i d" using ty by (simp add: alloced_def T_DIR_def)
  have fs: "fs_wf B sb (i_dev (tbl ! k)) d" using tree_okD(1) [OF tr] dev by simp
  have ok: "dir_ok B (tbl ! k) d" using tree_okD(3) [OF tr dn(2) al ty] ld(2) by simp
  have ty': "i_type (tbl ! k) = T_DIR" using ld(3) ty by simp
  note look = dirlookup_spec [OF B sb fs st ok ty', where name = name]
  have dm: "dirmap B sb dev d i (cname name) = dmap (dirents B (tbl ! k) d) (cname name)" using ld(1) by (simp add: dirmap_def)
  then show "dirmap B sb dev d i (cname name) = None \<Longrightarrow> dirlookup B sb k name (tbl, d) = Some (None, tbl, d)"
    using look(1) by simp
  assume j: "dirmap B sb dev d i (cname name) = Some j"
  note tg = dirmap_target [OF tr dn(2) al ty j]
  obtain n t2 where g: "iget dev (ucast j) tbl = Some (n, t2)" and c2: "cached B sb dev L t2 d" and n: "n < NINODE" "0 < i_ref (t2 ! n)"
    and key: "ikey (t2 ! n) = (dev, ucast j)" and rf: "refs t2 = (refs tbl)((dev, ucast j) := refs tbl (dev, ucast j) + 1)"
    and keep: "\<forall>j<NINODE. 0 < i_ref (tbl ! j) \<longrightarrow> t2 ! j = (tbl ! j)\<lparr>i_ref := i_ref (t2 ! j)\<rparr> \<and> 0 < i_ref (t2 ! j)"
    using iget_cached [OF c _ _ room, of "ucast j"] tg by (auto simp: ucast_inum)
  obtain off where l: "dirlookup B sb k name (tbl, d) = Some (Some (n, off), t2, d)"
    and sl: "\<exists>m. slot_of (dlist B sb dev d i) (cname name) = Some m \<and> off = of_nat (16 * m)"
    using look(2) [of j n t2] j dm g dev ld(1) by auto
  have kp: "\<forall>j<NINODE. 0 < i_ref (tbl ! j) \<longrightarrow> ikey (t2 ! j) = ikey (tbl ! j) \<and> 0 < i_ref (t2 ! j) \<and> i_valid (t2 ! j) = i_valid (tbl ! j)"
  proof (intro allI impI)
    fix m assume m: "m < NINODE" "0 < i_ref (tbl ! m)"
    then have "t2 ! m = (tbl ! m)\<lparr>i_ref := i_ref (t2 ! m)\<rparr>" using keep by blast
    then have "ikey (t2 ! m) = ikey (tbl ! m)" "i_valid (t2 ! m) = i_valid (tbl ! m)" by (rule ikey_ref_upd, rule valid_ref_upd)
    then show "ikey (t2 ! m) = ikey (tbl ! m) \<and> 0 < i_ref (t2 ! m) \<and> i_valid (t2 ! m) = i_valid (tbl ! m)" using keep m by blast
  qed
  have t2k: "t2 ! k = (tbl ! k)\<lparr>i_ref := i_ref (t2 ! k)\<rparr>" using keep k r by blast
  have kk: "ikey (t2 ! k) = ikey (tbl ! k)" using t2k by (rule ikey_ref_upd)
  have "1 < i_ref (t2 ! k)" if "n = k"
  proof -
    have "i_ref (t2 ! k) = refs tbl (ikey (tbl ! k)) + 1"
      using refs_entry [OF cachedD(1) [OF c2] n] rf key kk that by simp
    then show ?thesis using refs_entry [OF inv k r] r by simp
  qed
  then show "\<exists>n off tbl'. dirlookup B sb k name (tbl, d) = Some (Some (n, off), tbl', d) \<and> cached B sb dev L tbl' d \<and>
        n < NINODE \<and> 0 < i_ref (tbl' ! n) \<and> ikey (tbl' ! n) = (dev, ucast j) \<and> ikey (tbl' ! k) = ikey (tbl ! k) \<and>
        refs tbl' = (refs tbl)((dev, ucast j) := refs tbl (dev, ucast j) + 1) \<and> (n = k \<longrightarrow> 1 < i_ref (tbl' ! k)) \<and>
        (\<forall>j<NINODE. 0 < i_ref (tbl ! j) \<longrightarrow> ikey (tbl' ! j) = ikey (tbl ! j) \<and> 0 < i_ref (tbl' ! j) \<and> i_valid (tbl' ! j) = i_valid (tbl ! j)) \<and>
        (\<exists>m. slot_of (dlist B sb dev d i) (cname name) = Some m \<and> off = of_nat (16 * m))"
    using l sl c2 n key kk rf kp by blast
qed

subsection \<open>Path elements\<close>

text \<open>The segments between slashes; the elements of a path are the non-empty ones.\<close>

fun segs :: "u8 list \<Rightarrow> u8 list list" where
  "segs [] = [[]]"
| "segs (c # cs) = (if c = slash then [] # segs cs else (c # hd (segs cs)) # tl (segs cs))"

definition path_elems :: "u8 list \<Rightarrow> u8 list list" where
  "path_elems p = map cname (filter (\<lambda>s. s \<noteq> []) (segs p))"

lemma segs_ne [simp]: "segs p \<noteq> []"
  by (cases p) simp_all

lemma segs_append_slash: "slash \<notin> set xs \<Longrightarrow> segs (xs @ slash # ys) = xs # segs ys"
  by (induction xs) auto

lemma segs_no_slash: "slash \<notin> set xs \<Longrightarrow> segs xs = [xs]"
  by (induction xs) auto

lemma path_elems_skip: "path_elems (dropWhile (\<lambda>c. c = slash) p) = path_elems p"
  by (induction p) (auto simp: path_elems_def)

lemma skipelem_None: "skipelem path name = None \<Longrightarrow> path_elems path = []"
proof -
  assume "skipelem path name = None"
  then have "dropWhile (\<lambda>c. c = slash) path = []" by (auto simp: skipelem_def Let_def split: if_splits)
  then have "path_elems path = path_elems []" using path_elems_skip [of path] by metis
  then show ?thesis by (simp add: path_elems_def)
qed

lemma cname_buffer:
  "cname (if length s \<ge> DIRSIZ then take DIRSIZ s @ drop DIRSIZ name else s @ [0] @ drop (length s + 1) name) = cname s"
proof (cases "length s \<ge> DIRSIZ")
  case False
  then obtain m where d: "DIRSIZ = length s + Suc m" using less_imp_Suc_add [of "length s" DIRSIZ] by auto
  have "take DIRSIZ (s @ 0 # zs) = s @ 0 # take m zs" "take DIRSIZ s = s" for zs :: "u8 list" unfolding d by simp_all
  then show ?thesis using False by (simp add: cname_def takeWhile_tail)
qed (simp add: cname_def)

lemma skipelem_Some:
  assumes "skipelem path name = Some (path', name')"
  shows "path_elems path = cname name' # path_elems path'"
proof -
  define p where "p = dropWhile (\<lambda>c. c = slash) path"
  define s where "s = takeWhile (\<lambda>c. c \<noteq> slash) p"
  define r where "r = dropWhile (\<lambda>c. c \<noteq> slash) p"
  note defs = p_def [symmetric] s_def [symmetric] r_def [symmetric]
  have ne: "p \<noteq> []" and p': "path' = dropWhile (\<lambda>c. c = slash) r"
    and n': "name' = (if length s \<ge> DIRSIZ then take DIRSIZ s @ drop DIRSIZ name else s @ [0] @ drop (length s + 1) name)"
    using assms unfolding skipelem_def Let_def defs by (simp_all split: if_split_asm)
  have "hd p \<noteq> slash" using hd_dropWhile ne unfolding p_def by blast
  then have s: "s \<noteq> []" "slash \<notin> set s" using ne unfolding s_def by (cases p; auto dest: set_takeWhileD)+
  have split: "p = s @ r" by (simp add: s_def r_def)
  have "path_elems p = cname s # path_elems r"
  proof (cases r)
    case Nil
    then show ?thesis using s segs_no_slash [OF s(2)] unfolding split by (simp add: path_elems_def)
  next
    case (Cons c ys)
    then have c: "c = slash" using hd_dropWhile [of "\<lambda>c. c \<noteq> slash" p] by (simp add: r_def)
    show ?thesis using s segs_append_slash [OF s(2)] unfolding split Cons c by (simp add: path_elems_def)
  qed
  then have "path_elems path = cname s # path_elems r" unfolding p_def path_elems_skip .
  then show ?thesis unfolding p' n' cname_buffer path_elems_skip .
qed

lemma skipelem_rest_empty: "skipelem path name = Some (path', name') \<Longrightarrow> path_elems path' = [] \<longleftrightarrow> path' = []"
proof -
  assume "skipelem path name = Some (path', name')"
  then obtain r where r: "path' = dropWhile (\<lambda>c. c = slash) r" by (auto simp: skipelem_def Let_def split: if_splits)
  show ?thesis
  proof (cases path')
    case (Cons c cs)
    then have "c \<noteq> slash" using r hd_dropWhile [of "\<lambda>c. c = slash" r] by simp
    then show ?thesis using Cons by (simp add: path_elems_def)
  qed (simp add: path_elems_def)
qed

end
