(* ===== verification/FsPath.thy ===== *)
theory FsPath
  imports FsTree
begin

text \<open>
  Path names of \<^verbatim>\<open>kernel/fs.c\<close> (Lab 5, Task 5.1): \<^verbatim>\<open>namex\<close>, \<^verbatim>\<open>namei\<close> and \<^verbatim>\<open>nameiparent\<close> compute the walk through
  the directory maps, never block on their own locks, keep the disk and the cached inodes, and take
  exactly one reference, on the inode they return.
\<close>

subsection \<open>The walk\<close>

fun walk :: "'d bio \<Rightarrow> superblock \<Rightarrow> u32 \<Rightarrow> 'd \<Rightarrow> nat \<Rightarrow> u8 list list \<Rightarrow> nat option" where
  "walk B sb dev d i [] = Some i"
| "walk B sb dev d i (x # xs) =
     (if d_type (on_disk B sb dev i d) \<noteq> T_DIR then None
      else case dirmap B sb dev d i x of None \<Rightarrow> None | Some j \<Rightarrow> walk B sb dev d (unat j) xs)"

text \<open>The directory that holds the last element.\<close>

definition walk_parent :: "'d bio \<Rightarrow> superblock \<Rightarrow> u32 \<Rightarrow> 'd \<Rightarrow> nat \<Rightarrow> u8 list list \<Rightarrow> nat option" where
  "walk_parent B sb dev d i xs =
     (if xs = [] then None
      else case walk B sb dev d i (butlast xs) of
        None \<Rightarrow> None
      | Some j \<Rightarrow> if d_type (on_disk B sb dev j d) = T_DIR then Some j else None)"

definition walk_goal :: "'d bio \<Rightarrow> superblock \<Rightarrow> u32 \<Rightarrow> 'd \<Rightarrow> bool \<Rightarrow> nat \<Rightarrow> u8 list list \<Rightarrow> nat option" where
  "walk_goal B sb dev d parent = (if parent then walk_parent B sb dev d else walk B sb dev d)"

lemma walk_goal_Nil: "walk_goal B sb dev d parent i [] = (if parent then None else Some i)"
  by (simp add: walk_goal_def walk_parent_def)

lemma walk_goal_stop: "d_type (on_disk B sb dev i d) \<noteq> T_DIR \<Longrightarrow> walk_goal B sb dev d parent i (x # xs) = None"
  by (simp add: walk_goal_def walk_parent_def)

lemma walk_goal_last: "d_type (on_disk B sb dev i d) = T_DIR \<Longrightarrow> walk_goal B sb dev d True i [x] = Some i"
  by (simp add: walk_goal_def walk_parent_def)

lemma walk_goal_step:
  "d_type (on_disk B sb dev i d) = T_DIR \<Longrightarrow> \<not> (parent \<and> xs = []) \<Longrightarrow>
    walk_goal B sb dev d parent i (x # xs) =
      (case dirmap B sb dev d i x of None \<Rightarrow> None | Some j \<Rightarrow> walk_goal B sb dev d parent (unat j) xs)"
  by (auto simp: walk_goal_def walk_parent_def split: option.splits)

subsection \<open>Pointers that stay valid\<close>

text \<open>Entries with a reference that is counted in \<open>R\<close> keep their inode and stay referenced.\<close>

definition keeps :: "(u32 \<times> u32 \<Rightarrow> int) \<Rightarrow> itable \<Rightarrow> itable \<Rightarrow> bool" where
  "keeps R tbl tbl' \<longleftrightarrow> (\<forall>j<NINODE. 0 < i_ref (tbl ! j) \<longrightarrow> 0 < R (ikey (tbl ! j)) \<longrightarrow>
     ikey (tbl' ! j) = ikey (tbl ! j) \<and> 0 < i_ref (tbl' ! j))"

lemma keeps_refl: "keeps R tbl tbl"
  by (simp add: keeps_def)

lemma keeps_trans: "keeps R a b \<Longrightarrow> keeps R b c \<Longrightarrow> keeps R a c"
  by (auto simp: keeps_def)

lemma keepsD: "keeps R tbl tbl' \<Longrightarrow> j < NINODE \<Longrightarrow> 0 < i_ref (tbl ! j) \<Longrightarrow> 0 < R (ikey (tbl ! j)) \<Longrightarrow>
    ikey (tbl' ! j) = ikey (tbl ! j) \<and> 0 < i_ref (tbl' ! j)"
  by (simp add: keeps_def)

lemma keeps_same: "\<forall>j<NINODE. 0 < i_ref (tbl ! j) \<longrightarrow> ikey (tbl' ! j) = ikey (tbl ! j) \<and> 0 < i_ref (tbl' ! j) \<Longrightarrow> keeps R tbl tbl'"
  by (simp add: keeps_def)

text \<open>Giving up a reference that is not counted in \<open>R\<close>.\<close>

lemma keeps_release:
  assumes inv: "itab_inv tbl" and k: "k < NINODE" "0 < i_ref (tbl ! k)"
    and other: "\<forall>j. j \<noteq> k \<longrightarrow> tbl' ! j = tbl ! j" and new: "ikey (tbl' ! k) = ikey (tbl ! k)" "i_ref (tbl' ! k) = i_ref (tbl ! k) - 1"
    and R: "R (ikey (tbl ! k)) = refs tbl (ikey (tbl ! k)) - 1"
  shows "keeps R tbl tbl'"
  unfolding keeps_def
proof (intro allI impI)
  fix j assume j: "j < NINODE" "0 < i_ref (tbl ! j)" "0 < R (ikey (tbl ! j))"
  show "ikey (tbl' ! j) = ikey (tbl ! j) \<and> 0 < i_ref (tbl' ! j)"
    using j other new R refs_entry [OF inv k] by (cases "j = k") simp_all
qed

subsection \<open>One directory\<close>

lemma lookup_release:
  assumes B: "bio_laws B" and sb: "sb_ok sb" and tr: "tree_ok B sb dev d" and c: "cached B sb dev {k} tbl d"
    and k: "k < NINODE" and st: "in_step B sb (tbl ! k) d"
    and dn: "dinode_of (tbl ! k) = on_disk B sb dev i d" "i < unat (sb_ninodes sb)"
    and ty: "d_type (on_disk B sb dev i d) = T_DIR" and room: "card (held tbl) < NINODE"
    and j: "dirmap B sb dev d i (cname name) = Some j"
    and R: "R = (refs tbl)(ikey (tbl ! k) := refs tbl (ikey (tbl ! k)) - 1)"
  shows "\<exists>n off s tbl'. dirlookup B sb k name (tbl, d) = Some (Some (n, off), s) \<and> iunlockput B sb k s = Some (tbl', d) \<and>
        cached B sb dev {} tbl' d \<and> n < NINODE \<and> 0 < i_ref (tbl' ! n) \<and> ikey (tbl' ! n) = (dev, ucast j) \<and>
        refs tbl' = R((dev, ucast j) := R (dev, ucast j) + 1) \<and> keeps R tbl tbl'"
proof -
  obtain n off t2 where l: "dirlookup B sb k name (tbl, d) = Some (Some (n, off), t2, d)" and c2: "cached B sb dev {k} t2 d"
    and n: "n < NINODE" "0 < i_ref (t2 ! n)" and key: "ikey (t2 ! n) = (dev, ucast j)" and kk: "ikey (t2 ! k) = ikey (tbl ! k)"
    and rf: "refs t2 = (refs tbl)((dev, ucast j) := refs tbl (dev, ucast j) + 1)" and two: "n = k \<longrightarrow> 1 < i_ref (t2 ! k)"
    and kp: "\<forall>j<NINODE. 0 < i_ref (tbl ! j) \<longrightarrow> ikey (t2 ! j) = ikey (tbl ! j) \<and> 0 < i_ref (t2 ! j) \<and> i_valid (t2 ! j) = i_valid (tbl ! j)"
    using dirlookup_cached(2) [OF B sb tr c k singletonI st dn ty room j] by blast
  obtain t3 where u: "iunlockput B sb k (t2, d) = Some (t3, d)" "cached B sb dev {} t3 d"
    and rf3: "refs t3 = (refs t2)(ikey (t2 ! k) := refs t2 (ikey (t2 ! k)) - 1)"
    and t3: "\<forall>j. j \<noteq> k \<longrightarrow> t3 ! j = t2 ! j" "t3 ! k = (t2 ! k)\<lparr>i_locked := False, i_ref := i_ref (t2 ! k) - 1\<rparr>"
    using iunlockput_cached [OF tr c2 k] by auto
  have "0 < i_ref (t3 ! n) \<and> ikey (t3 ! n) = (dev, ucast j)"
    using t3 two n key by (cases "n = k") (auto simp: ikey_def)
  moreover have "refs t3 = R((dev, ucast j) := R (dev, ucast j) + 1)"
    unfolding rf3 rf kk R by (auto simp: fun_eq_iff)
  moreover have "keeps R tbl t3"
  proof -
    have r: "0 < i_ref (t2 ! k)" using itab_invD(3) [OF cachedD(1) [OF c2] k] cachedD(2) [OF c2 k] by simp
    define R2 where "R2 = (refs t2)(ikey (t2 ! k) := refs t2 (ikey (t2 ! k)) - 1)"
    have "keeps R2 t2 t3"
      by (rule keeps_release [OF cachedD(1) [OF c2] k r t3(1)]) (simp_all add: t3(2) ikey_def R2_def)
    moreover have "R x \<le> R2 x" for x unfolding R R2_def rf kk by simp
    ultimately have "keeps R t2 t3" unfolding keeps_def by (meson less_le_trans)
    then show ?thesis using keeps_same [of tbl t2 R] kp keeps_trans by blast
  qed
  ultimately show ?thesis using l u n(1) by blast
qed

subsection \<open>The loop\<close>

text \<open>The result of a walk: one more reference than in \<open>R\<close>, on the entry returned, or none.\<close>

definition got :: "u32 \<Rightarrow> (u32 \<times> u32 \<Rightarrow> int) \<Rightarrow> nat option \<Rightarrow> nat option \<Rightarrow> itable \<Rightarrow> bool" where
  "got dev R tgt r tbl \<longleftrightarrow>
     (case tgt of
        None \<Rightarrow> r = None \<and> refs tbl = R
      | Some i \<Rightarrow> \<exists>k. r = Some k \<and> k < NINODE \<and> 0 < i_ref (tbl ! k) \<and> ikey (tbl ! k) = (dev, of_nat i) \<and>
          refs tbl = R((dev, of_nat i) := R (dev, of_nat i) + 1))"

lemma gotI:
  "k < NINODE \<Longrightarrow> 0 < i_ref (tbl ! k) \<Longrightarrow> ikey (tbl ! k) = (dev, of_nat i) \<Longrightarrow>
     got dev ((refs tbl)(ikey (tbl ! k) := refs tbl (ikey (tbl ! k)) - 1)) (Some i) (Some k) tbl"
  by (simp add: got_def)

lemma of_nat_unat32: "of_nat (unat (w :: u16)) = (ucast w :: u32)"
  by (simp add: word_unat_eq_iff ucast_inum unat_of_nat32 order_less_trans [OF unsigned_less])

text \<open>With room for two more inodes the loop can always hold the directory and its entry.\<close>

lemma held_room:
  assumes "card {x. 0 < ((refs tbl)(y := refs tbl y - 1)) x} + 2 \<le> NINODE" and inv: "itab_inv tbl"
  shows "card (held tbl) < NINODE"
proof -
  let ?R = "{x. 0 < ((refs tbl)(y := refs tbl y - 1)) x}"
  have fin: "finite ?R" by (rule finite_subset [OF _ finite_held [OF inv]]) auto
  have "held tbl \<subseteq> insert y ?R" by auto
  then have "card (held tbl) \<le> card (insert y ?R)" using fin by (intro card_mono) auto
  also have "\<dots> \<le> Suc (card ?R)" by (rule card_insert_le_m1) auto
  finally show ?thesis using assms(1) by simp
qed

lemma namex_loop_spec:
  assumes B: "bio_laws B" and sb: "sb_ok sb" and tr: "tree_ok B sb dev d"
    and "cached B sb dev {} tbl d" and "k < NINODE" and "0 < i_ref (tbl ! k)" and "ikey (tbl ! k) = (dev, of_nat i)"
    and "i < unat (sb_ninodes sb)"
    and "R = (refs tbl)(ikey (tbl ! k) := refs tbl (ikey (tbl ! k)) - 1)" and room: "card {x. 0 < R x} + 2 \<le> NINODE"
  shows "\<exists>r name' tbl'. namex_loop B sb parent path name k (tbl, d) = Some (r, name', tbl', d) \<and> cached B sb dev {} tbl' d \<and>
     got dev R (walk_goal B sb dev d parent i (path_elems path)) r tbl' \<and> keeps R tbl tbl' \<and>
     (parent \<and> r \<noteq> None \<longrightarrow> cname name' = last (path_elems path))"
  using assms(4-9)
proof (induction "length path" arbitrary: path name k tbl i rule: less_induct)
  case less
  note c = less.prems(1) and k = less.prems(2,3) and key = less.prems(4) and i = less.prems(5) and R = less.prems(6)
  show ?case
  proof (cases "skipelem path name")
    case None
    note el = skipelem_None [OF None]
    obtain t1 where p: "iput B sb k (tbl, d) = Some (t1, d)" "cached B sb dev {} t1 d" "refs t1 = R"
      and t1: "\<forall>j. j \<noteq> k \<longrightarrow> t1 ! j = tbl ! j" "t1 ! k = (tbl ! k)\<lparr>i_ref := i_ref (tbl ! k) - 1\<rparr>"
      using iput_cached [OF tr c k] R by auto
    have "keeps R tbl t1"
      by (rule keeps_release [OF cachedD(1) [OF c] k t1(1)]) (simp_all add: t1(2) ikey_def R)
    then show ?thesis
      using p keeps_refl [of R tbl] None el c gotI [OF k key] R by (subst namex_loop.simps) (auto simp: walk_goal_Nil got_def [of _ _ None])
  next
    case (Some q)
    then obtain path1 name1 where sk: "skipelem path name = Some (path1, name1)" by (cases q) auto
    note el = skipelem_Some [OF sk] and sh = skipelem_shorter [OF sk]
    obtain ip where lk: "ilock B sb k (tbl, d) = Some (tbl[k := ip], d)" and c1: "cached B sb dev {k} (tbl[k := ip]) d"
      and ip: "ikey ip = ikey (tbl ! k)" "i_ref ip = i_ref (tbl ! k)" "dinode_of ip = on_disk B sb dev (unat (i_inum ip)) d" "in_step B sb ip d"
      using ilock_cached [OF c k] by auto
    define t1 where "t1 = tbl[k := ip]"
    note lk = lk [folded t1_def] and c1 = c1 [folded t1_def]
    have len: "length tbl = NINODE" using itab_invD(1) [OF cachedD(1) [OF c]] .
    have t1k: "t1 ! k = ip" using k len by (simp add: t1_def)
    have rf1: "refs t1 = refs tbl" unfolding t1_def using k len ip by (intro same_refs) simp_all
    have inum: "i_inum ip = of_nat i" "i_dev ip = dev" using ip(1) key by (simp_all add: ikey_def)
    have "i < 2 ^ 32" using i unsigned_less [of "sb_ninodes sb", where ?'a = nat] by simp
    then have dn: "dinode_of ip = on_disk B sb dev i d" using ip(3) inum by (simp add: unat_of_nat32)
    note ty = loaded_dir(3) [OF dn inum(2)]
    have kp1: "keeps R tbl t1" by (rule keeps_same) (use ip k len in \<open>auto simp: t1_def nth_list_update_if\<close>)
    obtain t2 where up: "iunlockput B sb k (t1, d) = Some (t2, d)" "cached B sb dev {} t2 d" "refs t2 = R"
      and t2: "\<forall>j. j \<noteq> k \<longrightarrow> t2 ! j = t1 ! j" "t2 ! k = ip\<lparr>i_locked := False, i_ref := i_ref ip - 1\<rparr>"
      using iunlockput_cached [OF tr c1 k(1)] R rf1 t1k ip(1) by auto
    have "keeps R t1 t2"
      by (rule keeps_release [OF cachedD(1) [OF c1] k(1) _ t2(1)]) (use k R ip t1k t2 rf1 in \<open>simp_all add: ikey_def\<close>)
    then have kp2: "keeps R tbl t2" using keeps_trans kp1 by blast
    have room1: "card (held t1) < NINODE" using held_room [OF room [unfolded R] cachedD(1) [OF c]] rf1 by simp
    consider (plain) "d_type (on_disk B sb dev i d) \<noteq> T_DIR"
      | (stop) "d_type (on_disk B sb dev i d) = T_DIR" "parent" "path1 = []"
      | (down) "d_type (on_disk B sb dev i d) = T_DIR" "\<not> (parent \<and> path1 = [])" by blast
    then show ?thesis
    proof cases
      case plain
      then show ?thesis
        using kp2 sk lk t1k ty up by (subst namex_loop.simps) (simp add: el walk_goal_stop got_def)
    next
      case stop
      define t3 where "t3 = t1[k := (t1 ! k)\<lparr>i_locked := False\<rparr>]"
      note u = iunlock_cached [OF c1 k(1) singletonI, folded t3_def]
      have t3: "0 < i_ref (t3 ! k)" "ikey (t3 ! k) = (dev, of_nat i)" "refs t3 = refs tbl"
        using u(3) rf1 k len ip key by (simp_all add: t3_def t1_def ikey_def)
      have "path_elems path = [cname name1]" using el stop(3) by (simp add: path_elems_def)
      moreover have "got dev R (Some i) (Some k) t3" using gotI [OF k(1) t3(1,2)] R key t3 by simp
      moreover have "cached B sb dev {} t3 d" using u(2) by simp
      moreover have "keeps R tbl t3"
        by (rule keeps_same) (use ip k len in \<open>auto simp: t3_def t1_def nth_list_update_if ikey_def\<close>)
      ultimately show ?thesis
        using stop sk lk t1k ty u(1) by (subst namex_loop.simps) (simp add: walk_goal_last)
    next
      case down
      note lr = dirlookup_cached(1) [OF B sb tr c1 k(1) singletonI _ _ i down(1) room1, unfolded t1k, OF ip(4) dn, of name1]
      note tg = walk_goal_step [of B sb dev i d parent "path_elems path1" "cname name1", OF down(1)]
      have go: "namex_loop B sb parent path name k (tbl, d) = (case dirlookup B sb k name1 (t1, d) of None \<Rightarrow> None
          | Some (found, s2) \<Rightarrow> (case iunlockput B sb k s2 of None \<Rightarrow> None
              | Some s3 \<Rightarrow> (case found of None \<Rightarrow> Some (None, name1, s3) | Some (n, _) \<Rightarrow> namex_loop B sb parent path1 name1 n s3)))"
        using sk lk t1k ty down by (subst namex_loop.simps) (auto split: option.splits)
      show ?thesis
      proof (cases "dirmap B sb dev d i (cname name1)")
        case None
        then show ?thesis using kp2 go lr up tg down(2) skipelem_rest_empty [OF sk] by (simp add: el got_def)
      next
        case (Some j)
        obtain n off s t3 where l: "dirlookup B sb k name1 (t1, d) = Some (Some (n, off), s)" "iunlockput B sb k s = Some (t3, d)"
          and c3: "cached B sb dev {} t3 d" and n: "n < NINODE" "0 < i_ref (t3 ! n)" "ikey (t3 ! n) = (dev, ucast j)"
          and rf3: "refs t3 = R((dev, ucast j) := R (dev, ucast j) + 1)" and kp3: "keeps R t1 t3"
          using lookup_release [OF B sb tr c1 k(1) _ _ i down(1) room1 Some, unfolded t1k rf1 ip(1), OF ip(4) dn R] by blast
        have al: "alloced B sb dev i d" using down(1) by (simp add: alloced_def T_DIR_def)
        have R3: "R = (refs t3)(ikey (t3 ! n) := refs t3 (ikey (t3 ! n)) - 1)" unfolding rf3 n(3) by simp
        have key3: "ikey (t3 ! n) = (dev, of_nat (unat j))" using n(3) by (simp only: of_nat_unat32)
        have "namex_loop B sb parent path name k (tbl, d) = namex_loop B sb parent path1 name1 n (t3, d)"
          using go l by simp
        then show ?thesis
          using keeps_trans [OF keeps_trans [OF kp1 kp3]] less.hyps [OF sh c3 n(1,2) key3 dirmap_target(1) [OF tr i al down(1) Some] R3, of name1]
            tg down(2) skipelem_rest_empty [OF sk] Some by (auto simp: el walk_goal_Nil got_def [of _ _ None])
      qed
    qed
  qed
qed

lemma namex_spec:
  assumes B: "bio_laws B" and sb: "sb_ok sb" and tr: "tree_ok B sb ROOTDEV d" and c: "cached B sb ROOTDEV {} tbl d"
    and root: "1 < unat (sb_ninodes sb)" "alloced B sb ROOTDEV 1 d"
    and cwd: "cwd < NINODE" "0 < i_ref (tbl ! cwd)" and room: "card (held tbl) + 2 \<le> NINODE"
    and start: "start = (if path \<noteq> [] \<and> hd path = slash then 1 else unat (i_inum (tbl ! cwd)))"
  shows "\<exists>r name' tbl'. namex B sb cwd path parent name (tbl, d) = Some (r, name', tbl', d) \<and> cached B sb ROOTDEV {} tbl' d \<and>
     got ROOTDEV (refs tbl) (walk_goal B sb ROOTDEV d parent start (path_elems path)) r tbl' \<and> keeps (refs tbl) tbl tbl' \<and>
     (parent \<and> r \<noteq> None \<longrightarrow> cname name' = last (path_elems path))"
proof -
  note inv = cachedD(1) [OF c] and len = itab_invD(1) [OF cachedD(1) [OF c]]
  have "\<exists>k t1. (if path \<noteq> [] \<and> hd path = slash then iget ROOTDEV ROOTINO tbl else Some (idup cwd tbl)) = Some (k, t1) \<and>
      cached B sb ROOTDEV {} t1 d \<and> k < NINODE \<and> 0 < i_ref (t1 ! k) \<and> ikey (t1 ! k) = (ROOTDEV, of_nat start) \<and>
      start < unat (sb_ninodes sb) \<and> refs t1 = (refs tbl)(ikey (t1 ! k) := refs tbl (ikey (t1 ! k)) + 1) \<and>
      keeps (refs tbl) tbl t1"
  proof (cases "path \<noteq> [] \<and> hd path = slash")
    case True
    obtain k t1 where g: "iget ROOTDEV ROOTINO tbl = Some (k, t1)" "cached B sb ROOTDEV {} t1 d" "k < NINODE" "0 < i_ref (t1 ! k)"
        "ikey (t1 ! k) = (ROOTDEV, ROOTINO)" "refs t1 = (refs tbl)((ROOTDEV, ROOTINO) := refs tbl (ROOTDEV, ROOTINO) + 1)"
      and kp: "\<forall>j<NINODE. 0 < i_ref (tbl ! j) \<longrightarrow> t1 ! j = (tbl ! j)\<lparr>i_ref := i_ref (t1 ! j)\<rparr> \<and> 0 < i_ref (t1 ! j)"
      using iget_cached [OF c, of ROOTINO] root room by (auto simp: ROOTINO_def)
    have "keeps (refs tbl) tbl t1" by (rule keeps_same) (use kp ikey_ref_upd in blast)
    then show ?thesis using g True start root by (simp add: ROOTINO_def)
  next
    case False
    let ?ip = "(tbl ! cwd)\<lparr>i_ref := i_ref (tbl ! cwd) + 1\<rparr>"
    note e = cachedD(3-6) [OF c cwd]
    have "cached B sb ROOTDEV {} (tbl[cwd := ?ip]) d"
      using cachedD(2) [OF c cwd(1)] e cwd
      by (intro cached_update [OF c itab_inv_update [OF inv]]) (simp_all add: dinode_of_simps)
    moreover have "refs (tbl[cwd := ?ip]) = (refs tbl)(ikey (tbl ! cwd) := refs tbl (ikey (tbl ! cwd)) + 1)"
      using cwd len by (auto simp: refs_update fun_eq_iff ikey_def)
    moreover have "keeps (refs tbl) tbl (tbl[cwd := ?ip])"
      by (rule keeps_same) (use cwd len in \<open>auto simp: nth_list_update_if ikey_def\<close>)
    ultimately show ?thesis
      using cwd len e(1,2) start by (simp only: False if_False) (simp add: idup_def ikey_def)
  qed
  then obtain k t1 where k: "(if path \<noteq> [] \<and> hd path = slash then iget ROOTDEV ROOTINO tbl else Some (idup cwd tbl)) = Some (k, t1)"
      "cached B sb ROOTDEV {} t1 d" "k < NINODE" "0 < i_ref (t1 ! k)" "ikey (t1 ! k) = (ROOTDEV, of_nat start)"
      "start < unat (sb_ninodes sb)" and rf: "refs t1 = (refs tbl)(ikey (t1 ! k) := refs tbl (ikey (t1 ! k)) + 1)" and kp: "keeps (refs tbl) tbl t1" by blast
  have R: "refs tbl = (refs t1)(ikey (t1 ! k) := refs t1 (ikey (t1 ! k)) - 1)" unfolding rf by simp
  have nx: "namex B sb cwd path parent name (tbl, d) = namex_loop B sb parent path name k (t1, d)"
    using k(1) by (simp add: namex_def)
  show ?thesis unfolding nx using namex_loop_spec [OF B sb tr k(2-6) R room, of parent path name] keeps_trans [OF kp] by blast
qed

text \<open>
  Property C29. On a well-formed tree, with room for two more inodes in the table, \<^verbatim>\<open>namei\<close> returns without
  panic and without blocking. It returns the inode that the walk along the path elements reaches, starting
  from the root for a path with a leading slash and from the current directory otherwise, or a null
  pointer if the walk leaves the tree; \<^verbatim>\<open>nameiparent\<close> returns the directory before the last element, which
  it stores in the name buffer. Either call takes exactly one reference, on the inode it returns, leaves
  every other reference count as it was, every pointer to a referenced inode valid, no inode locked, and
  the disk unchanged.\<close>

theorem namei_walks_path:
  assumes "bio_laws B" and "sb_ok sb" and "tree_ok B sb ROOTDEV d" and "cached B sb ROOTDEV {} tbl d"
    and "1 < unat (sb_ninodes sb)" and "alloced B sb ROOTDEV 1 d"
    and "cwd < NINODE" and "0 < i_ref (tbl ! cwd)" and "card (held tbl) + 2 \<le> NINODE"
    and "start = (if path \<noteq> [] \<and> hd path = slash then 1 else unat (i_inum (tbl ! cwd)))"
  shows "(\<exists>r tbl'. namei B sb cwd path (tbl, d) = Some (r, tbl', d) \<and> cached B sb ROOTDEV {} tbl' d \<and>
      got ROOTDEV (refs tbl) (walk B sb ROOTDEV d start (path_elems path)) r tbl' \<and> keeps (refs tbl) tbl tbl') \<and>
    (\<exists>r name' tbl'. nameiparent B sb cwd path name (tbl, d) = Some (r, name', tbl', d) \<and> cached B sb ROOTDEV {} tbl' d \<and>
      got ROOTDEV (refs tbl) (walk_parent B sb ROOTDEV d start (path_elems path)) r tbl' \<and> keeps (refs tbl) tbl tbl' \<and>
      (r \<noteq> None \<longrightarrow> cname name' = last (path_elems path)))"
  using namex_spec [OF assms, of False "replicate DIRSIZ 0"] namex_spec [OF assms, of True name]
  by (auto simp: namei_def nameiparent_def walk_goal_def)

subsection \<open>A concrete tree\<close>

text \<open>A device with one directory, inode 1, that holds itself under two names.\<close>

definition root_block :: bytes where
  "root_block = (\<lambda>i. if i = 0 \<or> i = 16 then 1 else if i = 2 then 46 else if i = 18 then 97 else 0)"

definition root_ino :: inode where
  "root_ino = \<lparr>i_dev = 1, i_inum = 1, i_ref = 1, i_locked = False, i_valid = True, i_type = 1, i_major = 0,
     i_minor = 0, i_nlink = 1, i_size = 32, i_addrs = 5 # replicate 12 0\<rparr>"

definition root_disk :: "(u32 \<times> u32) \<Rightarrow> bytes" where
  "root_disk = iupdate demo_bio demo_sb root_ino (log_write demo_bio 1 5 root_block demo_disk)"

definition root_tbl :: itable where
  "root_tbl = idle_tbl[0 := root_ino]"

lemma root_bread: "b \<noteq> 2 \<Longrightarrow> bread demo_bio 1 b root_disk = (if b = 5 then root_block else bread demo_bio 1 b demo_disk)"
  using bread_iupdate [OF demo_bio_laws, of 1 root_ino b demo_sb "log_write demo_bio 1 5 root_block demo_disk"]
  by (simp add: root_disk_def root_ino_def demo_sb_def IBLOCK_def IPB_def bio_lawsD [OF demo_bio_laws])

lemma root_on_disk:
  assumes "i < 16"
  shows "on_disk demo_bio demo_sb 1 i root_disk = (if i = 1 then dinode_of root_ino else on_disk demo_bio demo_sb 1 i demo_disk)"
proof -
  have "IBLOCK i demo_sb = 2" using assms by (simp add: IBLOCK_def IPB_def demo_sb_def)
  then have "on_disk demo_bio demo_sb 1 i (log_write demo_bio 1 5 root_block demo_disk) = on_disk demo_bio demo_sb 1 i demo_disk"
    by (simp add: on_disk_def bio_lawsD [OF demo_bio_laws])
  then show ?thesis
    unfolding root_disk_def
    using on_disk_iupdate [OF demo_bio_laws demo_sb_ok, of i root_ino 1] assms
    by (simp add: root_ino_def demo_sb_def NDIRECT_def)
qed

lemma root_alloced: "i < 16 \<Longrightarrow> alloced demo_bio demo_sb 1 i root_disk \<longleftrightarrow> i = 1"
  using demo_none_alloced [of i] by (auto simp: alloced_def root_on_disk) (simp add: dinode_of_def root_ino_def)

definition root_dp :: inode where
  "root_dp = inode_at demo_bio demo_sb 1 (Suc 0) root_disk"

lemma root_at:
  "i_addrs root_dp = 5 # replicate 12 0"
  "i_size root_dp = 32"
  "i_dev root_dp = 1"
  by (simp_all add: root_dp_def inode_at_def dinode_load_def root_on_disk dinode_of_def root_ino_def)

lemma root_pval: "pos_ok p \<Longrightarrow> pval demo_bio root_dp root_disk p = (if p = Dir 0 then 5 else 0)"
  by (cases p) (auto simp: root_at NDIRECT_def entry_def nth_Cons' nth_replicate)

lemma root_bused: "n < 6 \<Longrightarrow> bused demo_bio demo_sb 1 root_disk n"
  using demo_bused [of n] by (simp add: bused_def root_bread BBLOCK_def demo_sb_def)

lemma root_iwf: "iwf demo_bio demo_sb root_dp root_disk"
  using root_bused [of 5]
  by (auto simp: iwf_def root_pval data_block_def datastart_def root_at demo_sb_def NDIRECT_def)

lemma root_fs_wf: "fs_wf demo_bio demo_sb 1 root_disk"
  using root_iwf root_bused
  by (auto simp: fs_wf_def root_alloced demo_ninodes meta_used_def datastart_def simp flip: root_dp_def) (auto simp: demo_sb_def)

lemma root_fblock: "p < 32 \<Longrightarrow> fblock demo_bio root_dp root_disk (p div BSIZE) = 5"
  by (simp add: fblock_def root_pval pos_of_def NDIRECT_def root_at)

lemma root_fbyte: "p < 32 \<Longrightarrow> fbyte demo_bio root_dp root_disk p = root_block p"
  using root_fblock [of p] by (simp add: fbyte_def Let_def root_bread root_at)

lemma root_dirents:
  "dirents demo_bio root_dp root_disk =
     [\<lparr>de_inum = 1, de_name = 46 # replicate 13 0\<rparr>, \<lparr>de_inum = 1, de_name = 97 # replicate 13 0\<rparr>]"
proof -
  have "rd_dirent (\<lambda>i. fbyte demo_bio root_dp root_disk (16 * j + i)) = rd_dirent (\<lambda>i. root_block (16 * j + i))" if "j < 2" for j
    by (rule rd_dirent_cong) (use that in \<open>simp add: root_fbyte\<close>)
  then have "dirents demo_bio root_dp root_disk = map (\<lambda>j. rd_dirent (\<lambda>i. root_block (16 * j + i))) [0..<2]"
    by (simp add: dirents_def root_at)
  also have "\<dots> = [rd_dirent root_block, rd_dirent (\<lambda>i. root_block (16 + i))]" by (simp add: numeral_2_eq_2)
  finally show ?thesis
    by (simp add: rd_dirent_def rd16_def root_block_def DIRSIZ_def upt_conv_Cons numeral_eq_Suc)
qed

lemma root_tree: "tree_ok demo_bio demo_sb ROOTDEV root_disk"
  using root_fs_wf root_fblock root_dirents
  by (auto simp: tree_ok_def ROOTDEV_def demo_ninodes root_alloced root_on_disk root_at dir_ok_def MAXFILE_bytes dinode_of_def root_ino_def
      simp flip: root_dp_def)

lemma root_inv: "itab_inv root_tbl"
  unfolding itab_inv_def
proof (intro conjI)
  show "\<forall>ip\<in>set root_tbl. 0 \<le> i_ref ip \<and> (i_locked ip \<longrightarrow> 0 < i_ref ip)"
    unfolding root_tbl_def by (rule all_set_update) (auto simp: idle_tbl_def root_ino_def)
qed (auto simp: root_tbl_def idle_tbl_def unique_keys_def nth_list_update_if NINODE_def split: if_splits)

lemma root_cached: "cached demo_bio demo_sb ROOTDEV {} root_tbl root_disk"
  unfolding cached_def
  by (intro conjI root_inv) (auto simp: root_tbl_def idle_tbl_def nth_list_update_if root_alloced
      demo_ninodes root_on_disk ROOTDEV_def NINODE_def root_ino_def demo_ino_def)

lemma root_held1: "card (held root_tbl) = 1"
proof -
  have "held root_tbl = (\<lambda>k. ikey (root_tbl ! k)) ` {k. k < NINODE \<and> 0 < i_ref (root_tbl ! k)}"
    by (rule held_image [OF cachedD(1) [OF root_cached]])
  also have "{k. k < NINODE \<and> 0 < i_ref (root_tbl ! k)} = {0}"
    by (auto simp: root_tbl_def idle_tbl_def nth_list_update_if NINODE_def root_ino_def)
  finally show ?thesis by simp
qed

lemma root_held: "card (held root_tbl) + 2 \<le> NINODE"
  by (simp add: root_held1 NINODE_def)

text \<open>The path \<^verbatim>\<open>/a//./a\<close> leads to inode 1.\<close>

lemma root_walk: "walk demo_bio demo_sb ROOTDEV root_disk 1 (path_elems [47, 97, 47, 47, 46, 47, 97]) = Some 1"
  by (simp add: path_elems_def cname_def DIRSIZ_def ROOTDEV_def root_on_disk dirmap_def root_dirents dmap_def
      dinode_of_def root_ino_def T_DIR_def flip: root_dp_def)

theorem namei_walks_path_witness:
  "\<exists>k tbl'. namei demo_bio demo_sb 0 [47, 97, 47, 47, 46, 47, 97] (root_tbl, root_disk) = Some (Some k, tbl', root_disk) \<and>
     ikey (tbl' ! k) = (1, 1) \<and> refs tbl' (1, 1) = refs root_tbl (1, 1) + 1"
proof -
  have "alloced demo_bio demo_sb ROOTDEV 1 root_disk" by (simp add: root_alloced ROOTDEV_def)
  then show ?thesis
    using namei_walks_path [OF demo_bio_laws demo_sb_ok root_tree root_cached _ _ _ _ root_held refl,
        of 0 "[47, 97, 47, 47, 46, 47, 97]" "[]"] root_walk
    by (auto simp: got_def demo_ninodes NINODE_def root_tbl_def root_ino_def idle_tbl_def ROOTDEV_def)
qed

end
