(* ===== verification/FsLink.thy ===== *)
theory FsLink
  imports FsPath
begin

text \<open>
  \<^verbatim>\<open>dirlink\<close> of \<^verbatim>\<open>kernel/fs.c\<close> (Lab 5, Task 5.1) as the update of the directory's map: it adds the name or
  refuses it, writes one entry into a free slot or at the end, and keeps the tree well formed.
\<close>

subsection \<open>Adding an entry to the list\<close>

lemma dmap_append: "dmap (xs @ ys) x = (case dmap xs x of None \<Rightarrow> dmap ys x | Some i \<Rightarrow> Some i)"
  by (induction xs) (auto simp: dmap_def)

lemma dmap_Cons: "dmap (e # es) x = (if de_inum e \<noteq> 0 \<and> cname (de_name e) = x then Some (de_inum e) else dmap es x)"
  by (simp add: dmap_def)

lemma dmap_add_end:
  assumes "dmap es (cname (de_name de)) = None" and "de_inum de \<noteq> 0"
  shows "dmap (es @ [de]) = (dmap es)(cname (de_name de) \<mapsto> de_inum de)"
  using assms by (auto simp: dmap_append dmap_Cons fun_eq_iff dmap_def [of "[]"] split: option.splits)

lemma dmap_add_slot:
  assumes "dmap es (cname (de_name de)) = None" and "de_inum de \<noteq> 0" and "j < length es" and "de_inum (es ! j) = 0"
  shows "dmap (es[j := de]) = (dmap es)(cname (de_name de) \<mapsto> de_inum de)"
proof -
  have es: "es = take j es @ es ! j # drop (Suc j) es" using assms(3) by (simp add: id_take_nth_drop)
  have "dmap es x = (case dmap (take j es) x of None \<Rightarrow> dmap (drop (Suc j) es) x | Some i \<Rightarrow> Some i)" for x
    by (subst es) (auto simp: dmap_append dmap_Cons assms(4) split: option.splits)
  moreover have "es[j := de] = take j es @ de # drop (Suc j) es" using assms(3) by (simp add: upd_conv_take_nth_drop)
  ultimately show ?thesis
    using assms(1,2) by (auto simp: dmap_append dmap_Cons fun_eq_iff split: option.splits)
qed

text \<open>The entries after a write of the bytes of \<open>de\<close> at entry \<open>j\<close>.\<close>

lemma dirents_write:
  assumes fb: "\<forall>p<MAXFILE * BSIZE. fbyte B dp' d' p = (if 16 * j \<le> p \<and> p < 16 * j + 16 then bs ! (p - 16 * j) else fbyte B dp d p)"
    and sz: "unat (i_size dp') = max (unat (i_size dp)) (16 * j + 16)" "16 dvd unat (i_size dp)" "16 * j + 16 \<le> MAXFILE * BSIZE"
      "unat (i_size dp) \<le> MAXFILE * BSIZE"
    and bs: "bs = dirent_bytes de" "length (de_name de) = DIRSIZ" and j: "j \<le> length (dirents B dp d)"
  shows "dirents B dp' d' = (if j < length (dirents B dp d) then (dirents B dp d)[j := de] else dirents B dp d @ [de])"
proof (rule nth_equalityI)
  let ?es = "dirents B dp d"
  have n: "length ?es = unat (i_size dp) div 16" and n16: "unat (i_size dp) = 16 * length ?es"
    using sz(2) by (simp_all add: dirents_def)
  have n': "length (dirents B dp' d') = max (length ?es) (Suc j)"
    using sz(1) unfolding n16 by (simp add: dirents_def max_def)
  show len: "length (dirents B dp' d') = length (if j < length ?es then ?es[j := de] else ?es @ [de])"
    using n' j by auto
  fix i assume "i < length (dirents B dp' d')"
  then have i: "i < length ?es \<or> i = j" and i': "i < unat (i_size dp') div 16" using n' j by (auto simp: dirents_def)
  have ub: "16 * i + 16 \<le> MAXFILE * BSIZE" using i sz(3,4) n16 by auto
  have at: "dirents B dp' d' ! i = rd_dirent (\<lambda>k. fbyte B dp' d' (16 * i + k))" using i' by (simp add: dirents_def)
  show "dirents B dp' d' ! i = (if j < length ?es then ?es[j := de] else ?es @ [de]) ! i"
  proof (cases "i = j")
    case True
    have "rd_dirent (\<lambda>k. fbyte B dp' d' (16 * i + k)) = de"
      by (rule rd_dirent_bytes [OF bs(2)]) (use fb ub True bs in simp)
    then show ?thesis unfolding at using True j by (auto simp: nth_append)
  next
    case False
    have "rd_dirent (\<lambda>k. fbyte B dp' d' (16 * i + k)) = rd_dirent (\<lambda>k. fbyte B dp d (16 * i + k))"
    proof (rule rd_dirent_cong)
      fix k :: nat assume "k < 16"
      moreover have "Suc i \<le> j \<or> Suc j \<le> i" using False by linarith
      ultimately have "\<not> (16 * j \<le> 16 * i + k \<and> 16 * i + k < 16 * j + 16)" "16 * i + k < MAXFILE * BSIZE"
        using ub by linarith+
      then show "fbyte B dp' d' (16 * i + k) = fbyte B dp d (16 * i + k)" using fb by auto
    qed
    moreover have "?es ! i = rd_dirent (\<lambda>k. fbyte B dp d (16 * i + k))" using i False n by (simp add: dirents_def)
    ultimately show ?thesis unfolding at using False i by (auto simp: nth_append)
  qed
qed

subsection \<open>Writing the entry keeps the tree\<close>

lemma dirents_same:
  assumes sz: "i_size dp' = i_size dp" "unat (i_size dp) \<le> MAXFILE * BSIZE"
    and fb: "\<And>p. p < MAXFILE * BSIZE \<Longrightarrow> fbyte B dp' d' p = fbyte B dp d p"
  shows "dirents B dp' d' = dirents B dp d"
  unfolding dirents_def sz(1)
proof (rule map_cong [OF refl])
  fix j assume "j \<in> set [0..<unat (i_size dp) div 16]"
  then have j: "16 * j + 16 \<le> unat (i_size dp)" by auto
  show "rd_dirent (\<lambda>i. fbyte B dp' d' (16 * j + i)) = rd_dirent (\<lambda>i. fbyte B dp d (16 * j + i))"
    by (rule rd_dirent_cong, rule fb) (use j sz(2) in linarith)
qed

text \<open>
  A change of one inode that leaves every other inode alone keeps the tree well formed, if a
  directory stays a directory whose entries name allocated inodes.
\<close>

lemma tree_ok_step:
  assumes tr: "tree_ok B sb dev d" and fs: "fs_wf B sb dev d'"
    and od: "\<And>j. j < unat (sb_ninodes sb) \<Longrightarrow> j \<noteq> i \<Longrightarrow> on_disk B sb dev j d' = on_disk B sb dev j d"
    and fb: "\<And>j p. j < unat (sb_ninodes sb) \<Longrightarrow> j \<noteq> i \<Longrightarrow> alloced B sb dev j d \<Longrightarrow> p < MAXFILE * BSIZE \<Longrightarrow>
      fbyte B (inode_at B sb dev j d') d' p = fbyte B (inode_at B sb dev j d) d p"
    and bl: "\<And>j n. j < unat (sb_ninodes sb) \<Longrightarrow> j \<noteq> i \<Longrightarrow> alloced B sb dev j d \<Longrightarrow> n < MAXFILE \<Longrightarrow>
      fblock B (inode_at B sb dev j d') d' n = fblock B (inode_at B sb dev j d) d n"
    and dn: "dinode_of dp = on_disk B sb dev i d'" "i_dev dp = dev" "i_type dp \<noteq> 0" "i_nlink dp \<noteq> 0"
    and dir: "i_type dp = T_DIR \<Longrightarrow> dir_ok B dp d'"
    and al: "alloced B sb dev i d" and e: "\<And>e. i_type dp = T_DIR \<Longrightarrow> e \<in> set (dirents B dp d') \<Longrightarrow> de_inum e \<noteq> 0 \<Longrightarrow>
        unat (de_inum e) < unat (sb_ninodes sb) \<and> alloced B sb dev (unat (de_inum e)) d"
  shows "tree_ok B sb dev d'"
    and "j < unat (sb_ninodes sb) \<Longrightarrow> j \<noteq> i \<Longrightarrow> alloced B sb dev j d \<Longrightarrow> d_type (on_disk B sb dev j d) = T_DIR \<Longrightarrow>
      dlist B sb dev d' j = dlist B sb dev d j"
    and "j < unat (sb_ninodes sb) \<Longrightarrow> alloced B sb dev j d' \<longleftrightarrow> alloced B sb dev j d"
proof -
  note ld = loaded_dir [OF dn(1,2)]
  have al': "alloced B sb dev j d' \<longleftrightarrow> alloced B sb dev j d" if "j < unat (sb_ninodes sb)" for j
    using od [OF that] al ld(3) dn(3) by (cases "j = i") (auto simp: alloced_def)
  then show "alloced B sb dev j d' \<longleftrightarrow> alloced B sb dev j d" if "j < unat (sb_ninodes sb)" using that .
  have other: "dirents B (inode_at B sb dev j d') d' = dirents B (inode_at B sb dev j d) d \<and> dir_ok B (inode_at B sb dev j d') d'"
    if j: "j < unat (sb_ninodes sb)" "j \<noteq> i" "alloced B sb dev j d" "d_type (on_disk B sb dev j d) = T_DIR" for j
  proof -
    have ok: "dir_ok B (inode_at B sb dev j d) d" using tree_okD(3) [OF tr j(1,3,4)] .
    have same: "inode_at B sb dev j d' = inode_at B sb dev j d" using od [OF j(1,2)] by (simp add: inode_at_def)
    have sz: "unat (i_size (inode_at B sb dev j d)) \<le> MAXFILE * BSIZE" using ok by (simp add: dir_ok_def)
    have "dirents B (inode_at B sb dev j d') d' = dirents B (inode_at B sb dev j d) d"
      by (rule dirents_same [OF _ sz fb [OF j(1-3)]]) (simp_all add: same)
    moreover have "fblock B (inode_at B sb dev j d) d' (p div BSIZE) \<noteq> 0" if p: "p < unat (i_size (inode_at B sb dev j d))" for p
      using bl [OF j(1-3), of "p div BSIZE", unfolded same] lt_maxfile [of p] p sz ok by (simp add: dir_ok_def)
    then have "dir_ok B (inode_at B sb dev j d') d'" using ok unfolding same by (simp add: dir_ok_def)
    ultimately show ?thesis by blast
  qed
  then show "dlist B sb dev d' j = dlist B sb dev d j"
    if "j < unat (sb_ninodes sb)" "j \<noteq> i" "alloced B sb dev j d" "d_type (on_disk B sb dev j d) = T_DIR"
    using that by simp
  show "tree_ok B sb dev d'"
    unfolding tree_ok_def
  proof (intro conjI allI impI ballI fs)
    fix j assume j: "j < unat (sb_ninodes sb)" "alloced B sb dev j d'"
    show "d_nlink (on_disk B sb dev j d') \<noteq> 0"
      using j al' od tree_okD(2) [OF tr] ld(4) dn(4) by (cases "j = i") auto
    assume ty: "d_type (on_disk B sb dev j d') = T_DIR"
    show "dir_ok B (inode_at B sb dev j d') d'"
      using j al' od ty other ld(2,3) dir by (cases "j = i") auto
    fix x assume x: "x \<in> set (dirents B (inode_at B sb dev j d') d')" "de_inum x \<noteq> 0"
    have "unat (de_inum x) < unat (sb_ninodes sb) \<and> alloced B sb dev (unat (de_inum x)) d"
    proof (cases "j = i")
      case True
      then show ?thesis using e x ld(1,3) ty by simp
    next
      case False
      then have "alloced B sb dev j d" "d_type (on_disk B sb dev j d) = T_DIR" using j al' od ty by auto
      then show ?thesis using tree_okD(4) [OF tr j(1)] other [OF j(1) False] x by simp
    qed
    then show "unat (de_inum x) < unat (sb_ninodes sb)" and "alloced B sb dev (unat (de_inum x)) d'" using al' by auto
  qed
qed

definition put_entry :: "dirent list \<Rightarrow> nat \<Rightarrow> dirent \<Rightarrow> dirent list" where
  "put_entry es j de = (if j < length es then es[j := de] else es @ [de])"

lemma set_put_entry: "e \<in> set (put_entry es j de) \<Longrightarrow> e = de \<or> e \<in> set es"
  by (auto simp: put_entry_def dest: set_update_subset_insert [THEN subsetD] split: if_splits)

lemma slot_in_block: "16 * j mod BSIZE + 16 \<le> BSIZE"
proof -
  have "16 * j mod BSIZE = 16 * (j mod 64)" using mult_mod_right [of 16 j 64] by simp
  moreover have "j mod 64 < 64" by simp
  ultimately show ?thesis by linarith
qed

lemma entry_write:
  assumes B: "bio_laws B" and sb: "sb_ok sb" and tr: "tree_ok B sb dev d" and dev: "i_dev dp = dev" and st: "in_step B sb dp d"
    and dn: "dinode_of dp = on_disk B sb dev i d" "i = unat (i_inum dp)" "i_type dp = T_DIR"
    and j: "j \<le> length (dirents B dp d)" "16 * j + 16 \<le> MAXFILE * BSIZE"
    and de: "length (de_name de) = DIRSIZ" "de_inum de \<noteq> 0 \<longrightarrow> unat (de_inum de) < unat (sb_ninodes sb) \<and> alloced B sb dev (unat (de_inum de)) d"
  shows "\<exists>r dp' d'. writei B sb kernel_vm dp False 0 (of_nat (16 * j)) 16 (store (\<lambda>_. 0) 0 (dirent_bytes de), ()) d = Some (r, dp', d') \<and>
     (r = 16 \<and> dirents B dp' d' = put_entry (dirents B dp d) j de \<or>
      r = 0 \<and> dirents B dp' d' = dirents B dp d \<and> (\<forall>m<unat (sb_size sb). bused B sb dev d' m)) \<and>
     tree_ok B sb dev d' \<and> dinode_of dp' = on_disk B sb dev i d' \<and> (\<exists>z as. dp' = dp\<lparr>i_size := z, i_addrs := as\<rparr>) \<and>
     (\<forall>m<unat (sb_ninodes sb). m \<noteq> i \<longrightarrow> on_disk B sb dev m d' = on_disk B sb dev m d) \<and>
     (\<forall>m<unat (sb_ninodes sb). alloced B sb dev m d' \<longleftrightarrow> alloced B sb dev m d) \<and>
     (\<forall>m<unat (sb_ninodes sb). m \<noteq> i \<longrightarrow> alloced B sb dev m d \<longrightarrow> d_type (on_disk B sb dev m d) = T_DIR \<longrightarrow>
        dlist B sb dev d' m = dlist B sb dev d m) \<and> (j < length (dirents B dp d) \<longrightarrow> r = 16)"
proof -
  let ?es = "dirents B dp d" and ?off = "of_nat (16 * j) :: u32" and ?bs = "dirent_bytes de"
  let ?mem = "(store (\<lambda>_. 0) 0 ?bs, ())" and ?s = "\<lambda>k. fst (store (\<lambda>_. 0) 0 ?bs, ()) (0 + of_nat k)"
  note ld = loaded_dir [OF dn(1) dev]
  have fs: "fs_wf B sb (i_dev dp) d" using tree_okD(1) [OF tr] dev by simp
  have i: "i < unat (sb_ninodes sb)" and al: "alloced B sb dev i d" using st dn(2) dev by (auto simp: in_step_def)
  have ok: "dir_ok B dp d" using tree_okD(3) [OF tr i al] ld(2,3) dn(3) by simp
  then have szd: "unat (i_size dp) = 16 * length ?es" "unat (i_size dp) \<le> MAXFILE * BSIZE" by (simp_all add: dir_ok_def dirents_def)
  have off: "unat ?off = 16 * j" using j(2) by (intro unat_of_nat32) (simp add: MAXFILE_bytes)
  have le: "?off \<le> i_size dp" using off szd j by (simp add: word_le_nat_alt)
  have rng: "unat ?off + unat (16 :: u32) \<le> MAXFILE * BSIZE" using off j by simp
  note src = src_ok_kernel [of kernel_vm ?mem 0]
  obtain tot dp' d' where w: "writei B sb kernel_vm dp False 0 ?off 16 ?mem d = Some (int tot, dp', d')" and fs': "fs_wf B sb dev d'"
    and od_i: "on_disk B sb dev i d' = dinode_of dp'"
    and blk: "\<forall>p. 16 * j \<le> p \<and> p < 16 * j + tot \<longrightarrow> fblock B dp' d' (p div BSIZE) \<noteq> 0"
    and sz: "unat (i_size dp') = max (unat (i_size dp)) (16 * j + tot)"
    and fb: "\<forall>p<MAXFILE * BSIZE. fbyte B dp' d' p = (if 16 * j \<le> p \<and> p < 16 * j + tot then ?s (p - 16 * j) else fbyte B dp d p)"
    and full: "tot < 16 \<longrightarrow> (\<forall>m<unat (sb_size sb). bused B sb dev d' m)"
    using writei_spec [OF B sb fs st le rng src] off dev dn(2) by auto
  have tot: "tot = 0 \<or> tot = 16"
  proof -
    have "unat ?off mod BSIZE + unat (16 :: u32) \<le> BSIZE" unfolding off using slot_in_block [of j] by simp
    then show ?thesis using writei_one_block [OF w] by auto
  qed
  obtain dp1 d1 z where fr: "file_frame B sb dp d dp1 d1" and dp': "dp' = dp1\<lparr>i_size := z\<rparr>" and d': "d' = iupdate B sb dp' d1"
    using writei_frame [OF B sb fs st le rng src w] by blast
  note cf = commit_frame [OF B sb fs st fr dp', folded d', unfolded dev dn(2) [symmetric]]
  obtain as where "dp1 = dp\<lparr>i_addrs := as\<rparr>" using file_frameD(3) [OF fr] by (auto simp: same_meta_def)
  then have shape: "dp' = dp\<lparr>i_size := z, i_addrs := as\<rparr>" using dp' by simp
  have es': "dirents B dp' d' = (if tot = 16 then put_entry ?es j de else ?es)"
  proof (cases "tot = 16")
    case True
    have s: "?s k = ?bs ! k" if "k < 16" for k using that length_dirent_bytes [OF de(1)] by (simp add: store_at)
    have fb16: "\<forall>p<MAXFILE * BSIZE. fbyte B dp' d' p = (if 16 * j \<le> p \<and> p < 16 * j + 16 then ?bs ! (p - 16 * j) else fbyte B dp d p)"
    proof (intro allI impI)
      fix p assume p: "p < MAXFILE * BSIZE"
      have "fbyte B dp' d' p = (if 16 * j \<le> p \<and> p < 16 * j + 16 then ?s (p - 16 * j) else fbyte B dp d p)"
        using fb [THEN spec, THEN mp, OF p] unfolding True .
      also have "\<dots> = (if 16 * j \<le> p \<and> p < 16 * j + 16 then ?bs ! (p - 16 * j) else fbyte B dp d p)"
        by (rule if_cong [OF refl _ refl], rule s) linarith
      finally show "fbyte B dp' d' p = (if 16 * j \<le> p \<and> p < 16 * j + 16 then ?bs ! (p - 16 * j) else fbyte B dp d p)" .
    qed
    have "16 dvd unat (i_size dp)" using szd(1) by simp
    then show ?thesis
      using dirents_write [OF fb16 sz [unfolded True] _ j(2) szd(2) refl de(1) j(1)] True by (simp add: put_entry_def)
  next
    case False
    then have t0: "tot = 0" using tot by simp
    then have "unat (i_size dp') = unat (i_size dp)" using sz szd(1) j(1) by simp
    then have "i_size dp' = i_size dp" by (rule word_unat_eq_iff [THEN iffD2])
    then have "dirents B dp' d' = ?es" by (rule dirents_same [OF _ szd(2)]) (use fb t0 in auto)
    then show ?thesis using False by simp
  qed
  have ok': "dir_ok B dp' d'"
    unfolding dir_ok_def
  proof (intro conjI allI impI)
    show "unat (i_size dp') \<le> MAXFILE * BSIZE" using sz szd(2) j(2) tot by auto
    show "16 dvd unat (i_size dp')" using sz szd(1) tot by (auto simp: max_def)
    fix p assume p: "p < unat (i_size dp')"
    show "fblock B dp' d' (p div BSIZE) \<noteq> 0"
    proof (cases "p < unat (i_size dp)")
      case True
      then show ?thesis using cf(8) [of "p div BSIZE"] lt_maxfile [of p] szd(2) ok by (simp add: dir_ok_def)
    next
      case False
      then show ?thesis using blk p sz szd(1) j(1) by auto
    qed
  qed
  have ent: "unat (de_inum e) < unat (sb_ninodes sb) \<and> alloced B sb dev (unat (de_inum e)) d"
    if e: "e \<in> set (dirents B dp' d')" "de_inum e \<noteq> 0" for e
  proof -
    have "e = de \<or> e \<in> set ?es" using e(1) es' set_put_entry by (auto split: if_splits)
    then show ?thesis using de(2) tree_okD(4) [OF tr i al] e(2) ld(1,3) dn(3) by auto
  qed
  have "i_type dp' \<noteq> 0" "i_nlink dp' \<noteq> 0" "i_dev dp' = dev"
    using shape dn(3) ld(4) tree_okD(2) [OF tr i al] dev by (simp_all add: T_DIR_def)
  note step = tree_ok_step [OF tr fs' cf(5) cf(6) cf(7) od_i [symmetric] this(3,1,2) ok' al ent]
  have "int tot = 16 \<and> dirents B dp' d' = put_entry ?es j de \<or>
      int tot = 0 \<and> dirents B dp' d' = ?es \<and> (\<forall>m<unat (sb_size sb). bused B sb dev d' m)"
    using tot es' full by auto
  moreover have "int tot = 16" if jl: "j < length ?es"
  proof -
    have lt: "16 * j < unat (i_size dp)" using jl szd(1) by simp
    have "\<forall>p<unat (i_size dp). fblock B dp d (p div BSIZE) \<noteq> 0" using ok by (simp add: dir_ok_def)
    then have "fblock B dp d (unat ?off div BSIZE) \<noteq> 0" using lt unfolding off by blast
    moreover have "unat ?off mod BSIZE + unat (16 :: u32) \<le> BSIZE" unfolding off using slot_in_block [of j] by simp
    moreover have "unat ?off < MAXFILE * BSIZE" unfolding off using lt szd(2) by simp
    ultimately have "int tot = int (unat (16 :: u32))" by (intro writei_mapped [OF B sb fs st w]) simp_all
    then show ?thesis by simp
  qed
  moreover have "\<exists>z as. dp' = dp\<lparr>i_size := z, i_addrs := as\<rparr>" using shape by blast
  moreover have "\<forall>m<unat (sb_ninodes sb). m \<noteq> i \<longrightarrow> on_disk B sb dev m d' = on_disk B sb dev m d" using cf(5) by blast
  ultimately show ?thesis
    using w step(1) od_i step(2,3)
    by (intro exI [of _ "int tot"] exI [of _ dp'] exI [of _ d']) simp
qed

subsection \<open>\<^verbatim>\<open>dirlink\<close>\<close>

text \<open>Replacing the locked directory by what \<^verbatim>\<open>writei\<close> returned.\<close>

lemma cached_write:
  assumes c: "cached B sb dev L tbl d" and k: "k < NINODE" and kL: "k \<in> L"
    and dp': "i_dev dp' = i_dev (tbl ! k)" "i_inum dp' = i_inum (tbl ! k)" "i_ref dp' = i_ref (tbl ! k)" "i_locked dp'"
    and dn': "dinode_of dp' = on_disk B sb dev (unat (i_inum (tbl ! k))) d'"
    and od: "\<forall>m<unat (sb_ninodes sb). m \<noteq> unat (i_inum (tbl ! k)) \<longrightarrow> on_disk B sb dev m d' = on_disk B sb dev m d"
    and al: "\<forall>m<unat (sb_ninodes sb). alloced B sb dev m d' \<longleftrightarrow> alloced B sb dev m d"
  shows "cached B sb dev L (tbl[k := dp']) d'" and "refs (tbl[k := dp']) = refs tbl"
proof -
  note inv = cachedD(1) [OF c] and len = itab_invD(1) [OF cachedD(1) [OF c]]
  have r: "0 < i_ref (tbl ! k)" "i_locked (tbl ! k)" using itab_invD(3) [OF inv k] cachedD(2) [OF c k] kL by simp_all
  note e = cachedD(3-5) [OF c k r(1)]
  show "refs (tbl[k := dp']) = refs tbl" using k len by (intro same_refs) (simp_all add: dp' ikey_def)
  have inv': "itab_inv (tbl[k := dp'])" using r by (intro itab_inv_update [OF inv]) (simp_all add: dp')
  have keyk: "i_inum (tbl ! j) \<noteq> i_inum (tbl ! k)" if "j < NINODE" "j \<noteq> k" "0 < i_ref (tbl ! j)" for j
    using itab_inv_distinct [OF inv that(1) k that(3) r(1)] that(2) cachedD(3) [OF c that(1,3)] e(1) by (auto simp: ikey_def)
  show "cached B sb dev L (tbl[k := dp']) d'"
    unfolding cached_def
  proof (intro conjI allI impI inv')
    fix j assume j: "j < NINODE"
    let ?q = "tbl[k := dp'] ! j"
    show "i_locked ?q = (j \<in> L)" using j len cachedD(2) [OF c j] r(2) kL by (cases "j = k") (auto simp: dp')
    assume ref: "0 < i_ref ?q"
    show "i_dev ?q = dev" using j len ref cachedD(3) [OF c j] e by (cases "j = k") (auto simp: dp')
    show n: "unat (i_inum ?q) < unat (sb_ninodes sb)" using j len ref cachedD(4) [OF c j] e by (cases "j = k") (auto simp: dp')
    show "alloced B sb dev (unat (i_inum ?q)) d'"
      using n j len ref cachedD(5) [OF c j] e al by (cases "j = k") (auto simp: dp')
    assume "i_valid ?q"
    then show "dinode_of ?q = on_disk B sb dev (unat (i_inum ?q)) d'"
      using n j len ref cachedD(6) [OF c j] dp' dn' od keyk [OF j] by (cases "j = k") (auto simp: word_unat_eq_iff)
  qed
qed

text \<open>The slot \<^verbatim>\<open>dirlink\<close> uses: the first free entry, or the end.\<close>

definition free_slot :: "dirent list \<Rightarrow> nat" where
  "free_slot es = (case find_idx (\<lambda>de. de_inum de = 0) es of None \<Rightarrow> length es | Some n \<Rightarrow> n)"

lemma free_slot_le: "free_slot es \<le> length es"
  using find_idx_SomeD(1) [of _ es] by (fastforce simp: free_slot_def split: option.splits)

lemma dmap_put_entry:
  assumes "dmap es (cname (de_name de)) = None" and "de_inum de \<noteq> 0"
  shows "dmap (put_entry es (free_slot es) de) = (dmap es)(cname (de_name de) \<mapsto> de_inum de)"
proof (cases "find_idx (\<lambda>de. de_inum de = 0) es")
  case None
  then show ?thesis using dmap_add_end [OF assms] by (simp add: put_entry_def free_slot_def)
next
  case (Some n)
  then show ?thesis using dmap_add_slot [OF assms] find_idx_SomeD [OF Some] by (simp add: put_entry_def free_slot_def)
qed

lemma dirscan_free:
  assumes "bio_laws B" and "sb_ok sb" and "fs_wf B sb (i_dev dp) d" and "in_step B sb dp d" and ok: "dir_ok B dp d"
  shows "\<exists>o1. dirscan B sb (\<lambda>de. de_inum de = 0) 0 dp d = Some (o1, of_nat (16 * free_slot (dirents B dp d)), dp, d)"
proof -
  have "of_nat (16 * length (dirents B dp d)) = i_size dp"
    using ok by (subst word_unat_eq_iff, subst unat_of_nat32) (auto simp: dir_ok_def dirents_def MAXFILE_bytes)
  then show ?thesis
    using dirscan_spec [OF assms, of 0 "\<lambda>de. de_inum de = 0"] by (auto simp: free_slot_def split: option.splits)
qed

text \<open>What holds of a locked and loaded directory.\<close>

lemma locked_dir:
  assumes tr: "tree_ok B sb dev d" and c: "cached B sb dev L tbl d" and k: "k < NINODE" and kL: "k \<in> L" and v: "i_valid (tbl ! k)"
    and i: "i = unat (i_inum (tbl ! k))" and ty: "i_type (tbl ! k) = T_DIR"
  shows "i_dev (tbl ! k) = dev" and "dinode_of (tbl ! k) = on_disk B sb dev i d" and "i < unat (sb_ninodes sb)"
    and "d_type (on_disk B sb dev i d) = T_DIR" and "in_step B sb (tbl ! k) d" and "dir_ok B (tbl ! k) d"
    and "fs_wf B sb (i_dev (tbl ! k)) d" and "dirmap B sb dev d i = dmap (dirents B (tbl ! k) d)"
proof -
  have r: "0 < i_ref (tbl ! k)" using itab_invD(3) [OF cachedD(1) [OF c] k] cachedD(2) [OF c k] kL by simp
  note e = cachedD(3-6) [OF c k r]
  show dn: "dinode_of (tbl ! k) = on_disk B sb dev i d" and lt: "i < unat (sb_ninodes sb)" and dev: "i_dev (tbl ! k) = dev"
    using e v i by simp_all
  have al: "alloced B sb dev i d" using e(3) i by simp
  note ld = loaded_dir [OF dn dev]
  show dty: "d_type (on_disk B sb dev i d) = T_DIR" using ld(3) ty by simp
  show "in_step B sb (tbl ! k) d" using lt al i dev ld(5) ty by (simp add: in_step_def T_DIR_def)
  show "dir_ok B (tbl ! k) d" using tree_okD(3) [OF tr lt al dty] ld(2) by simp
  show "fs_wf B sb (i_dev (tbl ! k)) d" using tree_okD(1) [OF tr] dev by simp
  show "dirmap B sb dev d i = dmap (dirents B (tbl ! k) d)" using ld(1) by (simp add: dirmap_def)
qed

lemma dirlink_present:
  assumes B: "bio_laws B" and sb: "sb_ok sb" and tr: "tree_ok B sb dev d" and c: "cached B sb dev {k} tbl d"
    and k: "k < NINODE" and v: "i_valid (tbl ! k)" and i: "i = unat (i_inum (tbl ! k))" and ty: "i_type (tbl ! k) = T_DIR"
    and room: "card (held tbl) < NINODE" and j: "dirmap B sb dev d i (cname name) = Some j"
  shows "\<exists>tbl'. dirlink B sb k name inum (tbl, d) = Some (- 1, tbl', d) \<and> cached B sb dev {k} tbl' d \<and> refs tbl' = refs tbl \<and>
     (\<forall>j<NINODE. 0 < i_ref (tbl ! j) \<longrightarrow> ikey (tbl' ! j) = ikey (tbl ! j) \<and> 0 < i_ref (tbl' ! j) \<and> i_valid (tbl' ! j) = i_valid (tbl ! j))"
proof -
  note f = locked_dir [OF tr c k singletonI v i ty]
  obtain n off t2 where l: "dirlookup B sb k name (tbl, d) = Some (Some (n, off), t2, d)" and c2: "cached B sb dev {k} t2 d"
    and n: "n < NINODE" "0 < i_ref (t2 ! n)" and key: "ikey (t2 ! n) = (dev, ucast j)"
    and rf: "refs t2 = (refs tbl)((dev, ucast j) := refs tbl (dev, ucast j) + 1)" and two: "n = k \<longrightarrow> 1 < i_ref (t2 ! k)"
    and kp: "\<forall>j<NINODE. 0 < i_ref (tbl ! j) \<longrightarrow> ikey (t2 ! j) = ikey (tbl ! j) \<and> 0 < i_ref (t2 ! j) \<and> i_valid (t2 ! j) = i_valid (tbl ! j)"
    using dirlookup_cached(2) [OF B sb tr c k singletonI f(5,2,3,4) room j] by blast
  obtain t3 where p: "iput B sb n (t2, d) = Some (t3, d)" "cached B sb dev {k} t3 d"
    and rf3: "refs t3 = (refs t2)(ikey (t2 ! n) := refs t2 (ikey (t2 ! n)) - 1)"
    and oth: "\<forall>j. j \<noteq> n \<longrightarrow> t3 ! j = t2 ! j" and t3n: "t3 ! n = (t2 ! n)\<lparr>i_ref := i_ref (t2 ! n) - 1\<rparr>"
    using iput_cached [OF tr c2 n] two by auto
  have "refs t3 = refs tbl" unfolding rf3 rf key by auto
  moreover have "ikey (t3 ! j) = ikey (tbl ! j) \<and> 0 < i_ref (t3 ! j) \<and> i_valid (t3 ! j) = i_valid (tbl ! j)"
    if j: "j < NINODE" "0 < i_ref (tbl ! j)" for j
  proof (cases "j = n")
    case True
    have "i_ref (tbl ! n) = refs tbl (ikey (tbl ! n))" using refs_entry [OF cachedD(1) [OF c] n(1)] j True by simp
    then have "i_ref (t2 ! n) = i_ref (tbl ! n) + 1"
      using refs_entry [OF cachedD(1) [OF c2] n] rf key kp j True by simp
    then show ?thesis using True kp j t3n by (simp add: ikey_def)
  next
    case False
    then show ?thesis using oth kp j by simp
  qed
  ultimately show ?thesis using l p by (auto simp: dirlink_def)
qed

lemma dirlink_absent:
  assumes B: "bio_laws B" and sb: "sb_ok sb" and tr: "tree_ok B sb dev d" and c: "cached B sb dev L tbl d"
    and k: "k < NINODE" and kL: "k \<in> L" and v: "i_valid (tbl ! k)" and i: "i = unat (i_inum (tbl ! k))" and ty: "i_type (tbl ! k) = T_DIR"
    and room: "card (held tbl) < NINODE" and sz: "unat (i_size (tbl ! k)) + 16 \<le> MAXFILE * BSIZE"
    and inum: "0 < unat inum" "unat inum < 65536" "unat inum < unat (sb_ninodes sb)" "alloced B sb dev (unat inum) d"
    and none: "dirmap B sb dev d i (cname name) = None"
  shows "\<exists>r tbl' d'. dirlink B sb k name inum (tbl, d) = Some (r, tbl', d') \<and> tree_ok B sb dev d' \<and> cached B sb dev L tbl' d' \<and>
     refs tbl' = refs tbl \<and> (\<exists>z as. tbl' = tbl[k := (tbl ! k)\<lparr>i_size := z, i_addrs := as\<rparr>]) \<and>
     (\<forall>m<unat (sb_ninodes sb). m \<noteq> i \<longrightarrow> on_disk B sb dev m d' = on_disk B sb dev m d) \<and>
     (\<forall>m<unat (sb_ninodes sb). m \<noteq> i \<longrightarrow> alloced B sb dev m d \<longrightarrow> d_type (on_disk B sb dev m d) = T_DIR \<longrightarrow>
        dlist B sb dev d' m = dlist B sb dev d m) \<and>
     (r = 0 \<and> dlist B sb dev d' i = put_entry (dlist B sb dev d i) (free_slot (dlist B sb dev d i)) \<lparr>de_inum = ucast inum, de_name = strncpy DIRSIZ name 0\<rparr> \<and>
        dirmap B sb dev d' i = (dirmap B sb dev d i)(cname name \<mapsto> ucast inum) \<or>
      r = - 1 \<and> dlist B sb dev d' i = dlist B sb dev d i \<and> (\<forall>m<unat (sb_size sb). bused B sb dev d' m))"
proof -
  let ?dp = "tbl ! k" and ?es = "dirents B (tbl ! k) d"
  note f = locked_dir [OF tr c k kL v i ty]
  define de where "de = \<lparr>de_inum = ucast inum, de_name = strncpy DIRSIZ name 0\<rparr>"
  have "unat (ucast inum :: u16) = unat inum" using inum(2) by (simp add: unsigned_ucast_eq take_bit_nat_eq_self)
  then have dei: "unat (de_inum de) = unat inum" by (simp add: de_def)
  then have nz: "de_inum de \<noteq> 0" using inum(1) by auto
  have tg: "de_inum de \<noteq> 0 \<longrightarrow> unat (de_inum de) < unat (sb_ninodes sb) \<and> alloced B sb dev (unat (de_inum de)) d" using inum(3,4) dei by simp
  have cn: "cname (de_name de) = cname name" and len: "length (de_name de) = DIRSIZ" by (simp_all add: de_def cname_strncpy)
  have fsl: "16 * free_slot ?es + 16 \<le> MAXFILE * BSIZE"
    using free_slot_le [of ?es] sz f(6) by (simp add: dir_ok_def dirents_def)
  obtain x where sc: "dirscan B sb (\<lambda>de. de_inum de = 0) 0 ?dp d = Some (x, of_nat (16 * free_slot ?es), ?dp, d)"
    using dirscan_free [OF B sb f(7,5,6)] by blast
  obtain r dp' d' z as where w: "writei B sb kernel_vm ?dp False 0 (of_nat (16 * free_slot ?es)) 16 (store (\<lambda>_. 0) 0 (dirent_bytes de), ()) d = Some (r, dp', d')"
    and res: "r = 16 \<and> dirents B dp' d' = put_entry ?es (free_slot ?es) de \<or>
      r = 0 \<and> dirents B dp' d' = ?es \<and> (\<forall>m<unat (sb_size sb). bused B sb dev d' m)"
    and tr': "tree_ok B sb dev d'" and dn': "dinode_of dp' = on_disk B sb dev i d'" and sh: "dp' = ?dp\<lparr>i_size := z, i_addrs := as\<rparr>"
    and od: "\<forall>m<unat (sb_ninodes sb). m \<noteq> i \<longrightarrow> on_disk B sb dev m d' = on_disk B sb dev m d"
    and al': "\<forall>m<unat (sb_ninodes sb). alloced B sb dev m d' \<longleftrightarrow> alloced B sb dev m d"
    and oth: "\<forall>m<unat (sb_ninodes sb). m \<noteq> i \<longrightarrow> alloced B sb dev m d \<longrightarrow> d_type (on_disk B sb dev m d) = T_DIR \<longrightarrow>
      dlist B sb dev d' m = dlist B sb dev d m"
    using entry_write [OF B sb tr f(1,5,2) i ty free_slot_le fsl len tg] by (elim exE conjE) (rule that)
  have "i_locked ?dp" using cachedD(2) [OF c k] kL by simp
  then have "i_dev dp' = i_dev ?dp" "i_inum dp' = i_inum ?dp" "i_ref dp' = i_ref ?dp" "i_locked dp'" by (simp_all add: sh)
  note cw = cached_write [OF c k kL this dn' [unfolded i] od [unfolded i] al']
  have dl: "dirlink B sb k name inum (tbl, d) = Some (if r \<noteq> 16 then - 1 else 0, tbl[k := dp'], d')"
    using dirlookup_cached(1) [OF B sb tr c k kL f(5,2,3,4) room none] sc w by (simp add: dirlink_def Let_def de_def)
  have dl': "dlist B sb dev d' i = dirents B dp' d'" and dl0: "dlist B sb dev d i = ?es"
    using loaded_dir(1) [OF dn'] loaded_dir(1) [OF f(2,1)] sh f(1) by simp_all
  have dm: "dirmap B sb dev d' i = dmap (dirents B dp' d')"
    using loaded_dir(1) [OF dn'] sh f(1) by (simp add: dirmap_def)
  have "dmap (put_entry ?es (free_slot ?es) de) = (dirmap B sb dev d i)(cname name \<mapsto> ucast inum)"
    using dmap_put_entry [of ?es de] none nz cn f(8) by (simp add: de_def)
  then have "r = 16 \<and> dlist B sb dev d' i = put_entry (dlist B sb dev d i) (free_slot (dlist B sb dev d i)) de \<and> dirmap B sb dev d' i = (dirmap B sb dev d i)(cname name \<mapsto> ucast inum) \<or>
      r = 0 \<and> dlist B sb dev d' i = dlist B sb dev d i \<and> (\<forall>m<unat (sb_size sb). bused B sb dev d' m)"
    using res dm f(8) dl' dl0 by metis
  then show ?thesis using dl tr' cw oth od sh unfolding de_def by auto
qed

text \<open>
  Linking a name into a locked directory of a well-formed tree returns without panic, keeps the
  tree well formed, the table in agreement with the disk and every reference count as it was, and leaves the
  maps of all other directories alone. If the name is already there (in its first 14 bytes) the result is -1 and
  the disk does not change; otherwise either the result is 0 and the map of the directory gains exactly this
  name with this inode number, or it is -1, every block of the disk is in use, and the map is as before.\<close>

theorem dirlink_adds_name:
  assumes B: "bio_laws B" and sb: "sb_ok sb" and tr: "tree_ok B sb dev d" and c: "cached B sb dev {k} tbl d"
    and k: "k < NINODE" and v: "i_valid (tbl ! k)" and i: "i = unat (i_inum (tbl ! k))" and ty: "i_type (tbl ! k) = T_DIR"
    and room: "card (held tbl) < NINODE" and sz: "unat (i_size (tbl ! k)) + 16 \<le> MAXFILE * BSIZE"
    and inum: "0 < unat inum" "unat inum < 65536" "unat inum < unat (sb_ninodes sb)" "alloced B sb dev (unat inum) d"
  shows "\<exists>r tbl' d'. dirlink B sb k name inum (tbl, d) = Some (r, tbl', d') \<and> tree_ok B sb dev d' \<and> cached B sb dev {k} tbl' d' \<and>
     refs tbl' = refs tbl \<and>
     (\<forall>m<unat (sb_ninodes sb). m \<noteq> i \<longrightarrow> alloced B sb dev m d \<longrightarrow> d_type (on_disk B sb dev m d) = T_DIR \<longrightarrow>
        dirmap B sb dev d' m = dirmap B sb dev d m) \<and>
     (if dirmap B sb dev d i (cname name) \<noteq> None then r = - 1 \<and> d' = d
      else r = 0 \<and> dirmap B sb dev d' i = (dirmap B sb dev d i)(cname name \<mapsto> ucast inum) \<or>
        r = - 1 \<and> dirmap B sb dev d' i = dirmap B sb dev d i \<and> (\<forall>m<unat (sb_size sb). bused B sb dev d' m))"
proof (cases "dirmap B sb dev d i (cname name)")
  case None
  then show ?thesis using dirlink_absent [OF B sb tr c k singletonI v i ty room sz inum None] by (auto simp: dirmap_def)
next
  case (Some j)
  then show ?thesis using dirlink_present [OF B sb tr c k v i ty room Some] tr by fastforce
qed

text \<open>A new name in the directory that holds itself under two names.\<close>

definition root_locked :: itable where
  "root_locked = root_tbl[0 := root_ino\<lparr>i_locked := True\<rparr>]"

lemma root_locked_cached: "cached demo_bio demo_sb ROOTDEV {0} root_locked root_disk"
  using ilock_cached [OF root_cached, of 0] unfolding root_locked_def
  by (auto simp: ilock_def root_tbl_def idle_tbl_def NINODE_def root_ino_def Let_def)

lemma root_locked_0: "root_locked ! 0 = root_ino\<lparr>i_locked := True\<rparr>"
  by (simp add: root_locked_def root_tbl_def idle_tbl_def NINODE_def)

lemma root_locked_held: "card (held root_locked) < NINODE"
proof -
  have "refs root_locked = refs root_tbl"
    unfolding root_locked_def by (rule same_refs) (simp_all add: root_tbl_def idle_tbl_def NINODE_def ikey_def)
  then show ?thesis using root_held by simp
qed

theorem dirlink_adds_name_witness:
  "\<exists>r tbl' d'. dirlink demo_bio demo_sb 0 [98] 1 (root_locked, root_disk) = Some (r, tbl', d') \<and> tree_ok demo_bio demo_sb ROOTDEV d' \<and>
     (r = 0 \<longrightarrow> dirmap demo_bio demo_sb ROOTDEV d' 1 [98] = Some 1)"
proof -
  have none: "dirmap demo_bio demo_sb ROOTDEV root_disk 1 (cname [98]) = None"
    by (simp add: dirmap_def ROOTDEV_def root_dirents dmap_def cname_def DIRSIZ_def flip: root_dp_def)
  have c98: "cname [98] = [98]" by (simp add: cname_def DIRSIZ_def)
  show ?thesis
    using dirlink_adds_name [OF demo_bio_laws demo_sb_ok root_tree root_locked_cached _ _ _ _ root_locked_held, of 1 1 "[98]"] none
    by (auto simp: root_locked_0 root_ino_def T_DIR_def MAXFILE_bytes demo_ninodes root_alloced ROOTDEV_def NINODE_def c98)
qed

end
