(* ===== verification/Sysfile.thy ===== *)
theory Sysfile
  imports FsLink
begin

unbundle bit_operations_syntax

text \<open>
  The file system calls of Lab 5, Task 5.2 (\<^verbatim>\<open>kernel/sysfile.c\<close>, \<^verbatim>\<open>kernel/fcntl.h\<close>, \<^verbatim>\<open>kernel/stat.h\<close>, the table
  \<^verbatim>\<open>syscalls[]\<close> of \<^verbatim>\<open>kernel/syscall.c\<close>), on the inode layer of Task 5.1. A handler runs on the inode table, the
  disk, the open files and the calling process's \<^verbatim>\<open>NOFILE\<close> descriptors and current directory. It sees its arguments
  through the record \<open>sysargs\<close>, which holds what \<^verbatim>\<open>argint\<close>, \<^verbatim>\<open>argaddr\<close>, \<^verbatim>\<open>argstr\<close>, \<^verbatim>\<open>fetchaddr\<close> and \<^verbatim>\<open>fetchstr\<close>
  deliver (\<open>None\<close> for a negative result). \<^verbatim>\<open>file.c\<close>, \<^verbatim>\<open>pipe.c\<close>, \<^verbatim>\<open>exec.c\<close>, \<^verbatim>\<open>kalloc.c\<close> and \<^verbatim>\<open>vm.c\<close> are not in the
  repository: their functions are the record \<open>fileops\<close>. \<open>None\<close> is a panic or a call that does not return.
\<close>

subsection \<open>Constants and state\<close>

definition T_FILE :: u16 where
  "T_FILE = 2"

definition T_DEVICE :: u16 where
  "T_DEVICE = 3"

definition T_SYMLINK :: u16 where
  "T_SYMLINK = 4"

definition O_WRONLY :: u32 where
  "O_WRONLY = 0x001"

definition O_RDWR :: u32 where
  "O_RDWR = 0x002"

definition O_CREATE :: u32 where
  "O_CREATE = 0x200"

definition O_TRUNC :: u32 where
  "O_TRUNC = 0x400"

definition O_NOFOLLOW :: u32 where
  "O_NOFOLLOW = 0x800"

definition NDEV :: int where
  "NDEV = 10"

definition MAXPATH :: nat where
  "MAXPATH = 128"

definition MAXARG :: nat where
  "MAXARG = 32"

datatype fdtype = FD_NONE | FD_PIPE | FD_INODE | FD_DEVICE

record file_t =
  f_type :: fdtype
  f_ref :: int
  f_readable :: bool
  f_writable :: bool
  f_pipe :: nat
  f_ip :: nat
  f_off :: u32
  f_major :: u16

record ('d, 'u) fsys =
  s_fs :: "'d fstate"
  s_ftab :: "file_t list"
  s_ofile :: "nat option list"
  s_cwd :: nat
  s_rest :: 'u

record sysargs =
  arg_int :: "nat \<Rightarrow> int"
  arg_addr :: "nat \<Rightarrow> u64"
  arg_str :: "nat \<Rightarrow> nat \<Rightarrow> u8 list option"
  fetch_addr :: "u64 \<Rightarrow> u64 option"
  fetch_str :: "u64 \<Rightarrow> nat \<Rightarrow> u8 list option"

record ('d, 'u) fileops =
  filealloc :: "('d, 'u) fsys \<Rightarrow> nat option \<times> ('d, 'u) fsys"
  filedup :: "nat \<Rightarrow> ('d, 'u) fsys \<Rightarrow> ('d, 'u) fsys option"
  fileclose :: "nat \<Rightarrow> ('d, 'u) fsys \<Rightarrow> ('d, 'u) fsys option"
  fileread :: "nat \<Rightarrow> u64 \<Rightarrow> int \<Rightarrow> ('d, 'u) fsys \<Rightarrow> (int \<times> ('d, 'u) fsys) option"
  filewrite :: "nat \<Rightarrow> u64 \<Rightarrow> int \<Rightarrow> ('d, 'u) fsys \<Rightarrow> (int \<times> ('d, 'u) fsys) option"
  filestat :: "nat \<Rightarrow> u64 \<Rightarrow> ('d, 'u) fsys \<Rightarrow> (int \<times> ('d, 'u) fsys) option"
  pipealloc :: "('d, 'u) fsys \<Rightarrow> (nat \<times> nat) option \<times> ('d, 'u) fsys"
  kexec :: "u8 list \<Rightarrow> u8 list list \<Rightarrow> ('d, 'u) fsys \<Rightarrow> int \<times> ('d, 'u) fsys"
  arg_page :: "('d, 'u) fsys \<Rightarrow> nat option \<times> ('d, 'u) fsys"
  arg_page_free :: "nat \<Rightarrow> ('d, 'u) fsys \<Rightarrow> ('d, 'u) fsys"
  copyout_fd :: "u64 \<Rightarrow> int \<Rightarrow> ('d, 'u) fsys \<Rightarrow> bool \<times> ('d, 'u) fsys"

type_synonym ('d, 'u) sysfn = "sysargs \<Rightarrow> ('d, 'u) fsys \<Rightarrow> (int \<times> ('d, 'u) fsys) option"

text \<open>Running an operation of the inode layer, and its accesses to one entry of the table.\<close>

definition on_fs :: "('d fstate \<Rightarrow> ('r \<times> 'd fstate) option) \<Rightarrow> ('d, 'u) fsys \<Rightarrow> ('r \<times> ('d, 'u) fsys) option" where
  "on_fs f s = do { (r, fs) \<leftarrow> f (s_fs s); Some (r, s\<lparr>s_fs := fs\<rparr>) }"

definition ret_unit :: "('d fstate \<Rightarrow> 'd fstate option) \<Rightarrow> 'd fstate \<Rightarrow> (unit \<times> 'd fstate) option" where
  "ret_unit f fs = map_option (Pair ()) (f fs)"

abbreviation ino :: "nat \<Rightarrow> 'd fstate \<Rightarrow> inode" where
  "ino k fs \<equiv> fst fs ! k"

definition upd_ino :: "nat \<Rightarrow> (inode \<Rightarrow> inode) \<Rightarrow> 'd fstate \<Rightarrow> 'd fstate" where
  "upd_ino k g = (\<lambda>(tbl, d). (tbl[k := g (tbl ! k)], d))"

definition iupdate_k :: "'d bio \<Rightarrow> superblock \<Rightarrow> nat \<Rightarrow> 'd fstate \<Rightarrow> 'd fstate" where
  "iupdate_k B sb k = (\<lambda>(tbl, d). (tbl, iupdate B sb (tbl ! k) d))"

definition iunlock_k :: "nat \<Rightarrow> 'd fstate \<Rightarrow> 'd fstate option" where
  "iunlock_k k = (\<lambda>(tbl, d). do { tbl1 \<leftarrow> iunlock k tbl; Some (tbl1, d) })"

definition itrunc_k :: "'d bio \<Rightarrow> superblock \<Rightarrow> nat \<Rightarrow> 'd fstate \<Rightarrow> 'd fstate option" where
  "itrunc_k B sb k = (\<lambda>(tbl, d). do { (ip, d1) \<leftarrow> itrunc B sb (tbl ! k) d; Some (tbl[k := ip], d1) })"

text \<open>Writing the bytes of a kernel object.\<close>

definition writei_k :: "'d bio \<Rightarrow> superblock \<Rightarrow> nat \<Rightarrow> u8 list \<Rightarrow> u32 \<Rightarrow> 'd fstate \<Rightarrow> (int \<times> 'd fstate) option" where
  "writei_k B sb k bytes off = (\<lambda>(tbl, d).
     do { (r, ip, d1) \<leftarrow> writei B sb kernel_vm (tbl ! k) False 0 off (of_nat (length bytes)) (store (\<lambda>_. 0) 0 bytes, ()) d;
          Some (r, tbl[k := ip], d1) })"

subsection \<open>Descriptors\<close>

definition argfd :: "sysargs \<Rightarrow> nat \<Rightarrow> ('d, 'u) fsys \<Rightarrow> (nat \<times> nat) option" where
  "argfd A n s =
     (let fd = arg_int A n in
      if fd < 0 \<or> fd \<ge> int NOFILE then None
      else case s_ofile s ! nat fd of None \<Rightarrow> None | Some f \<Rightarrow> Some (nat fd, f))"

definition fdalloc :: "nat \<Rightarrow> ('d, 'u) fsys \<Rightarrow> int \<times> ('d, 'u) fsys" where
  "fdalloc f s =
     (case find_idx (\<lambda>x. x = None) (s_ofile s) of
        None \<Rightarrow> (- 1, s)
      | Some fd \<Rightarrow> (int fd, s\<lparr>s_ofile := (s_ofile s)[fd := Some f]\<rparr>))"

definition set_fd :: "int \<Rightarrow> nat option \<Rightarrow> ('d, 'u) fsys \<Rightarrow> ('d, 'u) fsys" where
  "set_fd fd f s = s\<lparr>s_ofile := (s_ofile s)[nat fd := f]\<rparr>"

definition sys_dup :: "('d, 'u) fileops \<Rightarrow> ('d, 'u) sysfn" where
  "sys_dup F A s =
     (case argfd A 0 s of
        None \<Rightarrow> Some (- 1, s)
      | Some (_, f) \<Rightarrow>
          let (fd, s1) = fdalloc f s in
          if fd < 0 then Some (- 1, s1) else do { s2 \<leftarrow> filedup F f s1; Some (fd, s2) })"

definition sys_read :: "('d, 'u) fileops \<Rightarrow> ('d, 'u) sysfn" where
  "sys_read F A s =
     (let p = arg_addr A 1; n = arg_int A 2 in
      case argfd A 0 s of None \<Rightarrow> Some (- 1, s) | Some (_, f) \<Rightarrow> fileread F f p n s)"

definition sys_write :: "('d, 'u) fileops \<Rightarrow> ('d, 'u) sysfn" where
  "sys_write F A s =
     (let p = arg_addr A 1; n = arg_int A 2 in
      case argfd A 0 s of None \<Rightarrow> Some (- 1, s) | Some (_, f) \<Rightarrow> filewrite F f p n s)"

definition sys_close :: "('d, 'u) fileops \<Rightarrow> ('d, 'u) sysfn" where
  "sys_close F A s =
     (case argfd A 0 s of
        None \<Rightarrow> Some (- 1, s)
      | Some (fd, f) \<Rightarrow> do { s1 \<leftarrow> fileclose F f (set_fd (int fd) None s); Some (0, s1) })"

definition sys_fstat :: "('d, 'u) fileops \<Rightarrow> ('d, 'u) sysfn" where
  "sys_fstat F A s =
     (let st = arg_addr A 1 in
      case argfd A 0 s of None \<Rightarrow> Some (- 1, s) | Some (_, f) \<Rightarrow> filestat F f st s)"

subsection \<open>Links\<close>

definition link_bad :: "'d bio \<Rightarrow> superblock \<Rightarrow> nat \<Rightarrow> 'd fstate \<Rightarrow> (int \<times> 'd fstate) option" where
  "link_bad B sb ip fs =
     do { fs1 \<leftarrow> ilock B sb ip fs;
          fs2 \<leftarrow> iunlockput B sb ip (iupdate_k B sb ip (upd_ino ip (\<lambda>i. i\<lparr>i_nlink := i_nlink i - 1\<rparr>) fs1));
          Some (- 1, fs2) }"

definition link_enter :: "'d bio \<Rightarrow> superblock \<Rightarrow> nat \<Rightarrow> u8 list \<Rightarrow> nat \<Rightarrow> 'd fstate \<Rightarrow> (int \<times> 'd fstate) option" where
  "link_enter B sb cwd new ip fs =
     do { (q, name, fs1) \<leftarrow> nameiparent B sb cwd new (replicate DIRSIZ 0) fs;
          case q of
            None \<Rightarrow> link_bad B sb ip fs1
          | Some dp \<Rightarrow>
              do { fs2 \<leftarrow> ilock B sb dp fs1;
                   (e, fs3) \<leftarrow> (if i_dev (ino dp fs2) \<noteq> i_dev (ino ip fs2) then Some (- 1, fs2)
                               else dirlink B sb dp name (i_inum (ino ip fs2)) fs2);
                   fs4 \<leftarrow> iunlockput B sb dp fs3;
                   if e < 0 then link_bad B sb ip fs4
                   else do { fs5 \<leftarrow> iput B sb ip fs4; Some (0, fs5) } } }"

definition link_fs :: "'d bio \<Rightarrow> superblock \<Rightarrow> nat \<Rightarrow> u8 list \<Rightarrow> u8 list \<Rightarrow> 'd fstate \<Rightarrow> (int \<times> 'd fstate) option" where
  "link_fs B sb cwd old new fs =
     do { (r, fs1) \<leftarrow> namei B sb cwd old fs;
          case r of
            None \<Rightarrow> Some (- 1, fs1)
          | Some ip \<Rightarrow>
              do { fs2 \<leftarrow> ilock B sb ip fs1;
                   if i_type (ino ip fs2) = T_DIR then do { fs3 \<leftarrow> iunlockput B sb ip fs2; Some (- 1, fs3) }
                   else
                     do { fs4 \<leftarrow> iunlock_k ip (iupdate_k B sb ip (upd_ino ip (\<lambda>i. i\<lparr>i_nlink := i_nlink i + 1\<rparr>) fs2));
                          link_enter B sb cwd new ip fs4 } } }"

definition sys_link :: "'d bio \<Rightarrow> superblock \<Rightarrow> ('d, 'u) sysfn" where
  "sys_link B sb A s =
     (case arg_str A 0 MAXPATH of
        None \<Rightarrow> Some (- 1, s)
      | Some old \<Rightarrow> (case arg_str A 1 MAXPATH of None \<Rightarrow> Some (- 1, s) | Some new \<Rightarrow> on_fs (link_fs B sb (s_cwd s) old new) s))"

text \<open>\<^verbatim>\<open>isdirempty\<close> looks for a used entry behind the first two.\<close>

definition isdirempty :: "'d bio \<Rightarrow> superblock \<Rightarrow> nat \<Rightarrow> 'd fstate \<Rightarrow> (bool \<times> 'd fstate) option" where
  "isdirempty B sb k = (\<lambda>(tbl, d).
     do { (r, _, dp, d1) \<leftarrow> dirscan B sb (\<lambda>de. de_inum de \<noteq> 0) 32 (tbl ! k) d; Some (r = None, tbl[k := dp], d1) })"

definition unlink_bad :: "'d bio \<Rightarrow> superblock \<Rightarrow> nat \<Rightarrow> 'd fstate \<Rightarrow> (int \<times> 'd fstate) option" where
  "unlink_bad B sb dp fs = do { fs1 \<leftarrow> iunlockput B sb dp fs; Some (- 1, fs1) }"

definition unlink_entry :: "'d bio \<Rightarrow> superblock \<Rightarrow> nat \<Rightarrow> nat \<Rightarrow> u32 \<Rightarrow> 'd fstate \<Rightarrow> (int \<times> 'd fstate) option" where
  "unlink_entry B sb dp ip off fs =
     do { (r, fs1) \<leftarrow> writei_k B sb dp (replicate 16 0) off fs;
          if r \<noteq> 16 then None
          else
            let fs2 = (if i_type (ino ip fs1) = T_DIR
                       then iupdate_k B sb dp (upd_ino dp (\<lambda>i. i\<lparr>i_nlink := i_nlink i - 1\<rparr>) fs1) else fs1)
            in do { fs3 \<leftarrow> iunlockput B sb dp fs2;
                    fs4 \<leftarrow> iunlockput B sb ip (iupdate_k B sb ip (upd_ino ip (\<lambda>i. i\<lparr>i_nlink := i_nlink i - 1\<rparr>) fs3));
                    Some (0, fs4) } }"

text \<open>The part of \<^verbatim>\<open>sys_unlink\<close> for a name that has been found.\<close>

definition unlink_file :: "'d bio \<Rightarrow> superblock \<Rightarrow> nat \<Rightarrow> nat \<Rightarrow> u32 \<Rightarrow> 'd fstate \<Rightarrow> (int \<times> 'd fstate) option" where
  "unlink_file B sb dp ip off fs =
     do { fs1 \<leftarrow> ilock B sb ip fs;
          if sint (i_nlink (ino ip fs1)) < 1 then None
          else
            do { (e, fs2) \<leftarrow> (if i_type (ino ip fs1) = T_DIR then isdirempty B sb ip fs1 else Some (True, fs1));
                 if \<not> e then do { fs3 \<leftarrow> iunlockput B sb ip fs2; unlink_bad B sb dp fs3 }
                 else unlink_entry B sb dp ip off fs2 } }"

definition unlink_fs :: "'d bio \<Rightarrow> superblock \<Rightarrow> nat \<Rightarrow> u8 list \<Rightarrow> 'd fstate \<Rightarrow> (int \<times> 'd fstate) option" where
  "unlink_fs B sb cwd path fs =
     do { (q, name, fs1) \<leftarrow> nameiparent B sb cwd path (replicate DIRSIZ 0) fs;
          case q of
            None \<Rightarrow> Some (- 1, fs1)
          | Some dp \<Rightarrow>
              do { fs2 \<leftarrow> ilock B sb dp fs1;
                   if namecmp name [46] = 0 \<or> namecmp name [46, 46] = 0 then unlink_bad B sb dp fs2
                   else
                     do { (r, fs3) \<leftarrow> dirlookup B sb dp name fs2;
                          case r of
                            None \<Rightarrow> unlink_bad B sb dp fs3
                          | Some (ip, off) \<Rightarrow> unlink_file B sb dp ip off fs3 } } }"

definition sys_unlink :: "'d bio \<Rightarrow> superblock \<Rightarrow> ('d, 'u) sysfn" where
  "sys_unlink B sb A s =
     (case arg_str A 0 MAXPATH of None \<Rightarrow> Some (- 1, s) | Some path \<Rightarrow> on_fs (unlink_fs B sb (s_cwd s) path) s)"

subsection \<open>Creating files\<close>

definition create_fail :: "'d bio \<Rightarrow> superblock \<Rightarrow> nat \<Rightarrow> nat \<Rightarrow> 'd fstate \<Rightarrow> (nat option \<times> 'd fstate) option" where
  "create_fail B sb ip dp fs =
     do { fs1 \<leftarrow> iunlockput B sb ip (iupdate_k B sb ip (upd_ino ip (\<lambda>i. i\<lparr>i_nlink := 0\<rparr>) fs));
          fs2 \<leftarrow> iunlockput B sb dp fs1;
          Some (None, fs2) }"

text \<open>The entries \<^verbatim>\<open>"."\<close> and \<^verbatim>\<open>".."\<close> of a new directory; the second is not tried when the first fails.\<close>

definition dot_entries :: "'d bio \<Rightarrow> superblock \<Rightarrow> nat \<Rightarrow> nat \<Rightarrow> 'd fstate \<Rightarrow> (bool \<times> 'd fstate) option" where
  "dot_entries B sb ip dp fs =
     do { (r, fs1) \<leftarrow> dirlink B sb ip [46] (i_inum (ino ip fs)) fs;
          if r < 0 then Some (False, fs1)
          else do { (q, fs2) \<leftarrow> dirlink B sb ip [46, 46] (i_inum (ino dp fs1)) fs1; Some (0 \<le> q, fs2) } }"

text \<open>The entry in the parent directory, whose link count a new directory raises.\<close>

definition create_link :: "'d bio \<Rightarrow> superblock \<Rightarrow> u16 \<Rightarrow> u8 list \<Rightarrow> nat \<Rightarrow> nat \<Rightarrow> 'd fstate \<Rightarrow> (nat option \<times> 'd fstate) option" where
  "create_link B sb type name dp ip fs =
     do { (r, fs1) \<leftarrow> dirlink B sb dp name (i_inum (ino ip fs)) fs;
          if r < 0 then create_fail B sb ip dp fs1
          else do { fs2 \<leftarrow> iunlockput B sb dp
                      (if type = T_DIR then iupdate_k B sb dp (upd_ino dp (\<lambda>i. i\<lparr>i_nlink := i_nlink i + 1\<rparr>) fs1) else fs1);
                    Some (Some ip, fs2) } }"

text \<open>The part of \<^verbatim>\<open>create\<close> after \<^verbatim>\<open>ialloc\<close>.\<close>

definition create_new :: "'d bio \<Rightarrow> superblock \<Rightarrow> u16 \<Rightarrow> u16 \<Rightarrow> u16 \<Rightarrow> u8 list \<Rightarrow> nat \<Rightarrow> nat \<Rightarrow> 'd fstate \<Rightarrow>
    (nat option \<times> 'd fstate) option" where
  "create_new B sb type major minor name dp ip fs =
     do { fs1 \<leftarrow> ilock B sb ip fs;
          let fs2 = iupdate_k B sb ip (upd_ino ip (\<lambda>i. i\<lparr>i_major := major, i_minor := minor, i_nlink := 1\<rparr>) fs1)
          in do { (ok, fs3) \<leftarrow> (if type = T_DIR then dot_entries B sb ip dp fs2 else Some (True, fs2));
                  if \<not> ok then create_fail B sb ip dp fs3 else create_link B sb type name dp ip fs3 } }"

text \<open>The two ways \<^verbatim>\<open>create\<close> goes on: the name is in the directory, or not.\<close>

definition create_found :: "'d bio \<Rightarrow> superblock \<Rightarrow> u16 \<Rightarrow> nat \<Rightarrow> nat \<Rightarrow> 'd fstate \<Rightarrow> (nat option \<times> 'd fstate) option" where
  "create_found B sb type dp ip fs =
     do { fs1 \<leftarrow> iunlockput B sb dp fs;
          fs2 \<leftarrow> ilock B sb ip fs1;
          if type = T_SYMLINK \<or> (type = T_FILE \<and> (i_type (ino ip fs2) = T_FILE \<or> i_type (ino ip fs2) = T_DEVICE))
          then Some (Some ip, fs2)
          else do { fs3 \<leftarrow> iunlockput B sb ip fs2; Some (None, fs3) } }"

definition create_absent :: "'d bio \<Rightarrow> superblock \<Rightarrow> u16 \<Rightarrow> u16 \<Rightarrow> u16 \<Rightarrow> u8 list \<Rightarrow> nat \<Rightarrow> 'd fstate \<Rightarrow> (nat option \<times> 'd fstate) option" where
  "create_absent B sb type major minor name dp fs =
     do { (n, fs1) \<leftarrow> ialloc B sb (i_dev (ino dp fs)) type fs;
          case n of
            None \<Rightarrow> do { fs2 \<leftarrow> iunlockput B sb dp fs1; Some (None, fs2) }
          | Some ip \<Rightarrow> create_new B sb type major minor name dp ip fs1 }"

definition create :: "'d bio \<Rightarrow> superblock \<Rightarrow> nat \<Rightarrow> u8 list \<Rightarrow> u16 \<Rightarrow> u16 \<Rightarrow> u16 \<Rightarrow> 'd fstate \<Rightarrow> (nat option \<times> 'd fstate) option" where
  "create B sb cwd path type major minor fs =
     do { (q, name, fs1) \<leftarrow> nameiparent B sb cwd path (replicate DIRSIZ 0) fs;
          case q of
            None \<Rightarrow> Some (None, fs1)
          | Some dp \<Rightarrow>
              do { fs2 \<leftarrow> ilock B sb dp fs1;
                   (r, fs3) \<leftarrow> dirlookup B sb dp name fs2;
                   case r of
                     Some (ip, _) \<Rightarrow> create_found B sb type dp ip fs3
                   | None \<Rightarrow> create_absent B sb type major minor name dp fs3 } }"

text \<open>\<^verbatim>\<open>sys_symlink\<close> stores the target with its terminator in the inode \<^verbatim>\<open>create\<close> returned.\<close>

definition symlink_write :: "'d bio \<Rightarrow> superblock \<Rightarrow> u8 list \<Rightarrow> nat \<Rightarrow> 'd fstate \<Rightarrow> (int \<times> 'd fstate) option" where
  "symlink_write B sb target ip fs =
     (let len = int (length target) in
      do { (n, fs1) \<leftarrow> writei_k B sb ip (target @ [0]) 0 fs;
           if n \<noteq> len + 1 then
             do { fs2 \<leftarrow> iunlockput B sb ip (iupdate_k B sb ip (upd_ino ip (\<lambda>i. i\<lparr>i_nlink := 0\<rparr>) fs1)); Some (- 1, fs2) }
           else do { fs2 \<leftarrow> iunlockput B sb ip fs1; Some (0, fs2) } })"

definition symlink_fs :: "'d bio \<Rightarrow> superblock \<Rightarrow> nat \<Rightarrow> u8 list \<Rightarrow> u8 list \<Rightarrow> 'd fstate \<Rightarrow> (int \<times> 'd fstate) option" where
  "symlink_fs B sb cwd target path fs =
     do { (r, fs1) \<leftarrow> create B sb cwd path T_SYMLINK 0 0 fs;
          case r of None \<Rightarrow> Some (- 1, fs1) | Some ip \<Rightarrow> symlink_write B sb target ip fs1 }"

definition sys_symlink :: "'d bio \<Rightarrow> superblock \<Rightarrow> ('d, 'u) sysfn" where
  "sys_symlink B sb A s =
     (case arg_str A 0 MAXPATH of
        None \<Rightarrow> Some (- 1, s)
      | Some target \<Rightarrow>
          (case arg_str A 1 MAXPATH of None \<Rightarrow> Some (- 1, s) | Some path \<Rightarrow> on_fs (symlink_fs B sb (s_cwd s) target path) s))"

definition make_fs :: "'d bio \<Rightarrow> superblock \<Rightarrow> nat \<Rightarrow> u8 list \<Rightarrow> u16 \<Rightarrow> u16 \<Rightarrow> u16 \<Rightarrow> 'd fstate \<Rightarrow> (int \<times> 'd fstate) option" where
  "make_fs B sb cwd path type major minor fs =
     do { (r, fs1) \<leftarrow> create B sb cwd path type major minor fs;
          case r of None \<Rightarrow> Some (- 1, fs1) | Some ip \<Rightarrow> do { fs2 \<leftarrow> iunlockput B sb ip fs1; Some (0, fs2) } }"

definition sys_mkdir :: "'d bio \<Rightarrow> superblock \<Rightarrow> ('d, 'u) sysfn" where
  "sys_mkdir B sb A s =
     (case arg_str A 0 MAXPATH of None \<Rightarrow> Some (- 1, s) | Some path \<Rightarrow> on_fs (make_fs B sb (s_cwd s) path T_DIR 0 0) s)"

definition sys_mknod :: "'d bio \<Rightarrow> superblock \<Rightarrow> ('d, 'u) sysfn" where
  "sys_mknod B sb A s =
     (let major = arg_int A 1; minor = arg_int A 2 in
      case arg_str A 0 MAXPATH of
        None \<Rightarrow> Some (- 1, s)
      | Some path \<Rightarrow> on_fs (make_fs B sb (s_cwd s) path T_DEVICE (of_int major) (of_int minor)) s)"

definition chdir_fs :: "'d bio \<Rightarrow> superblock \<Rightarrow> nat \<Rightarrow> u8 list \<Rightarrow> 'd fstate \<Rightarrow> (nat option \<times> 'd fstate) option" where
  "chdir_fs B sb cwd path fs =
     do { (r, fs1) \<leftarrow> namei B sb cwd path fs;
          case r of
            None \<Rightarrow> Some (None, fs1)
          | Some ip \<Rightarrow>
              do { fs2 \<leftarrow> ilock B sb ip fs1;
                   if i_type (ino ip fs2) \<noteq> T_DIR then do { fs3 \<leftarrow> iunlockput B sb ip fs2; Some (None, fs3) }
                   else do { fs3 \<leftarrow> iunlock_k ip fs2; fs4 \<leftarrow> iput B sb cwd fs3; Some (Some ip, fs4) } } }"

definition sys_chdir :: "'d bio \<Rightarrow> superblock \<Rightarrow> ('d, 'u) sysfn" where
  "sys_chdir B sb A s =
     (case arg_str A 0 MAXPATH of
        None \<Rightarrow> Some (- 1, s)
      | Some path \<Rightarrow>
          do { (r, s1) \<leftarrow> on_fs (chdir_fs B sb (s_cwd s) path) s;
               case r of None \<Rightarrow> Some (- 1, s1) | Some ip \<Rightarrow> Some (0, s1\<lparr>s_cwd := ip\<rparr>) })"

subsection \<open>Opening files\<close>

text \<open>
  The loop that follows symbolic links. \<^verbatim>\<open>buf\<close> is the array \<^verbatim>\<open>path\<close>; \<^verbatim>\<open>len\<close> is 0, so that one byte of the link is
  read into its first element.
\<close>

function follow :: "'d bio \<Rightarrow> superblock \<Rightarrow> nat \<Rightarrow> nat \<Rightarrow> u8 list \<Rightarrow> nat \<Rightarrow> 'd fstate \<Rightarrow> (nat option \<times> 'd fstate) option" where
  "follow B sb cwd count buf ip fs =
     (if i_type (ino ip fs) = T_SYMLINK \<and> count < 10 then
        (case readi B sb kernel_vm (ino ip fs) False 0 0 1 (\<lambda>_. hd buf, ()) (snd fs) of
           None \<Rightarrow> None
         | Some (r, ip1, (m, _), d1) \<Rightarrow>
             do { fs1 \<leftarrow> iunlockput B sb ip ((fst fs)[ip := ip1], d1);
                  if r \<noteq> 1 then Some (None, fs1)
                  else
                    let buf1 = m 0 # tl buf in
                    do { (q, fs2) \<leftarrow> namei B sb cwd (takeWhile (\<lambda>c. c \<noteq> 0) buf1) fs1;
                         case q of
                           None \<Rightarrow> Some (None, fs2)
                         | Some next \<Rightarrow> do { fs3 \<leftarrow> ilock B sb next fs2; follow B sb cwd (count + 1) buf1 next fs3 } } })
      else if count \<ge> 10 then do { fs1 \<leftarrow> iunlockput B sb ip fs; Some (None, fs1) }
      else Some (Some ip, fs))"
  by pat_completeness auto

termination
  by (relation "measure (\<lambda>(B, sb, cwd, count, buf, ip, fs). 10 - count)") auto

declare follow.simps [simp del]

text \<open>
  The first half of \<^verbatim>\<open>sys_open\<close>: the locked inode, or \<open>None\<close> when the call returns -1. \<open>junk\<close> is what the array
  \<^verbatim>\<open>path\<close> holds behind the terminator.
\<close>

definition open_inode :: "'d bio \<Rightarrow> superblock \<Rightarrow> nat \<Rightarrow> u32 \<Rightarrow> u8 list \<Rightarrow> u8 list \<Rightarrow> 'd fstate \<Rightarrow> (nat option \<times> 'd fstate) option" where
  "open_inode B sb cwd omode path junk fs =
     (if omode AND O_CREATE \<noteq> 0 then create B sb cwd path T_FILE 0 0 fs
      else
        do { (r, fs1) \<leftarrow> namei B sb cwd path fs;
             case r of
               None \<Rightarrow> Some (None, fs1)
             | Some ip \<Rightarrow>
                 do { fs2 \<leftarrow> ilock B sb ip fs1;
                      (q, fs3) \<leftarrow> (if i_type (ino ip fs2) = T_SYMLINK \<and> omode AND O_NOFOLLOW = 0
                                  then follow B sb cwd 0 (path @ 0 # junk) ip fs2 else Some (Some ip, fs2));
                      case q of
                        None \<Rightarrow> Some (None, fs3)
                      | Some ip1 \<Rightarrow>
                          if i_type (ino ip1 fs3) = T_DIR \<and> omode \<noteq> 0
                          then do { fs4 \<leftarrow> iunlockput B sb ip1 fs3; Some (None, fs4) }
                          else Some (Some ip1, fs3) } })"

definition open_file :: "u32 \<Rightarrow> nat \<Rightarrow> inode \<Rightarrow> file_t \<Rightarrow> file_t" where
  "open_file omode ip i f =
     (if i_type i = T_DEVICE then f\<lparr>f_type := FD_DEVICE, f_major := i_major i\<rparr> else f\<lparr>f_type := FD_INODE, f_off := 0\<rparr>)
       \<lparr>f_ip := ip, f_readable := omode AND O_WRONLY = 0, f_writable := omode AND O_WRONLY \<noteq> 0 \<or> omode AND O_RDWR \<noteq> 0\<rparr>"

definition fail_open :: "'d bio \<Rightarrow> superblock \<Rightarrow> nat \<Rightarrow> ('d, 'u) fsys \<Rightarrow> (int \<times> ('d, 'u) fsys) option" where
  "fail_open B sb ip s = do { (_, s1) \<leftarrow> on_fs (ret_unit (iunlockput B sb ip)) s; Some (- 1, s1) }"

definition sys_open :: "'d bio \<Rightarrow> superblock \<Rightarrow> ('d, 'u) fileops \<Rightarrow> u8 list \<Rightarrow> ('d, 'u) sysfn" where
  "sys_open B sb F junk A s =
     (let omode = of_int (arg_int A 1) in
      case arg_str A 0 MAXPATH of
        None \<Rightarrow> Some (- 1, s)
      | Some path \<Rightarrow>
          do { (r, s1) \<leftarrow> on_fs (open_inode B sb (s_cwd s) omode path junk) s;
               case r of
                 None \<Rightarrow> Some (- 1, s1)
               | Some ip \<Rightarrow>
                   let i = ino ip (s_fs s1) in
                   if i_type i = T_DEVICE \<and> (sint (i_major i) < 0 \<or> sint (i_major i) \<ge> NDEV) then fail_open B sb ip s1
                   else
                     (case filealloc F s1 of
                        (None, s2) \<Rightarrow> fail_open B sb ip s2
                      | (Some f, s2) \<Rightarrow>
                          let (fd, s3) = fdalloc f s2 in
                          if fd < 0 then do { s4 \<leftarrow> fileclose F f s3; fail_open B sb ip s4 }
                          else
                            let s4 = s3\<lparr>s_ftab := (s_ftab s3)[f := open_file omode ip (ino ip (s_fs s3)) (s_ftab s3 ! f)]\<rparr> in
                            do { (_, s5) \<leftarrow> (if omode AND O_TRUNC \<noteq> 0 \<and> i_type (ino ip (s_fs s4)) = T_FILE
                                            then on_fs (ret_unit (itrunc_k B sb ip)) s4 else Some ((), s4));
                                 (_, s6) \<leftarrow> on_fs (ret_unit (iunlock_k ip)) s5;
                                 Some (fd, s6) }) })"

subsection \<open>Programs and pipes\<close>

text \<open>The loop that collects the arguments of \<^verbatim>\<open>exec\<close>: the pages with the strings, and whether it succeeded.\<close>

function exec_args :: "('d, 'u) fileops \<Rightarrow> sysargs \<Rightarrow> u64 \<Rightarrow> (nat \<times> u8 list) list \<Rightarrow> ('d, 'u) fsys \<Rightarrow>
    bool \<times> (nat \<times> u8 list) list \<times> ('d, 'u) fsys" where
  "exec_args F A uargv argv s =
     (let i = length argv in
      if i \<ge> MAXARG then (False, argv, s)
      else case fetch_addr A (uargv + 8 * of_nat i) of
             None \<Rightarrow> (False, argv, s)
           | Some uarg \<Rightarrow>
               if uarg = 0 then (True, argv, s)
               else case arg_page F s of
                      (None, s1) \<Rightarrow> (False, argv, s1)
                    | (Some p, s1) \<Rightarrow>
                        (case fetch_str A uarg 4096 of
                           None \<Rightarrow> (False, argv @ [(p, [])], s1)
                         | Some str \<Rightarrow> exec_args F A uargv (argv @ [(p, str)]) s1))"
  by pat_completeness auto

termination
  by (relation "measure (\<lambda>(F, A, uargv, argv, s). MAXARG - length argv)") auto

declare exec_args.simps [simp del]

definition free_args :: "('d, 'u) fileops \<Rightarrow> (nat \<times> u8 list) list \<Rightarrow> ('d, 'u) fsys \<Rightarrow> ('d, 'u) fsys" where
  "free_args F argv s = fold (\<lambda>a. arg_page_free F (fst a)) argv s"

definition sys_exec :: "('d, 'u) fileops \<Rightarrow> ('d, 'u) sysfn" where
  "sys_exec F A s =
     (let uargv = arg_addr A 1 in
      case arg_str A 0 MAXPATH of
        None \<Rightarrow> Some (- 1, s)
      | Some path \<Rightarrow>
          (case exec_args F A uargv [] s of
             (False, argv, s1) \<Rightarrow> Some (- 1, free_args F argv s1)
           | (True, argv, s1) \<Rightarrow>
               let (ret, s2) = kexec F path (map snd argv) s1 in Some (ret, free_args F argv s2)))"

definition close_both :: "('d, 'u) fileops \<Rightarrow> nat \<Rightarrow> nat \<Rightarrow> ('d, 'u) fsys \<Rightarrow> (int \<times> ('d, 'u) fsys) option" where
  "close_both F rfile wfile s = do { s1 \<leftarrow> fileclose F rfile s; s2 \<leftarrow> fileclose F wfile s1; Some (- 1, s2) }"

definition sys_pipe :: "('d, 'u) fileops \<Rightarrow> ('d, 'u) sysfn" where
  "sys_pipe F A s =
     (let fdarray = arg_addr A 0 in
      case pipealloc F s of
        (None, s1) \<Rightarrow> Some (- 1, s1)
      | (Some (rfile, wfile), s1) \<Rightarrow>
          let (fd0, s2) = fdalloc rfile s1 in
          if fd0 < 0 then close_both F rfile wfile s2
          else
            let (fd1, s3) = fdalloc wfile s2 in
            if fd1 < 0 then close_both F rfile wfile (set_fd fd0 None s3)
            else
              let (ok0, s4) = copyout_fd F fdarray fd0 s3 in
              if \<not> ok0 then close_both F rfile wfile (set_fd fd1 None (set_fd fd0 None s4))
              else
                let (ok1, s5) = copyout_fd F (fdarray + 4) fd1 s4 in
                if \<not> ok1 then close_both F rfile wfile (set_fd fd1 None (set_fd fd0 None s5))
                else Some (0, s5))"

subsection \<open>The table\<close>

text \<open>The handlers of the processes, which Task 5.2 does not change, are arguments.\<close>

definition syscalls52 :: "'d bio \<Rightarrow> superblock \<Rightarrow> ('d, 'u) fileops \<Rightarrow> u8 list \<Rightarrow> (nat \<Rightarrow> ('d, 'u) sysfn) \<Rightarrow> ('d, 'u) sysfn option list" where
  "syscalls52 B sb F junk ext = None # map Some
     [ext 1, ext 2, ext 3, sys_pipe F, sys_read F, ext 6, sys_exec F, sys_fstat F, sys_chdir B sb, sys_dup F, ext 11, ext 12,
      ext 13, ext 14, sys_open B sb F junk, sys_write F, sys_mknod B sb, sys_unlink B sb, sys_link B sb, sys_mkdir B sb,
      sys_close F, sys_symlink B sb]"

end
