(* ===== verification/SysOpen.thy ===== *)
theory SysOpen
  imports Sysfile
begin

unbundle bit_operations_syntax

text \<open>
  What \<^verbatim>\<open>sys_open\<close> of Lab 5, Task 5.2 does with symbolic links. \<open>chase\<close> describes the loop on inode numbers: each
  round replaces the first byte of the path by the first byte of the link's target and walks that path. The
  code computes exactly this, and so a link whose target begins with the same byte as the path that leads
  to it is never resolved.
\<close>

subsection \<open>The abstract loop\<close>

definition start_of :: "nat \<Rightarrow> u8 list \<Rightarrow> nat" where
  "start_of ci p = (if p \<noteq> [] \<and> hd p = slash then 1 else ci)"

abbreviation cstring :: "u8 list \<Rightarrow> u8 list" where
  "cstring buf \<equiv> takeWhile (\<lambda>c. c \<noteq> 0) buf"

function chase :: "'d bio \<Rightarrow> superblock \<Rightarrow> 'd \<Rightarrow> nat \<Rightarrow> nat \<Rightarrow> u8 list \<Rightarrow> nat \<Rightarrow> nat option" where
  "chase B sb d ci count buf i =
     (if d_type (on_disk B sb ROOTDEV i d) = T_SYMLINK \<and> count < 10 then
        if d_size (on_disk B sb ROOTDEV i d) = 0 then None
        else
          let buf1 = fbyte B (inode_at B sb ROOTDEV i d) d 0 # tl buf in
          (case walk B sb ROOTDEV d (start_of ci (cstring buf1)) (path_elems (cstring buf1)) of
             None \<Rightarrow> None
           | Some j \<Rightarrow> chase B sb d ci (count + 1) buf1 j)
      else if count \<ge> 10 then None
      else Some i)"
  by pat_completeness auto

termination
  by (relation "measure (\<lambda>(B, sb, d, ci, count, buf, i). 10 - count)") auto

declare chase.simps [simp del]

text \<open>A link whose first byte is the first byte of the path leads back to itself.\<close>

lemma chase_same_first:
  assumes "walk B sb ROOTDEV d (start_of ci (cstring buf)) (path_elems (cstring buf)) = Some i" and "buf \<noteq> []"
    and "d_type (on_disk B sb ROOTDEV i d) = T_SYMLINK" and "fbyte B (inode_at B sb ROOTDEV i d) d 0 = hd buf"
  shows "chase B sb d ci count buf i = None"
proof (induction "10 - count" arbitrary: count)
  case 0
  then show ?case by (subst chase.simps) simp
next
  case (Suc n)
  have "chase B sb d ci (count + 1) buf i = None" using Suc.hyps(2) by (intro Suc.hyps(1)) simp
  moreover have "hd buf # tl buf = buf" using assms(2) by simp
  ultimately show ?case using assms(1,3,4) Suc.hyps(2) by (subst chase.simps) simp
qed

subsection \<open>The code follows it\<close>

text \<open>Symbolic links whose contents are on disk.\<close>

definition links_ok :: "'d bio \<Rightarrow> superblock \<Rightarrow> 'd \<Rightarrow> bool" where
  "links_ok B sb d \<longleftrightarrow> (\<forall>i<unat (sb_ninodes sb). alloced B sb ROOTDEV i d \<longrightarrow> d_type (on_disk B sb ROOTDEV i d) = T_SYMLINK \<longrightarrow>
     unat (d_size (on_disk B sb ROOTDEV i d)) \<le> MAXFILE * BSIZE \<and>
     (\<forall>p<unat (d_size (on_disk B sb ROOTDEV i d)). fblock B (inode_at B sb ROOTDEV i d) d (p div BSIZE) \<noteq> 0))"

text \<open>A locked and loaded entry for inode \<open>i\<close>.\<close>

definition locked_at :: "'d bio \<Rightarrow> superblock \<Rightarrow> nat \<Rightarrow> nat \<Rightarrow> itable \<Rightarrow> 'd \<Rightarrow> bool" where
  "locked_at B sb k i tbl d \<longleftrightarrow> cached B sb ROOTDEV {k} tbl d \<and> k < NINODE \<and> i < unat (sb_ninodes sb) \<and>
     ikey (tbl ! k) = (ROOTDEV, of_nat i) \<and> dinode_of (tbl ! k) = on_disk B sb ROOTDEV i d \<and> in_step B sb (tbl ! k) d \<and> i_valid (tbl ! k)"

lemma locked_atD:
  assumes "locked_at B sb k i tbl d"
  shows "cached B sb ROOTDEV {k} tbl d" and "k < NINODE" and "i < unat (sb_ninodes sb)" and "ikey (tbl ! k) = (ROOTDEV, of_nat i)"
    and "dinode_of (tbl ! k) = on_disk B sb ROOTDEV i d" and "in_step B sb (tbl ! k) d" and "0 < i_ref (tbl ! k)"
    and "i_dev (tbl ! k) = ROOTDEV" and "alloced B sb ROOTDEV i d" and "i_valid (tbl ! k)"
proof -
  show *: "cached B sb ROOTDEV {k} tbl d" "k < NINODE" "i < unat (sb_ninodes sb)" "ikey (tbl ! k) = (ROOTDEV, of_nat i)"
    "dinode_of (tbl ! k) = on_disk B sb ROOTDEV i d" "in_step B sb (tbl ! k) d" "i_valid (tbl ! k)" using assms by (auto simp: locked_at_def)
  show "0 < i_ref (tbl ! k)" using itab_invD(3) [OF cachedD(1) [OF *(1)] *(2)] cachedD(2) [OF *(1,2)] by simp
  show "i_dev (tbl ! k) = ROOTDEV" using *(4) by (simp add: ikey_def)
  have "i < 2 ^ 32" using *(3) unsigned_less [of "sb_ninodes sb", where ?'a = nat] by simp
  then show "alloced B sb ROOTDEV i d" using *(4,6) by (simp add: in_step_def ikey_def unat_of_nat32)
qed

lemma ilock_at:
  assumes c: "cached B sb ROOTDEV {} tbl d" and k: "k < NINODE" "0 < i_ref (tbl ! k)" and key: "ikey (tbl ! k) = (ROOTDEV, of_nat i)"
    and i: "i < unat (sb_ninodes sb)"
  shows "\<exists>tbl'. ilock B sb k (tbl, d) = Some (tbl', d) \<and> locked_at B sb k i tbl' d \<and> refs tbl' = refs tbl \<and> keeps R tbl tbl' \<and> i_valid (tbl' ! k)"
proof -
  obtain ip where lk: "ilock B sb k (tbl, d) = Some (tbl[k := ip], d)" "cached B sb ROOTDEV {k} (tbl[k := ip]) d"
    and ip: "ikey ip = ikey (tbl ! k)" "i_ref ip = i_ref (tbl ! k)" "i_valid ip" "dinode_of ip = on_disk B sb ROOTDEV (unat (i_inum ip)) d" "in_step B sb ip d"
    using ilock_cached [OF c k] by auto
  have len: "length tbl = NINODE" using itab_invD(1) [OF cachedD(1) [OF c]] .
  have "i < 2 ^ 32" using i unsigned_less [of "sb_ninodes sb", where ?'a = nat] by simp
  then have "unat (i_inum ip) = i" using ip(1) key by (simp add: ikey_def unat_of_nat32)
  then have "locked_at B sb k i (tbl[k := ip]) d" using lk ip k len key i by (simp add: locked_at_def)
  moreover have "refs (tbl[k := ip]) = refs tbl" using k len ip by (intro same_refs) simp_all
  moreover have "keeps R tbl (tbl[k := ip])" by (rule keeps_same) (use ip k len in \<open>auto simp: nth_list_update_if\<close>)
  moreover have "i_valid (tbl[k := ip] ! k)" using k len ip by simp
  ultimately show ?thesis using lk(1) by blast
qed

lemma iunlockput_at:
  assumes tr: "tree_ok B sb ROOTDEV d" and l: "locked_at B sb k i tbl d"
    and R: "R = (refs tbl)((ROOTDEV, of_nat i) := refs tbl (ROOTDEV, of_nat i) - 1)"
  shows "\<exists>tbl'. iunlockput B sb k (tbl, d) = Some (tbl', d) \<and> cached B sb ROOTDEV {} tbl' d \<and> refs tbl' = R \<and> keeps R tbl tbl'"
proof -
  note f = locked_atD [OF l]
  obtain t where u: "iunlockput B sb k (tbl, d) = Some (t, d)" "cached B sb ROOTDEV {} t d" "refs t = R"
    and t: "\<forall>j. j \<noteq> k \<longrightarrow> t ! j = tbl ! j" "t ! k = (tbl ! k)\<lparr>i_locked := False, i_ref := i_ref (tbl ! k) - 1\<rparr>"
    using iunlockput_cached [OF tr f(1,2)] R f(4) by auto
  have "keeps R tbl t"
    by (rule keeps_release [OF cachedD(1) [OF f(1)] f(2,7) t(1)]) (use t(2) R f(4) in \<open>simp_all add: ikey_def\<close>)
  then show ?thesis using u by blast
qed

text \<open>Reading the first byte of a link.\<close>

lemma read_link:
  assumes B: "bio_laws B" and sb: "sb_ok sb" and tr: "tree_ok B sb ROOTDEV d" and ln: "links_ok B sb d" and l: "locked_at B sb k i tbl d"
    and ty: "d_type (on_disk B sb ROOTDEV i d) = T_SYMLINK"
  shows "\<exists>m. readi B sb kernel_vm (tbl ! k) False 0 0 1 (\<lambda>_. c, ()) d =
      Some (if d_size (on_disk B sb ROOTDEV i d) = 0 then 0 else 1, tbl ! k, (m, ()), d) \<and>
    (d_size (on_disk B sb ROOTDEV i d) \<noteq> 0 \<longrightarrow> m 0 = fbyte B (inode_at B sb ROOTDEV i d) d 0)"
proof -
  note f = locked_atD [OF l] and ld = loaded_dir [OF locked_atD(5,8) [OF l]]
  let ?ip = "tbl ! k" and ?q = "inode_at B sb ROOTDEV i d"
  have od: "on_disk B sb ROOTDEV i d = dinode_of ?ip" using f(5) by simp
  have sz: "i_size ?ip = d_size (on_disk B sb ROOTDEV i d)" unfolding od by (simp add: dinode_of_def)
  have same: "i_dev ?ip = i_dev ?q" "i_addrs ?ip = i_addrs ?q" using f(8) ld(5) by simp_all
  have fs: "fs_wf B sb (i_dev ?ip) d" using tree_okD(1) [OF tr] f(8) by simp
  have ok: "unat (i_size ?ip) \<le> MAXFILE * BSIZE" "\<forall>p<unat (i_size ?ip). fblock B ?ip d (p div BSIZE) \<noteq> 0"
    using ln f(3,9) ty sz pval_addrs_cong [OF same, of B d] unfolding links_ok_def fblock_def by simp_all
  have "min 1 (unat (i_size ?ip)) = (if d_size (on_disk B sb ROOTDEV i d) = 0 then 0 else 1)"
    using sz by (simp add: min_def unat_gt_0 Suc_le_eq)
  then have "readi B sb kernel_vm ?ip False 0 0 1 (\<lambda>_. c, ()) d =
      Some (if d_size (on_disk B sb ROOTDEV i d) = 0 then 0 else 1, ?ip,
        (store (\<lambda>_. c) 0 (map (fbyte B ?ip d) [0..<if d_size (on_disk B sb ROOTDEV i d) = 0 then 0 else 1]), ()), d)"
    using readi_spec [OF B sb fs f(6) ok _ _ dst_ok_kernel, of 0 1 kernel_vm 0 "(\<lambda>_. c, ())"] by (simp add: either_copyout_def)
  moreover have "fbyte B ?ip d 0 = fbyte B ?q d 0" using fbyte_cong [OF same] .
  ultimately show ?thesis by auto
qed

text \<open>The result of following a link: a locked entry and one more reference than in \<open>R\<close>, or none.\<close>

definition opened :: "'d bio \<Rightarrow> superblock \<Rightarrow> (u32 \<times> u32 \<Rightarrow> int) \<Rightarrow> nat option \<Rightarrow> nat option \<Rightarrow> itable \<Rightarrow> 'd \<Rightarrow> bool" where
  "opened B sb R goal r tbl d \<longleftrightarrow>
     (case goal of
        None \<Rightarrow> r = None \<and> cached B sb ROOTDEV {} tbl d \<and> refs tbl = R
      | Some i \<Rightarrow> \<exists>k. r = Some k \<and> locked_at B sb k i tbl d \<and> refs tbl = R((ROOTDEV, of_nat i) := R (ROOTDEV, of_nat i) + 1))"

text \<open>What \<^verbatim>\<open>namei\<close> needs of the current directory, under the reference counts \<open>R\<close>.\<close>

definition cwd_ok :: "superblock \<Rightarrow> (u32 \<times> u32 \<Rightarrow> int) \<Rightarrow> nat \<Rightarrow> nat \<Rightarrow> itable \<Rightarrow> bool" where
  "cwd_ok sb R cwd ci tbl \<longleftrightarrow> cwd < NINODE \<and> 0 < i_ref (tbl ! cwd) \<and> ikey (tbl ! cwd) = (ROOTDEV, of_nat ci) \<and>
     ci < unat (sb_ninodes sb) \<and> 0 < R (ROOTDEV, of_nat ci)"

lemma cwd_ok_keeps: "cwd_ok sb R cwd ci tbl \<Longrightarrow> keeps R tbl tbl' \<Longrightarrow> cwd_ok sb R cwd ci tbl'"
  using keepsD [of R tbl tbl' cwd] by (auto simp: cwd_ok_def)

lemma walk_alloced:
  assumes tr: "tree_ok B sb dev d"
  shows "i < unat (sb_ninodes sb) \<Longrightarrow> alloced B sb dev i d \<Longrightarrow> walk B sb dev d i xs = Some j \<Longrightarrow>
    j < unat (sb_ninodes sb) \<and> alloced B sb dev j d"
proof (induction xs arbitrary: i)
  case Nil
  then show ?case by simp
next
  case (Cons x xs)
  then obtain n where n: "d_type (on_disk B sb dev i d) = T_DIR" "dirmap B sb dev d i x = Some n" "walk B sb dev d (unat n) xs = Some j"
    by (auto split: if_splits option.splits)
  then show ?case using Cons.IH dirmap_target [OF tr Cons.prems(1,2) n(1,2)] by blast
qed

lemma namei_locks:
  assumes B: "bio_laws B" and sb: "sb_ok sb" and tr: "tree_ok B sb ROOTDEV d" and root: "1 < unat (sb_ninodes sb)" "alloced B sb ROOTDEV 1 d"
    and c: "cached B sb ROOTDEV {} tbl d" and R: "refs tbl = R" and room: "card {x. 0 < R x} + 2 \<le> NINODE" and cwd: "cwd_ok sb R cwd ci tbl"
  shows "\<exists>r t1. namei B sb cwd p (tbl, d) = Some (r, t1, d) \<and> keeps R tbl t1 \<and>
    (case walk B sb ROOTDEV d (start_of ci p) (path_elems p) of
       None \<Rightarrow> r = None \<and> opened B sb R None None t1 d
     | Some j \<Rightarrow> \<exists>k t2. r = Some k \<and> ilock B sb k (t1, d) = Some (t2, d) \<and> keeps R t1 t2 \<and> opened B sb R (Some j) (Some k) t2 d)"
proof -
  have cw: "cwd < NINODE" "0 < i_ref (tbl ! cwd)" "ci < unat (sb_ninodes sb)" "i_inum (tbl ! cwd) = of_nat ci"
    using cwd by (auto simp: cwd_ok_def ikey_def)
  have "ci < 2 ^ 32" using cw(3) unsigned_less [of "sb_ninodes sb", where ?'a = nat] by simp
  then have ci: "unat (i_inum (tbl ! cwd)) = ci" using cw(4) by (simp add: unat_of_nat32)
  have st: "start_of ci p = (if p \<noteq> [] \<and> hd p = slash then 1 else unat (i_inum (tbl ! cwd)))" by (simp add: start_of_def ci)
  have room': "card (held tbl) + 2 \<le> NINODE" using room R by simp
  obtain r name' t1 where n: "namex B sb cwd p False (replicate DIRSIZ 0) (tbl, d) = Some (r, name', t1, d)" "cached B sb ROOTDEV {} t1 d"
    and g: "got ROOTDEV R (walk B sb ROOTDEV d (start_of ci p) (path_elems p)) r t1" and kp: "keeps R tbl t1"
    using namex_spec [OF B sb tr c root cw(1,2) room' st, of False "replicate DIRSIZ 0"] R by (auto simp: walk_goal_def)
  have nm: "namei B sb cwd p (tbl, d) = Some (r, t1, d)" using n(1) by (simp add: namei_def)
  show ?thesis
  proof (cases "walk B sb ROOTDEV d (start_of ci p) (path_elems p)")
    case None
    then show ?thesis using nm kp g n(2) by (simp add: got_def opened_def)
  next
    case (Some j)
    then obtain k where k: "r = Some k" "k < NINODE" "0 < i_ref (t1 ! k)" "ikey (t1 ! k) = (ROOTDEV, of_nat j)"
      and rf: "refs t1 = R((ROOTDEV, of_nat j) := R (ROOTDEV, of_nat j) + 1)" using g by (auto simp: got_def)
    have "alloced B sb ROOTDEV ci d" using cachedD(5) [OF c cw(1,2)] ci by simp
    then have j: "j < unat (sb_ninodes sb)"
      using walk_alloced [OF tr _ _ Some] root cw(3) by (auto simp: start_of_def split: if_splits)
    obtain t2 where "ilock B sb k (t1, d) = Some (t2, d)" "locked_at B sb k j t2 d" "refs t2 = refs t1" "keeps R t1 t2"
      using ilock_at [OF n(2) k(2-4) j] by blast
    then show ?thesis using nm kp k(1) rf Some by (auto simp: opened_def)
  qed
qed

lemma follow_spec:
  assumes B: "bio_laws B" and sb: "sb_ok sb" and tr: "tree_ok B sb ROOTDEV d" and ln: "links_ok B sb d"
    and root: "1 < unat (sb_ninodes sb)" "alloced B sb ROOTDEV 1 d" and room: "card {x. 0 < R x} + 2 \<le> NINODE"
    and "locked_at B sb k i tbl d" and "R = (refs tbl)((ROOTDEV, of_nat i) := refs tbl (ROOTDEV, of_nat i) - 1)" and "cwd_ok sb R cwd ci tbl"
  shows "\<exists>r tbl'. follow B sb cwd count buf k (tbl, d) = Some (r, tbl', d) \<and> keeps R tbl tbl' \<and>
     opened B sb R (chase B sb d ci count buf i) r tbl' d"
  using assms(8-10)
proof (induction "10 - count" arbitrary: count buf k i tbl rule: less_induct)
  case less
  note l = less.prems(1) and R = less.prems(2) and cw = less.prems(3)
  have ty: "i_type (tbl ! k) = d_type (on_disk B sb ROOTDEV i d)" using loaded_dir(3) [OF locked_atD(5,8) [OF l]] .
  obtain t1 where u: "iunlockput B sb k (tbl, d) = Some (t1, d)" "cached B sb ROOTDEV {} t1 d" "refs t1 = R" "keeps R tbl t1"
    using iunlockput_at [OF tr l R] by blast
  show ?case
  proof (cases "d_type (on_disk B sb ROOTDEV i d) = T_SYMLINK \<and> count < 10")
    case False
    have "refs tbl = R((ROOTDEV, of_nat i) := R (ROOTDEV, of_nat i) + 1)" using R by simp
    then show ?thesis
      using False ty u l keeps_refl [of R tbl] by (subst follow.simps, subst chase.simps) (auto simp: opened_def)
  next
    case True
    let ?c = "fbyte B (inode_at B sb ROOTDEV i d) d 0"
    let ?buf = "?c # tl buf"
    obtain m where rd: "readi B sb kernel_vm (tbl ! k) False 0 0 1 (\<lambda>_. hd buf, ()) d =
        Some (if d_size (on_disk B sb ROOTDEV i d) = 0 then 0 else 1, tbl ! k, (m, ()), d)"
      and m: "d_size (on_disk B sb ROOTDEV i d) \<noteq> 0 \<longrightarrow> m 0 = ?c"
      using read_link [OF B sb tr ln l conjunct1 [OF True]] by blast
    show ?thesis
    proof (cases "d_size (on_disk B sb ROOTDEV i d) = 0")
      case zero: True
      then show ?thesis using True ty rd u by (subst follow.simps, subst chase.simps) (simp add: opened_def)
    next
      case nz: False
      have go: "follow B sb cwd count buf k (tbl, d) = (case namei B sb cwd (cstring ?buf) (t1, d) of None \<Rightarrow> None
          | Some (None, fs2) \<Rightarrow> Some (None, fs2)
          | Some (Some n, fs2) \<Rightarrow> (case ilock B sb n fs2 of None \<Rightarrow> None | Some fs3 \<Rightarrow> follow B sb cwd (count + 1) ?buf n fs3))"
        using True ty rd u m nz by (subst follow.simps) (simp add: Let_def bind_split split: option.splits)
      have ch: "chase B sb d ci count buf i = (case walk B sb ROOTDEV d (start_of ci (cstring ?buf)) (path_elems (cstring ?buf)) of
          None \<Rightarrow> None | Some j \<Rightarrow> chase B sb d ci (count + 1) ?buf j)"
        using True nz by (subst chase.simps) (simp add: Let_def)
      note nl = namei_locks [OF B sb tr root u(2,3) room cwd_ok_keeps [OF cw u(4)], of "cstring ?buf"]
      show ?thesis
      proof (cases "walk B sb ROOTDEV d (start_of ci (cstring ?buf)) (path_elems (cstring ?buf))")
        case None
        then obtain t2 where "namei B sb cwd (cstring ?buf) (t1, d) = Some (None, t2, d)" "keeps R t1 t2" "opened B sb R None None t2 d"
          using nl by auto
        then show ?thesis using go ch None keeps_trans [OF u(4)] by auto
      next
        case (Some j)
        then obtain n t2 t3 where n: "namei B sb cwd (cstring ?buf) (t1, d) = Some (Some n, t2, d)" "keeps R t1 t2"
            "ilock B sb n (t2, d) = Some (t3, d)" "keeps R t2 t3" and o: "opened B sb R (Some j) (Some n) t3 d"
          using nl by auto
        have kp: "keeps R tbl t3" using keeps_trans [OF u(4) keeps_trans [OF n(2,4)]] .
        have l3: "locked_at B sb n j t3 d" and R3: "R = (refs t3)((ROOTDEV, of_nat j) := refs t3 (ROOTDEV, of_nat j) - 1)"
          using o by (auto simp: opened_def)
        have lt: "10 - (count + 1) < 10 - count" using conjunct2 [OF True] by linarith
        show ?thesis
          using less.hyps [OF lt l3 R3 cwd_ok_keeps [OF cw kp], of ?buf] go ch n Some keeps_trans [OF kp] by auto
      qed
    qed
  qed
qed

subsection \<open>Opening an existing path\<close>

text \<open>The inode that \<^verbatim>\<open>sys_open\<close> without \<^verbatim>\<open>O_CREATE\<close> resolves a path to.\<close>

definition open_goal :: "'d bio \<Rightarrow> superblock \<Rightarrow> 'd \<Rightarrow> nat \<Rightarrow> u32 \<Rightarrow> u8 list \<Rightarrow> u8 list \<Rightarrow> nat option" where
  "open_goal B sb d ci omode path junk =
     (case walk B sb ROOTDEV d (start_of ci path) (path_elems path) of
        None \<Rightarrow> None
      | Some i \<Rightarrow>
          (case (if d_type (on_disk B sb ROOTDEV i d) = T_SYMLINK \<and> omode AND O_NOFOLLOW = 0
                 then chase B sb d ci 0 (path @ 0 # junk) i else Some i) of
             None \<Rightarrow> None
           | Some j \<Rightarrow> if d_type (on_disk B sb ROOTDEV j d) = T_DIR \<and> omode \<noteq> 0 then None else Some j))"

lemma opened_SomeD:
  assumes "opened B sb R (Some j) r tbl d"
  obtains k where "r = Some k" "locked_at B sb k j tbl d" "R = (refs tbl)((ROOTDEV, of_nat j) := refs tbl (ROOTDEV, of_nat j) - 1)"
  using assms by (auto simp: opened_def)

lemma open_inode_spec:
  assumes B: "bio_laws B" and sb: "sb_ok sb" and tr: "tree_ok B sb ROOTDEV d" and ln: "links_ok B sb d"
    and root: "1 < unat (sb_ninodes sb)" "alloced B sb ROOTDEV 1 d" and c: "cached B sb ROOTDEV {} tbl d"
    and room: "card (held tbl) + 2 \<le> NINODE" and cw: "cwd_ok sb (refs tbl) cwd ci tbl" and nc: "omode AND O_CREATE = 0"
  shows "\<exists>r tbl'. open_inode B sb cwd omode path junk (tbl, d) = Some (r, tbl', d) \<and> keeps (refs tbl) tbl tbl' \<and>
     opened B sb (refs tbl) (open_goal B sb d ci omode path junk) r tbl' d"
proof (cases "walk B sb ROOTDEV d (start_of ci path) (path_elems path)")
  case None
  then show ?thesis
    using namei_locks [OF B sb tr root c refl room cw, of path] nc by (auto simp: open_inode_def open_goal_def)
next
  case (Some i)
  let ?R = "refs tbl" and ?link = "d_type (on_disk B sb ROOTDEV i d) = T_SYMLINK \<and> omode AND O_NOFOLLOW = 0"
  let ?g = "if ?link then chase B sb d ci 0 (path @ 0 # junk) i else Some i"
  obtain k t1 t2 where n: "namei B sb cwd path (tbl, d) = Some (Some k, t1, d)" "ilock B sb k (t1, d) = Some (t2, d)"
    and kp: "keeps ?R tbl t2" and o: "opened B sb ?R (Some i) (Some k) t2 d"
    using namei_locks [OF B sb tr root c refl room cw, of path] Some keeps_trans by fastforce
  obtain l: "locked_at B sb k i t2 d" and R: "?R = (refs t2)((ROOTDEV, of_nat i) := refs t2 (ROOTDEV, of_nat i) - 1)"
    using opened_SomeD [OF o] by auto
  have ty: "i_type (t2 ! k) = d_type (on_disk B sb ROOTDEV i d)" using loaded_dir(3) [OF locked_atD(5,8) [OF l]] .
  have "\<exists>q t3. (if ?link then follow B sb cwd 0 (path @ 0 # junk) k (t2, d) else Some (Some k, t2, d)) = Some (q, t3, d) \<and>
      keeps ?R t2 t3 \<and> opened B sb ?R ?g q t3 d"
    using follow_spec [OF B sb tr ln root room l R cwd_ok_keeps [OF cw kp], of 0 "path @ 0 # junk"] o keeps_refl by auto
  then obtain q t3 where f: "(if ?link then follow B sb cwd 0 (path @ 0 # junk) k (t2, d) else Some (Some k, t2, d)) = Some (q, t3, d)"
    and kp3: "keeps ?R tbl t3" and o3: "opened B sb ?R ?g q t3 d" using keeps_trans [OF kp] by blast
  have go: "open_inode B sb cwd omode path junk (tbl, d) = (case q of None \<Rightarrow> Some (None, t3, d)
      | Some ip1 \<Rightarrow> if i_type (t3 ! ip1) = T_DIR \<and> omode \<noteq> 0
          then do { fs4 \<leftarrow> iunlockput B sb ip1 (t3, d); Some (None, fs4) } else Some (Some ip1, t3, d))"
    using n nc f ty by (simp add: open_inode_def split: option.split)
  show ?thesis
  proof (cases ?g)
    case none: None
    have "q = None" using o3 unfolding none by (simp add: opened_def)
    moreover have "open_goal B sb d ci omode path junk = None" using none by (simp only: open_goal_def Some option.case)
    ultimately show ?thesis using go kp3 o3 none by simp
  next
    case g: (Some j)
    obtain k3 where q: "q = Some k3" and l3: "locked_at B sb k3 j t3 d" and R3: "?R = (refs t3)((ROOTDEV, of_nat j) := refs t3 (ROOTDEV, of_nat j) - 1)"
      using opened_SomeD [OF o3 [unfolded g]] .
    have ty3: "i_type (t3 ! k3) = d_type (on_disk B sb ROOTDEV j d)" using loaded_dir(3) [OF locked_atD(5,8) [OF l3]] .
    obtain t4 where u: "iunlockput B sb k3 (t3, d) = Some (t4, d)" "cached B sb ROOTDEV {} t4 d" "refs t4 = ?R" "keeps ?R t3 t4"
      using iunlockput_at [OF tr l3 R3] by blast
    have goal: "open_goal B sb d ci omode path junk = (if d_type (on_disk B sb ROOTDEV j d) = T_DIR \<and> omode \<noteq> 0 then None else Some j)"
      using g by (simp only: open_goal_def Some option.case)
    have o3': "opened B sb ?R (Some j) (Some k3) t3 d" using o3 unfolding g q .
    show ?thesis
      unfolding go goal q using u ty3 kp3 o3' keeps_trans [OF kp3 u(4)] by (auto simp: opened_def [of B sb ?R None])
  qed
qed

text \<open>
  Property C35. On a well-formed tree, with room for two more inodes, the part of \<^verbatim>\<open>sys_open\<close> that finds the inode
  (without \<^verbatim>\<open>O_CREATE\<close>) returns without panic and without blocking. It yields the inode the path leads to,
  after following at most nine symbolic links in the way of \<open>chase\<close> unless \<^verbatim>\<open>O_NOFOLLOW\<close> is given, locked and with one
  more reference; or nothing, with all reference counts as before, if the path leads nowhere, the tenth
  link is reached, or a directory would be opened for writing. The disk does not change.\<close>

theorem open_resolves_path:
  assumes "bio_laws B" and "sb_ok sb" and "tree_ok B sb ROOTDEV d" and "links_ok B sb d"
    and "1 < unat (sb_ninodes sb)" and "alloced B sb ROOTDEV 1 d" and "cached B sb ROOTDEV {} tbl d"
    and "card (held tbl) + 2 \<le> NINODE" and "cwd_ok sb (refs tbl) cwd ci tbl" and "omode AND O_CREATE = 0"
  shows "\<exists>r tbl'. open_inode B sb cwd omode path junk (tbl, d) = Some (r, tbl', d) \<and> keeps (refs tbl) tbl tbl' \<and>
     opened B sb (refs tbl) (open_goal B sb d ci omode path junk) r tbl' d"
  by (rule open_inode_spec [OF assms])

text \<open>
  Property C36. \<^verbatim>\<open>sys_open\<close> reads one byte of a symbolic link over the first byte of the path it was given. A link
  whose target begins with the same byte as the path that leads to it (as two absolute paths do) is
  therefore never followed to its target: the call fails with -1 as if it were a cycle, whatever the
  target is, and leaves all reference counts and the disk as they were.\<close>

theorem symlink_same_first_byte_fails:
  assumes "bio_laws B" and "sb_ok sb" and "tree_ok B sb ROOTDEV d" and "links_ok B sb d"
    and "1 < unat (sb_ninodes sb)" and "alloced B sb ROOTDEV 1 d" and "cached B sb ROOTDEV {} tbl d"
    and "card (held tbl) + 2 \<le> NINODE" and "cwd_ok sb (refs tbl) (s_cwd s) ci tbl" and "s_fs s = (tbl, d)"
    and "of_int (arg_int A 1) AND O_CREATE = 0" and "of_int (arg_int A 1) AND O_NOFOLLOW = 0"
    and "arg_str A 0 MAXPATH = Some path" and "path \<noteq> []" and "0 \<notin> set path"
    and "walk B sb ROOTDEV d (start_of ci path) (path_elems path) = Some i"
    and "d_type (on_disk B sb ROOTDEV i d) = T_SYMLINK" and "fbyte B (inode_at B sb ROOTDEV i d) d 0 = hd path"
  shows "\<exists>tbl'. sys_open B sb F junk A s = Some (- 1, s\<lparr>s_fs := (tbl', d)\<rparr>) \<and> cached B sb ROOTDEV {} tbl' d \<and> refs tbl' = refs tbl"
proof -
  have cs: "cstring (path @ 0 # junk) = path"
  proof -
    have "cstring path = path" using assms(15) by (auto simp: takeWhile_eq_all_conv)
    then show ?thesis by (simp add: takeWhile_tail)
  qed
  have "chase B sb d ci 0 (path @ 0 # junk) i = None"
    using assms(14,16-18) by (intro chase_same_first) (simp_all add: cs)
  then have "open_goal B sb d ci (of_int (arg_int A 1)) path junk = None"
    using assms(12,16,17) by (simp add: open_goal_def)
  then obtain tbl' where "open_inode B sb (s_cwd s) (of_int (arg_int A 1)) path junk (tbl, d) = Some (None, tbl', d)"
    "cached B sb ROOTDEV {} tbl' d" "refs tbl' = refs tbl"
    using open_inode_spec [OF assms(1-9,11), of path junk] by (auto simp: opened_def)
  then show ?thesis using assms(10,13) by (auto simp: sys_open_def on_fs_def)
qed

subsection \<open>A tree with a link\<close>

text \<open>A root directory, inode 1, that holds itself and the link \<^verbatim>\<open>l\<close>, inode 2, with the target \<^verbatim>\<open>/t\<close>.\<close>

definition link_root_block :: bytes where
  "link_root_block = (\<lambda>i. if i = 0 then 1 else if i = 2 then 46 else if i = 16 then 2 else if i = 18 then 108 else 0)"

definition link_block :: bytes where
  "link_block = (\<lambda>i. if i = 0 then 47 else if i = 1 then 116 else 0)"

definition link_ino :: inode where
  "link_ino = root_ino\<lparr>i_inum := 2, i_type := 4, i_size := 3, i_addrs := 6 # replicate 12 0\<rparr>"

definition link_base :: "(u32 \<times> u32) \<Rightarrow> bytes" where
  "link_base = demo_disk((1, 4) := (\<lambda>i. if i = 0 then 127 else 0), (1, 5) := link_root_block, (1, 6) := link_block)"

definition link_disk :: "(u32 \<times> u32) \<Rightarrow> bytes" where
  "link_disk = iupdate demo_bio demo_sb link_ino (iupdate demo_bio demo_sb root_ino link_base)"

lemma link_bread: "b \<noteq> 2 \<Longrightarrow> bread demo_bio 1 b link_disk = link_base (1, b)"
proof -
  assume b: "b \<noteq> 2"
  have "IBLOCK (unat (i_inum link_ino)) demo_sb = 2" "IBLOCK (unat (i_inum root_ino)) demo_sb = 2"
    by (simp_all add: link_ino_def root_ino_def demo_sb_def IBLOCK_def IPB_def)
  then show ?thesis
    using b bread_iupdate [OF demo_bio_laws, of 1 link_ino b demo_sb] bread_iupdate [OF demo_bio_laws, of 1 root_ino b demo_sb link_base]
    by (simp add: link_disk_def) (simp add: demo_bio_def)
qed

lemma link_on_disk:
  assumes "i < 16"
  shows "on_disk demo_bio demo_sb 1 i link_disk =
    (if i = 1 then dinode_of root_ino else if i = 2 then dinode_of link_ino else on_disk demo_bio demo_sb 1 i demo_disk)"
proof -
  have "IBLOCK i demo_sb = 2" using assms by (simp add: IBLOCK_def IPB_def demo_sb_def)
  then have base: "on_disk demo_bio demo_sb 1 i link_base = on_disk demo_bio demo_sb 1 i demo_disk"
    by (simp add: on_disk_def demo_bio_def link_base_def)
  have upd: "on_disk demo_bio demo_sb 1 i (iupdate demo_bio demo_sb ip d) = (if i = unat (i_inum ip) then dinode_of ip else on_disk demo_bio demo_sb 1 i d)"
    if "unat (i_inum ip) < 16" "length (i_addrs ip) = 13" "i_dev ip = 1" for ip d
    using on_disk_iupdate [OF demo_bio_laws demo_sb_ok, of i ip 1 d] assms that by (simp add: demo_ninodes NDIRECT_def)
  have ino: "unat (i_inum root_ino) = 1" "length (i_addrs root_ino) = 13" "i_dev root_ino = 1"
    "unat (i_inum link_ino) = 2" "length (i_addrs link_ino) = 13" "i_dev link_ino = 1"
    by (simp_all add: link_ino_def root_ino_def)
  have "on_disk demo_bio demo_sb 1 i link_disk =
      (if i = 2 then dinode_of link_ino else on_disk demo_bio demo_sb 1 i (iupdate demo_bio demo_sb root_ino link_base))"
    unfolding link_disk_def using upd [of link_ino] ino by simp
  moreover have "on_disk demo_bio demo_sb 1 i (iupdate demo_bio demo_sb root_ino link_base) =
      (if i = 1 then dinode_of root_ino else on_disk demo_bio demo_sb 1 i demo_disk)"
    using upd [of root_ino link_base] ino base by simp
  ultimately show ?thesis by auto
qed

lemma link_alloced: "i < 16 \<Longrightarrow> alloced demo_bio demo_sb 1 i link_disk \<longleftrightarrow> i = 1 \<or> i = 2"
  using demo_none_alloced [of i] by (auto simp: alloced_def link_on_disk) (simp_all add: dinode_of_def root_ino_def link_ino_def)

definition dir_at :: inode where
  "dir_at = inode_at demo_bio demo_sb 1 (Suc 0) link_disk"

definition link_at :: inode where
  "link_at = inode_at demo_bio demo_sb 1 2 link_disk"

lemma link_at_simps:
  "i_addrs dir_at = 5 # replicate 12 0" "i_size dir_at = 32" "i_dev dir_at = 1"
  "i_addrs link_at = 6 # replicate 12 0" "i_size link_at = 3" "i_dev link_at = 1"
  by (simp_all add: dir_at_def link_at_def inode_at_def dinode_load_def link_on_disk dinode_of_def root_ino_def link_ino_def)

lemma link_pval:
  "pos_ok p \<Longrightarrow> pval demo_bio dir_at link_disk p = (if p = Dir 0 then 5 else 0)"
  "pos_ok p \<Longrightarrow> pval demo_bio link_at link_disk p = (if p = Dir 0 then 6 else 0)"
  by (cases p; auto simp: link_at_simps NDIRECT_def entry_def nth_Cons' nth_replicate)+

lemma link_bused: "n < 7 \<Longrightarrow> bused demo_bio demo_sb 1 link_disk n"
proof -
  assume "n < 7"
  then consider "n = 0" | "n = 1" | "n = 2" | "n = 3" | "n = 4" | "n = 5" | "n = 6" by linarith
  then have "bit (127 :: u8) n" by cases simp_all
  then show ?thesis
    using \<open>n < 7\<close> link_bread [of "BBLOCK n demo_sb"] by (simp add: bused_def bit_free_iff BBLOCK_def demo_sb_def link_base_def)
qed

lemma link_owned: "owned demo_bio dir_at link_disk = {5}" "owned demo_bio link_at link_disk = {6}"
  by (auto simp: owned_def link_pval NDIRECT_def link_at_simps split: if_splits intro!: exI [of _ "Dir 0"])

lemma link_iwf: "iwf demo_bio demo_sb dir_at link_disk" "iwf demo_bio demo_sb link_at link_disk"
  using link_bused [of 5] link_bused [of 6]
  by (auto simp: iwf_def link_pval data_block_def datastart_def link_at_simps demo_sb_def NDIRECT_def)

lemma link_fs_wf: "fs_wf demo_bio demo_sb 1 link_disk"
  using link_iwf link_bused link_owned
  by (auto simp: fs_wf_def link_alloced demo_ninodes meta_used_def datastart_def simp flip: dir_at_def link_at_def) (auto simp: demo_sb_def)

lemma link_fbyte:
  "p < 32 \<Longrightarrow> fblock demo_bio dir_at link_disk (p div BSIZE) = 5 \<and> fbyte demo_bio dir_at link_disk p = link_root_block p"
  "p < 32 \<Longrightarrow> fblock demo_bio link_at link_disk (p div BSIZE) = 6 \<and> fbyte demo_bio link_at link_disk p = link_block p"
  by (simp_all add: fbyte_def fblock_def link_at_simps pos_of_def NDIRECT_def link_bread link_base_def)

lemma link_dirents:
  "dirents demo_bio dir_at link_disk =
     [\<lparr>de_inum = 1, de_name = 46 # replicate 13 0\<rparr>, \<lparr>de_inum = 2, de_name = 108 # replicate 13 0\<rparr>]"
proof -
  have "rd_dirent (\<lambda>i. fbyte demo_bio dir_at link_disk (16 * j + i)) = rd_dirent (\<lambda>i. link_root_block (16 * j + i))" if "j < 2" for j
    by (rule rd_dirent_cong) (use that in \<open>simp add: link_fbyte\<close>)
  then have "dirents demo_bio dir_at link_disk = map (\<lambda>j. rd_dirent (\<lambda>i. link_root_block (16 * j + i))) [0..<2]"
    by (simp add: dirents_def link_at_simps)
  also have "\<dots> = [rd_dirent link_root_block, rd_dirent (\<lambda>i. link_root_block (16 + i))]" by (simp add: numeral_2_eq_2)
  finally have "dirents demo_bio dir_at link_disk = [rd_dirent link_root_block, rd_dirent (\<lambda>i. link_root_block (16 + i))]" .
  moreover have "rd16 link_root_block 0 = 1" "rd16 (\<lambda>i. link_root_block (16 + i)) 0 = 2"
    by (simp_all add: rd16_def link_root_block_def)
  moreover have "map link_root_block [2..<16] = 46 # replicate 13 0" "map (\<lambda>i. link_root_block (16 + i)) [2..<16] = 108 # replicate 13 0"
    by (simp_all add: link_root_block_def upt_conv_Cons numeral_eq_Suc)
  ultimately show ?thesis by (simp add: rd_dirent_def DIRSIZ_def del: upt_rec_numeral)
qed

lemma link_tree: "tree_ok demo_bio demo_sb ROOTDEV link_disk"
  using link_fs_wf link_fbyte link_dirents
  by (auto simp: tree_ok_def ROOTDEV_def demo_ninodes link_alloced link_on_disk dir_ok_def MAXFILE_bytes dinode_of_def root_ino_def
      link_ino_def T_DIR_def link_at_simps simp flip: dir_at_def)

lemma link_links_ok: "links_ok demo_bio demo_sb link_disk"
  using link_fbyte(2) [of 0]
  by (auto simp: links_ok_def ROOTDEV_def demo_ninodes link_alloced link_on_disk MAXFILE_bytes dinode_of_def root_ino_def
      link_ino_def T_SYMLINK_def simp flip: link_at_def)

lemma link_cached: "cached demo_bio demo_sb ROOTDEV {} root_tbl link_disk"
  unfolding cached_def
  by (intro conjI root_inv) (auto simp: root_tbl_def idle_tbl_def nth_list_update_if link_alloced
      demo_ninodes link_on_disk ROOTDEV_def NINODE_def root_ino_def demo_ino_def)

lemma link_cwd: "cwd_ok demo_sb (refs root_tbl) 0 1 root_tbl"
proof -
  have "root_tbl ! 0 = root_ino" by (simp add: root_tbl_def idle_tbl_def NINODE_def)
  moreover from this have "refs root_tbl (ikey root_ino) = 1"
    using refs_entry [OF root_inv, of 0] by (simp add: NINODE_def root_ino_def)
  ultimately show ?thesis by (simp add: cwd_ok_def ikey_def root_ino_def ROOTDEV_def NINODE_def demo_ninodes)
qed

lemma link_walk: "walk demo_bio demo_sb ROOTDEV link_disk (start_of 1 [47, 108]) (path_elems [47, 108]) = Some 2"
  by (simp add: path_elems_def cname_def DIRSIZ_def ROOTDEV_def link_on_disk dirmap_def link_dirents dmap_def start_of_def
      dinode_of_def root_ino_def T_DIR_def flip: dir_at_def)

definition no_files :: "((u32 \<times> u32) \<Rightarrow> bytes, unit) fileops" where
  "no_files = \<lparr>filealloc = (\<lambda>s. (None, s)), filedup = (\<lambda>f. Some), fileclose = (\<lambda>f. Some), fileread = (\<lambda>f a n s. Some (- 1, s)),
     filewrite = (\<lambda>f a n s. Some (- 1, s)), filestat = (\<lambda>f a s. Some (- 1, s)), pipealloc = (\<lambda>s. (None, s)),
     kexec = (\<lambda>p a s. (- 1, s)), arg_page = (\<lambda>s. (None, s)), arg_page_free = (\<lambda>p s. s), copyout_fd = (\<lambda>a v s. (False, s))\<rparr>"

definition link_sys :: "((u32 \<times> u32) \<Rightarrow> bytes, unit) fsys" where
  "link_sys = \<lparr>s_fs = (root_tbl, link_disk), s_ftab = [], s_ofile = replicate NOFILE None, s_cwd = 0, s_rest = ()\<rparr>"

text \<open>\<^verbatim>\<open>open("/l", O_RDONLY)\<close>.\<close>

definition link_args :: sysargs where
  "link_args = \<lparr>arg_int = (\<lambda>_. 0), arg_addr = (\<lambda>_. 0), arg_str = (\<lambda>n m. Some [47, 108]), fetch_addr = (\<lambda>_. None), fetch_str = (\<lambda>_ _. None)\<rparr>"

theorem symlink_same_first_byte_fails_witness:
  "\<exists>tbl'. sys_open demo_bio demo_sb no_files [] link_args link_sys = Some (- 1, link_sys\<lparr>s_fs := (tbl', link_disk)\<rparr>) \<and>
     refs tbl' = refs root_tbl"
proof -
  have a: "1 < unat (sb_ninodes demo_sb)" "alloced demo_bio demo_sb ROOTDEV 1 link_disk" by (simp_all add: demo_ninodes link_alloced ROOTDEV_def)
  have b: "cwd_ok demo_sb (refs root_tbl) (s_cwd link_sys) 1 root_tbl" "s_fs link_sys = (root_tbl, link_disk)"
    "of_int (arg_int link_args 1) AND O_CREATE = 0" "of_int (arg_int link_args 1) AND O_NOFOLLOW = 0"
    "arg_str link_args 0 MAXPATH = Some [47, 108]" "[47, 108] \<noteq> ([] :: u8 list)" "0 \<notin> set [47, 108 :: u8]"
    using link_cwd by (simp_all add: link_sys_def link_args_def)
  have c: "d_type (on_disk demo_bio demo_sb ROOTDEV 2 link_disk) = T_SYMLINK"
    "fbyte demo_bio (inode_at demo_bio demo_sb ROOTDEV 2 link_disk) link_disk 0 = hd [47, 108]"
    using link_fbyte(2) [of 0] by (simp_all add: ROOTDEV_def link_on_disk dinode_of_def link_ino_def T_SYMLINK_def link_block_def flip: link_at_def)
  show ?thesis
    using symlink_same_first_byte_fails [OF demo_bio_laws demo_sb_ok link_tree link_links_ok a link_cached root_held b link_walk c, of no_files "[]"]
    by blast
qed

theorem open_resolves_path_witness:
  "\<exists>k tbl'. open_inode demo_bio demo_sb 0 0x800 [47, 108] [] (root_tbl, link_disk) = Some (Some k, tbl', link_disk) \<and>
     ikey (tbl' ! k) = (1, 2)"
proof -
  have a: "1 < unat (sb_ninodes demo_sb)" "alloced demo_bio demo_sb ROOTDEV 1 link_disk" by (simp_all add: demo_ninodes link_alloced ROOTDEV_def)
  have "open_goal demo_bio demo_sb link_disk 1 0x800 [47, 108] [] = Some 2"
    using link_walk by (simp add: open_goal_def O_NOFOLLOW_def ROOTDEV_def link_on_disk dinode_of_def link_ino_def T_DIR_def T_SYMLINK_def)
  then show ?thesis
    using open_resolves_path [OF demo_bio_laws demo_sb_ok link_tree link_links_ok a link_cached root_held link_cwd, of "0x800" "[47, 108]" "[]"]
    by (auto simp: O_CREATE_def opened_def locked_at_def ROOTDEV_def)
qed

end
