(* ===== verification/FsNode.thy ===== *)
theory FsNode
  imports FsLink
begin

text \<open>
  Inodes that come into being and go: the effect of \<^verbatim>\<open>ialloc\<close>, \<^verbatim>\<open>iupdate\<close> and the last \<^verbatim>\<open>iput\<close> of \<^verbatim>\<open>kernel/fs.c\<close> (Lab 5,
  Task 5.1) on a well-formed tree and on the table that agrees with it. Between the allocation of an inode and
  its first entry in a directory the tree is not well formed; the lemmas relate the states around that window.
\<close>

subsection \<open>Changes of one inode's image\<close>

text \<open>Inode \<open>i\<close> gets the image \<open>di\<close>; other images, the data blocks and the bitmap stay.\<close>

definition meta_step :: "'d bio \<Rightarrow> superblock \<Rightarrow> u32 \<Rightarrow> nat \<Rightarrow> dinode \<Rightarrow> 'd \<Rightarrow> 'd \<Rightarrow> bool" where
  "meta_step B sb dev i di d d' \<longleftrightarrow>
     (\<forall>j<unat (sb_ninodes sb). on_disk B sb dev j d' = (if j = i then di else on_disk B sb dev j d)) \<and>
     (\<forall>b. data_block sb b \<longrightarrow> bread B dev b d' = bread B dev b d) \<and>
     (\<forall>n<unat (sb_size sb). bused B sb dev d' n = bused B sb dev d n)"

lemma meta_stepD:
  assumes "meta_step B sb dev i di d d'"
  shows "j < unat (sb_ninodes sb) \<Longrightarrow> on_disk B sb dev j d' = (if j = i then di else on_disk B sb dev j d)"
    and "data_block sb b \<Longrightarrow> bread B dev b d' = bread B dev b d"
    and "n < unat (sb_size sb) \<Longrightarrow> bused B sb dev d' n = bused B sb dev d n"
  using assms unfolding meta_step_def by blast+

lemma meta_step_trans:
  "meta_step B sb dev i di d d1 \<Longrightarrow> meta_step B sb dev i di' d1 d2 \<Longrightarrow> meta_step B sb dev i di' d d2"
  by (simp add: meta_step_def)

lemma meta_iupdate:
  assumes B: "bio_laws B" and sb: "sb_ok sb" and ip: "i_dev ip = dev" "unat (i_inum ip) = i" "i < unat (sb_ninodes sb)"
    and ad: "length (i_addrs ip) = NDIRECT + 2"
  shows "meta_step B sb dev i (dinode_of ip) d (iupdate B sb ip d)"
  using on_disk_iupdate [OF B sb _ _ ad] bread_iupdate [OF B, of _ ip] BBLOCK_not_inode_block [OF sb ip(3)]
    inode_block_not_data [OF sb ip(3), THEN not_sym] ip
  by (auto simp: meta_step_def bused_def)

lemma meta_ialloc:
  assumes B: "bio_laws B" and sb: "sb_ok sb" and i: "i < unat (sb_ninodes sb)" and ad: "length (d_addrs di) = NDIRECT + 2"
  shows "meta_step B sb dev i di d
    (log_write B dev (IBLOCK i sb) (wr_dinode (bread B dev (IBLOCK i sb) d) (64 * (i mod IPB)) di) d)"
  using on_disk_wr [OF B sb i _ ad] BBLOCK_not_inode_block [OF sb i] inode_block_not_data [OF sb i, THEN not_sym]
  by (auto simp: meta_step_def bused_def bio_lawsD [OF B])

text \<open>The contents of a file depend on its addresses and on data blocks only.\<close>

lemma contents_keep:
  assumes wf: "iwf B sb (inode_at B sb dev j d) d" and ad: "d_addrs (on_disk B sb dev j d') = d_addrs (on_disk B sb dev j d)"
    and br: "\<And>b. data_block sb b \<Longrightarrow> bread B dev b d' = bread B dev b d"
  shows "pos_ok p \<Longrightarrow> pval B (inode_at B sb dev j d') d' p = pval B (inode_at B sb dev j d) d p"
    and "n < MAXFILE \<Longrightarrow> fblock B (inode_at B sb dev j d') d' n = fblock B (inode_at B sb dev j d) d n"
    and "q < MAXFILE * BSIZE \<Longrightarrow> fbyte B (inode_at B sb dev j d') d' q = fbyte B (inode_at B sb dev j d) d q"
proof -
  let ?q = "inode_at B sb dev j d"
  show pv: "pval B (inode_at B sb dev j d') d' p = pval B ?q d p" if "pos_ok p" for p
  proof -
    have "pval B (inode_at B sb dev j d') d' p = pval B ?q d' p" using ad by (intro pval_addrs_cong) simp_all
    also have "\<dots> = pval B ?q d p"
      using that by (rule pval_cong [rotated]) (use iwfD(2) [OF wf] br in simp)
    finally show ?thesis .
  qed
  show fb: "fblock B (inode_at B sb dev j d') d' n = fblock B ?q d n" if "n < MAXFILE" for n
    using pv [OF pos_of_ok [OF that]] by (simp add: fblock_def)
  show "fbyte B (inode_at B sb dev j d') d' q = fbyte B ?q d q" if q: "q < MAXFILE * BSIZE"
  proof (cases "fblock B ?q d (q div BSIZE) = 0")
    case False
    then have "data_block sb (fblock B ?q d (q div BSIZE))"
      using iwfD(2) [OF wf pos_of_ok [OF lt_maxfile [OF q]]] by (simp add: fblock_def)
    then show ?thesis using fb [OF lt_maxfile [OF q]] br by (simp add: fbyte_def Let_def)
  qed (use fb [OF lt_maxfile [OF q]] in \<open>simp add: fbyte_def Let_def\<close>)
qed

lemma meta_fs_wf:
  assumes fs: "fs_wf B sb dev d" and sb: "sb_ok sb" and m: "meta_step B sb dev i di d d'" and i: "i < unat (sb_ninodes sb)"
    and ad: "alloced B sb dev i d \<and> d_addrs di = d_addrs (on_disk B sb dev i d) \<or> d_addrs di = replicate (NDIRECT + 2) 0"
  shows "fs_wf B sb dev d'"
proof -
  note md = meta_stepD [OF m]
  have keep: "bread B dev b d' = bread B dev b d \<and> bused B sb dev d' (unat b)"
    if "j < unat (sb_ninodes sb)" "alloced B sb dev j d" "b \<in> owned B (inode_at B sb dev j d) d" for j b
    using owned_data [OF fs_wfD(2) [OF fs that(1,2)] that(3)] md(2,3) by (auto simp: data_block_def)
  have mu: "meta_used B sb dev d'"
    using fs_wfD(1) [OF fs] md(3) sb_okD(3) [OF sb] by (simp add: meta_used_def)
  have "iwf B sb (inode_at B sb dev i d') d' \<and>
      (owned B (inode_at B sb dev i d') d' = {} \<or> alloced B sb dev i d \<and> owned B (inode_at B sb dev i d') d' = owned B (inode_at B sb dev i d) d)"
    using ad
  proof
    assume a: "alloced B sb dev i d \<and> d_addrs di = d_addrs (on_disk B sb dev i d)"
    let ?q = "inode_at B sb dev i d"
    note wf = fs_wfD(2) [OF fs i conjunct1 [OF a]]
    have same: "i_dev (inode_at B sb dev i d') = i_dev ?q" "i_addrs (inode_at B sb dev i d') = i_addrs ?q"
      using a md(1) [OF i] by simp_all
    have pv: "pval B ?q d' p = pval B ?q d p" if "pos_ok p" for p
      using that by (rule pval_cong [rotated]) (use iwfD(2) [OF wf] md(2) in simp)
    have wf': "iwf B sb ?q d'" by (rule iwf_keep [OF wf pv]) (use keep [OF i conjunct1 [OF a]] in simp_all)
    have "owned B ?q d' = owned B ?q d" unfolding owned_def using pv by (metis (no_types, lifting))
    then show ?thesis using iffD2 [OF iwf_addrs_cong(1) [OF same] wf'] iwf_addrs_cong(2) [OF same, of B d'] a by blast
  next
    assume "d_addrs di = replicate (NDIRECT + 2) 0"
    then show ?thesis using fresh_iwf [of B sb dev i d'] md(1) [OF i] by simp
  qed
  note W = this
  then have wfi: "iwf B sb (inode_at B sb dev i d') d'" by blast
  have own: "b \<notin> owned B (inode_at B sb dev j d) d"
    if "j < unat (sb_ninodes sb)" "alloced B sb dev j d" "j \<noteq> i" "b \<in> owned B (inode_at B sb dev i d') d'" for j b
    using W that fs_wfD(3) [OF fs that(1) i that(2) _ that(3)] by auto
  show ?thesis by (rule fs_wf_step [OF fs mu, of i]) (use md(1) keep wfi own in auto)
qed


subsection \<open>The tree around a change\<close>

lemma dir_keep:
  assumes ok: "dir_ok B ip d" and sz: "i_size ip' = i_size ip"
    and bl: "\<And>n. n < MAXFILE \<Longrightarrow> fblock B ip' d' n = fblock B ip d n"
    and fb: "\<And>q. q < MAXFILE * BSIZE \<Longrightarrow> fbyte B ip' d' q = fbyte B ip d q"
  shows "dirents B ip' d' = dirents B ip d" and "dir_ok B ip' d'"
proof -
  have le: "unat (i_size ip) \<le> MAXFILE * BSIZE" using ok by (simp add: dir_ok_def)
  show "dirents B ip' d' = dirents B ip d" by (rule dirents_same [OF sz le fb])
  show "dir_ok B ip' d'" using ok sz bl lt_maxfile le by (auto simp: dir_ok_def)
qed

lemma dirs_keep:
  assumes tr: "tree_ok B sb dev d" and od: "\<And>j. j < unat (sb_ninodes sb) \<Longrightarrow> j \<noteq> i \<Longrightarrow> on_disk B sb dev j d' = on_disk B sb dev j d"
    and br: "\<And>b. data_block sb b \<Longrightarrow> bread B dev b d' = bread B dev b d"
    and j: "j < unat (sb_ninodes sb)" "j \<noteq> i" "d_type (on_disk B sb dev j d) = T_DIR"
  shows "dlist B sb dev d' j = dlist B sb dev d j" and "dir_ok B (inode_at B sb dev j d') d'"
proof -
  have a: "alloced B sb dev j d" using j(3) by (simp add: alloced_def T_DIR_def)
  have same: "inode_at B sb dev j d' = inode_at B sb dev j d" using od [OF j(1,2)] by (simp add: inode_at_def)
  note ck = contents_keep [OF fs_wfD(2) [OF tree_okD(1) [OF tr] j(1) a] _ br]
  show "dlist B sb dev d' j = dlist B sb dev d j" "dir_ok B (inode_at B sb dev j d') d'"
    using dir_keep [OF tree_okD(3) [OF tr j(1) a j(3)], of "inode_at B sb dev j d'" d'] ck(2,3) od [OF j(1,2)] same by simp_all
qed

text \<open>
  A change of the image of one inode in a tree, after which the inode is a proper one, or unallocated and
  named by no other directory.
\<close>

lemma tree_ok_meta:
  assumes tr: "tree_ok B sb dev d" and fs: "fs_wf B sb dev d'"
    and od: "\<And>j. j < unat (sb_ninodes sb) \<Longrightarrow> j \<noteq> i \<Longrightarrow> on_disk B sb dev j d' = on_disk B sb dev j d"
    and br: "\<And>b. data_block sb b \<Longrightarrow> bread B dev b d' = bread B dev b d"
    and new: "alloced B sb dev i d' \<Longrightarrow> d_nlink (on_disk B sb dev i d') \<noteq> 0 \<and>
      (d_type (on_disk B sb dev i d') = T_DIR \<longrightarrow> dir_ok B (inode_at B sb dev i d') d' \<and>
         (\<forall>e\<in>set (dlist B sb dev d' i). de_inum e \<noteq> 0 \<longrightarrow> unat (de_inum e) < unat (sb_ninodes sb) \<and> alloced B sb dev (unat (de_inum e)) d'))"
    and gone: "\<And>j e. \<not> alloced B sb dev i d' \<Longrightarrow> j < unat (sb_ninodes sb) \<Longrightarrow> j \<noteq> i \<Longrightarrow> alloced B sb dev j d \<Longrightarrow>
      d_type (on_disk B sb dev j d) = T_DIR \<Longrightarrow> e \<in> set (dlist B sb dev d j) \<Longrightarrow> de_inum e \<noteq> 0 \<Longrightarrow> unat (de_inum e) \<noteq> i"
  shows "tree_ok B sb dev d'"
    and "j < unat (sb_ninodes sb) \<Longrightarrow> j \<noteq> i \<Longrightarrow> d_type (on_disk B sb dev j d) = T_DIR \<Longrightarrow> dlist B sb dev d' j = dlist B sb dev d j"
proof -
  have al: "alloced B sb dev j d' \<longleftrightarrow> alloced B sb dev j d" if "j < unat (sb_ninodes sb)" "j \<noteq> i" for j
    using od [OF that] by (simp add: alloced_def)
  have other: "dlist B sb dev d' j = dlist B sb dev d j" "dir_ok B (inode_at B sb dev j d') d'"
    if j: "j < unat (sb_ninodes sb)" "j \<noteq> i" "d_type (on_disk B sb dev j d) = T_DIR" for j
    by (rule dirs_keep [OF tr od br j], assumption+)+
  show "dlist B sb dev d' j = dlist B sb dev d j" if "j < unat (sb_ninodes sb)" "j \<noteq> i" "d_type (on_disk B sb dev j d) = T_DIR"
    using other(1) [OF that] .
  show "tree_ok B sb dev d'"
    unfolding tree_ok_def
  proof (intro conjI allI impI ballI fs)
    fix j assume j: "j < unat (sb_ninodes sb)" "alloced B sb dev j d'"
    show "d_nlink (on_disk B sb dev j d') \<noteq> 0" using j al od new tree_okD(2) [OF tr] by (cases "j = i") auto
    assume ty: "d_type (on_disk B sb dev j d') = T_DIR"
    show "dir_ok B (inode_at B sb dev j d') d'" using j ty od new other(2) by (cases "j = i") auto
    fix x assume x: "x \<in> set (dlist B sb dev d' j)" "de_inum x \<noteq> 0"
    have "unat (de_inum x) < unat (sb_ninodes sb) \<and> alloced B sb dev (unat (de_inum x)) d'"
    proof (cases "j = i")
      case True
      then show ?thesis using new j ty x by blast
    next
      case False
      then have p: "alloced B sb dev j d" "d_type (on_disk B sb dev j d) = T_DIR" using j al od ty by auto
      have xl: "x \<in> set (dlist B sb dev d j)" using other(1) [OF j(1) False p(2)] x(1) by simp
      then have t: "unat (de_inum x) < unat (sb_ninodes sb)" "alloced B sb dev (unat (de_inum x)) d"
        using tree_okD(4) [OF tr j(1) p] x(2) by auto
      show ?thesis
        using t al gone [OF _ j(1) False p xl x(2)] by (cases "unat (de_inum x) = i") auto
    qed
    then show "unat (de_inum x) < unat (sb_ninodes sb)" and "alloced B sb dev (unat (de_inum x)) d'" by auto
  qed
qed


subsection \<open>The table around a change\<close>

lemma cached_meta:
  assumes c: "cached B sb dev L tbl d" and m: "meta_step B sb dev i di d d'" and na: "\<not> alloced B sb dev i d"
  shows "cached B sb dev L tbl d'"
  unfolding cached_def
proof (intro conjI allI impI)
  show "itab_inv tbl" using cachedD(1) [OF c] .
  fix k assume k: "k < NINODE"
  show "i_locked (tbl ! k) = (k \<in> L)" using cachedD(2) [OF c k] .
  assume r: "0 < i_ref (tbl ! k)"
  note e = cachedD(3-6) [OF c k r]
  show "i_dev (tbl ! k) = dev" and "unat (i_inum (tbl ! k)) < unat (sb_ninodes sb)" using e by auto
  have "unat (i_inum (tbl ! k)) \<noteq> i" using e(3) na by auto
  then have od: "on_disk B sb dev (unat (i_inum (tbl ! k))) d' = on_disk B sb dev (unat (i_inum (tbl ! k))) d"
    using meta_stepD(1) [OF m e(2)] by simp
  then show "alloced B sb dev (unat (i_inum (tbl ! k))) d'" using e(3) by (simp add: alloced_def)
  assume "i_valid (tbl ! k)"
  then show "dinode_of (tbl ! k) = on_disk B sb dev (unat (i_inum (tbl ! k))) d'" using e(4) od by simp
qed

lemma not_held:
  assumes c: "cached B sb dev L tbl d" and na: "\<not> alloced B sb dev i d" "i < 2 ^ 32"
  shows "refs tbl (dev, of_nat i) = 0"
proof (rule ccontr)
  assume "refs tbl (dev, of_nat i) \<noteq> 0"
  then have "(dev, of_nat i) \<in> held tbl" using refs_nonneg [OF cachedD(1) [OF c], of "(dev, of_nat i)"] by simp
  then obtain k where k: "k < NINODE" "0 < i_ref (tbl ! k)" "ikey (tbl ! k) = (dev, of_nat i)"
    by (rule held_entry [OF cachedD(1) [OF c]])
  then show False using cachedD(5) [OF c k(1,2)] na by (simp add: ikey_def unat_of_nat32)
qed

lemma ialloc_loop_total:
  assumes inv: "itab_inv tbl" and room: "card (held tbl) < NINODE"
  shows "\<exists>x. ialloc_loop B sb dev ty inums (tbl, d) = Some x"
proof (induction inums)
  case (Cons i inums)
  obtain k t where "iget dev (of_nat i) tbl = Some (k, t)" using iget_refs [OF inv, of dev "of_nat i"] room by blast
  then show ?case using Cons by (auto simp: Let_def)
qed simp

text \<open>\<^verbatim>\<open>ialloc\<close> gives an inode that nobody refers to, in an entry that was free, or there is none.\<close>

lemma ialloc_cached:
  assumes B: "bio_laws B" and sb: "sb_ok sb" and c: "cached B sb dev L tbl d" and room: "card (held tbl) < NINODE" and ty: "ty \<noteq> 0"
  shows "ialloc B sb dev ty (tbl, d) = Some (None, tbl, d) \<and> (\<forall>i. 1 \<le> i \<and> i < unat (sb_ninodes sb) \<longrightarrow> alloced B sb dev i d) \<or>
    (\<exists>i k tbl' d'. ialloc B sb dev ty (tbl, d) = Some (Some k, tbl', d') \<and> 1 \<le> i \<and> i < unat (sb_ninodes sb) \<and>
       \<not> alloced B sb dev i d \<and> meta_step B sb dev i (free_dinode ty) d d' \<and> cached B sb dev L tbl' d' \<and>
       k < NINODE \<and> k \<notin> L \<and> i_ref (tbl ! k) = 0 \<and> i_ref (tbl' ! k) = 1 \<and> ikey (tbl' ! k) = (dev, of_nat i) \<and>
       refs tbl (dev, of_nat i) = 0 \<and> refs tbl' = (refs tbl)((dev, of_nat i) := 1) \<and> (\<forall>j. j \<noteq> k \<longrightarrow> tbl' ! j = tbl ! j))"
proof -
  note inv = cachedD(1) [OF c]
  obtain r tbl' d' where r: "ialloc B sb dev ty (tbl, d) = Some (r, tbl', d')"
    using ialloc_loop_total [OF inv room] unfolding ialloc_def by (metis surj_pair)
  consider (none) "r = None" "tbl' = tbl" "d' = d" "\<forall>i\<in>{1..<unat (sb_ninodes sb)}. alloced B sb dev i d"
    | (some) i k where "1 \<le> i" "i < unat (sb_ninodes sb)" "\<not> alloced B sb dev i d" "r = Some k" "iget dev (of_nat i) tbl = Some (k, tbl')"
      "d' = log_write B dev (IBLOCK i sb) (wr_dinode (bread B dev (IBLOCK i sb) d) (64 * (i mod IPB)) (free_dinode ty)) d"
    using ialloc_loop_cases [OF r [unfolded ialloc_def]] by auto
  then show ?thesis
  proof cases
    case none
    then show ?thesis using r by simp
  next
    case some
    have m: "meta_step B sb dev i (free_dinode ty) d d'"
      unfolding some(6) by (rule meta_ialloc [OF B sb some(2)]) (simp add: free_dinode_def)
    have i32: "i < 2 ^ 32" using some(2) unsigned_less [of "sb_ninodes sb", where ?'a = nat] by simp
    note z = not_held [OF c some(3) i32] and gi = iget_inv [OF inv some(5)]
    have al: "alloced B sb dev i d'" using meta_stepD(1) [OF m some(2)] ty by (simp add: alloced_def free_dinode_def)
    have u: "unat (of_nat i :: u32) = i" using i32 by (rule unat_of_nat32)
    obtain k2 t2 where g: "iget dev (of_nat i) tbl = Some (k2, t2)" "cached B sb dev L t2 d'" "k2 < NINODE" "0 < i_ref (t2 ! k2)"
      "ikey (t2 ! k2) = (dev, of_nat i)" "refs t2 = (refs tbl)((dev, of_nat i) := refs tbl (dev, of_nat i) + 1)"
      using iget_cached [OF cached_meta [OF c m some(3)], of "of_nat i"] some(2) al room u by auto
    have c': "cached B sb dev L tbl' d'" and rf: "refs tbl' = (refs tbl)((dev, of_nat i) := 1)" and key: "ikey (tbl' ! k) = (dev, of_nat i)"
      using g some(5) z by simp_all
    have ref1: "i_ref (tbl' ! k) = 1" using refs_entry [OF gi(1,2,5)] key rf by simp
    have old: "i_ref (tbl ! k) = 0"
    proof (rule ccontr)
      assume "i_ref (tbl ! k) \<noteq> 0"
      then have p: "0 < i_ref (tbl ! k)" using itab_invD(2) [OF inv gi(2)] by simp
      then have "tbl' ! k = (tbl ! k)\<lparr>i_ref := i_ref (tbl' ! k)\<rparr>"
        using iget_cached [OF cached_meta [OF c m some(3)], of "of_nat i"] some(2,5) al room u gi(2) by auto
      then have "ikey (tbl ! k) = (dev, of_nat i)" using key ikey_ref_upd by metis
      then show False using refs_entry [OF inv gi(2) p] z p by simp
    qed
    have "k \<notin> L" using old cachedD(2) [OF c gi(2)] itab_invD(3) [OF inv gi(2)] by auto
    then show ?thesis
      using r some(1-4) m c' gi(2,6) old ref1 key z rf by blast
  qed
qed


subsection \<open>A new inode, and dropping it again\<close>

text \<open>
  From \<open>(tbl, d)\<close> the free inode \<open>i\<close> was given the image \<open>di\<close> and is held, locked and loaded, in the entry \<open>k\<close>, which was
  free; nothing else has changed.
\<close>

definition born :: "'d bio \<Rightarrow> superblock \<Rightarrow> u32 \<Rightarrow> nat set \<Rightarrow> dinode \<Rightarrow> itable \<times> 'd \<Rightarrow> nat \<Rightarrow> nat \<Rightarrow> itable \<times> 'd \<Rightarrow> bool" where
  "born B sb dev L di s i k s' \<longleftrightarrow>
     1 \<le> i \<and> i < unat (sb_ninodes sb) \<and> \<not> alloced B sb dev i (snd s) \<and> refs (fst s) (dev, of_nat i) = 0 \<and>
     k < NINODE \<and> k \<notin> L \<and> i_ref (fst s ! k) = 0 \<and> ikey (fst s' ! k) = (dev, of_nat i) \<and> i_ref (fst s' ! k) = 1 \<and>
     i_valid (fst s' ! k) \<and> dinode_of (fst s' ! k) = di \<and> on_disk B sb dev i (snd s') = di \<and>
     tree_ok B sb dev (snd s') \<and> cached B sb dev (insert k L) (fst s') (snd s') \<and>
     refs (fst s') = (refs (fst s))((dev, of_nat i) := 1) \<and> (\<forall>j. j \<noteq> k \<longrightarrow> fst s' ! j = fst s ! j) \<and>
     (\<forall>j<unat (sb_ninodes sb). j \<noteq> i \<longrightarrow> on_disk B sb dev j (snd s') = on_disk B sb dev j (snd s)) \<and>
     (\<forall>j<unat (sb_ninodes sb). j \<noteq> i \<longrightarrow> d_type (on_disk B sb dev j (snd s)) = T_DIR \<longrightarrow>
        dlist B sb dev (snd s') j = dlist B sb dev (snd s) j)"

definition new_dinode :: "u16 \<Rightarrow> u16 \<Rightarrow> u16 \<Rightarrow> dinode" where
  "new_dinode ty ma mi = (free_dinode ty)\<lparr>d_major := ma, d_minor := mi, d_nlink := 1\<rparr>"

lemma empty_inode:
  assumes "d_size (on_disk B sb dev i d) = 0"
  shows "dir_ok B (inode_at B sb dev i d) d" and "dlist B sb dev d i = []"
  using assms by (simp_all add: dir_ok_def dirents_def inode_at_def dinode_load_def)

lemma tree_ok_new:
  assumes tr: "tree_ok B sb dev d" and sb: "sb_ok sb" and m: "meta_step B sb dev i (new_dinode ty ma mi) d d'"
    and i: "i < unat (sb_ninodes sb)" and ty: "ty \<noteq> 0"
  shows "tree_ok B sb dev d'"
    and "j < unat (sb_ninodes sb) \<Longrightarrow> j \<noteq> i \<Longrightarrow> d_type (on_disk B sb dev j d) = T_DIR \<Longrightarrow> dlist B sb dev d' j = dlist B sb dev d j"
proof -
  note md = meta_stepD [OF m]
  have od: "on_disk B sb dev i d' = new_dinode ty ma mi" using md(1) [OF i] by simp
  have fs: "fs_wf B sb dev d'"
    by (rule meta_fs_wf [OF tree_okD(1) [OF tr] sb m i]) (simp add: new_dinode_def free_dinode_def)
  have al: "alloced B sb dev i d'" "d_nlink (on_disk B sb dev i d') \<noteq> 0" "d_size (on_disk B sb dev i d') = 0"
    using ty od by (simp_all add: alloced_def new_dinode_def free_dinode_def)
  note T = tree_ok_meta [OF tr fs, of i]
  show "tree_ok B sb dev d'"
    by (rule T(1)) (use md(1,2) al empty_inode [OF al(3)] in auto)
  show "dlist B sb dev d' j = dlist B sb dev d j"
    if "j < unat (sb_ninodes sb)" "j \<noteq> i" "d_type (on_disk B sb dev j d) = T_DIR"
    by (rule T(2)) (use md(1,2) al empty_inode [OF al(3)] that in auto)
qed

lemma new_inode:
  assumes B: "bio_laws B" and sb: "sb_ok sb" and tr: "tree_ok B sb dev d" and c: "cached B sb dev L tbl d"
    and room: "card (held tbl) < NINODE" and ty: "ty \<noteq> 0"
  shows "ialloc B sb dev ty (tbl, d) = Some (None, tbl, d) \<and> (\<forall>i. 1 \<le> i \<and> i < unat (sb_ninodes sb) \<longrightarrow> alloced B sb dev i d) \<or>
    (\<exists>i k t1 d1 t2 ip. ialloc B sb dev ty (tbl, d) = Some (Some k, t1, d1) \<and> ilock B sb k (t1, d1) = Some (t2, d1) \<and>
       length t2 = NINODE \<and> ip = (t2 ! k)\<lparr>i_major := ma, i_minor := mi, i_nlink := 1\<rparr> \<and>
       born B sb dev L (new_dinode ty ma mi) (tbl, d) i k (t2[k := ip], iupdate B sb ip d1))"
  using ialloc_cached [OF B sb c room ty]
proof
  assume "\<exists>i k tbl' d'. ialloc B sb dev ty (tbl, d) = Some (Some k, tbl', d') \<and> 1 \<le> i \<and> i < unat (sb_ninodes sb) \<and>
       \<not> alloced B sb dev i d \<and> meta_step B sb dev i (free_dinode ty) d d' \<and> cached B sb dev L tbl' d' \<and>
       k < NINODE \<and> k \<notin> L \<and> i_ref (tbl ! k) = 0 \<and> i_ref (tbl' ! k) = 1 \<and> ikey (tbl' ! k) = (dev, of_nat i) \<and>
       refs tbl (dev, of_nat i) = 0 \<and> refs tbl' = (refs tbl)((dev, of_nat i) := 1) \<and> (\<forall>j. j \<noteq> k \<longrightarrow> tbl' ! j = tbl ! j)"
  then obtain i k t1 d1 where a: "ialloc B sb dev ty (tbl, d) = Some (Some k, t1, d1)" and i: "1 \<le> i" "i < unat (sb_ninodes sb)"
    and na: "\<not> alloced B sb dev i d" and m1: "meta_step B sb dev i (free_dinode ty) d d1" and c1: "cached B sb dev L t1 d1"
    and k: "k < NINODE" "k \<notin> L" "i_ref (tbl ! k) = 0" "i_ref (t1 ! k) = 1" "ikey (t1 ! k) = (dev, of_nat i)"
    and rf: "refs tbl (dev, of_nat i) = 0" "refs t1 = (refs tbl)((dev, of_nat i) := 1)" and oth: "\<forall>j. j \<noteq> k \<longrightarrow> t1 ! j = tbl ! j"
    by blast
  have len: "length t1 = NINODE" using itab_invD(1) [OF cachedD(1) [OF c1]] .
  have u: "unat (of_nat i :: u32) = i"
    using i(2) unsigned_less [of "sb_ninodes sb", where ?'a = nat] by (intro unat_of_nat32) simp
  obtain ip0 where lk: "ilock B sb k (t1, d1) = Some (t1[k := ip0], d1)" and c2: "cached B sb dev (insert k L) (t1[k := ip0]) d1"
    and ip0: "ikey ip0 = (dev, of_nat i)" "i_ref ip0 = 1" "i_valid ip0" "dinode_of ip0 = on_disk B sb dev (unat (i_inum ip0)) d1"
    using ilock_cached [OF c1 k(1) _ k(2)] k(4,5) by auto
  define t2 where "t2 = t1[k := ip0]"
  define ip where "ip = (t2 ! k)\<lparr>i_major := ma, i_minor := mi, i_nlink := 1\<rparr>"
  define d2 where "d2 = iupdate B sb ip d1"
  have t2k: "t2 ! k = ip0" and len2: "length t2 = NINODE" using k len by (simp_all add: t2_def)
  have id: "i_dev ip0 = dev" "unat (i_inum ip0) = i" using ip0(1) u by (simp_all add: ikey_def)
  have "dinode_of ip0 = free_dinode ty" using ip0(4) id(2) meta_stepD(1) [OF m1 i(2)] by simp
  then have dn: "dinode_of ip = new_dinode ty ma mi" and ad: "length (i_addrs ip) = NDIRECT + 2"
    by (simp_all add: ip_def t2k dinode_of_def new_dinode_def free_dinode_def)
  have m2: "meta_step B sb dev i (new_dinode ty ma mi) d1 d2"
    unfolding d2_def dn [symmetric] by (rule meta_iupdate [OF B sb _ _ i(2) ad]) (simp_all add: ip_def t2k id)
  note m = meta_step_trans [OF m1 m2]
  have lk2: "i_locked (t2 ! k)" using cachedD(2) [OF c2 k(1)] by (simp add: t2_def)
  have od: "\<forall>j<unat (sb_ninodes sb). j \<noteq> i \<longrightarrow> on_disk B sb dev j d2 = on_disk B sb dev j d1" using meta_stepD(1) [OF m2] by simp
  have al: "\<forall>j<unat (sb_ninodes sb). alloced B sb dev j d2 \<longleftrightarrow> alloced B sb dev j d1"
    using meta_stepD(1) [OF m1] meta_stepD(1) [OF m2] by (simp add: alloced_def new_dinode_def)
  note cw = cached_write [OF c2 [folded t2_def] k(1), of ip d2, unfolded t2k id(2)]
  have c3: "cached B sb dev (insert k L) (t2[k := ip]) d2" and rf3: "refs (t2[k := ip]) = refs t2"
    using cw od al lk2 dn meta_stepD(1) [OF m2 i(2)] t2k by (simp_all add: ip_def)
  have "refs t2 = refs t1" unfolding t2_def using k len ip0 by (intro same_refs) simp_all
  then have "born B sb dev L (new_dinode ty ma mi) (tbl, d) i k (t2[k := ip], d2)"
    unfolding born_def fst_conv snd_conv
    using i na rf k c3 rf3 dn oth meta_stepD(1) [OF m] tree_ok_new [OF tr sb m i(2) ty] ip0 t2k len2
    by (simp add: ip_def ikey_def t2_def)
  then show ?thesis using a lk len2 unfolding d2_def ip_def t2_def by blast
qed simp


text \<open>An entry whose inode goes away.\<close>

lemma cached_free:
  assumes c: "cached B sb dev L tbl d" and k: "k < NINODE" "k \<notin> L" and last: "i_ref (tbl ! k) = 1 \<and> i_dev (tbl ! k) = dev \<and> unat (i_inum (tbl ! k)) = i"
    and ip': "i_ref ip' = 0" "\<not> i_locked ip'"
    and od: "\<forall>j<unat (sb_ninodes sb). j \<noteq> i \<longrightarrow> on_disk B sb dev j d' = on_disk B sb dev j d"
  shows "cached B sb dev L (tbl[k := ip']) d'"
  unfolding cached_def
proof (intro conjI allI impI)
  note inv = cachedD(1) [OF c] and len = itab_invD(1) [OF cachedD(1) [OF c]]
  show "itab_inv (tbl[k := ip'])" using ip' by (intro itab_inv_update [OF inv]) simp_all
  fix j assume j: "j < NINODE"
  show "i_locked (tbl[k := ip'] ! j) = (j \<in> L)" using cachedD(2) [OF c j] ip'(2) j k len by (cases "j = k") simp_all
  assume r: "0 < i_ref (tbl[k := ip'] ! j)"
  then have jk: "j \<noteq> k" using ip'(1) j len by auto
  then have nk: "tbl[k := ip'] ! j = tbl ! j" and r': "0 < i_ref (tbl ! j)" using r by simp_all
  note ej = cachedD(3-6) [OF c j r']
  have "unat (i_inum (tbl ! j)) \<noteq> i"
    using itab_inv_distinct [OF inv j k(1) r'] jk last ej(1) by (auto simp: ikey_def word_unat_eq_iff)
  then have "on_disk B sb dev (unat (i_inum (tbl ! j))) d' = on_disk B sb dev (unat (i_inum (tbl ! j))) d" using od ej(2) by simp
  then show "i_dev (tbl[k := ip'] ! j) = dev" "unat (i_inum (tbl[k := ip'] ! j)) < unat (sb_ninodes sb)"
      "alloced B sb dev (unat (i_inum (tbl[k := ip'] ! j))) d'"
      "i_valid (tbl[k := ip'] ! j) \<Longrightarrow> dinode_of (tbl[k := ip'] ! j) = on_disk B sb dev (unat (i_inum (tbl[k := ip'] ! j))) d'"
    using ej nk by (simp_all add: alloced_def)
qed

text \<open>No other directory names inode \<open>i\<close>.\<close>

definition unnamed :: "'d bio \<Rightarrow> superblock \<Rightarrow> u32 \<Rightarrow> 'd \<Rightarrow> nat \<Rightarrow> bool" where
  "unnamed B sb dev d i \<longleftrightarrow> (\<forall>j<unat (sb_ninodes sb). j \<noteq> i \<longrightarrow> d_type (on_disk B sb dev j d) = T_DIR \<longrightarrow>
     (\<forall>e\<in>set (dlist B sb dev d j). de_inum e \<noteq> 0 \<longrightarrow> unat (de_inum e) \<noteq> i))"

lemma unnamed_free: "tree_ok B sb dev d \<Longrightarrow> \<not> alloced B sb dev i d \<Longrightarrow> unnamed B sb dev d i"
  using tree_okD(4) by (fastforce simp: unnamed_def alloced_def T_DIR_def)

text \<open>
  An inode of which the caller holds the only reference is freed when its link count is set to 0, written, and the
  reference is given up.
\<close>

lemma free_inode:
  assumes B: "bio_laws B" and sb: "sb_ok sb" and tr: "tree_ok B sb dev d" and c: "cached B sb dev L tbl d"
    and k: "k < NINODE" "k \<in> L" "i_ref (tbl ! k) = 1" "i_valid (tbl ! k)" "ikey (tbl ! k) = (dev, of_nat i)" and i: "i < unat (sb_ninodes sb)"
    and ip: "ip = (tbl ! k)\<lparr>i_nlink := 0\<rparr>"
  shows "\<exists>tbl' d'. iunlockput B sb k (tbl[k := ip], iupdate B sb ip d) = Some (tbl', d') \<and> fs_wf B sb dev d' \<and>
     cached B sb dev (L - {k}) tbl' d' \<and> \<not> alloced B sb dev i d' \<and> refs tbl' = (refs tbl)((dev, of_nat i) := 0) \<and>
     (\<forall>j. j \<noteq> k \<longrightarrow> tbl' ! j = tbl ! j) \<and> i_ref (tbl' ! k) = 0 \<and>
     (\<forall>j<unat (sb_ninodes sb). j \<noteq> i \<longrightarrow> on_disk B sb dev j d' = on_disk B sb dev j d) \<and>
     (\<forall>b. data_block sb b \<longrightarrow> bread B dev b d' = bread B dev b d) \<and>
     (d_addrs (on_disk B sb dev i d) = replicate (NDIRECT + 2) 0 \<longrightarrow> (\<forall>n<unat (sb_size sb). bused B sb dev d' n = bused B sb dev d n))"
proof -
  note inv = cachedD(1) [OF c] and len = itab_invD(1) [OF cachedD(1) [OF c]] and fs = tree_okD(1) [OF tr]
  have ref: "0 < i_ref (tbl ! k)" and lkd: "i_locked (tbl ! k)" using k(2,3) cachedD(2) [OF c k(1)] by simp_all
  note e = cachedD(3-6) [OF c k(1) ref]
  have "unat (of_nat i :: u32) = i"
    using i unsigned_less [of "sb_ninodes sb", where ?'a = nat] by (intro unat_of_nat32) simp
  then have id: "i_dev (tbl ! k) = dev" "unat (i_inum (tbl ! k)) = i" using k(5) by (simp_all add: ikey_def)
  have al: "alloced B sb dev i d" and dn: "dinode_of (tbl ! k) = on_disk B sb dev i d" using e k(4) id by simp_all
  have ad: "i_addrs (tbl ! k) = d_addrs (on_disk B sb dev i d)" using loaded_dir(5) [OF dn id(1)] .
  define d1 where "d1 = iupdate B sb ip d"
  have len13: "length (i_addrs ip) = NDIRECT + 2" using iwfD(1) [OF fs_wfD(2) [OF fs i al]] ad by (simp add: ip)
  have m: "meta_step B sb dev i (dinode_of ip) d d1"
    unfolding d1_def by (rule meta_iupdate [OF B sb _ _ i len13]) (simp_all add: ip id)
  note md = meta_stepD [OF m]
  have fs1: "fs_wf B sb dev d1"
    by (rule meta_fs_wf [OF fs sb m i]) (use al ad in \<open>simp add: ip dinode_of_def\<close>)
  have "d_type (dinode_of ip) = d_type (dinode_of (tbl ! k))" by (simp add: ip dinode_of_def)
  then have aleq: "\<forall>j<unat (sb_ninodes sb). alloced B sb dev j d1 \<longleftrightarrow> alloced B sb dev j d" using md(1) dn by (simp add: alloced_def)
  note cw = cached_write [OF c k(1,2), of ip d1, unfolded id(2)]
  have c1: "cached B sb dev L (tbl[k := ip]) d1" and rf1: "refs (tbl[k := ip]) = refs tbl"
    using cw md(1) [OF i] md(1) aleq lkd by (simp_all add: ip)
  note u = iunlock_cached [OF c1 k(1,2)]
  define t2 where "t2 = tbl[k := ip\<lparr>i_locked := False\<rparr>]"
  have t2: "iunlock k (tbl[k := ip]) = Some t2" "cached B sb dev (L - {k}) t2 d1" "refs t2 = refs tbl" and t2k: "t2 ! k = ip\<lparr>i_locked := False\<rparr>"
    using u rf1 k(1) len by (simp_all add: t2_def)
  have last: "i_ref (t2 ! k) = 1" "i_valid (t2 ! k)" "i_nlink (t2 ! k) = 0" "\<not> i_locked (t2 ! k)" "i_dev (t2 ! k) = dev" "unat (i_inum (t2 ! k)) = i"
    "i_addrs (t2 ! k) = d_addrs (on_disk B sb dev i d1)" using t2k k id md(1) [OF i] by (simp_all add: ip dinode_of_def)
  obtain ip' d' where p: "iput B sb k (t2, d1) = Some (t2[k := ip'], d')" and ip': "i_ref ip' = 0" "\<not> i_locked ip'"
    and fs': "fs_wf B sb dev d'" and na: "\<not> alloced B sb dev i d'"
    and od: "\<forall>j<unat (sb_ninodes sb). j \<noteq> i \<longrightarrow> on_disk B sb dev j d' = on_disk B sb dev j d1"
    and br: "\<forall>b. data_block sb b \<longrightarrow> bread B dev b d' = bread B dev b d1"
    and bu: "\<forall>n<unat (sb_size sb). bused B sb dev d' n \<longleftrightarrow> bused B sb dev d1 n \<and> n \<notin> unat ` owned B (inode_at B sb dev i d1) d1"
    using iput_last [OF B sb fs1 last(1-6) i last(7)] aleq al i by blast
  have odd: "on_disk B sb dev j d' = on_disk B sb dev j d" if "j < unat (sb_ninodes sb)" "j \<noteq> i" for j
    using od md(1) [OF that(1)] that by simp
  have brd: "bread B dev b d' = bread B dev b d" if "data_block sb b" for b using br md(2) that by simp
  have len2: "length t2 = NINODE" using len by (simp add: t2_def)
  have "cached B sb dev (L - {k}) (t2[k := ip']) d'"
    by (rule cached_free [OF t2(2) k(1) _ _ ip' od]) (use last id in simp_all)
  moreover have "refs (t2[k := ip']) = (refs tbl)((dev, of_nat i) := 0)"
    using k(1,3,5) len2 ip' t2k t2(3) refs_entry [OF inv k(1) ref] by (auto simp: refs_update fun_eq_iff ip ikey_def)
  moreover have "iunlockput B sb k (tbl[k := ip], d1) = Some (t2[k := ip'], d')" using t2(1) p by (simp add: iunlockput_def)
  moreover have "\<forall>j. j \<noteq> k \<longrightarrow> (t2[k := ip']) ! j = tbl ! j" by (simp add: t2_def)
  moreover have "d_addrs (on_disk B sb dev i d) = replicate (NDIRECT + 2) 0 \<longrightarrow> (\<forall>n<unat (sb_size sb). bused B sb dev d' n = bused B sb dev d n)"
    using bu md(3) fresh_iwf [of B sb dev i d1] last(7) ad t2k by (simp add: ip)
  ultimately show ?thesis
    using fs' na odd brd ip'(1) k(1) len2 unfolding d1_def by (intro exI [of _ "t2[k := ip']"] exI [of _ d']) simp
qed

text \<open>If no directory names it, the tree stays well formed.\<close>

lemma drop_inode:
  assumes B: "bio_laws B" and sb: "sb_ok sb" and tr: "tree_ok B sb dev d" and c: "cached B sb dev L tbl d"
    and k: "k < NINODE" "k \<in> L" "i_ref (tbl ! k) = 1" "i_valid (tbl ! k)" "ikey (tbl ! k) = (dev, of_nat i)" and i: "i < unat (sb_ninodes sb)"
    and un: "unnamed B sb dev d i" and ip: "ip = (tbl ! k)\<lparr>i_nlink := 0\<rparr>"
  shows "\<exists>tbl' d'. iunlockput B sb k (tbl[k := ip], iupdate B sb ip d) = Some (tbl', d') \<and> tree_ok B sb dev d' \<and>
     cached B sb dev (L - {k}) tbl' d' \<and> \<not> alloced B sb dev i d' \<and> refs tbl' = (refs tbl)((dev, of_nat i) := 0) \<and>
     (\<forall>j. j \<noteq> k \<longrightarrow> tbl' ! j = tbl ! j) \<and> i_ref (tbl' ! k) = 0 \<and>
     (\<forall>j<unat (sb_ninodes sb). j \<noteq> i \<longrightarrow> on_disk B sb dev j d' = on_disk B sb dev j d) \<and>
     (\<forall>j<unat (sb_ninodes sb). j \<noteq> i \<longrightarrow> d_type (on_disk B sb dev j d) = T_DIR \<longrightarrow> dlist B sb dev d' j = dlist B sb dev d j) \<and>
     (d_addrs (on_disk B sb dev i d) = replicate (NDIRECT + 2) 0 \<longrightarrow> (\<forall>n<unat (sb_size sb). bused B sb dev d' n = bused B sb dev d n))"
proof -
  obtain tbl' d' where u: "iunlockput B sb k (tbl[k := ip], iupdate B sb ip d) = Some (tbl', d')" and fs': "fs_wf B sb dev d'"
    and c': "cached B sb dev (L - {k}) tbl' d'" and na: "\<not> alloced B sb dev i d'" and rf: "refs tbl' = (refs tbl)((dev, of_nat i) := 0)"
    and t: "\<forall>j. j \<noteq> k \<longrightarrow> tbl' ! j = tbl ! j" "i_ref (tbl' ! k) = 0"
    and od: "\<forall>j<unat (sb_ninodes sb). j \<noteq> i \<longrightarrow> on_disk B sb dev j d' = on_disk B sb dev j d"
    and br: "\<forall>b. data_block sb b \<longrightarrow> bread B dev b d' = bread B dev b d"
    and bu: "d_addrs (on_disk B sb dev i d) = replicate (NDIRECT + 2) 0 \<longrightarrow> (\<forall>n<unat (sb_size sb). bused B sb dev d' n = bused B sb dev d n)"
    using free_inode [OF B sb tr c k i ip] by (elim exE conjE) (rule that)
  have "tree_ok B sb dev d'"
    by (rule tree_ok_meta(1) [OF tr fs', of i]) (use od br na un in \<open>auto simp: unnamed_def\<close>)
  moreover have "\<forall>j<unat (sb_ninodes sb). j \<noteq> i \<longrightarrow> d_type (on_disk B sb dev j d) = T_DIR \<longrightarrow> dlist B sb dev d' j = dlist B sb dev d j"
    using dirs_keep(1) [OF tr, of i d'] od br by blast
  ultimately show ?thesis using u c' na rf t od bu by (intro exI [of _ tbl'] exI [of _ d'] conjI)
qed

subsection \<open>Link counts\<close>

text \<open>Writing a locked inode with another link count.\<close>

lemma write_nlink:
  assumes B: "bio_laws B" and sb: "sb_ok sb" and tr: "tree_ok B sb dev d" and c: "cached B sb dev L tbl d"
    and k: "k < NINODE" "k \<in> L" "i_valid (tbl ! k)" and i: "unat (i_inum (tbl ! k)) = i"
    and ip: "ip = (tbl ! k)\<lparr>i_nlink := n\<rparr>" and d': "d' = iupdate B sb ip d"
  shows "cached B sb dev L (tbl[k := ip]) d'" and "refs (tbl[k := ip]) = refs tbl"
    and "j < unat (sb_ninodes sb) \<Longrightarrow> d_type (on_disk B sb dev j d) = T_DIR \<Longrightarrow> dlist B sb dev d' j = dlist B sb dev d j"
    and "j < unat (sb_ninodes sb) \<Longrightarrow> on_disk B sb dev j d' = (if j = i then (on_disk B sb dev i d)\<lparr>d_nlink := n\<rparr> else on_disk B sb dev j d)"
    and "m < unat (sb_size sb) \<Longrightarrow> bused B sb dev d' m = bused B sb dev d m"
    and "data_block sb b \<Longrightarrow> bread B dev b d' = bread B dev b d"
    and "n \<noteq> 0 \<Longrightarrow> tree_ok B sb dev d'"
proof -
  have ref: "0 < i_ref (tbl ! k)" and lkd: "i_locked (tbl ! k)"
    using k cachedD(2) [OF c k(1)] itab_invD(3) [OF cachedD(1) [OF c] k(1)] by simp_all
  note e = cachedD(3-6) [OF c k(1) ref, unfolded i] and fs = tree_okD(1) [OF tr]
  have dn: "dinode_of (tbl ! k) = on_disk B sb dev i d" using e(4) k(3) by simp
  have dn': "dinode_of ip = (on_disk B sb dev i d)\<lparr>d_nlink := n\<rparr>" using dn [symmetric] by (simp add: ip dinode_of_def)
  have "length (i_addrs ip) = NDIRECT + 2"
    using iwfD(1) [OF fs_wfD(2) [OF fs e(2,3)]] loaded_dir(5) [OF dn e(1)] by (simp add: ip)
  then have m: "meta_step B sb dev i ((on_disk B sb dev i d)\<lparr>d_nlink := n\<rparr>) d d'"
    unfolding d' dn' [symmetric] by (intro meta_iupdate [OF B sb _ _ e(2)]) (simp_all add: ip i e(1))
  note md = meta_stepD [OF m]
  show "on_disk B sb dev j d' = (if j = i then (on_disk B sb dev i d)\<lparr>d_nlink := n\<rparr> else on_disk B sb dev j d)"
    if "j < unat (sb_ninodes sb)" for j using md(1) [OF that] .
  show "data_block sb b \<Longrightarrow> bread B dev b d' = bread B dev b d" using md(2) .
  show "bused B sb dev d' m = bused B sb dev d m" if "m < unat (sb_size sb)" using md(3) [OF that] .
  have fs': "fs_wf B sb dev d'" by (rule meta_fs_wf [OF fs sb m e(2)]) (use e(3) in simp)
  have al: "\<forall>j<unat (sb_ninodes sb). alloced B sb dev j d' \<longleftrightarrow> alloced B sb dev j d" using md(1) by (simp add: alloced_def)
  show "cached B sb dev L (tbl[k := ip]) d'" "refs (tbl[k := ip]) = refs tbl"
    using cached_write [OF c k(1,2), of ip d', unfolded i] md(1) e(2) al lkd dn' by (simp_all add: ip)
  have self: "dlist B sb dev d' i = dlist B sb dev d i" "dir_ok B (inode_at B sb dev i d') d'" if ty: "d_type (on_disk B sb dev i d) = T_DIR"
    using dir_keep [OF tree_okD(3) [OF tr e(2,3) ty], of "inode_at B sb dev i d'" d'] contents_keep [OF fs_wfD(2) [OF fs e(2,3)] _ md(2)]
      md(1) [OF e(2)] by (simp_all add: inode_at_def dinode_load_def)
  show "dlist B sb dev d' j = dlist B sb dev d j" if "j < unat (sb_ninodes sb)" "d_type (on_disk B sb dev j d) = T_DIR" for j
    using self(1) dirs_keep(1) [OF tr, of i d'] md(1,2) that by (cases "j = i") auto
  have odi: "on_disk B sb dev i d' = (on_disk B sb dev i d)\<lparr>d_nlink := n\<rparr>" using md(1) [OF e(2)] by simp
  have ai: "alloced B sb dev i d'" using al e(2,3) by simp
  show "tree_ok B sb dev d'" if n: "n \<noteq> 0"
  proof (rule tree_ok_meta(1) [OF tr fs', of i])
    show "d_nlink (on_disk B sb dev i d') \<noteq> 0 \<and> (d_type (on_disk B sb dev i d') = T_DIR \<longrightarrow> dir_ok B (inode_at B sb dev i d') d' \<and>
       (\<forall>e\<in>set (dlist B sb dev d' i). de_inum e \<noteq> 0 \<longrightarrow> unat (de_inum e) < unat (sb_ninodes sb) \<and> alloced B sb dev (unat (de_inum e)) d'))"
      using self tree_okD(4) [OF tr e(2,3)] al n odi by auto
  qed (use md(1,2) ai in auto)
qed

text \<open>With another count than 0 nothing else changes.\<close>

lemma set_nlink:
  assumes B: "bio_laws B" and sb: "sb_ok sb" and tr: "tree_ok B sb dev d" and c: "cached B sb dev L tbl d"
    and k: "k < NINODE" "k \<in> L" "i_valid (tbl ! k)" and i: "unat (i_inum (tbl ! k)) = i"
    and ip: "ip = (tbl ! k)\<lparr>i_nlink := n\<rparr>" "n \<noteq> 0" and d': "d' = iupdate B sb ip d"
  shows "tree_ok B sb dev d'" and "cached B sb dev L (tbl[k := ip]) d'" and "refs (tbl[k := ip]) = refs tbl"
    and "j < unat (sb_ninodes sb) \<Longrightarrow> d_type (on_disk B sb dev j d) = T_DIR \<Longrightarrow> dlist B sb dev d' j = dlist B sb dev d j"
    and "j < unat (sb_ninodes sb) \<Longrightarrow> on_disk B sb dev j d' = (if j = i then (on_disk B sb dev i d)\<lparr>d_nlink := n\<rparr> else on_disk B sb dev j d)"
    and "m < unat (sb_size sb) \<Longrightarrow> bused B sb dev d' m = bused B sb dev d m"
  using write_nlink [OF B sb tr c k i ip(1) d'] ip(2) by blast+

end
