(* ===== verification/SysCreate.thy ===== *)
theory SysCreate
  imports SysOpen FsNode
begin

text \<open>
  \<^verbatim>\<open>create\<close> of Lab 5, Task 5.2 (\<^verbatim>\<open>kernel/sysfile.c\<close>), which \<^verbatim>\<open>open\<close>, \<^verbatim>\<open>mkdir\<close>, \<^verbatim>\<open>mknod\<close> and \<^verbatim>\<open>symlink\<close> call, as an update of
  the tree: a new inode appears under the name, a new directory holds itself and its parent, and where the disk
  has no room the inode goes away again and the tree is as before.
\<close>

subsection \<open>While an inode is being made\<close>

text \<open>
  The parent \<open>p\<close> and the new inode \<open>i\<close> are locked in the entries \<open>dp\<close> and \<open>ip\<close>; all other inodes are as on the disk \<open>d0\<close>
  that \<^verbatim>\<open>create\<close> started from.
\<close>

definition making :: "'d bio \<Rightarrow> superblock \<Rightarrow> 'd \<Rightarrow> (u32 \<times> u32 \<Rightarrow> int) \<Rightarrow> nat \<Rightarrow> nat \<Rightarrow> nat \<Rightarrow> nat \<Rightarrow> itable \<Rightarrow> 'd \<Rightarrow> bool" where
  "making B sb d0 R dp p ip i t d \<longleftrightarrow>
     tree_ok B sb ROOTDEV d \<and> cached B sb ROOTDEV {ip, dp} t d \<and> refs t = R \<and>
     ip < NINODE \<and> dp < NINODE \<and> ip \<noteq> dp \<and> i < unat (sb_ninodes sb) \<and> p < unat (sb_ninodes sb) \<and> i \<noteq> p \<and>
     ikey (t ! ip) = (ROOTDEV, of_nat i) \<and> i_ref (t ! ip) = 1 \<and> i_valid (t ! ip) \<and>
     ikey (t ! dp) = (ROOTDEV, of_nat p) \<and> i_valid (t ! dp) \<and> i_type (t ! dp) = T_DIR \<and>
     (\<forall>j<unat (sb_ninodes sb). j \<noteq> i \<longrightarrow> j \<noteq> p \<longrightarrow> on_disk B sb ROOTDEV j d = on_disk B sb ROOTDEV j d0) \<and>
     (\<forall>j<unat (sb_ninodes sb). j \<noteq> i \<longrightarrow> j \<noteq> p \<longrightarrow> d_type (on_disk B sb ROOTDEV j d0) = T_DIR \<longrightarrow>
        dlist B sb ROOTDEV d j = dlist B sb ROOTDEV d0 j)"

lemma makingD:
  assumes "making B sb d0 R dp p ip i t d"
  shows "tree_ok B sb ROOTDEV d" and "cached B sb ROOTDEV {ip, dp} t d" and "refs t = R"
    and "ip < NINODE" and "dp < NINODE" and "ip \<noteq> dp" and "i < unat (sb_ninodes sb)" and "p < unat (sb_ninodes sb)" and "i \<noteq> p"
    and "ikey (t ! ip) = (ROOTDEV, of_nat i)" and "i_ref (t ! ip) = 1" and "i_valid (t ! ip)"
    and "ikey (t ! dp) = (ROOTDEV, of_nat p)" and "i_valid (t ! dp)" and "i_type (t ! dp) = T_DIR"
    and "j < unat (sb_ninodes sb) \<Longrightarrow> j \<noteq> i \<Longrightarrow> j \<noteq> p \<Longrightarrow> on_disk B sb ROOTDEV j d = on_disk B sb ROOTDEV j d0"
    and "j < unat (sb_ninodes sb) \<Longrightarrow> j \<noteq> i \<Longrightarrow> j \<noteq> p \<Longrightarrow> d_type (on_disk B sb ROOTDEV j d0) = T_DIR \<Longrightarrow>
        dlist B sb ROOTDEV d j = dlist B sb ROOTDEV d0 j"
  using assms unfolding making_def by blast+

lemma inum32: "i < unat (sb_ninodes sb) \<Longrightarrow> unat (of_nat i :: u32) = i"
  using unsigned_less [of "sb_ninodes sb", where ?'a = nat] by (intro unat_of_nat32) simp

text \<open>The loaded image of a locked entry.\<close>

lemma locked_entry:
  assumes c: "cached B sb ROOTDEV L t d" and k: "k < NINODE" "k \<in> L" "i_valid (t ! k)" and key: "ikey (t ! k) = (ROOTDEV, of_nat q)"
    and q: "q < unat (sb_ninodes sb)"
  shows "unat (i_inum (t ! k)) = q" and "i_dev (t ! k) = ROOTDEV" and "dinode_of (t ! k) = on_disk B sb ROOTDEV q d"
    and "alloced B sb ROOTDEV q d" and "i_type (t ! k) = d_type (on_disk B sb ROOTDEV q d)" and "0 < i_ref (t ! k)"
    and "i_size (t ! k) = d_size (on_disk B sb ROOTDEV q d)" and "i_nlink (t ! k) = d_nlink (on_disk B sb ROOTDEV q d)"
proof -
  show n: "unat (i_inum (t ! k)) = q" and dv: "i_dev (t ! k) = ROOTDEV" using key inum32 [OF q] by (simp_all add: ikey_def)
  show r: "0 < i_ref (t ! k)" using k(2) cachedD(2) [OF c k(1)] itab_invD(3) [OF cachedD(1) [OF c] k(1)] by simp
  show dn: "dinode_of (t ! k) = on_disk B sb ROOTDEV q d" and "alloced B sb ROOTDEV q d" using cachedD(5,6) [OF c k(1) r] k(3) n by simp_all
  show "i_type (t ! k) = d_type (on_disk B sb ROOTDEV q d)" "i_nlink (t ! k) = d_nlink (on_disk B sb ROOTDEV q d)" using loaded_dir(3,4) [OF dn dv] .
  show "i_size (t ! k) = d_size (on_disk B sb ROOTDEV q d)" unfolding dn [symmetric] by (simp add: dinode_of_def)
qed

lemma making_born:
  assumes l: "locked_at B sb dp p tbl d" and v: "i_valid (tbl ! dp)" and ty: "i_type (tbl ! dp) = T_DIR"
    and b: "born B sb ROOTDEV {dp} di (tbl, d) i ip (t, d')"
  shows "making B sb d (refs t) dp p ip i t d'" and "dlist B sb ROOTDEV d' p = dlist B sb ROOTDEV d p"
    and "on_disk B sb ROOTDEV p d' = on_disk B sb ROOTDEV p d" and "on_disk B sb ROOTDEV i d' = di"
    and "\<not> alloced B sb ROOTDEV i d" and "1 \<le> i" and "refs t = (refs tbl)((ROOTDEV, of_nat i) := 1)" and "refs tbl (ROOTDEV, of_nat i) = 0"
proof -
  note f = locked_atD [OF l] and b' = b [unfolded born_def fst_conv snd_conv]
  have ne: "i \<noteq> p" "ip \<noteq> dp" using f(9) b' by auto
  have dir: "d_type (on_disk B sb ROOTDEV p d) = T_DIR" using loaded_dir(3) [OF f(5,8)] ty by simp
  have "t ! dp = tbl ! dp" using b' ne by auto
  then show "making B sb d (refs t) dp p ip i t d'"
    unfolding making_def using b' ne f v ty by auto
  show "dlist B sb ROOTDEV d' p = dlist B sb ROOTDEV d p" "on_disk B sb ROOTDEV p d' = on_disk B sb ROOTDEV p d"
    using b' f(3) ne dir by auto
qed (use b in \<open>simp_all add: born_def\<close>)


subsection \<open>Entries\<close>

text \<open>The entry that \<^verbatim>\<open>dirlink\<close> writes.\<close>

abbreviation entry_for :: "u8 list \<Rightarrow> u32 \<Rightarrow> dirent" where
  "entry_for name inum \<equiv> \<lparr>de_inum = ucast inum, de_name = strncpy DIRSIZ name 0\<rparr>"

lemma keeps_size: "keeps Q t (t[k := (t ! k)\<lparr>i_size := z, i_addrs := as\<rparr>])"
  by (rule keeps_same) (auto simp: nth_list_update_if ikey_def)

text \<open>Linking a new name into one of the two locked directories.\<close>

lemma making_dirlink:
  assumes B: "bio_laws B" and sb: "sb_ok sb" and mk: "making B sb d0 R dp p ip i t d"
    and kq: "k = ip \<and> q = i \<or> k = dp \<and> q = p" and ty: "d_type (on_disk B sb ROOTDEV q d) = T_DIR"
    and room: "card {x. 0 < R x} < NINODE" and sz: "16 * length (dlist B sb ROOTDEV d q) + 16 \<le> MAXFILE * BSIZE"
    and inum: "0 < unat inum" "unat inum < 65536" "unat inum < unat (sb_ninodes sb)" "alloced B sb ROOTDEV (unat inum) d"
    and none: "dirmap B sb ROOTDEV d q (cname name) = None"
  shows "\<exists>r t' d' z as. dirlink B sb k name inum (t, d) = Some (r, t', d') \<and> making B sb d0 R dp p ip i t' d' \<and>
     t' = t[k := (t ! k)\<lparr>i_size := z, i_addrs := as\<rparr>] \<and>
     (\<forall>m<unat (sb_ninodes sb). m \<noteq> q \<longrightarrow> on_disk B sb ROOTDEV m d' = on_disk B sb ROOTDEV m d) \<and>
     (\<forall>m<unat (sb_ninodes sb). m \<noteq> q \<longrightarrow> d_type (on_disk B sb ROOTDEV m d) = T_DIR \<longrightarrow> dlist B sb ROOTDEV d' m = dlist B sb ROOTDEV d m) \<and>
     on_disk B sb ROOTDEV q d' = (on_disk B sb ROOTDEV q d)\<lparr>d_size := z, d_addrs := as\<rparr> \<and>
     (r = 0 \<and> dlist B sb ROOTDEV d' q = put_entry (dlist B sb ROOTDEV d q) (free_slot (dlist B sb ROOTDEV d q)) (entry_for name inum) \<and>
        dirmap B sb ROOTDEV d' q = (dirmap B sb ROOTDEV d q)(cname name \<mapsto> ucast inum) \<or>
      r = - 1 \<and> dlist B sb ROOTDEV d' q = dlist B sb ROOTDEV d q \<and> (\<forall>m<unat (sb_size sb). bused B sb ROOTDEV d' m))"
proof -
  note f = makingD [OF mk]
  have k: "k < NINODE" "k \<in> {ip, dp}" "i_valid (t ! k)" "ikey (t ! k) = (ROOTDEV, of_nat q)" "q < unat (sb_ninodes sb)" using kq f by auto
  note e = locked_entry [OF f(2) k]
  have ok: "dir_ok B (inode_at B sb ROOTDEV q d) d" using tree_okD(3) [OF f(1) k(5) e(4) ty] .
  have "unat (i_size (t ! k)) = 16 * length (dlist B sb ROOTDEV d q)"
    using ok e(7) by (simp add: dir_ok_def dirents_def) (simp add: inode_at_def dinode_load_def)
  then have sz': "unat (i_size (t ! k)) + 16 \<le> MAXFILE * BSIZE" using sz by simp
  have ty': "i_type (t ! k) = T_DIR" using e(5) ty by simp
  have rm: "card (held t) < NINODE" using room f(3) by simp
  obtain r t' d' z as where l: "dirlink B sb k name inum (t, d) = Some (r, t', d')" "tree_ok B sb ROOTDEV d'" "cached B sb ROOTDEV {ip, dp} t' d'"
      "refs t' = refs t" "t' = t[k := (t ! k)\<lparr>i_size := z, i_addrs := as\<rparr>]"
    and od: "\<forall>m<unat (sb_ninodes sb). m \<noteq> q \<longrightarrow> on_disk B sb ROOTDEV m d' = on_disk B sb ROOTDEV m d"
    and dl: "\<forall>m<unat (sb_ninodes sb). m \<noteq> q \<longrightarrow> alloced B sb ROOTDEV m d \<longrightarrow> d_type (on_disk B sb ROOTDEV m d) = T_DIR \<longrightarrow>
      dlist B sb ROOTDEV d' m = dlist B sb ROOTDEV d m"
    and res: "r = 0 \<and> dlist B sb ROOTDEV d' q = put_entry (dlist B sb ROOTDEV d q) (free_slot (dlist B sb ROOTDEV d q)) (entry_for name inum) \<and>
        dirmap B sb ROOTDEV d' q = (dirmap B sb ROOTDEV d q)(cname name \<mapsto> ucast inum) \<or>
      r = - 1 \<and> dlist B sb ROOTDEV d' q = dlist B sb ROOTDEV d q \<and> (\<forall>m<unat (sb_size sb). bused B sb ROOTDEV d' m)"
    using dirlink_absent [OF B sb f(1,2) k(1-3) e(1) [symmetric] ty' rm sz' inum none] by (elim exE conjE) (rule that)
  have len: "length t = NINODE" using itab_invD(1) [OF cachedD(1) [OF f(2)]] .
  have al: "alloced B sb ROOTDEV m d" if "d_type (on_disk B sb ROOTDEV m d) = T_DIR" for m using that by (simp add: alloced_def T_DIR_def)
  have dlq: "dlist B sb ROOTDEV d' m = dlist B sb ROOTDEV d m"
    if "m < unat (sb_ninodes sb)" "m \<noteq> q" "d_type (on_disk B sb ROOTDEV m d) = T_DIR" for m using dl al that by blast
  have "making B sb d0 R dp p ip i t' d'"
    unfolding making_def using l(2-5) f(3-17) kq len od dlq by (auto simp: nth_list_update_if ikey_def)
  moreover have "on_disk B sb ROOTDEV q d' = dinode_of (t' ! k)"
    using locked_entry(3) [OF l(3) k(1,2) _ _ k(5)] l(5) k(1,3,4) len by (simp add: ikey_def)
  then have "on_disk B sb ROOTDEV q d' = (on_disk B sb ROOTDEV q d)\<lparr>d_size := z, d_addrs := as\<rparr>"
    using e(3) [symmetric] l(5) k(1) len by (simp add: dinode_of_def)
  ultimately show ?thesis using l(1,5) od dlq res by blast
qed


lemma ucast_of_nat16: "(ucast (of_nat n :: u32) :: u16) = of_nat n"
  by (rule bit_word_eqI) (simp add: bit_simps)

lemma dmap_Nil: "dmap [] = Map.empty"
  by (simp add: dmap_def fun_eq_iff)

text \<open>The two entries of a new directory.\<close>

lemma making_dots:
  assumes B: "bio_laws B" and sb: "sb_ok sb" and mk: "making B sb d0 R dp p ip i t d" and ty: "d_type (on_disk B sb ROOTDEV i d) = T_DIR"
    and sz: "d_size (on_disk B sb ROOTDEV i d) = 0" and room: "card {x. 0 < R x} < NINODE" and n16: "unat (sb_ninodes sb) \<le> 65536"
    and pos: "1 \<le> i" "1 \<le> p"
  shows "\<exists>ok t' d' z as. dot_entries B sb ip dp (t, d) = Some (ok, t', d') \<and> making B sb d0 R dp p ip i t' d' \<and>
     on_disk B sb ROOTDEV p d' = on_disk B sb ROOTDEV p d \<and> dlist B sb ROOTDEV d' p = dlist B sb ROOTDEV d p \<and>
     on_disk B sb ROOTDEV i d' = (on_disk B sb ROOTDEV i d)\<lparr>d_size := z, d_addrs := as\<rparr> \<and>
     (ok \<longrightarrow> dirmap B sb ROOTDEV d' i = [[46] \<mapsto> of_nat i, [46, 46] \<mapsto> of_nat p]) \<and> (\<forall>Q. keeps Q t t')"
proof -
  note f = makingD [OF mk]
  note e = locked_entry [OF f(2,4) _ f(12,10,7)] and g = locked_entry [OF f(2,5) _ f(14,13,8)]
  have dirp: "d_type (on_disk B sb ROOTDEV p d) = T_DIR" using g(5) f(15) by simp
  have emp: "dlist B sb ROOTDEV d i = []" using empty_inode(2) [OF sz] .
  have nums: "i_inum (t ! ip) = of_nat i" "i_inum (t ! dp) = of_nat p" using f(10,13) by (simp_all add: ikey_def)
  have lt: "i < 65536" "p < 65536" "unat (of_nat i :: u32) = i" "unat (of_nat p :: u32) = p" using f(7,8) n16 inum32 by auto
  have cn: "cname [46] = [46]" "cname [46, 46] = [46, 46]" by (simp_all add: cname_def DIRSIZ_def)
  have n0: "dirmap B sb ROOTDEV d i (cname [46]) = None" by (simp add: dirmap_def emp dmap_def)
  obtain r1 t1 d1 z1 a1 where l1: "dirlink B sb ip [46] (of_nat i) (t, d) = Some (r1, t1, d1)" and m1: "making B sb d0 R dp p ip i t1 d1"
    and t1: "t1 = t[ip := (t ! ip)\<lparr>i_size := z1, i_addrs := a1\<rparr>]"
    and p1: "on_disk B sb ROOTDEV p d1 = on_disk B sb ROOTDEV p d" "dlist B sb ROOTDEV d1 p = dlist B sb ROOTDEV d p"
    and i1: "on_disk B sb ROOTDEV i d1 = (on_disk B sb ROOTDEV i d)\<lparr>d_size := z1, d_addrs := a1\<rparr>"
    and r1: "r1 = 0 \<and> dlist B sb ROOTDEV d1 i = put_entry [] (free_slot []) (entry_for [46] (of_nat i)) \<and>
        dirmap B sb ROOTDEV d1 i = (dirmap B sb ROOTDEV d i)([46] \<mapsto> ucast (of_nat i :: u32)) \<or> r1 = - 1"
    using making_dirlink [OF B sb mk _ ty room _ _ _ _ _ n0, of ip "of_nat i"] lt pos f(7-9) e(4) emp cn dirp MAXFILE_bytes by auto
  have kp1: "keeps Q t t1" for Q using keeps_size t1 by simp
  show ?thesis
  proof (cases "r1 = 0")
    case False
    then have "dot_entries B sb ip dp (t, d) = Some (False, t1, d1)" using l1 r1 nums by (auto simp: dot_entries_def)
    then show ?thesis using m1 p1 i1 kp1 by blast
  next
    case True
    have dm1: "dirmap B sb ROOTDEV d1 i = [[46] \<mapsto> of_nat i]"
      using True r1 by (simp add: dirmap_def [of _ _ _ d] emp dmap_Nil ucast_of_nat16)
    have ln1: "length (dlist B sb ROOTDEV d1 i) = 1" using True r1 by (simp add: put_entry_def free_slot_def)
    have ty1: "d_type (on_disk B sb ROOTDEV i d1) = T_DIR" using i1 ty by simp
    have al1: "alloced B sb ROOTDEV p d1" using p1(1) g(4) by (simp add: alloced_def)
    have n1: "dirmap B sb ROOTDEV d1 i (cname [46, 46]) = None" using dm1 cn by simp
    obtain r2 t2 d2 z2 a2 where l2: "dirlink B sb ip [46, 46] (of_nat p) (t1, d1) = Some (r2, t2, d2)" and m2: "making B sb d0 R dp p ip i t2 d2"
      and t2: "t2 = t1[ip := (t1 ! ip)\<lparr>i_size := z2, i_addrs := a2\<rparr>]"
      and p2: "on_disk B sb ROOTDEV p d2 = on_disk B sb ROOTDEV p d1" "dlist B sb ROOTDEV d2 p = dlist B sb ROOTDEV d1 p"
      and i2: "on_disk B sb ROOTDEV i d2 = (on_disk B sb ROOTDEV i d1)\<lparr>d_size := z2, d_addrs := a2\<rparr>"
      and r2: "r2 = 0 \<and> dirmap B sb ROOTDEV d2 i = (dirmap B sb ROOTDEV d1 i)([46, 46] \<mapsto> ucast (of_nat p :: u32)) \<or> r2 = - 1"
      using making_dirlink [OF B sb m1 _ ty1 room _ _ _ _ _ n1, of ip "of_nat p"] lt pos f(7-9) al1 ln1 cn dirp p1(1) MAXFILE_bytes by auto
    have "t1 ! dp = t ! dp" using t1 f(6) by simp
    then have "dot_entries B sb ip dp (t, d) = Some (0 \<le> r2, t2, d2)" using l1 l2 True nums by (simp add: dot_entries_def)
    moreover have "0 \<le> r2 \<longrightarrow> dirmap B sb ROOTDEV d2 i = [[46] \<mapsto> of_nat i, [46, 46] \<mapsto> of_nat p]"
      using r2 dm1 by (auto simp: ucast_of_nat16)
    moreover have "on_disk B sb ROOTDEV i d2 = (on_disk B sb ROOTDEV i d)\<lparr>d_size := z2, d_addrs := a2\<rparr>" using i2 i1 by simp
    moreover have "\<forall>Q. keeps Q t t2" using keeps_size t2 keeps_trans [OF kp1] by metis
    ultimately show ?thesis using m2 p1 p2 by (metis (no_types, lifting))
  qed
qed


subsection \<open>Giving up\<close>

lemma making_unnamed:
  assumes mk: "making B sb d0 R dp p ip i t d" and tr0: "tree_ok B sb ROOTDEV d0" and na: "\<not> alloced B sb ROOTDEV i d0"
    and dirp: "d_type (on_disk B sb ROOTDEV p d0) = T_DIR" and dlp: "dlist B sb ROOTDEV d p = dlist B sb ROOTDEV d0 p"
  shows "j < unat (sb_ninodes sb) \<Longrightarrow> j \<noteq> i \<Longrightarrow> d_type (on_disk B sb ROOTDEV j d0) = T_DIR \<Longrightarrow> dlist B sb ROOTDEV d j = dlist B sb ROOTDEV d0 j"
    and "j < unat (sb_ninodes sb) \<Longrightarrow> j \<noteq> i \<Longrightarrow> d_type (on_disk B sb ROOTDEV j d) = T_DIR \<longleftrightarrow> d_type (on_disk B sb ROOTDEV j d0) = T_DIR"
    and "unnamed B sb ROOTDEV d i"
proof -
  note f = makingD [OF mk]
  have tp: "d_type (on_disk B sb ROOTDEV p d) = T_DIR" using locked_entry(5) [OF f(2,5) _ f(14,13,8)] f(15) by simp
  show dl: "dlist B sb ROOTDEV d j = dlist B sb ROOTDEV d0 j" if "j < unat (sb_ninodes sb)" "j \<noteq> i" "d_type (on_disk B sb ROOTDEV j d0) = T_DIR" for j
    using that f(17) dlp by (cases "j = p") auto
  show ty: "d_type (on_disk B sb ROOTDEV j d) = T_DIR \<longleftrightarrow> d_type (on_disk B sb ROOTDEV j d0) = T_DIR" if "j < unat (sb_ninodes sb)" "j \<noteq> i" for j
    using that f(16) dirp tp by (cases "j = p") auto
  show "unnamed B sb ROOTDEV d i" using unnamed_free [OF tr0 na] dl ty by (simp add: unnamed_def)
qed

lemma create_fail_spec:
  assumes B: "bio_laws B" and sb: "sb_ok sb" and mk: "making B sb d0 R dp p ip i t d" and tr0: "tree_ok B sb ROOTDEV d0"
    and na: "\<not> alloced B sb ROOTDEV i d0" and dirp: "d_type (on_disk B sb ROOTDEV p d0) = T_DIR"
    and dlp: "dlist B sb ROOTDEV d p = dlist B sb ROOTDEV d0 p"
    and R': "R' = R((ROOTDEV, of_nat i) := 0, (ROOTDEV, of_nat p) := R (ROOTDEV, of_nat p) - 1)"
  shows "\<exists>t' d'. create_fail B sb ip dp (t, d) = Some (None, t', d') \<and> tree_ok B sb ROOTDEV d' \<and> cached B sb ROOTDEV {} t' d' \<and>
     refs t' = R' \<and> keeps R' t t' \<and> \<not> alloced B sb ROOTDEV i d' \<and>
     (\<forall>j<unat (sb_ninodes sb). j \<noteq> i \<longrightarrow> on_disk B sb ROOTDEV j d' = on_disk B sb ROOTDEV j d) \<and>
     (\<forall>j<unat (sb_ninodes sb). j \<noteq> i \<longrightarrow> d_type (on_disk B sb ROOTDEV j d0) = T_DIR \<longrightarrow> dlist B sb ROOTDEV d' j = dlist B sb ROOTDEV d0 j) \<and>
     (d_addrs (on_disk B sb ROOTDEV i d) = replicate (NDIRECT + 2) 0 \<longrightarrow>
        (\<forall>n<unat (sb_size sb). bused B sb ROOTDEV d' n = bused B sb ROOTDEV d n))"
proof -
  note f = makingD [OF mk] and un = making_unnamed [OF mk tr0 na dirp dlp] and len = itab_invD(1) [OF cachedD(1) [OF makingD(2) [OF mk]]]
  let ?ip = "(t ! ip)\<lparr>i_nlink := 0\<rparr>"
  obtain t1 d1 where p1: "iunlockput B sb ip (t[ip := ?ip], iupdate B sb ?ip d) = Some (t1, d1)" and tr1: "tree_ok B sb ROOTDEV d1"
    and c1: "cached B sb ROOTDEV ({ip, dp} - {ip}) t1 d1" and na1: "\<not> alloced B sb ROOTDEV i d1" and rf1: "refs t1 = R((ROOTDEV, of_nat i) := 0)"
    and oth: "\<forall>j. j \<noteq> ip \<longrightarrow> t1 ! j = t ! j"
    and od: "\<forall>j<unat (sb_ninodes sb). j \<noteq> i \<longrightarrow> on_disk B sb ROOTDEV j d1 = on_disk B sb ROOTDEV j d"
    and dl: "\<forall>j<unat (sb_ninodes sb). j \<noteq> i \<longrightarrow> d_type (on_disk B sb ROOTDEV j d) = T_DIR \<longrightarrow> dlist B sb ROOTDEV d1 j = dlist B sb ROOTDEV d j"
    and bu: "d_addrs (on_disk B sb ROOTDEV i d) = replicate (NDIRECT + 2) 0 \<longrightarrow> (\<forall>n<unat (sb_size sb). bused B sb ROOTDEV d1 n = bused B sb ROOTDEV d n)"
    using drop_inode [OF B sb f(1,2,4) _ f(11,12,10,7) un(3) refl] f(3) by auto
  have c1': "cached B sb ROOTDEV {dp} t1 d1" using c1 f(6) by (simp add: insert_Diff_if)
  have t1dp: "t1 ! dp = t ! dp" using oth f(6) by simp
  obtain t2 where p2: "iunlockput B sb dp (t1, d1) = Some (t2, d1)" "cached B sb ROOTDEV {} t2 d1"
      "refs t2 = (refs t1)(ikey (t1 ! dp) := refs t1 (ikey (t1 ! dp)) - 1)"
    and t2: "\<forall>j. j \<noteq> dp \<longrightarrow> t2 ! j = t1 ! j" "t2 ! dp = (t1 ! dp)\<lparr>i_locked := False, i_ref := i_ref (t1 ! dp) - 1\<rparr>"
    using iunlockput_cached [OF tr1 c1' f(5)] by auto
  have np: "(of_nat i :: u32) \<noteq> of_nat p" using inum32 [OF f(7)] inum32 [OF f(8)] f(9) by metis
  have rf: "refs t2 = R'" using p2(3) rf1 R' np f(13) t1dp by (auto simp: fun_eq_iff)
  have Rp: "R' (ikey (t1 ! dp)) = refs t1 (ikey (t1 ! dp)) - 1" unfolding rf [symmetric] p2(3) by simp
  have "keeps R' t1 t2"
  proof (rule keeps_release [OF cachedD(1) [OF c1'] f(5) _ t2(1)])
    show "R' (ikey (t1 ! dp)) = refs t1 (ikey (t1 ! dp)) - 1" by (rule Rp)
  qed (use t2(2) t1dp locked_entry(6) [OF f(2,5) _ f(14,13,8)] in \<open>simp_all add: ikey_def\<close>)
  moreover have "keeps R' t t1"
    unfolding keeps_def
  proof (intro allI impI)
    fix j assume j: "j < NINODE" "0 < i_ref (t ! j)" "0 < R' (ikey (t ! j))"
    have "j \<noteq> ip" using j(3) R' f(10) np by auto
    then show "ikey (t1 ! j) = ikey (t ! j) \<and> 0 < i_ref (t1 ! j)" using oth j(2) by simp
  qed
  ultimately have "keeps R' t t2" using keeps_trans by blast
  moreover have "create_fail B sb ip dp (t, d) = Some (None, t2, d1)"
    using p1 p2(1) f(4) len by (simp add: create_fail_def upd_ino_def iupdate_k_def)
  ultimately show ?thesis using tr1 p2(2) rf na1 od dl un(1,2) bu by (intro exI [of _ t2] exI [of _ d1]) simp
qed


subsection \<open>Entering the name\<close>

lemma locked_atI:
  assumes c: "cached B sb ROOTDEV {k} t d" and k: "k < NINODE" "i_valid (t ! k)" "ikey (t ! k) = (ROOTDEV, of_nat i)" and i: "i < unat (sb_ninodes sb)"
  shows "locked_at B sb k i t d"
proof -
  note e = locked_entry [OF c k(1) singletonI k(2,3) i]
  show ?thesis
    using c k i e loaded_dir(5) [OF e(3,2)] by (simp add: locked_at_def in_step_def alloced_def)
qed

text \<open>Raising the link count of the parent.\<close>

lemma making_nlink:
  assumes B: "bio_laws B" and sb: "sb_ok sb" and mk: "making B sb d0 R dp p ip i t d" and nl: "d_nlink (on_disk B sb ROOTDEV p d) + 1 \<noteq> 0"
  shows "\<exists>t' d'. iupdate_k B sb dp (upd_ino dp (\<lambda>i. i\<lparr>i_nlink := i_nlink i + 1\<rparr>) (t, d)) = (t', d') \<and> making B sb d0 R dp p ip i t' d' \<and>
     (\<forall>j. j \<noteq> dp \<longrightarrow> t' ! j = t ! j) \<and>
     (\<forall>j<unat (sb_ninodes sb). d_type (on_disk B sb ROOTDEV j d) = T_DIR \<longrightarrow> dlist B sb ROOTDEV d' j = dlist B sb ROOTDEV d j) \<and>
     on_disk B sb ROOTDEV p d' = (on_disk B sb ROOTDEV p d)\<lparr>d_nlink := d_nlink (on_disk B sb ROOTDEV p d) + 1\<rparr> \<and>
     on_disk B sb ROOTDEV i d' = on_disk B sb ROOTDEV i d"
proof -
  note f = makingD [OF mk] and g = locked_entry [OF makingD(2,5) [OF mk] _ makingD(14,13,8) [OF mk]]
  have len: "length t = NINODE" using itab_invD(1) [OF cachedD(1) [OF f(2)]] .
  define q where "q = (t ! dp)\<lparr>i_nlink := d_nlink (on_disk B sb ROOTDEV p d) + 1\<rparr>"
  define d' where "d' = iupdate B sb q d"
  have up: "iupdate_k B sb dp (upd_ino dp (\<lambda>i. i\<lparr>i_nlink := i_nlink i + 1\<rparr>) (t, d)) = (t[dp := q], d')"
    using f(5) len g(8) by (simp add: upd_ino_def iupdate_k_def q_def d'_def)
  note n = set_nlink [OF B sb f(1,2,5) _ f(14) g(1) q_def nl d'_def, simplified]
  have od: "on_disk B sb ROOTDEV j d' = on_disk B sb ROOTDEV j d" if "j < unat (sb_ninodes sb)" "j \<noteq> p" for j using n(5) that by simp
  have "making B sb d0 R dp p ip i (t[dp := q]) d'"
    unfolding making_def using n(1-3) f(3-17) od n(4) len by (auto simp: nth_list_update_if q_def ikey_def)
  then show ?thesis using up n(4,5) f(7,8,9) by (intro exI [of _ "t[dp := q]"] exI [of _ d']) simp
qed


lemma making_links:
  assumes B: "bio_laws B" and sb: "sb_ok sb" and mk: "making B sb d0 R dp p ip i t d"
    and nl: "type = T_DIR \<longrightarrow> d_nlink (on_disk B sb ROOTDEV p d) + 1 \<noteq> 0"
  shows "\<exists>t' d'. (if type = T_DIR then iupdate_k B sb dp (upd_ino dp (\<lambda>i. i\<lparr>i_nlink := i_nlink i + 1\<rparr>) (t, d)) else (t, d)) = (t', d') \<and>
     making B sb d0 R dp p ip i t' d' \<and> (\<forall>Q. keeps Q t t') \<and>
     (\<forall>j<unat (sb_ninodes sb). d_type (on_disk B sb ROOTDEV j d) = T_DIR \<longrightarrow> dlist B sb ROOTDEV d' j = dlist B sb ROOTDEV d j) \<and>
     d_type (on_disk B sb ROOTDEV p d') = d_type (on_disk B sb ROOTDEV p d) \<and>
     d_nlink (on_disk B sb ROOTDEV p d') = d_nlink (on_disk B sb ROOTDEV p d) + (if type = T_DIR then 1 else 0) \<and>
     on_disk B sb ROOTDEV i d' = on_disk B sb ROOTDEV i d"
proof (cases "type = T_DIR")
  case True
  then obtain t' d' where n: "iupdate_k B sb dp (upd_ino dp (\<lambda>i. i\<lparr>i_nlink := i_nlink i + 1\<rparr>) (t, d)) = (t', d')" "making B sb d0 R dp p ip i t' d'"
    "\<forall>j. j \<noteq> dp \<longrightarrow> t' ! j = t ! j" "\<forall>j<unat (sb_ninodes sb). d_type (on_disk B sb ROOTDEV j d) = T_DIR \<longrightarrow> dlist B sb ROOTDEV d' j = dlist B sb ROOTDEV d j"
    "on_disk B sb ROOTDEV p d' = (on_disk B sb ROOTDEV p d)\<lparr>d_nlink := d_nlink (on_disk B sb ROOTDEV p d) + 1\<rparr>"
    "on_disk B sb ROOTDEV i d' = on_disk B sb ROOTDEV i d"
    using making_nlink [OF B sb mk] nl by blast
  have "ikey (t' ! dp) = ikey (t ! dp)" "0 < i_ref (t' ! dp)"
    using makingD(13) [OF mk] makingD(13) [OF n(2)] locked_entry(6) [OF makingD(2,5) [OF n(2)] _ makingD(14,13,8) [OF n(2)]] by simp_all
  then have "keeps Q t t'" for Q by (intro keeps_same allI impI) (metis n(3))
  then show ?thesis using True n by simp
next
  case False
  then show ?thesis using mk keeps_refl by simp
qed

text \<open>Releasing the parent.\<close>

lemma making_release:
  assumes mk: "making B sb d0 R dp p ip i t d" and R': "R' = R((ROOTDEV, of_nat p) := R (ROOTDEV, of_nat p) - 1)"
  shows "\<exists>t'. iunlockput B sb dp (t, d) = Some (t', d) \<and> locked_at B sb ip i t' d \<and> refs t' = R' \<and> keeps R' t t'"
proof -
  note f = makingD [OF mk] and g = locked_entry [OF makingD(2,5) [OF mk] _ makingD(14,13,8) [OF mk]]
  obtain t' where u: "iunlockput B sb dp (t, d) = Some (t', d)" "cached B sb ROOTDEV ({ip, dp} - {dp}) t' d"
      "refs t' = (refs t)(ikey (t ! dp) := refs t (ikey (t ! dp)) - 1)"
    and t': "\<forall>j. j \<noteq> dp \<longrightarrow> t' ! j = t ! j" "t' ! dp = (t ! dp)\<lparr>i_locked := False, i_ref := i_ref (t ! dp) - 1\<rparr>"
    using iunlockput_cached [OF f(1,2,5)] by auto
  have rf: "refs t' = R'" using u(3) f(3,13) R' by simp
  have "keeps R' t t'"
  proof (rule keeps_release [OF cachedD(1) [OF f(2)] f(5) _ t'(1)])
    show "R' (ikey (t ! dp)) = refs t (ikey (t ! dp)) - 1" unfolding rf [symmetric] u(3) by simp
  qed (use t'(2) g(6) in \<open>simp_all add: ikey_def\<close>)
  moreover have "{ip, dp} - {dp} = {ip}" using f(6) by auto
  then have "locked_at B sb ip i t' d"
    using u(2) f t'(1) by (intro locked_atI) auto
  ultimately show ?thesis using u(1) rf by blast
qed

text \<open>What has become of the parent and of the other inodes.\<close>

definition others_same :: "'d bio \<Rightarrow> superblock \<Rightarrow> nat set \<Rightarrow> 'd \<Rightarrow> 'd \<Rightarrow> bool" where
  "others_same B sb X d0 d \<longleftrightarrow> (\<forall>j<unat (sb_ninodes sb). j \<notin> X \<longrightarrow> on_disk B sb ROOTDEV j d = on_disk B sb ROOTDEV j d0 \<and>
     (d_type (on_disk B sb ROOTDEV j d0) = T_DIR \<longrightarrow> dirmap B sb ROOTDEV d j = dirmap B sb ROOTDEV d0 j))"

lemma making_others: "making B sb d0 R dp p ip i t d \<Longrightarrow> others_same B sb {i, p} d0 d"
  using makingD(16,17) by (fastforce simp: others_same_def dirmap_def)

text \<open>The name has been entered for inode \<open>i\<close>, which is held and locked in \<open>ip\<close>.\<close>

definition entered :: "'d bio \<Rightarrow> superblock \<Rightarrow> u16 \<Rightarrow> u8 list \<Rightarrow> nat \<Rightarrow> nat \<Rightarrow> nat \<Rightarrow> 'd \<Rightarrow> itable \<Rightarrow> 'd \<Rightarrow> bool" where
  "entered B sb type x p ip i d0 t d \<longleftrightarrow> locked_at B sb ip i t d \<and>
     d_type (on_disk B sb ROOTDEV p d) = T_DIR \<and> dirmap B sb ROOTDEV d p = (dirmap B sb ROOTDEV d0 p)(x \<mapsto> of_nat i) \<and>
     d_nlink (on_disk B sb ROOTDEV p d) = d_nlink (on_disk B sb ROOTDEV p d0) + (if type = T_DIR then 1 else 0)"

lemma create_link_spec:
  assumes B: "bio_laws B" and sb: "sb_ok sb" and mk: "making B sb d0 R dp p ip i t d" and tr0: "tree_ok B sb ROOTDEV d0"
    and na: "\<not> alloced B sb ROOTDEV i d0" and dirp: "d_type (on_disk B sb ROOTDEV p d0) = T_DIR"
    and p0: "on_disk B sb ROOTDEV p d = on_disk B sb ROOTDEV p d0" "dlist B sb ROOTDEV d p = dlist B sb ROOTDEV d0 p"
    and room: "card {x. 0 < R x} < NINODE" and n16: "unat (sb_ninodes sb) \<le> 65536" and pos: "1 \<le> i"
    and sz: "16 * length (dlist B sb ROOTDEV d0 p) + 16 \<le> MAXFILE * BSIZE" and none: "dirmap B sb ROOTDEV d0 p (cname name) = None"
    and nl: "type = T_DIR \<longrightarrow> d_nlink (on_disk B sb ROOTDEV p d0) + 1 \<noteq> 0"
    and R': "R' = R((ROOTDEV, of_nat p) := R (ROOTDEV, of_nat p) - 1)"
  shows "\<exists>r t' d'. create_link B sb type name dp ip (t, d) = Some (r, t', d') \<and> tree_ok B sb ROOTDEV d' \<and> others_same B sb {i, p} d0 d' \<and>
     keeps (R'((ROOTDEV, of_nat i) := 0)) t t' \<and>
     (r = Some ip \<and> entered B sb type (cname name) p ip i d0 t' d' \<and> refs t' = R' \<and> on_disk B sb ROOTDEV i d' = on_disk B sb ROOTDEV i d \<and>
        (d_type (on_disk B sb ROOTDEV i d) = T_DIR \<longrightarrow> dirmap B sb ROOTDEV d' i = dirmap B sb ROOTDEV d i) \<or>
      r = None \<and> cached B sb ROOTDEV {} t' d' \<and> refs t' = R'((ROOTDEV, of_nat i) := 0) \<and> \<not> alloced B sb ROOTDEV i d' \<and>
        alloced B sb ROOTDEV p d' \<and> dirmap B sb ROOTDEV d' p = dirmap B sb ROOTDEV d0 p \<and>
        (d_addrs (on_disk B sb ROOTDEV i d) = replicate (NDIRECT + 2) 0 \<longrightarrow> (\<forall>m<unat (sb_size sb). bused B sb ROOTDEV d' m)))"
proof -
  note f = makingD [OF mk] and e = locked_entry [OF makingD(2,4) [OF mk] _ makingD(12,10,7) [OF mk]]
  have np: "(of_nat i :: u32) \<noteq> of_nat p" using inum32 [OF f(7)] inum32 [OF f(8)] f(9) by metis
  have inum: "i_inum (t ! ip) = of_nat i" using f(10) by (simp add: ikey_def)
  have tp: "d_type (on_disk B sb ROOTDEV p d) = T_DIR" using p0 dirp by simp
  have n0: "dirmap B sb ROOTDEV d p (cname name) = None" using none p0 by (simp add: dirmap_def)
  have u: "unat (of_nat i :: u32) = i" using inum32 [OF f(7)] .
  obtain r1 t1 d1 z as where l: "dirlink B sb dp name (of_nat i) (t, d) = Some (r1, t1, d1)" and m1: "making B sb d0 R dp p ip i t1 d1"
    and t1: "t1 = t[dp := (t ! dp)\<lparr>i_size := z, i_addrs := as\<rparr>]"
    and od: "\<forall>m<unat (sb_ninodes sb). m \<noteq> p \<longrightarrow> on_disk B sb ROOTDEV m d1 = on_disk B sb ROOTDEV m d"
    and dl: "\<forall>m<unat (sb_ninodes sb). m \<noteq> p \<longrightarrow> d_type (on_disk B sb ROOTDEV m d) = T_DIR \<longrightarrow> dlist B sb ROOTDEV d1 m = dlist B sb ROOTDEV d m"
    and odp: "on_disk B sb ROOTDEV p d1 = (on_disk B sb ROOTDEV p d)\<lparr>d_size := z, d_addrs := as\<rparr>"
    and res: "r1 = 0 \<and> dirmap B sb ROOTDEV d1 p = (dirmap B sb ROOTDEV d p)(cname name \<mapsto> ucast (of_nat i :: u32)) \<or>
      r1 = - 1 \<and> dlist B sb ROOTDEV d1 p = dlist B sb ROOTDEV d p \<and> (\<forall>m<unat (sb_size sb). bused B sb ROOTDEV d1 m)"
    using making_dirlink [OF B sb mk disjI2 tp room _ _ _ _ _ n0, of dp "of_nat i"] sz p0(2) u pos f(7) n16 e(4) by auto
  have i1: "on_disk B sb ROOTDEV i d1 = on_disk B sb ROOTDEV i d" using od f(7,9) by simp
  have kp1: "keeps Q t t1" for Q using keeps_size t1 by simp
  show ?thesis
  proof (cases "r1 = 0")
    case True
    have "type = T_DIR \<longrightarrow> d_nlink (on_disk B sb ROOTDEV p d1) + 1 \<noteq> 0" using nl odp p0(1) by simp
    then obtain t2 d2 where fs2: "(if type = T_DIR then iupdate_k B sb dp (upd_ino dp (\<lambda>i. i\<lparr>i_nlink := i_nlink i + 1\<rparr>) (t1, d1)) else (t1, d1)) = (t2, d2)"
      and m2: "making B sb d0 R dp p ip i t2 d2" and kp2: "\<forall>Q. keeps Q t1 t2"
      and dl2: "\<forall>j<unat (sb_ninodes sb). d_type (on_disk B sb ROOTDEV j d1) = T_DIR \<longrightarrow> dlist B sb ROOTDEV d2 j = dlist B sb ROOTDEV d1 j"
      and pp: "d_type (on_disk B sb ROOTDEV p d2) = T_DIR" "d_nlink (on_disk B sb ROOTDEV p d2) = d_nlink (on_disk B sb ROOTDEV p d0) + (if type = T_DIR then 1 else 0)"
      and i2: "on_disk B sb ROOTDEV i d2 = on_disk B sb ROOTDEV i d1"
      using making_links [OF B sb m1, of type] odp p0(1) tp by auto
    obtain t3 where rl: "iunlockput B sb dp (t2, d2) = Some (t3, d2)" "locked_at B sb ip i t3 d2" "refs t3 = R'" and kp3: "keeps R' t2 t3"
      using making_release [OF m2 R'] by blast
    have "keeps (R'((ROOTDEV, of_nat i) := 0)) t2 t3" using kp3 by (auto simp: keeps_def)
    then have "keeps (R'((ROOTDEV, of_nat i) := 0)) t t3" using kp1 kp2 keeps_trans by blast
    moreover have "create_link B sb type name dp ip (t, d) = Some (Some ip, t3, d2)"
      using l True fs2 rl(1) inum by (simp add: create_link_def)
    moreover have "dirmap B sb ROOTDEV d2 p = (dirmap B sb ROOTDEV d0 p)(cname name \<mapsto> of_nat i)"
      using dl2 f(8) odp tp True res p0(2) by (simp add: dirmap_def ucast_of_nat16)
    moreover have "d_type (on_disk B sb ROOTDEV i d) = T_DIR \<longrightarrow> dirmap B sb ROOTDEV d2 i = dirmap B sb ROOTDEV d i"
      using dl2 dl f(7,9) i1 by (simp add: dirmap_def)
    ultimately show ?thesis
      using rl pp i1 i2 makingD(1) [OF m2] making_others [OF m2] by (auto simp: entered_def)
  next
    case False
    then have r: "r1 = - 1" "dlist B sb ROOTDEV d1 p = dlist B sb ROOTDEV d0 p" "\<forall>m<unat (sb_size sb). bused B sb ROOTDEV d1 m" using res p0(2) by auto
    have R2: "R'((ROOTDEV, of_nat i) := 0) = R((ROOTDEV, of_nat i) := 0, (ROOTDEV, of_nat p) := R (ROOTDEV, of_nat p) - 1)"
      unfolding R' using np by (auto simp: fun_eq_iff)
    obtain t2 d2 where c: "create_fail B sb ip dp (t1, d1) = Some (None, t2, d2)" "tree_ok B sb ROOTDEV d2" "cached B sb ROOTDEV {} t2 d2"
        "refs t2 = R'((ROOTDEV, of_nat i) := 0)" "keeps (R'((ROOTDEV, of_nat i) := 0)) t1 t2" "\<not> alloced B sb ROOTDEV i d2"
      and od2: "\<forall>j<unat (sb_ninodes sb). j \<noteq> i \<longrightarrow> on_disk B sb ROOTDEV j d2 = on_disk B sb ROOTDEV j d1"
      and dl2: "\<forall>j<unat (sb_ninodes sb). j \<noteq> i \<longrightarrow> d_type (on_disk B sb ROOTDEV j d0) = T_DIR \<longrightarrow> dlist B sb ROOTDEV d2 j = dlist B sb ROOTDEV d0 j"
      and bu: "d_addrs (on_disk B sb ROOTDEV i d1) = replicate (NDIRECT + 2) 0 \<longrightarrow> (\<forall>n<unat (sb_size sb). bused B sb ROOTDEV d2 n = bused B sb ROOTDEV d1 n)"
      using create_fail_spec [OF B sb m1 tr0 na dirp r(2) R2] by blast
    have "others_same B sb {i, p} d0 d2" using makingD(16) [OF m1] od2 dl2 by (simp add: others_same_def dirmap_def)
    moreover have "create_link B sb type name dp ip (t, d) = Some (None, t2, d2)" using l r(1) c(1) inum by (simp add: create_link_def)
    moreover have "dirmap B sb ROOTDEV d2 p = dirmap B sb ROOTDEV d0 p" using dl2 f(8,9) dirp by (simp add: dirmap_def)
    moreover have "alloced B sb ROOTDEV p d2" using od2 f(8,9) odp tp by (simp add: alloced_def T_DIR_def)
    ultimately show ?thesis using c r(3) bu i1 keeps_trans [OF kp1 c(5)] by auto
  qed
qed


subsection \<open>A new inode under a new name\<close>

text \<open>
  The result of making an inode of a type under the name \<open>x\<close> of the directory \<open>p\<close>. A successful call returns a locked
  entry of an inode that was free, with one link and one reference, entered in the directory; a directory holds
  itself and its parent. A failed call leaves every directory and every reference as they were.
\<close>

definition made :: "'d bio \<Rightarrow> superblock \<Rightarrow> u16 \<Rightarrow> u16 \<Rightarrow> u16 \<Rightarrow> u8 list \<Rightarrow> nat \<Rightarrow> (u32 \<times> u32 \<Rightarrow> int) \<Rightarrow> 'd \<Rightarrow> nat option \<Rightarrow> itable \<Rightarrow> 'd \<Rightarrow> bool" where
  "made B sb type ma mi x p R d r t d' \<longleftrightarrow>
     (case r of
        Some k \<Rightarrow> \<exists>i. 1 \<le> i \<and> \<not> alloced B sb ROOTDEV i d \<and> entered B sb type x p k i d t d' \<and> others_same B sb {i, p} d d' \<and>
          refs t = R((ROOTDEV, of_nat i) := 1) \<and>
          d_type (on_disk B sb ROOTDEV i d') = type \<and> d_major (on_disk B sb ROOTDEV i d') = ma \<and> d_minor (on_disk B sb ROOTDEV i d') = mi \<and>
          d_nlink (on_disk B sb ROOTDEV i d') = 1 \<and>
          (if type = T_DIR then dirmap B sb ROOTDEV d' i = [[46] \<mapsto> of_nat i, [46, 46] \<mapsto> of_nat p] else on_disk B sb ROOTDEV i d' = new_dinode type ma mi)
      | None \<Rightarrow> cached B sb ROOTDEV {} t d' \<and> refs t = R \<and>
          (\<forall>j<unat (sb_ninodes sb). alloced B sb ROOTDEV j d' \<longleftrightarrow> alloced B sb ROOTDEV j d) \<and>
          (\<forall>j<unat (sb_ninodes sb). d_type (on_disk B sb ROOTDEV j d) = T_DIR \<longrightarrow> dirmap B sb ROOTDEV d' j = dirmap B sb ROOTDEV d j) \<and>
          ((\<forall>i. 1 \<le> i \<and> i < unat (sb_ninodes sb) \<longrightarrow> alloced B sb ROOTDEV i d) \<or> type = T_DIR \<or> (\<forall>m<unat (sb_size sb). bused B sb ROOTDEV d' m)))"

text \<open>A failed attempt, as the two places that give up leave it.\<close>

lemma made_None:
  assumes c: "cached B sb ROOTDEV {} t d'" and rf: "refs t = R" and na: "\<not> alloced B sb ROOTDEV i d" "\<not> alloced B sb ROOTDEV i d'"
    and os: "others_same B sb {i, p} d d'" and dirp: "d_type (on_disk B sb ROOTDEV p d) = T_DIR" and alp: "alloced B sb ROOTDEV p d'"
    and dmp: "dirmap B sb ROOTDEV d' p = dirmap B sb ROOTDEV d p" and why: "type = T_DIR \<or> (\<forall>m<unat (sb_size sb). bused B sb ROOTDEV d' m)"
  shows "made B sb type ma mi x p R d None t d'"
proof -
  have al: "alloced B sb ROOTDEV j d' \<longleftrightarrow> alloced B sb ROOTDEV j d" if "j < unat (sb_ninodes sb)" for j
  proof (cases "j = i \<or> j = p")
    case True
    then show ?thesis using na alp dirp by (auto simp: alloced_def T_DIR_def)
  next
    case False
    then show ?thesis using os that by (simp add: others_same_def alloced_def)
  qed
  have dm: "dirmap B sb ROOTDEV d' j = dirmap B sb ROOTDEV d j"
    if "j < unat (sb_ninodes sb)" "d_type (on_disk B sb ROOTDEV j d) = T_DIR" for j
  proof (cases "j = p")
    case False
    have "j \<noteq> i" using na(1) that(2) by (auto simp: alloced_def T_DIR_def)
    then show ?thesis using os that False by (simp add: others_same_def)
  qed (simp add: dmp)
  show ?thesis using c rf al dm why by (simp add: made_def)
qed


text \<open>From the new inode on.\<close>

definition create_rest :: "'d bio \<Rightarrow> superblock \<Rightarrow> u16 \<Rightarrow> u8 list \<Rightarrow> nat \<Rightarrow> nat \<Rightarrow> 'd fstate \<Rightarrow> (nat option \<times> 'd fstate) option" where
  "create_rest B sb type name dp ip fs =
     do { (ok, fs3) \<leftarrow> (if type = T_DIR then dot_entries B sb ip dp fs else Some (True, fs));
          if \<not> ok then create_fail B sb ip dp fs3 else create_link B sb type name dp ip fs3 }"

lemma new_dinode_simps [simp]:
  "d_type (new_dinode type ma mi) = type" "d_size (new_dinode type ma mi) = 0" "d_addrs (new_dinode type ma mi) = replicate (NDIRECT + 2) 0"
  "d_major (new_dinode type ma mi) = ma" "d_minor (new_dinode type ma mi) = mi" "d_nlink (new_dinode type ma mi) = 1"
  by (simp_all add: new_dinode_def free_dinode_def)

lemma create_dots_spec:
  assumes B: "bio_laws B" and sb: "sb_ok sb" and mk: "making B sb d0 R dp p ip i t d" and di: "on_disk B sb ROOTDEV i d = new_dinode type ma mi"
    and room: "card {x. 0 < R x} < NINODE" and n16: "unat (sb_ninodes sb) \<le> 65536" and pos: "1 \<le> i" "1 \<le> p"
  shows "\<exists>ok t' d' z as. (if type = T_DIR then dot_entries B sb ip dp (t, d) else Some (True, t, d)) = Some (ok, t', d') \<and>
     making B sb d0 R dp p ip i t' d' \<and> on_disk B sb ROOTDEV p d' = on_disk B sb ROOTDEV p d \<and> dlist B sb ROOTDEV d' p = dlist B sb ROOTDEV d p \<and>
     on_disk B sb ROOTDEV i d' = (if type = T_DIR then (new_dinode type ma mi)\<lparr>d_size := z, d_addrs := as\<rparr> else new_dinode type ma mi) \<and>
     (type = T_DIR \<and> ok \<longrightarrow> dirmap B sb ROOTDEV d' i = [[46] \<mapsto> of_nat i, [46, 46] \<mapsto> of_nat p]) \<and> (type \<noteq> T_DIR \<longrightarrow> ok) \<and> (\<forall>Q. keeps Q t t')"
proof (cases "type = T_DIR")
  case True
  then show ?thesis using making_dots [OF B sb mk _ _ room n16 pos] di by simp
next
  case False
  then show ?thesis using mk di keeps_refl by auto
qed

lemma create_rest_spec:
  assumes B: "bio_laws B" and sb: "sb_ok sb" and tr: "tree_ok B sb ROOTDEV d" and l: "locked_at B sb dp p tbl d" and v: "i_valid (tbl ! dp)"
    and ty: "d_type (on_disk B sb ROOTDEV p d) = T_DIR" and pos: "1 \<le> p" and b: "born B sb ROOTDEV {dp} (new_dinode type ma mi) (tbl, d) i ip (t, d2)"
    and room: "card (held tbl) + 2 \<le> NINODE" and n16: "unat (sb_ninodes sb) \<le> 65536"
    and sz: "16 * length (dlist B sb ROOTDEV d p) + 16 \<le> MAXFILE * BSIZE" and none: "dirmap B sb ROOTDEV d p (cname name) = None"
    and nl: "type = T_DIR \<longrightarrow> d_nlink (on_disk B sb ROOTDEV p d) + 1 \<noteq> 0"
    and R: "R = (refs tbl)((ROOTDEV, of_nat p) := refs tbl (ROOTDEV, of_nat p) - 1)"
  shows "\<exists>r t' d'. create_rest B sb type name dp ip (t, d2) = Some (r, t', d') \<and> tree_ok B sb ROOTDEV d' \<and> keeps R t t' \<and>
     made B sb type ma mi (cname name) p R d r t' d'"
proof -
  note f = locked_atD [OF l]
  define R1 where "R1 = refs t"
  have dty: "i_type (tbl ! dp) = T_DIR" using loaded_dir(3) [OF f(5,8)] ty by simp
  note mb = making_born [OF l v dty b, folded R1_def]
  note g = makingD [OF mb(1)]
  have room1: "card {x. 0 < R1 x} < NINODE" using card_held_upd [OF cachedD(1) [OF f(1)] mb(7)] room by simp
  have np: "(of_nat i :: u32) \<noteq> of_nat p" using inum32 [OF g(7)] inum32 [OF g(8)] g(9) by metis
  define R2 where "R2 = R1((ROOTDEV, of_nat p) := R1 (ROOTDEV, of_nat p) - 1)"
  have R2: "R2 = R((ROOTDEV, of_nat i) := 1)" "R2((ROOTDEV, of_nat i) := 0) = R"
      "R = R1((ROOTDEV, of_nat i) := 0, (ROOTDEV, of_nat p) := R1 (ROOTDEV, of_nat p) - 1)"
    using mb(7,8) R np unfolding R2_def by (auto simp: fun_eq_iff)
  obtain ok t3 d3 z as where dots: "(if type = T_DIR then dot_entries B sb ip dp (t, d2) else Some (True, t, d2)) = Some (ok, t3, d3)"
    and m3: "making B sb d R1 dp p ip i t3 d3" and p3: "on_disk B sb ROOTDEV p d3 = on_disk B sb ROOTDEV p d2" "dlist B sb ROOTDEV d3 p = dlist B sb ROOTDEV d2 p"
    and i3: "on_disk B sb ROOTDEV i d3 = (if type = T_DIR then (new_dinode type ma mi)\<lparr>d_size := z, d_addrs := as\<rparr> else new_dinode type ma mi)"
    and dm3: "type = T_DIR \<and> ok \<longrightarrow> dirmap B sb ROOTDEV d3 i = [[46] \<mapsto> of_nat i, [46, 46] \<mapsto> of_nat p]" and okd: "type \<noteq> T_DIR \<longrightarrow> ok"
    and kp: "\<forall>Q. keeps Q t t3"
    using create_dots_spec [OF B sb mb(1,4) room1 n16 mb(6) pos] by (elim exE conjE) (rule that)
  have p3': "on_disk B sb ROOTDEV p d3 = on_disk B sb ROOTDEV p d" "dlist B sb ROOTDEV d3 p = dlist B sb ROOTDEV d p" using p3 mb(2,3) by simp_all
  show ?thesis
  proof (cases ok)
    case True
    obtain r t' d' where c: "create_link B sb type name dp ip (t3, d3) = Some (r, t', d')" "tree_ok B sb ROOTDEV d'" and os: "others_same B sb {i, p} d d'"
      and kp4: "keeps R t3 t'"
      and res: "r = Some ip \<and> entered B sb type (cname name) p ip i d t' d' \<and> refs t' = R2 \<and> on_disk B sb ROOTDEV i d' = on_disk B sb ROOTDEV i d3 \<and>
        (d_type (on_disk B sb ROOTDEV i d3) = T_DIR \<longrightarrow> dirmap B sb ROOTDEV d' i = dirmap B sb ROOTDEV d3 i) \<or>
      r = None \<and> cached B sb ROOTDEV {} t' d' \<and> refs t' = R \<and> \<not> alloced B sb ROOTDEV i d' \<and>
        alloced B sb ROOTDEV p d' \<and> dirmap B sb ROOTDEV d' p = dirmap B sb ROOTDEV d p \<and>
        (d_addrs (on_disk B sb ROOTDEV i d3) = replicate (NDIRECT + 2) 0 \<longrightarrow> (\<forall>m<unat (sb_size sb). bused B sb ROOTDEV d' m))"
      using create_link_spec [OF B sb m3 tr mb(5) ty p3' room1 n16 mb(6) sz none nl R2_def, unfolded R2(2)] by (elim exE conjE) (rule that)
    have "made B sb type ma mi (cname name) p R d r t' d'"
      using res
    proof
      assume s: "r = Some ip \<and> entered B sb type (cname name) p ip i d t' d' \<and> refs t' = R2 \<and> on_disk B sb ROOTDEV i d' = on_disk B sb ROOTDEV i d3 \<and>
        (d_type (on_disk B sb ROOTDEV i d3) = T_DIR \<longrightarrow> dirmap B sb ROOTDEV d' i = dirmap B sb ROOTDEV d3 i)"
      then show ?thesis using mb(5,6) os R2(1) i3 dm3 True by (simp add: made_def split: if_splits) (rule exI [of _ i], simp)+
    next
      assume n: "r = None \<and> cached B sb ROOTDEV {} t' d' \<and> refs t' = R \<and> \<not> alloced B sb ROOTDEV i d' \<and>
        alloced B sb ROOTDEV p d' \<and> dirmap B sb ROOTDEV d' p = dirmap B sb ROOTDEV d p \<and>
        (d_addrs (on_disk B sb ROOTDEV i d3) = replicate (NDIRECT + 2) 0 \<longrightarrow> (\<forall>m<unat (sb_size sb). bused B sb ROOTDEV d' m))"
      then have "type = T_DIR \<or> (\<forall>m<unat (sb_size sb). bused B sb ROOTDEV d' m)" using i3 by (auto split: if_splits)
      then show ?thesis using n made_None [OF _ _ mb(5) _ os ty] by simp
    qed
    moreover have "keeps R t t'" using kp kp4 keeps_trans by blast
    ultimately show ?thesis using c dots True by (auto simp: create_rest_def)
  next
    case False
    then have td: "type = T_DIR" using okd by blast
    obtain t' d' where c: "create_fail B sb ip dp (t3, d3) = Some (None, t', d')" "tree_ok B sb ROOTDEV d'" "cached B sb ROOTDEV {} t' d'"
        "refs t' = R" "keeps R t3 t'" "\<not> alloced B sb ROOTDEV i d'"
      and od: "\<forall>j<unat (sb_ninodes sb). j \<noteq> i \<longrightarrow> on_disk B sb ROOTDEV j d' = on_disk B sb ROOTDEV j d3"
      and dl: "\<forall>j<unat (sb_ninodes sb). j \<noteq> i \<longrightarrow> d_type (on_disk B sb ROOTDEV j d) = T_DIR \<longrightarrow> dlist B sb ROOTDEV d' j = dlist B sb ROOTDEV d j"
      using create_fail_spec [OF B sb m3 tr mb(5) ty p3'(2) R2(3)] by blast
    have "others_same B sb {i, p} d d'" using makingD(16) [OF m3] od dl by (simp add: others_same_def dirmap_def)
    moreover have "alloced B sb ROOTDEV p d'" "dirmap B sb ROOTDEV d' p = dirmap B sb ROOTDEV d p"
      using od dl g(8,9) p3'(1) ty by (simp_all add: alloced_def T_DIR_def dirmap_def)
    ultimately have "made B sb type ma mi (cname name) p R d None t' d'" using made_None [OF c(3,4) mb(5) c(6) _ ty] td by blast
    moreover have "keeps R t t'" using kp c(5) keeps_trans by blast
    ultimately show ?thesis using c dots False by (auto simp: create_rest_def)
  qed
qed


lemma create_absent_spec:
  assumes B: "bio_laws B" and sb: "sb_ok sb" and tr: "tree_ok B sb ROOTDEV d" and l: "locked_at B sb dp p tbl d" and v: "i_valid (tbl ! dp)"
    and ty: "d_type (on_disk B sb ROOTDEV p d) = T_DIR" and type: "type \<noteq> 0" and pos: "1 \<le> p"
    and room: "card (held tbl) + 2 \<le> NINODE" and n16: "unat (sb_ninodes sb) \<le> 65536"
    and sz: "16 * length (dlist B sb ROOTDEV d p) + 16 \<le> MAXFILE * BSIZE" and none: "dirmap B sb ROOTDEV d p (cname name) = None"
    and nl: "type = T_DIR \<longrightarrow> d_nlink (on_disk B sb ROOTDEV p d) + 1 \<noteq> 0"
    and R: "R = (refs tbl)((ROOTDEV, of_nat p) := refs tbl (ROOTDEV, of_nat p) - 1)"
  shows "\<exists>r t' d'. create_absent B sb type ma mi name dp (tbl, d) = Some (r, t', d') \<and> tree_ok B sb ROOTDEV d' \<and> keeps R tbl t' \<and>
     made B sb type ma mi (cname name) p R d r t' d'"
proof -
  note f = locked_atD [OF l]
  have rm: "card (held tbl) < NINODE" using room by simp
  from new_inode [OF B sb tr f(1) rm type, where ma = ma and mi = mi] show ?thesis
  proof
    assume n: "ialloc B sb ROOTDEV type (tbl, d) = Some (None, tbl, d) \<and> (\<forall>i. 1 \<le> i \<and> i < unat (sb_ninodes sb) \<longrightarrow> alloced B sb ROOTDEV i d)"
    obtain t1 where "iunlockput B sb dp (tbl, d) = Some (t1, d)" "cached B sb ROOTDEV {} t1 d" "refs t1 = R" "keeps R tbl t1"
      using iunlockput_at [OF tr l R] by blast
    then show ?thesis using n tr f(8) by (simp add: create_absent_def made_def)
  next
    assume "\<exists>i k t1 d1 t2 ip. ialloc B sb ROOTDEV type (tbl, d) = Some (Some k, t1, d1) \<and> ilock B sb k (t1, d1) = Some (t2, d1) \<and>
       length t2 = NINODE \<and> ip = (t2 ! k)\<lparr>i_major := ma, i_minor := mi, i_nlink := 1\<rparr> \<and>
       born B sb ROOTDEV {dp} (new_dinode type ma mi) (tbl, d) i k (t2[k := ip], iupdate B sb ip d1)"
    then obtain i ip t1 d1 t2 q where a: "ialloc B sb ROOTDEV type (tbl, d) = Some (Some ip, t1, d1)" "ilock B sb ip (t1, d1) = Some (t2, d1)" "length t2 = NINODE"
      and q: "q = (t2 ! ip)\<lparr>i_major := ma, i_minor := mi, i_nlink := 1\<rparr>"
      and b: "born B sb ROOTDEV {dp} (new_dinode type ma mi) (tbl, d) i ip (t2[ip := q], iupdate B sb q d1)"
      by (elim exE conjE) (rule that)
    define t where "t = t2[ip := q]"
    note b = b [folded t_def]
    have b': "ip < NINODE" "i_ref (tbl ! ip) = 0" "\<forall>j. j \<noteq> ip \<longrightarrow> t ! j = tbl ! j" using b by (auto simp: born_def)
    have "create_absent B sb type ma mi name dp (tbl, d) = create_rest B sb type name dp ip (t, iupdate B sb q d1)"
      using a b'(1) f(8) q by (simp add: create_absent_def create_new_def create_rest_def upd_ino_def iupdate_k_def t_def Let_def)
    moreover have "keeps R tbl t" by (rule keeps_same) (use b' in \<open>metis less_irrefl\<close>)
    ultimately show ?thesis
      using create_rest_spec [OF B sb tr l v ty pos b room n16 sz none nl R] keeps_trans by (metis (no_types, lifting))
  qed
qed


subsection \<open>\<^verbatim>\<open>create\<close>\<close>

text \<open>The inode \<^verbatim>\<open>create\<close> returns for a name that is there.\<close>

definition reuse :: "'d bio \<Rightarrow> superblock \<Rightarrow> 'd \<Rightarrow> u16 \<Rightarrow> nat \<Rightarrow> nat option" where
  "reuse B sb d type j =
     (if type = T_SYMLINK \<or> type = T_FILE \<and> d_type (on_disk B sb ROOTDEV j d) \<in> {T_FILE, T_DEVICE} then Some j else None)"

lemma walk_parent_range:
  assumes tr: "tree_ok B sb ROOTDEV d" and root: "1 < unat (sb_ninodes sb)" "alloced B sb ROOTDEV 1 d"
    and c: "cached B sb ROOTDEV L tbl d" and cwd: "cwd_ok sb R cwd ci tbl"
    and w: "walk_parent B sb ROOTDEV d (start_of ci path) (path_elems path) = Some p"
  shows "p < unat (sb_ninodes sb)" and "alloced B sb ROOTDEV p d" and "d_type (on_disk B sb ROOTDEV p d) = T_DIR"
proof -
  have cw: "cwd < NINODE" "0 < i_ref (tbl ! cwd)" "ci < unat (sb_ninodes sb)" "i_inum (tbl ! cwd) = of_nat ci"
    using cwd by (auto simp: cwd_ok_def ikey_def)
  have "alloced B sb ROOTDEV ci d" using cachedD(5) [OF c cw(1,2)] cw(4) inum32 [OF cw(3)] by simp
  then have st: "start_of ci path < unat (sb_ninodes sb)" "alloced B sb ROOTDEV (start_of ci path) d"
    using root cw(3) by (simp_all add: start_of_def)
  have wk: "walk B sb ROOTDEV d (start_of ci path) (butlast (path_elems path)) = Some p" and ty: "d_type (on_disk B sb ROOTDEV p d) = T_DIR"
    using w by (auto simp: walk_parent_def split: if_splits option.splits)
  show "d_type (on_disk B sb ROOTDEV p d) = T_DIR" by (rule ty)
  show "p < unat (sb_ninodes sb)" "alloced B sb ROOTDEV p d" using walk_alloced [OF tr st wk] by simp_all
qed

lemma create_parent:
  assumes B: "bio_laws B" and sb: "sb_ok sb" and tr: "tree_ok B sb ROOTDEV d" and root: "1 < unat (sb_ninodes sb)" "alloced B sb ROOTDEV 1 d"
    and c: "cached B sb ROOTDEV {} tbl d" and room: "card (held tbl) + 2 \<le> NINODE" and cwd: "cwd_ok sb (refs tbl) cwd ci tbl"
  shows "\<exists>r name t1. nameiparent B sb cwd path nm (tbl, d) = Some (r, name, t1, d) \<and> keeps (refs tbl) tbl t1 \<and>
    (case walk_parent B sb ROOTDEV d (start_of ci path) (path_elems path) of
       None \<Rightarrow> r = None \<and> opened B sb (refs tbl) None None t1 d
     | Some p \<Rightarrow> d_type (on_disk B sb ROOTDEV p d) = T_DIR \<and> cname name = last (path_elems path) \<and>
         (\<exists>k t2. r = Some k \<and> ilock B sb k (t1, d) = Some (t2, d) \<and> keeps (refs tbl) t1 t2 \<and> locked_at B sb k p t2 d \<and> i_valid (t2 ! k) \<and>
            refs t2 = (refs tbl)((ROOTDEV, of_nat p) := refs tbl (ROOTDEV, of_nat p) + 1)))"
proof -
  have cw: "cwd < NINODE" "0 < i_ref (tbl ! cwd)" "ci < unat (sb_ninodes sb)" "i_inum (tbl ! cwd) = of_nat ci"
    using cwd by (auto simp: cwd_ok_def ikey_def)
  have ci: "unat (i_inum (tbl ! cwd)) = ci" using cw(4) inum32 [OF cw(3)] by simp
  have st: "start_of ci path = (if path \<noteq> [] \<and> hd path = slash then 1 else unat (i_inum (tbl ! cwd)))" by (simp add: start_of_def ci)
  obtain r name t1 where n: "nameiparent B sb cwd path nm (tbl, d) = Some (r, name, t1, d)" "cached B sb ROOTDEV {} t1 d"
    and g: "got ROOTDEV (refs tbl) (walk_parent B sb ROOTDEV d (start_of ci path) (path_elems path)) r t1" and kp: "keeps (refs tbl) tbl t1"
    and nm: "r \<noteq> None \<longrightarrow> cname name = last (path_elems path)"
    using namex_spec [OF B sb tr c root cw(1,2) room st, of True nm] by (auto simp: walk_goal_def nameiparent_def)
  show ?thesis
  proof (cases "walk_parent B sb ROOTDEV d (start_of ci path) (path_elems path)")
    case None
    then show ?thesis using n kp g by (simp add: got_def opened_def)
  next
    case (Some p)
    then obtain k where k: "r = Some k" "k < NINODE" "0 < i_ref (t1 ! k)" "ikey (t1 ! k) = (ROOTDEV, of_nat p)"
      and rf: "refs t1 = (refs tbl)((ROOTDEV, of_nat p) := refs tbl (ROOTDEV, of_nat p) + 1)" using g by (auto simp: got_def)
    note p = walk_parent_range(1) [OF tr root c cwd Some] and ty = walk_parent_range(3) [OF tr root c cwd Some]
    obtain t2 where "ilock B sb k (t1, d) = Some (t2, d)" "locked_at B sb k p t2 d" "refs t2 = refs t1" "keeps (refs tbl) t1 t2" "i_valid (t2 ! k)"
      using ilock_at [OF n(2) k(2-4) p] by blast
    then show ?thesis using n kp k(1) rf Some ty nm by auto
  qed
qed

text \<open>A name that is there.\<close>

lemma create_present:
  assumes B: "bio_laws B" and sb: "sb_ok sb" and tr: "tree_ok B sb ROOTDEV d" and l: "locked_at B sb dp p tbl d"
    and ty: "d_type (on_disk B sb ROOTDEV p d) = T_DIR" and room: "card (held tbl) < NINODE"
    and j: "dirmap B sb ROOTDEV d p (cname name) = Some j"
    and R: "R = (refs tbl)((ROOTDEV, of_nat p) := refs tbl (ROOTDEV, of_nat p) - 1)"
  shows "\<exists>n off s r t'. dirlookup B sb dp name (tbl, d) = Some (Some (n, off), s) \<and> create_found B sb type dp n s = Some (r, t', d) \<and>
     keeps R tbl t' \<and> opened B sb R (reuse B sb d type (unat j)) r t' d"
proof -
  note f = locked_atD [OF l]
  obtain n off s t1 where lk: "dirlookup B sb dp name (tbl, d) = Some (Some (n, off), s)" "iunlockput B sb dp s = Some (t1, d)"
    and c1: "cached B sb ROOTDEV {} t1 d" and n: "n < NINODE" "0 < i_ref (t1 ! n)" "ikey (t1 ! n) = (ROOTDEV, of_nat (unat j))"
    and rf: "refs t1 = R((ROOTDEV, of_nat (unat j)) := R (ROOTDEV, of_nat (unat j)) + 1)" and kp: "keeps R tbl t1"
    using lookup_release [OF B sb tr f(1,2,6,5,3) ty room j, of R] R f(4) unfolding of_nat_unat32 by auto
  obtain t2 where t2: "ilock B sb n (t1, d) = Some (t2, d)" and l2: "locked_at B sb n (unat j) t2 d" and rf2: "refs t2 = refs t1" and kp1: "keeps R t1 t2"
    using ilock_at [OF c1 n dirmap_target(1) [OF tr f(3,9) ty j]] by blast
  have R2: "R = (refs t2)((ROOTDEV, of_nat (unat j)) := refs t2 (ROOTDEV, of_nat (unat j)) - 1)" unfolding rf2 rf by simp
  obtain t3 where u: "iunlockput B sb n (t2, d) = Some (t3, d)" "cached B sb ROOTDEV {} t3 d" "refs t3 = R" "keeps R t2 t3"
    using iunlockput_at [OF tr l2 R2] by blast
  have ty2: "i_type (t2 ! n) = d_type (on_disk B sb ROOTDEV (unat j) d)" using loaded_dir(3) [OF locked_atD(5,8) [OF l2]] .
  note kp2 = keeps_trans [OF kp kp1]
  show ?thesis
  proof (cases "reuse B sb d type (unat j)")
    case None
    then have "create_found B sb type dp n s = Some (None, t3, d)" using lk(2) t2 u(1) ty2 by (auto simp: create_found_def reuse_def split: if_splits)
    then show ?thesis using lk(1) None u(2,3) keeps_trans [OF kp2 u(4)] by (auto simp: opened_def)
  next
    case (Some m)
    then have "create_found B sb type dp n s = Some (Some n, t2, d)" "m = unat j" using lk(2) t2 ty2 by (auto simp: create_found_def reuse_def split: if_splits)
    then show ?thesis using lk(1) Some kp2 l2 rf2 rf by (auto simp: opened_def)
  qed
qed

lemma create_spec:
  assumes B: "bio_laws B" and sb: "sb_ok sb" and tr: "tree_ok B sb ROOTDEV d" and root: "1 < unat (sb_ninodes sb)" "alloced B sb ROOTDEV 1 d"
    and n0: "\<not> alloced B sb ROOTDEV 0 d" and n16: "unat (sb_ninodes sb) \<le> 65536"
    and c: "cached B sb ROOTDEV {} tbl d" and room: "card (held tbl) + 3 \<le> NINODE" and cwd: "cwd_ok sb (refs tbl) cwd ci tbl" and type: "type \<noteq> 0"
    and space: "\<forall>p. walk_parent B sb ROOTDEV d (start_of ci path) (path_elems path) = Some p \<longrightarrow>
      16 * length (dlist B sb ROOTDEV d p) + 16 \<le> MAXFILE * BSIZE \<and> (type = T_DIR \<longrightarrow> d_nlink (on_disk B sb ROOTDEV p d) + 1 \<noteq> 0)"
  shows "\<exists>r t' d'. create B sb cwd path type ma mi (tbl, d) = Some (r, t', d') \<and> tree_ok B sb ROOTDEV d' \<and> keeps (refs tbl) tbl t' \<and>
    (case walk_parent B sb ROOTDEV d (start_of ci path) (path_elems path) of
       None \<Rightarrow> d' = d \<and> opened B sb (refs tbl) None r t' d
     | Some p \<Rightarrow>
         (case dirmap B sb ROOTDEV d p (last (path_elems path)) of
            Some j \<Rightarrow> d' = d \<and> opened B sb (refs tbl) (reuse B sb d type (unat j)) r t' d
          | None \<Rightarrow> made B sb type ma mi (last (path_elems path)) p (refs tbl) d r t' d'))"
proof -
  have room2: "card (held tbl) + 2 \<le> NINODE" using room by simp
  note P = create_parent [OF B sb tr root c room2 cwd, of path "replicate DIRSIZ 0"]
  show ?thesis
  proof (cases "walk_parent B sb ROOTDEV d (start_of ci path) (path_elems path)")
    case None
    then show ?thesis using P tr by (auto simp: create_def)
  next
    case (Some p)
    then obtain dp name t1 t2 where n: "nameiparent B sb cwd path (replicate DIRSIZ 0) (tbl, d) = Some (Some dp, name, t1, d)" "ilock B sb dp (t1, d) = Some (t2, d)"
      and ty: "d_type (on_disk B sb ROOTDEV p d) = T_DIR" and cn: "cname name = last (path_elems path)"
      and l: "locked_at B sb dp p t2 d" "i_valid (t2 ! dp)" and kp: "keeps (refs tbl) tbl t2"
      and rf: "refs t2 = (refs tbl)((ROOTDEV, of_nat p) := refs tbl (ROOTDEV, of_nat p) + 1)"
      using P keeps_trans by fastforce
    note f = locked_atD [OF l(1)]
    have R: "refs tbl = (refs t2)((ROOTDEV, of_nat p) := refs t2 (ROOTDEV, of_nat p) - 1)" unfolding rf by simp
    have rm: "card (held t2) + 2 \<le> NINODE" using card_held_upd [OF cachedD(1) [OF c] rf] room by simp
    have go: "create B sb cwd path type ma mi (tbl, d) = (case dirlookup B sb dp name (t2, d) of None \<Rightarrow> None
        | Some (Some (ip, _), fs3) \<Rightarrow> create_found B sb type dp ip fs3
        | Some (None, fs3) \<Rightarrow> create_absent B sb type ma mi name dp fs3)"
      using n by (simp add: create_def split: option.split)
    show ?thesis
    proof (cases "dirmap B sb ROOTDEV d p (cname name)")
      case none: None
      have rm1: "card (held t2) < NINODE" using rm by simp
      have "1 \<le> p" using f(9) n0 by (cases p) auto
      then obtain r t' d' where "create_absent B sb type ma mi name dp (t2, d) = Some (r, t', d')" "tree_ok B sb ROOTDEV d'" "keeps (refs tbl) t2 t'"
        "made B sb type ma mi (cname name) p (refs tbl) d r t' d'"
        using create_absent_spec [OF B sb tr l ty type _ rm n16 _ none _ R, of ma mi] space Some by blast
      then show ?thesis
        using go dirlookup_cached(1) [OF B sb tr f(1,2) singletonI f(6,5,3) ty rm1 none] Some none cn keeps_trans [OF kp] by auto
    next
      case j: (Some j)
      have rm1: "card (held t2) < NINODE" using rm by simp
      obtain k off s r t' where "dirlookup B sb dp name (t2, d) = Some (Some (k, off), s)" "create_found B sb type dp k s = Some (r, t', d)"
          "keeps (refs tbl) t2 t'" "opened B sb (refs tbl) (reuse B sb d type (unat j)) r t' d"
        using create_present [OF B sb tr l(1) ty rm1 j R] by blast
      then show ?thesis using go tr Some j cn keeps_trans [OF kp] by auto
    qed
  qed
qed

text \<open>
  Property C30. \<^verbatim>\<open>create\<close> on a well-formed tree returns without panic and without waiting for a lock of its own, keeps the tree
  well formed and every pointer to a referenced inode valid. If the path has no parent directory it returns a null
  pointer. If the name is in the parent it changes nothing on disk and returns the locked inode when a file or device is
  asked for and found, and whatever is found when a symbolic link is asked for; otherwise a null pointer. If the name is
  not in the parent, the result is a free inode that has been given the type, one link and one reference, locked and
  entered under the last path element, a new directory holding itself and its parent, whose link count rises; all
  other directories are as before. Where that fails, no inode is left allocated, all directories and references are as before,
  and, unless a directory was asked for, there was no free inode or no free block.\<close>

theorem create_updates_tree:
  assumes B: "bio_laws B" and sb: "sb_ok sb" and tr: "tree_ok B sb ROOTDEV d" and root: "1 < unat (sb_ninodes sb)" "alloced B sb ROOTDEV 1 d"
    and n0: "\<not> alloced B sb ROOTDEV 0 d" and n16: "unat (sb_ninodes sb) \<le> 65536"
    and c: "cached B sb ROOTDEV {} tbl d" and room: "card (held tbl) + 3 \<le> NINODE" and cwd: "cwd_ok sb (refs tbl) cwd ci tbl" and type: "type \<noteq> 0"
    and space: "\<forall>p. walk_parent B sb ROOTDEV d (start_of ci path) (path_elems path) = Some p \<longrightarrow>
      16 * length (dlist B sb ROOTDEV d p) + 16 \<le> MAXFILE * BSIZE \<and> (type = T_DIR \<longrightarrow> d_nlink (on_disk B sb ROOTDEV p d) + 1 \<noteq> 0)"
  shows "\<exists>r t' d'. create B sb cwd path type ma mi (tbl, d) = Some (r, t', d') \<and> tree_ok B sb ROOTDEV d' \<and> keeps (refs tbl) tbl t' \<and>
    (case walk_parent B sb ROOTDEV d (start_of ci path) (path_elems path) of
       None \<Rightarrow> d' = d \<and> opened B sb (refs tbl) None r t' d
     | Some p \<Rightarrow>
         (case dirmap B sb ROOTDEV d p (last (path_elems path)) of
            Some j \<Rightarrow> d' = d \<and> opened B sb (refs tbl) (reuse B sb d type (unat j)) r t' d
          | None \<Rightarrow> made B sb type ma mi (last (path_elems path)) p (refs tbl) d r t' d'))"
  using create_spec [OF assms] .


theorem create_updates_tree_witness:
  "\<exists>r t' d'. create demo_bio demo_sb 0 [47, 98] T_FILE 0 0 (root_tbl, root_disk) = Some (r, t', d') \<and> tree_ok demo_bio demo_sb ROOTDEV d' \<and>
     (r = None \<or> (\<exists>i. dirmap demo_bio demo_sb ROOTDEV d' 1 = (dirmap demo_bio demo_sb ROOTDEV root_disk 1)([98] \<mapsto> of_nat i)))"
proof -
  have a: "1 < unat (sb_ninodes demo_sb)" "alloced demo_bio demo_sb ROOTDEV 1 root_disk" "\<not> alloced demo_bio demo_sb ROOTDEV 0 root_disk"
    "unat (sb_ninodes demo_sb) \<le> 65536" by (simp_all add: demo_ninodes root_alloced ROOTDEV_def)
  have el: "path_elems [47, 98] = [[98]]" by (simp add: path_elems_def cname_def DIRSIZ_def)
  have w: "walk_parent demo_bio demo_sb ROOTDEV root_disk (start_of 1 [47, 98]) [[98]] = Some 1"
    by (simp add: walk_parent_def start_of_def ROOTDEV_def root_on_disk dinode_of_def root_ino_def T_DIR_def)
  have none: "dirmap demo_bio demo_sb ROOTDEV root_disk 1 [98] = None"
    by (simp add: dirmap_def ROOTDEV_def root_dirents dmap_def cname_def DIRSIZ_def flip: root_dp_def)
  have space: "\<forall>p. walk_parent demo_bio demo_sb ROOTDEV root_disk (start_of 1 [47, 98]) (path_elems [47, 98]) = Some p \<longrightarrow>
      16 * length (dlist demo_bio demo_sb ROOTDEV root_disk p) + 16 \<le> MAXFILE * BSIZE \<and>
      (T_FILE = T_DIR \<longrightarrow> d_nlink (on_disk demo_bio demo_sb ROOTDEV p root_disk) + 1 \<noteq> 0)"
    using w by (simp add: el T_FILE_def T_DIR_def ROOTDEV_def root_dirents MAXFILE_bytes flip: root_dp_def)
  have room: "card (held root_tbl) + 3 \<le> NINODE" by (simp add: root_held1 NINODE_def)
  have ty: "T_FILE \<noteq> 0" by (simp add: T_FILE_def)
  obtain r t' d' where "create demo_bio demo_sb 0 [47, 98] T_FILE 0 0 (root_tbl, root_disk) = Some (r, t', d')" "tree_ok demo_bio demo_sb ROOTDEV d'"
      "made demo_bio demo_sb T_FILE 0 0 [98] 1 (refs root_tbl) root_disk r t' d'"
    using create_updates_tree [OF demo_bio_laws demo_sb_ok root_tree a root_cached room link_cwd ty space, of 0 0] w none by (auto simp: el)
  then show ?thesis by (cases r) (auto simp: made_def entered_def)
qed

end
