(* ===== verification/SysLink.thy ===== *)
theory SysLink
  imports SysCreate
begin

text \<open>
  \<^verbatim>\<open>sys_link\<close> of Lab 5, Task 5.2 (\<^verbatim>\<open>kernel/sysfile.c\<close>) as an update of the tree: a second name for a file, whose link count
  rises by one, or the tree as it was.
\<close>

subsection \<open>Walks through unchanged directories\<close>

text \<open>The disk \<open>d'\<close> has the same inode types and the same directories as \<open>d\<close>.\<close>

definition same_dirs :: "'d bio \<Rightarrow> superblock \<Rightarrow> 'd \<Rightarrow> 'd \<Rightarrow> bool" where
  "same_dirs B sb d d' \<longleftrightarrow> (\<forall>j<unat (sb_ninodes sb). d_type (on_disk B sb ROOTDEV j d') = d_type (on_disk B sb ROOTDEV j d) \<and>
     (d_type (on_disk B sb ROOTDEV j d) = T_DIR \<longrightarrow> dirmap B sb ROOTDEV d' j = dirmap B sb ROOTDEV d j))"

lemma same_dirsD:
  assumes "same_dirs B sb d d'" and "j < unat (sb_ninodes sb)"
  shows "d_type (on_disk B sb ROOTDEV j d') = d_type (on_disk B sb ROOTDEV j d)"
    and "alloced B sb ROOTDEV j d' \<longleftrightarrow> alloced B sb ROOTDEV j d"
    and "d_type (on_disk B sb ROOTDEV j d) = T_DIR \<Longrightarrow> dirmap B sb ROOTDEV d' j = dirmap B sb ROOTDEV d j"
  using assms by (simp_all add: same_dirs_def alloced_def)

lemma same_dirs_trans: "same_dirs B sb d d1 \<Longrightarrow> same_dirs B sb d1 d2 \<Longrightarrow> same_dirs B sb d d2"
  by (simp add: same_dirs_def)

lemma walk_same:
  assumes tr: "tree_ok B sb ROOTDEV d" and sd: "same_dirs B sb d d'"
  shows "i < unat (sb_ninodes sb) \<Longrightarrow> alloced B sb ROOTDEV i d \<Longrightarrow> walk B sb ROOTDEV d' i xs = walk B sb ROOTDEV d i xs"
proof (induction xs arbitrary: i)
  case (Cons x xs)
  note s = same_dirsD [OF sd Cons.prems(1)]
  show ?case
  proof (cases "d_type (on_disk B sb ROOTDEV i d) = T_DIR")
    case True
    have "walk B sb ROOTDEV d' (unat j) xs = walk B sb ROOTDEV d (unat j) xs" if "dirmap B sb ROOTDEV d i x = Some j" for j
      using Cons.IH dirmap_target [OF tr Cons.prems True that] by blast
    then show ?thesis using True s by (auto split: option.split)
  qed (use s in simp)
qed simp

lemma walk_parent_same:
  assumes tr: "tree_ok B sb ROOTDEV d" and sd: "same_dirs B sb d d'" and i: "i < unat (sb_ninodes sb)" "alloced B sb ROOTDEV i d"
  shows "walk_parent B sb ROOTDEV d' i xs = walk_parent B sb ROOTDEV d i xs"
  using walk_same [OF tr sd i] walk_alloced [OF tr i] same_dirsD(1) [OF sd] by (auto simp: walk_parent_def split: option.split)

subsection \<open>Undoing the count\<close>

lemma set_nlink_dirs:
  assumes od: "\<And>j. j < unat (sb_ninodes sb) \<Longrightarrow>
      on_disk B sb ROOTDEV j d' = (if j = i then (on_disk B sb ROOTDEV i d)\<lparr>d_nlink := n\<rparr> else on_disk B sb ROOTDEV j d)"
    and dl: "\<And>j. j < unat (sb_ninodes sb) \<Longrightarrow> d_type (on_disk B sb ROOTDEV j d) = T_DIR \<Longrightarrow> dlist B sb ROOTDEV d' j = dlist B sb ROOTDEV d j"
  shows "same_dirs B sb d d'"
  using assms by (simp add: same_dirs_def dirmap_def)

lemma link_bad_spec:
  assumes B: "bio_laws B" and sb: "sb_ok sb" and tr: "tree_ok B sb ROOTDEV d" and c: "cached B sb ROOTDEV {} t d"
    and k: "ip < NINODE" "0 < i_ref (t ! ip)" "ikey (t ! ip) = (ROOTDEV, of_nat i)" and i: "i < unat (sb_ninodes sb)"
    and nl: "d_nlink (on_disk B sb ROOTDEV i d) - 1 \<noteq> 0" and R: "R = (refs t)((ROOTDEV, of_nat i) := refs t (ROOTDEV, of_nat i) - 1)"
  shows "\<exists>t' d'. link_bad B sb ip (t, d) = Some (- 1, t', d') \<and> tree_ok B sb ROOTDEV d' \<and> cached B sb ROOTDEV {} t' d' \<and> refs t' = R \<and>
     keeps R t t' \<and> same_dirs B sb d d' \<and> (\<forall>m<unat (sb_size sb). bused B sb ROOTDEV d' m = bused B sb ROOTDEV d m) \<and>
     (\<forall>j<unat (sb_ninodes sb). d_nlink (on_disk B sb ROOTDEV j d') = d_nlink (on_disk B sb ROOTDEV j d) - (if j = i then 1 else 0))"
proof -
  obtain t1 where lk: "ilock B sb ip (t, d) = Some (t1, d)" and l: "locked_at B sb ip i t1 d" and rf: "refs t1 = refs t" and kp: "keeps R t t1" and v: "i_valid (t1 ! ip)"
    using ilock_at [OF c k i] by blast
  note f = locked_atD [OF l]
  note e = locked_entry [OF f(1) k(1) singletonI v f(4) i]
  have len: "length t1 = NINODE" using itab_invD(1) [OF cachedD(1) [OF f(1)]] .
  define q where "q = (t1 ! ip)\<lparr>i_nlink := d_nlink (on_disk B sb ROOTDEV i d) - 1\<rparr>"
  define d' where "d' = iupdate B sb q d"
  note n = set_nlink [OF B sb tr f(1) k(1) singletonI v e(1) q_def nl d'_def]
  have up: "iupdate_k B sb ip (upd_ino ip (\<lambda>i. i\<lparr>i_nlink := i_nlink i - 1\<rparr>) (t1, d)) = (t1[ip := q], d')"
    using k(1) len e(8) by (simp add: upd_ino_def iupdate_k_def q_def d'_def)
  have l2: "locked_at B sb ip i (t1[ip := q]) d'"
    by (rule locked_atI [OF n(2) k(1) _ _ i]) (use k(1) len v f(4) in \<open>simp_all add: q_def ikey_def\<close>)
  have R2: "R = (refs (t1[ip := q]))((ROOTDEV, of_nat i) := refs (t1[ip := q]) (ROOTDEV, of_nat i) - 1)" unfolding n(3) rf by (rule R)
  obtain t' where u: "iunlockput B sb ip (t1[ip := q], d') = Some (t', d')" "cached B sb ROOTDEV {} t' d'" "refs t' = R" "keeps R (t1[ip := q]) t'"
    using iunlockput_at [OF n(1) l2 R2] by (elim exE conjE) (rule that)
  have "keeps R t1 (t1[ip := q])" by (rule keeps_same) (auto simp: nth_list_update_if q_def ikey_def)
  then have "keeps R t t'" using kp u(4) keeps_trans by blast
  moreover have "link_bad B sb ip (t, d) = Some (- 1, t', d')" using lk up u(1) by (simp add: link_bad_def)
  moreover have "\<forall>j<unat (sb_ninodes sb). d_nlink (on_disk B sb ROOTDEV j d') = d_nlink (on_disk B sb ROOTDEV j d) - (if j = i then 1 else 0)"
    using n(5) by simp
  moreover have "same_dirs B sb d d'" by (rule set_nlink_dirs [OF n(5,4)])
  moreover have "\<forall>m<unat (sb_size sb). bused B sb ROOTDEV d' m = bused B sb ROOTDEV d m" using n(6) by blast
  ultimately show ?thesis using n(1) u(2,3) by (intro exI [of _ t'] exI [of _ d']) (intro conjI)
qed


subsection \<open>The new name\<close>

text \<open>
  The result of entering the name \<open>x\<close> for the file \<open>i\<close> into the directory \<open>p\<close>, on a disk \<open>d\<close> on which the count of \<open>i\<close> is already
  raised: the directory has the name, or everything is as before and the count is lowered again.
\<close>

definition linked :: "'d bio \<Rightarrow> superblock \<Rightarrow> u8 list \<Rightarrow> nat \<Rightarrow> nat \<Rightarrow> 'd \<Rightarrow> int \<Rightarrow> 'd \<Rightarrow> bool" where
  "linked B sb x p i d r d' \<longleftrightarrow>
     r = 0 \<and> dirmap B sb ROOTDEV d' p = (dirmap B sb ROOTDEV d p)(x \<mapsto> of_nat i) \<and>
       (\<forall>j<unat (sb_ninodes sb). d_type (on_disk B sb ROOTDEV j d') = d_type (on_disk B sb ROOTDEV j d) \<and>
          d_nlink (on_disk B sb ROOTDEV j d') = d_nlink (on_disk B sb ROOTDEV j d) \<and>
          (j \<noteq> p \<longrightarrow> d_type (on_disk B sb ROOTDEV j d) = T_DIR \<longrightarrow> dirmap B sb ROOTDEV d' j = dirmap B sb ROOTDEV d j))"

definition unlinked :: "'d bio \<Rightarrow> superblock \<Rightarrow> nat \<Rightarrow> 'd \<Rightarrow> int \<Rightarrow> 'd \<Rightarrow> bool" where
  "unlinked B sb i d r d' \<longleftrightarrow> r = - 1 \<and> same_dirs B sb d d' \<and>
     (\<forall>j<unat (sb_ninodes sb). d_nlink (on_disk B sb ROOTDEV j d') = d_nlink (on_disk B sb ROOTDEV j d) - (if j = i then 1 else 0))"

text \<open>\<^verbatim>\<open>dirlink\<close> on the locked parent, in both cases.\<close>

lemma dirlink_at:
  assumes B: "bio_laws B" and sb: "sb_ok sb" and tr: "tree_ok B sb ROOTDEV d" and l: "locked_at B sb dp p t d" and v: "i_valid (t ! dp)"
    and ty: "d_type (on_disk B sb ROOTDEV p d) = T_DIR" and room: "card (held t) < NINODE"
    and sz: "16 * length (dlist B sb ROOTDEV d p) + 16 \<le> MAXFILE * BSIZE"
    and i: "1 \<le> i" "i < unat (sb_ninodes sb)" "alloced B sb ROOTDEV i d" and n16: "unat (sb_ninodes sb) \<le> 65536"
  shows "\<exists>e t' d'. dirlink B sb dp name (of_nat i) (t, d) = Some (e, t', d') \<and> tree_ok B sb ROOTDEV d' \<and> locked_at B sb dp p t' d' \<and>
     refs t' = refs t \<and> keeps (refs t) t t' \<and>
     (if e < 0 then same_dirs B sb d d' \<and> (\<forall>j<unat (sb_ninodes sb). d_nlink (on_disk B sb ROOTDEV j d') = d_nlink (on_disk B sb ROOTDEV j d)) \<and>
          (dirmap B sb ROOTDEV d p (cname name) \<noteq> None \<or> (\<forall>m<unat (sb_size sb). bused B sb ROOTDEV d' m))
      else dirmap B sb ROOTDEV d p (cname name) = None \<and> linked B sb (cname name) p i d 0 d')"
proof -
  note f = locked_atD [OF l]
  note e = locked_entry [OF f(1,2) singletonI v f(4,3)]
  have len: "length t = NINODE" using itab_invD(1) [OF cachedD(1) [OF f(1)]] .
  have dty: "i_type (t ! dp) = T_DIR" using e(5) ty by simp
  have u: "unat (of_nat i :: u32) = i" using inum32 [OF i(2)] .
  show ?thesis
  proof (cases "dirmap B sb ROOTDEV d p (cname name)")
    case (Some j)
    obtain t' where dl: "dirlink B sb dp name (of_nat i) (t, d) = Some (- 1, t', d)" "cached B sb ROOTDEV {dp} t' d" "refs t' = refs t"
      and kp: "\<forall>j<NINODE. 0 < i_ref (t ! j) \<longrightarrow> ikey (t' ! j) = ikey (t ! j) \<and> 0 < i_ref (t' ! j) \<and> i_valid (t' ! j) = i_valid (t ! j)"
      using dirlink_present [OF B sb tr f(1,2) v e(1) [symmetric] dty room Some] by blast
    have "locked_at B sb dp p t' d" using kp f(2,4,7) v by (intro locked_atI [OF dl(2) f(2) _ _ f(3)]) simp_all
    moreover have "keeps (refs t) t t'" using kp by (simp add: keeps_same)
    ultimately show ?thesis using dl tr Some by (simp add: same_dirs_def)
  next
    case None
    have ok: "dir_ok B (inode_at B sb ROOTDEV p d) d" using tree_okD(3) [OF tr f(3) e(4) ty] .
    have "unat (i_size (t ! dp)) = 16 * length (dlist B sb ROOTDEV d p)"
      using ok e(7) by (simp add: dir_ok_def dirents_def) (simp add: inode_at_def dinode_load_def)
    then have sz': "unat (i_size (t ! dp)) + 16 \<le> MAXFILE * BSIZE" using sz by simp
    have inum: "0 < unat (of_nat i :: u32)" "unat (of_nat i :: u32) < 65536" "unat (of_nat i :: u32) < unat (sb_ninodes sb)"
      "alloced B sb ROOTDEV (unat (of_nat i :: u32)) d" using u i n16 by simp_all
    obtain r t' d' z as where dl: "dirlink B sb dp name (of_nat i) (t, d) = Some (r, t', d')" "tree_ok B sb ROOTDEV d'" "cached B sb ROOTDEV {dp} t' d'"
        "refs t' = refs t" "t' = t[dp := (t ! dp)\<lparr>i_size := z, i_addrs := as\<rparr>]"
      and od: "\<forall>m<unat (sb_ninodes sb). m \<noteq> p \<longrightarrow> on_disk B sb ROOTDEV m d' = on_disk B sb ROOTDEV m d"
      and ds: "\<forall>m<unat (sb_ninodes sb). m \<noteq> p \<longrightarrow> alloced B sb ROOTDEV m d \<longrightarrow> d_type (on_disk B sb ROOTDEV m d) = T_DIR \<longrightarrow>
        dlist B sb ROOTDEV d' m = dlist B sb ROOTDEV d m"
      and res: "r = 0 \<and> dlist B sb ROOTDEV d' p = put_entry (dlist B sb ROOTDEV d p) (free_slot (dlist B sb ROOTDEV d p)) (entry_for name (of_nat i)) \<and>
          dirmap B sb ROOTDEV d' p = (dirmap B sb ROOTDEV d p)(cname name \<mapsto> ucast (of_nat i :: u32)) \<or>
        r = - 1 \<and> dlist B sb ROOTDEV d' p = dlist B sb ROOTDEV d p \<and> (\<forall>m<unat (sb_size sb). bused B sb ROOTDEV d' m)"
      using dirlink_absent [OF B sb tr f(1,2) singletonI v e(1) [symmetric] dty room sz' inum None] by (elim exE conjE) (rule that)
    have l': "locked_at B sb dp p t' d'"
      by (rule locked_atI [OF dl(3) f(2) _ _ f(3)]) (use dl(5) f(2,4) v len in \<open>simp_all add: ikey_def\<close>)
    note e' = locked_entry [OF dl(3) f(2) singletonI _ locked_atD(4) [OF l'] f(3)]
    have pd: "d_type (on_disk B sb ROOTDEV p d') = T_DIR" "d_nlink (on_disk B sb ROOTDEV p d') = d_nlink (on_disk B sb ROOTDEV p d)"
      using e'(5,8) e(8) dty dl(5) f(2) v len by simp_all
    have meta: "d_type (on_disk B sb ROOTDEV j d') = d_type (on_disk B sb ROOTDEV j d) \<and> d_nlink (on_disk B sb ROOTDEV j d') = d_nlink (on_disk B sb ROOTDEV j d)"
      if "j < unat (sb_ninodes sb)" for j using that od pd ty by (cases "j = p") simp_all
    have dm: "dirmap B sb ROOTDEV d' j = dirmap B sb ROOTDEV d j"
      if "j < unat (sb_ninodes sb)" "j \<noteq> p" "d_type (on_disk B sb ROOTDEV j d) = T_DIR" for j
      using that ds by (simp add: dirmap_def alloced_def T_DIR_def)
    have "if r < 0 then same_dirs B sb d d' \<and> (\<forall>m<unat (sb_size sb). bused B sb ROOTDEV d' m) else linked B sb (cname name) p i d 0 d'"
      using res
    proof
      assume "r = 0 \<and> dlist B sb ROOTDEV d' p = put_entry (dlist B sb ROOTDEV d p) (free_slot (dlist B sb ROOTDEV d p)) (entry_for name (of_nat i)) \<and>
          dirmap B sb ROOTDEV d' p = (dirmap B sb ROOTDEV d p)(cname name \<mapsto> ucast (of_nat i :: u32))"
      then show ?thesis using meta dm by (simp add: linked_def ucast_of_nat16)
    next
      assume r: "r = - 1 \<and> dlist B sb ROOTDEV d' p = dlist B sb ROOTDEV d p \<and> (\<forall>m<unat (sb_size sb). bused B sb ROOTDEV d' m)"
      then have "dirmap B sb ROOTDEV d' p = dirmap B sb ROOTDEV d p" by (simp add: dirmap_def)
      then have "same_dirs B sb d d'" unfolding same_dirs_def using meta dm by metis
      then show ?thesis using r by simp
    qed
    then show ?thesis using dl(1,2,4) l' None meta keeps_size dl(5) by (simp split: if_splits)
  qed
qed


lemma keeps_mono: "keeps R t t' \<Longrightarrow> (\<And>x. 0 < Q x \<Longrightarrow> 0 < R x) \<Longrightarrow> keeps Q t t'"
  by (auto simp: keeps_def)

lemma unlinked_after:
  assumes sd: "same_dirs B sb d d1" and nl: "\<forall>j<unat (sb_ninodes sb). d_nlink (on_disk B sb ROOTDEV j d1) = d_nlink (on_disk B sb ROOTDEV j d)"
    and sd2: "same_dirs B sb d1 d2"
    and nl2: "\<forall>j<unat (sb_ninodes sb). d_nlink (on_disk B sb ROOTDEV j d2) = d_nlink (on_disk B sb ROOTDEV j d1) - (if j = i then 1 else 0)"
  shows "unlinked B sb i d (- 1) d2"
  using same_dirs_trans [OF sd sd2] nl nl2 by (simp add: unlinked_def)

lemma link_enter_spec:
  assumes B: "bio_laws B" and sb: "sb_ok sb" and tr: "tree_ok B sb ROOTDEV d" and root: "1 < unat (sb_ninodes sb)" "alloced B sb ROOTDEV 1 d"
    and c: "cached B sb ROOTDEV {} t d" and room: "card (held t) + 2 \<le> NINODE" and n16: "unat (sb_ninodes sb) \<le> 65536"
    and k: "ip < NINODE" "0 < i_ref (t ! ip)" "ikey (t ! ip) = (ROOTDEV, of_nat i)" and i: "1 \<le> i" "i < unat (sb_ninodes sb)"
    and nl: "d_nlink (on_disk B sb ROOTDEV i d) - 1 \<noteq> 0" and R: "R = (refs t)((ROOTDEV, of_nat i) := refs t (ROOTDEV, of_nat i) - 1)"
    and cwd: "cwd_ok sb (refs t) cwd ci t"
    and space: "\<forall>p. walk_parent B sb ROOTDEV d (start_of ci new) (path_elems new) = Some p \<longrightarrow> 16 * length (dlist B sb ROOTDEV d p) + 16 \<le> MAXFILE * BSIZE"
  shows "\<exists>r t' d'. link_enter B sb cwd new ip (t, d) = Some (r, t', d') \<and> tree_ok B sb ROOTDEV d' \<and> cached B sb ROOTDEV {} t' d' \<and>
     refs t' = R \<and> keeps R t t' \<and>
     (case walk_parent B sb ROOTDEV d (start_of ci new) (path_elems new) of
        None \<Rightarrow> unlinked B sb i d r d'
      | Some p \<Rightarrow> if dirmap B sb ROOTDEV d p (last (path_elems new)) \<noteq> None then unlinked B sb i d r d'
          else linked B sb (last (path_elems new)) p i d r d' \<or> unlinked B sb i d r d' \<and> (\<forall>m<unat (sb_size sb). bused B sb ROOTDEV d' m))"
proof -
  have ref: "refs t (ROOTDEV, of_nat i) = i_ref (t ! ip)" using refs_entry [OF cachedD(1) [OF c] k(1,2)] k(3) by simp
  have mono: "0 < R x \<Longrightarrow> 0 < refs t x" for x using R by (auto split: if_splits)
  have al: "alloced B sb ROOTDEV i d" using cachedD(5) [OF c k(1,2)] k(3) inum32 [OF i(2)] by (simp add: ikey_def)
  have hold: "0 < i_ref (t1 ! ip) \<and> ikey (t1 ! ip) = (ROOTDEV, of_nat i)" if "keeps (refs t) t t1" for t1
    using keepsD [OF that k(1,2)] k ref by simp
  note P = create_parent [OF B sb tr root c room cwd, of new "replicate DIRSIZ 0"]
  show ?thesis
  proof (cases "walk_parent B sb ROOTDEV d (start_of ci new) (path_elems new)")
    case None
    then obtain name t1 where n: "nameiparent B sb cwd new (replicate DIRSIZ 0) (t, d) = Some (None, name, t1, d)" and kp: "keeps (refs t) t t1"
      and c1: "cached B sb ROOTDEV {} t1 d" and rf: "refs t1 = refs t" using P by (auto simp: opened_def)
    obtain t2 d2 where lb: "link_bad B sb ip (t1, d) = Some (- 1, t2, d2)" "tree_ok B sb ROOTDEV d2" "cached B sb ROOTDEV {} t2 d2" "refs t2 = R"
        "keeps R t1 t2" "same_dirs B sb d d2"
        "\<forall>j<unat (sb_ninodes sb). d_nlink (on_disk B sb ROOTDEV j d2) = d_nlink (on_disk B sb ROOTDEV j d) - (if j = i then 1 else 0)"
      using link_bad_spec [OF B sb tr c1 k(1) conjunct1 [OF hold [OF kp]] conjunct2 [OF hold [OF kp]] i(2) nl, of R] R rf by auto
    then show ?thesis using n None keeps_trans [OF keeps_mono [OF kp mono] lb(5)] by (auto simp: link_enter_def unlinked_def)
  next
    case (Some p)
    then obtain dp name t1 t2 where n: "nameiparent B sb cwd new (replicate DIRSIZ 0) (t, d) = Some (Some dp, name, t1, d)" "ilock B sb dp (t1, d) = Some (t2, d)"
      and ty: "d_type (on_disk B sb ROOTDEV p d) = T_DIR" and cn: "cname name = last (path_elems new)"
      and l: "locked_at B sb dp p t2 d" "i_valid (t2 ! dp)" and kp: "keeps (refs t) t t2"
      and rf: "refs t2 = (refs t)((ROOTDEV, of_nat p) := refs t (ROOTDEV, of_nat p) + 1)"
      using P keeps_trans by fastforce
    have rm: "card (held t2) < NINODE" using card_held_upd [OF cachedD(1) [OF c] rf] room by simp
    have dv: "i_dev (t2 ! dp) = i_dev (t2 ! ip)" and num: "i_inum (t2 ! ip) = of_nat i" using locked_atD(8) [OF l(1)] hold [OF kp] by (simp_all add: ikey_def)
    obtain e t3 d3 where dl: "dirlink B sb dp name (of_nat i) (t2, d) = Some (e, t3, d3)" "tree_ok B sb ROOTDEV d3" "locked_at B sb dp p t3 d3"
        "refs t3 = refs t2" "keeps (refs t2) t2 t3"
      and res: "if e < 0 then same_dirs B sb d d3 \<and> (\<forall>j<unat (sb_ninodes sb). d_nlink (on_disk B sb ROOTDEV j d3) = d_nlink (on_disk B sb ROOTDEV j d)) \<and>
          (dirmap B sb ROOTDEV d p (cname name) \<noteq> None \<or> (\<forall>m<unat (sb_size sb). bused B sb ROOTDEV d3 m))
        else dirmap B sb ROOTDEV d p (cname name) = None \<and> linked B sb (cname name) p i d 0 d3"
      using dirlink_at [OF B sb tr l ty rm _ i al n16] space Some by blast
    have R3: "refs t = (refs t3)((ROOTDEV, of_nat p) := refs t3 (ROOTDEV, of_nat p) - 1)" unfolding dl(4) rf by simp
    obtain t4 where u: "iunlockput B sb dp (t3, d3) = Some (t4, d3)" "cached B sb ROOTDEV {} t4 d3" "refs t4 = refs t" "keeps (refs t) t3 t4"
      using iunlockput_at [OF dl(2,3) R3] by (elim exE conjE) (rule that)
    have kp4: "keeps (refs t) t t4"
      using keeps_trans [OF kp keeps_trans [OF keeps_mono [OF dl(5)] u(4)]] rf refs_nonneg [OF cachedD(1) [OF c]] by (auto split: if_splits)
    note h = hold [OF kp4]
    have go: "link_enter B sb cwd new ip (t, d) = (if e < 0 then link_bad B sb ip (t4, d3) else do { fs5 \<leftarrow> iput B sb ip (t4, d3); Some (0, fs5) })"
      using n dl(1) u(1) dv num by (simp add: link_enter_def)
    show ?thesis
    proof (cases "e < 0")
      case True
      have nl3: "d_nlink (on_disk B sb ROOTDEV i d3) - 1 \<noteq> 0" using res True nl i(2) by simp
      obtain t5 d5 where lb: "link_bad B sb ip (t4, d3) = Some (- 1, t5, d5)" "tree_ok B sb ROOTDEV d5" "cached B sb ROOTDEV {} t5 d5" "refs t5 = R"
          "keeps R t4 t5" "same_dirs B sb d3 d5" "\<forall>m<unat (sb_size sb). bused B sb ROOTDEV d5 m = bused B sb ROOTDEV d3 m"
          "\<forall>j<unat (sb_ninodes sb). d_nlink (on_disk B sb ROOTDEV j d5) = d_nlink (on_disk B sb ROOTDEV j d3) - (if j = i then 1 else 0)"
        using link_bad_spec [OF B sb dl(2) u(2) k(1) conjunct1 [OF h] conjunct2 [OF h] i(2) nl3, of R] R u(3) by auto
      have "unlinked B sb i d (- 1) d5" using res True lb(6,8) by (intro unlinked_after [of B sb d d3]) simp_all
      then show ?thesis using go True lb(1-5,7) res Some cn keeps_trans [OF keeps_mono [OF kp4 mono] lb(5)] by auto
    next
      case False
      obtain t5 where p5: "iput B sb ip (t4, d3) = Some (t5, d3)" "cached B sb ROOTDEV {} t5 d3"
          "refs t5 = (refs t4)(ikey (t4 ! ip) := refs t4 (ikey (t4 ! ip)) - 1)"
        and t5: "\<forall>j. j \<noteq> ip \<longrightarrow> t5 ! j = t4 ! j" "t5 ! ip = (t4 ! ip)\<lparr>i_ref := i_ref (t4 ! ip) - 1\<rparr>"
        using iput_cached [OF dl(2) u(2) k(1) conjunct1 [OF h]] by auto
      have rf5: "refs t5 = R" using p5(3) h u(3) R by simp
      have "keeps R t4 t5"
      proof (rule keeps_release [OF cachedD(1) [OF u(2)] k(1) conjunct1 [OF h] t5(1)])
        show "R (ikey (t4 ! ip)) = refs t4 (ikey (t4 ! ip)) - 1" unfolding rf5 [symmetric] p5(3) by simp
      qed (simp_all add: t5(2) ikey_def)
      then have "keeps R t t5" using keeps_trans [OF keeps_mono [OF kp4 mono]] by blast
      then show ?thesis using go False p5(1,2) rf5 dl(2) res Some cn by auto
    qed
  qed
qed


subsection \<open>\<^verbatim>\<open>link\<close>\<close>

text \<open>The file and the directory that \<^verbatim>\<open>link(old, new)\<close> is to connect, if there is nothing against it.\<close>

definition link_goal :: "'d bio \<Rightarrow> superblock \<Rightarrow> 'd \<Rightarrow> nat \<Rightarrow> u8 list \<Rightarrow> u8 list \<Rightarrow> (nat \<times> nat) option" where
  "link_goal B sb d ci old new =
     (case walk B sb ROOTDEV d (start_of ci old) (path_elems old) of
        None \<Rightarrow> None
      | Some i \<Rightarrow>
          if d_type (on_disk B sb ROOTDEV i d) = T_DIR then None
          else case walk_parent B sb ROOTDEV d (start_of ci new) (path_elems new) of
                 None \<Rightarrow> None
               | Some p \<Rightarrow> if dirmap B sb ROOTDEV d p (last (path_elems new)) \<noteq> None then None else Some (i, p))"

definition same_links :: "'d bio \<Rightarrow> superblock \<Rightarrow> 'd \<Rightarrow> 'd \<Rightarrow> bool" where
  "same_links B sb d d' \<longleftrightarrow> same_dirs B sb d d' \<and>
     (\<forall>j<unat (sb_ninodes sb). d_nlink (on_disk B sb ROOTDEV j d') = d_nlink (on_disk B sb ROOTDEV j d))"

text \<open>The tree \<open>d'\<close> is the tree \<open>d\<close> with the name \<open>x\<close> for \<open>i\<close> in \<open>p\<close> and one more link to \<open>i\<close>.\<close>

definition with_link :: "'d bio \<Rightarrow> superblock \<Rightarrow> u8 list \<Rightarrow> nat \<Rightarrow> nat \<Rightarrow> 'd \<Rightarrow> 'd \<Rightarrow> bool" where
  "with_link B sb x p i d d' \<longleftrightarrow> dirmap B sb ROOTDEV d' p = (dirmap B sb ROOTDEV d p)(x \<mapsto> of_nat i) \<and>
     (\<forall>j<unat (sb_ninodes sb). d_type (on_disk B sb ROOTDEV j d') = d_type (on_disk B sb ROOTDEV j d) \<and>
        d_nlink (on_disk B sb ROOTDEV j d') = d_nlink (on_disk B sb ROOTDEV j d) + (if j = i then 1 else 0) \<and>
        (j \<noteq> p \<longrightarrow> d_type (on_disk B sb ROOTDEV j d) = T_DIR \<longrightarrow> dirmap B sb ROOTDEV d' j = dirmap B sb ROOTDEV d j))"

lemma link_compose:
  assumes sd: "same_dirs B sb d d1"
    and nl: "\<forall>j<unat (sb_ninodes sb). d_nlink (on_disk B sb ROOTDEV j d1) = d_nlink (on_disk B sb ROOTDEV j d) + (if j = i then 1 else 0)"
  shows "unlinked B sb i d1 r d' \<Longrightarrow> r = - 1 \<and> same_links B sb d d'"
    and "linked B sb x p i d1 r d' \<Longrightarrow> p < unat (sb_ninodes sb) \<Longrightarrow> d_type (on_disk B sb ROOTDEV p d) = T_DIR \<Longrightarrow> r = 0 \<and> with_link B sb x p i d d'"
proof -
  show "r = - 1 \<and> same_links B sb d d'" if "unlinked B sb i d1 r d'"
    using that nl same_dirs_trans [OF sd] by (simp add: unlinked_def same_links_def)
  show "r = 0 \<and> with_link B sb x p i d d'"
    if "linked B sb x p i d1 r d'" "p < unat (sb_ninodes sb)" "d_type (on_disk B sb ROOTDEV p d) = T_DIR"
    using that nl sd by (simp add: linked_def with_link_def same_dirs_def)
qed

text \<open>Raising the count of a file and unlocking it.\<close>

lemma link_count_up:
  assumes B: "bio_laws B" and sb: "sb_ok sb" and tr: "tree_ok B sb ROOTDEV d" and l: "locked_at B sb ip i t d"
    and nl: "d_nlink (on_disk B sb ROOTDEV i d) + 1 \<noteq> 0"
  shows "\<exists>t' d'. iunlock_k ip (iupdate_k B sb ip (upd_ino ip (\<lambda>i. i\<lparr>i_nlink := i_nlink i + 1\<rparr>) (t, d))) = Some (t', d') \<and> tree_ok B sb ROOTDEV d' \<and>
     cached B sb ROOTDEV {} t' d' \<and> refs t' = refs t \<and> (\<forall>Q. keeps Q t t') \<and> same_dirs B sb d d' \<and>
     (\<forall>j<unat (sb_ninodes sb). d_type (on_disk B sb ROOTDEV j d) = T_DIR \<longrightarrow> dlist B sb ROOTDEV d' j = dlist B sb ROOTDEV d j) \<and>
     (\<forall>j<unat (sb_ninodes sb). d_nlink (on_disk B sb ROOTDEV j d') = d_nlink (on_disk B sb ROOTDEV j d) + (if j = i then 1 else 0))"
proof -
  note f = locked_atD [OF l]
  note e = locked_entry [OF f(1,2) singletonI f(10,4,3)]
  have len: "length t = NINODE" using itab_invD(1) [OF cachedD(1) [OF f(1)]] .
  define q where "q = (t ! ip)\<lparr>i_nlink := d_nlink (on_disk B sb ROOTDEV i d) + 1\<rparr>"
  define d' where "d' = iupdate B sb q d"
  define t1 where "t1 = t[ip := q]"
  note n = set_nlink [OF B sb tr f(1,2) singletonI f(10) e(1) q_def nl d'_def, folded t1_def]
  have up: "iupdate_k B sb ip (upd_ino ip (\<lambda>i. i\<lparr>i_nlink := i_nlink i + 1\<rparr>) (t, d)) = (t1, d')"
    using f(2) len e(8) by (simp add: upd_ino_def iupdate_k_def q_def d'_def t1_def)
  define t' where "t' = t1[ip := (t1 ! ip)\<lparr>i_locked := False\<rparr>]"
  note u = iunlock_cached [OF n(2) f(2) singletonI, folded t'_def]
  have "keeps Q t t'" for Q
    by (rule keeps_same) (use f(2,7) len in \<open>auto simp: t'_def t1_def q_def nth_list_update_if ikey_def\<close>)
  moreover have "iunlock_k ip (t1, d') = Some (t', d')" using u(1) by (simp add: iunlock_k_def)
  moreover have "same_dirs B sb d d'" by (rule set_nlink_dirs [OF n(5,4)])
  moreover have "\<forall>j<unat (sb_ninodes sb). d_nlink (on_disk B sb ROOTDEV j d') = d_nlink (on_disk B sb ROOTDEV j d) + (if j = i then 1 else 0)"
    using n(5) by simp
  ultimately show ?thesis
    using n(1,4) u(2,3) n(3) unfolding up by (intro exI [of _ t'] exI [of _ d']) simp
qed


text \<open>The call once the file is found.\<close>

lemma link_file:
  assumes B: "bio_laws B" and sb: "sb_ok sb" and tr: "tree_ok B sb ROOTDEV d" and root: "1 < unat (sb_ninodes sb)" "alloced B sb ROOTDEV 1 d"
    and n0: "\<not> alloced B sb ROOTDEV 0 d" and n16: "unat (sb_ninodes sb) \<le> 65536"
    and c: "cached B sb ROOTDEV {} tbl d" and room: "card (held tbl) + 3 \<le> NINODE" and cwd: "cwd_ok sb (refs tbl) cwd ci tbl"
    and l: "locked_at B sb ip i t2 d" and rf2: "refs t2 = (refs tbl)((ROOTDEV, of_nat i) := refs tbl (ROOTDEV, of_nat i) + 1)"
    and kp: "keeps (refs tbl) tbl t2" and nli: "d_nlink (on_disk B sb ROOTDEV i d) + 1 \<noteq> 0"
    and space: "\<forall>p. walk_parent B sb ROOTDEV d (start_of ci new) (path_elems new) = Some p \<longrightarrow> 16 * length (dlist B sb ROOTDEV d p) + 16 \<le> MAXFILE * BSIZE"
  shows "\<exists>t3 d1 r t' d'. iunlock_k ip (iupdate_k B sb ip (upd_ino ip (\<lambda>i. i\<lparr>i_nlink := i_nlink i + 1\<rparr>) (t2, d))) = Some (t3, d1) \<and>
     link_enter B sb cwd new ip (t3, d1) = Some (r, t', d') \<and> tree_ok B sb ROOTDEV d' \<and> cached B sb ROOTDEV {} t' d' \<and>
     refs t' = refs tbl \<and> keeps (refs tbl) tbl t' \<and>
     (case walk_parent B sb ROOTDEV d (start_of ci new) (path_elems new) of
        None \<Rightarrow> r = - 1 \<and> same_links B sb d d'
      | Some p \<Rightarrow> if dirmap B sb ROOTDEV d p (last (path_elems new)) \<noteq> None then r = - 1 \<and> same_links B sb d d'
          else r = 0 \<and> with_link B sb (last (path_elems new)) p i d d' \<or> r = - 1 \<and> same_links B sb d d' \<and> (\<forall>m<unat (sb_size sb). bused B sb ROOTDEV d' m))"
proof -
  note f = locked_atD [OF l]
  obtain t3 d1 where up: "iunlock_k ip (iupdate_k B sb ip (upd_ino ip (\<lambda>i. i\<lparr>i_nlink := i_nlink i + 1\<rparr>) (t2, d))) = Some (t3, d1)"
    and tr1: "tree_ok B sb ROOTDEV d1" and c1: "cached B sb ROOTDEV {} t3 d1" and rf: "refs t3 = refs t2" and kp3: "\<forall>Q. keeps Q t2 t3"
    and sd: "same_dirs B sb d d1" and dl: "\<forall>j<unat (sb_ninodes sb). d_type (on_disk B sb ROOTDEV j d) = T_DIR \<longrightarrow> dlist B sb ROOTDEV d1 j = dlist B sb ROOTDEV d j"
    and nl: "\<forall>j<unat (sb_ninodes sb). d_nlink (on_disk B sb ROOTDEV j d1) = d_nlink (on_disk B sb ROOTDEV j d) + (if j = i then 1 else 0)"
    using link_count_up [OF B sb tr l nli] by blast
  have st: "start_of ci new < unat (sb_ninodes sb)" "alloced B sb ROOTDEV (start_of ci new) d"
    using root cwd cachedD(5) [OF c, of cwd] inum32 [of ci sb] by (auto simp: start_of_def cwd_ok_def ikey_def)
  note wp = walk_parent_same [OF tr sd st, of "path_elems new"]
  have pd: "p < unat (sb_ninodes sb)" "d_type (on_disk B sb ROOTDEV p d) = T_DIR"
    if "walk_parent B sb ROOTDEV d (start_of ci new) (path_elems new) = Some p" for p
    using that walk_alloced [OF tr st] by (auto simp: walk_parent_def split: if_splits option.splits)
  have rm: "card (held t3) + 2 \<le> NINODE" using card_held_upd [OF cachedD(1) [OF c] rf2] room rf by simp
  have k3: "0 < i_ref (t3 ! ip)" "ikey (t3 ! ip) = (ROOTDEV, of_nat i)"
    using keepsD [OF spec [OF kp3, of "refs t2"] f(2,7)] f(4,7) refs_entry [OF cachedD(1) [OF f(1)] f(2,7)] by simp_all
  have root1: "alloced B sb ROOTDEV 1 d1" using same_dirsD(2) [OF sd root(1)] root(2) by simp
  have i1: "1 \<le> i" using f(9) n0 by (cases i) auto
  have nl1: "d_nlink (on_disk B sb ROOTDEV i d1) - 1 \<noteq> 0" using nl f(3) tree_okD(2) [OF tr f(3,9)] by simp
  have R3: "refs tbl = (refs t3)((ROOTDEV, of_nat i) := refs t3 (ROOTDEV, of_nat i) - 1)" unfolding rf rf2 by simp
  have cw: "cwd_ok sb (refs t3) cwd ci t3"
    using cwd_ok_keeps [OF cwd keeps_trans [OF kp spec [OF kp3]]] rf rf2 by (auto simp: cwd_ok_def)
  have sp: "\<forall>p. walk_parent B sb ROOTDEV d1 (start_of ci new) (path_elems new) = Some p \<longrightarrow> 16 * length (dlist B sb ROOTDEV d1 p) + 16 \<le> MAXFILE * BSIZE"
    using space wp dl pd by auto
  note E = link_enter_spec [OF B sb tr1 root(1) root1 c1 rm n16 f(2) k3 i1 f(3) nl1 R3 cw sp, unfolded wp] and C = link_compose [OF sd nl]
  have dm: "dirmap B sb ROOTDEV d1 p = dirmap B sb ROOTDEV d p" if "walk_parent B sb ROOTDEV d (start_of ci new) (path_elems new) = Some p" for p
    using same_dirsD(3) [OF sd] pd [OF that] by blast
  have kpt: "keeps (refs tbl) tbl t'" if "keeps (refs tbl) t3 t'" for t' using keeps_trans [OF kp keeps_trans [OF spec [OF kp3] that]] .
  show ?thesis
  proof (cases "walk_parent B sb ROOTDEV d (start_of ci new) (path_elems new)")
    case None
    then show ?thesis using E C(1) up kpt by auto
  next
    case (Some p)
    then show ?thesis using E C(1) C(2) [OF _ pd [OF Some]] up kpt dm [OF Some] by (fastforce split: if_splits)
  qed
qed

text \<open>
  Property C31. \<^verbatim>\<open>link(old, new)\<close> on a well-formed tree returns without panic and without waiting for a lock of its own. If \<open>old\<close>
  leads to a file that is no directory, \<open>new\<close> has a parent directory and the name is not in it, then either the call returns 0,
  the parent has exactly this name more, for the file, and the link count of the file is one higher; or it returns -1 because
  no block is free. In all other cases it returns -1. When it returns -1, every directory and every link count is as
  before. The tree stays well formed, the table keeps agreeing with the disk, and all reference counts are as before.\<close>

theorem link_adds_second_name:
  assumes B: "bio_laws B" and sb: "sb_ok sb" and tr: "tree_ok B sb ROOTDEV d" and root: "1 < unat (sb_ninodes sb)" "alloced B sb ROOTDEV 1 d"
    and n0: "\<not> alloced B sb ROOTDEV 0 d" and n16: "unat (sb_ninodes sb) \<le> 65536"
    and c: "cached B sb ROOTDEV {} tbl d" and room: "card (held tbl) + 3 \<le> NINODE" and cwd: "cwd_ok sb (refs tbl) cwd ci tbl"
    and count: "\<forall>i. walk B sb ROOTDEV d (start_of ci old) (path_elems old) = Some i \<longrightarrow> d_nlink (on_disk B sb ROOTDEV i d) + 1 \<noteq> 0"
    and space: "\<forall>p. walk_parent B sb ROOTDEV d (start_of ci new) (path_elems new) = Some p \<longrightarrow> 16 * length (dlist B sb ROOTDEV d p) + 16 \<le> MAXFILE * BSIZE"
  shows "\<exists>r t' d'. link_fs B sb cwd old new (tbl, d) = Some (r, t', d') \<and> tree_ok B sb ROOTDEV d' \<and> cached B sb ROOTDEV {} t' d' \<and>
     refs t' = refs tbl \<and> keeps (refs tbl) tbl t' \<and>
     (case link_goal B sb d ci old new of
        None \<Rightarrow> r = - 1 \<and> same_links B sb d d'
      | Some (i, p) \<Rightarrow> r = 0 \<and> with_link B sb (last (path_elems new)) p i d d' \<or>
          r = - 1 \<and> same_links B sb d d' \<and> (\<forall>m<unat (sb_size sb). bused B sb ROOTDEV d' m))"
proof -
  have room2: "card (held tbl) + 2 \<le> NINODE" using room by simp
  note P = namei_locks [OF B sb tr root c refl room2 cwd, of old]
  have self: "same_links B sb d d" by (simp add: same_links_def same_dirs_def)
  show ?thesis
  proof (cases "walk B sb ROOTDEV d (start_of ci old) (path_elems old)")
    case None
    then show ?thesis using P tr self by (auto simp: link_fs_def link_goal_def opened_def)
  next
    case (Some i)
    then obtain ip t1 t2 where n: "namei B sb cwd old (tbl, d) = Some (Some ip, t1, d)" "ilock B sb ip (t1, d) = Some (t2, d)"
      and kp: "keeps (refs tbl) tbl t2" and o: "opened B sb (refs tbl) (Some i) (Some ip) t2 d"
      using P keeps_trans by fastforce
    obtain l: "locked_at B sb ip i t2 d" and R: "refs tbl = (refs t2)((ROOTDEV, of_nat i) := refs t2 (ROOTDEV, of_nat i) - 1)"
      using opened_SomeD [OF o] by auto
    note f = locked_atD [OF l]
    have ty: "i_type (t2 ! ip) = d_type (on_disk B sb ROOTDEV i d)" using loaded_dir(3) [OF f(5,8)] .
    show ?thesis
    proof (cases "d_type (on_disk B sb ROOTDEV i d) = T_DIR")
      case True
      obtain t3 where "iunlockput B sb ip (t2, d) = Some (t3, d)" "cached B sb ROOTDEV {} t3 d" "refs t3 = refs tbl" "keeps (refs tbl) t2 t3"
        using iunlockput_at [OF tr l R] by (elim exE conjE) (rule that)
      then show ?thesis using n ty True tr self Some keeps_trans [OF kp] by (auto simp: link_fs_def link_goal_def)
    next
      case False
      have nl: "d_nlink (on_disk B sb ROOTDEV i d) + 1 \<noteq> 0" using count Some by blast
      have rf: "refs t2 = (refs tbl)((ROOTDEV, of_nat i) := refs tbl (ROOTDEV, of_nat i) + 1)" using o by (simp add: opened_def)
      obtain t3 d1 r t' d' where up: "iunlock_k ip (iupdate_k B sb ip (upd_ino ip (\<lambda>i. i\<lparr>i_nlink := i_nlink i + 1\<rparr>) (t2, d))) = Some (t3, d1)"
        and en: "link_enter B sb cwd new ip (t3, d1) = Some (r, t', d')"
        and post: "tree_ok B sb ROOTDEV d'" "cached B sb ROOTDEV {} t' d'" "refs t' = refs tbl" "keeps (refs tbl) tbl t'"
        and res: "case walk_parent B sb ROOTDEV d (start_of ci new) (path_elems new) of
            None \<Rightarrow> r = - 1 \<and> same_links B sb d d'
          | Some p \<Rightarrow> if dirmap B sb ROOTDEV d p (last (path_elems new)) \<noteq> None then r = - 1 \<and> same_links B sb d d'
              else r = 0 \<and> with_link B sb (last (path_elems new)) p i d d' \<or> r = - 1 \<and> same_links B sb d d' \<and> (\<forall>m<unat (sb_size sb). bused B sb ROOTDEV d' m)"
        using link_file [OF B sb tr root n0 n16 c room cwd l rf kp nl space] by (elim exE conjE) (rule that)
      have "link_fs B sb cwd old new (tbl, d) = Some (r, t', d')" using n ty False up en by (simp add: link_fs_def)
      then show ?thesis using post res Some False by (auto simp: link_goal_def split: option.splits)
    qed
  qed
qed


text \<open>The tree with a symbolic link, and the new name \<^verbatim>\<open>b\<close> in its root.\<close>

lemma link_inodes:
  "1 < unat (sb_ninodes demo_sb)" "alloced demo_bio demo_sb ROOTDEV 1 link_disk" "\<not> alloced demo_bio demo_sb ROOTDEV 0 link_disk"
  "unat (sb_ninodes demo_sb) \<le> 65536"
  by (simp_all add: demo_ninodes link_alloced ROOTDEV_def)

lemma link_room: "card (held root_tbl) + 3 \<le> NINODE"
  by (simp add: root_held1 NINODE_def)

lemma b_elems: "path_elems [98] = [[98]]"
  by (simp add: path_elems_def cname_def DIRSIZ_def)

lemma b_parent: "walk_parent demo_bio demo_sb ROOTDEV link_disk (start_of 1 [98]) (path_elems [98]) = Some 1"
  by (simp add: b_elems walk_parent_def start_of_def ROOTDEV_def link_on_disk dinode_of_def root_ino_def T_DIR_def)

lemma l_elems: "path_elems [47, 108] = [[108]]"
  by (simp add: path_elems_def cname_def DIRSIZ_def)

lemma l_parent: "walk_parent demo_bio demo_sb ROOTDEV link_disk (start_of 1 [47, 108]) (path_elems [47, 108]) = Some 1"
  by (simp add: l_elems walk_parent_def start_of_def ROOTDEV_def link_on_disk dinode_of_def root_ino_def T_DIR_def)

lemma link_dirmap: "dirmap demo_bio demo_sb ROOTDEV link_disk 1 [98] = None" "dirmap demo_bio demo_sb ROOTDEV link_disk 1 [108] = Some 2"
  by (simp_all add: dirmap_def ROOTDEV_def link_dirents dmap_def cname_def DIRSIZ_def flip: dir_at_def)

lemma link_space: "16 * length (dlist demo_bio demo_sb ROOTDEV link_disk 1) + 16 \<le> MAXFILE * BSIZE"
  by (simp add: ROOTDEV_def link_dirents MAXFILE_bytes flip: dir_at_def)

text \<open>Inode 2 gets it as a second name.\<close>

theorem link_adds_second_name_witness:
  "\<exists>r t' d'. link_fs demo_bio demo_sb 0 [47, 108] [98] (root_tbl, link_disk) = Some (r, t', d') \<and> tree_ok demo_bio demo_sb ROOTDEV d' \<and>
     refs t' = refs root_tbl \<and> (r = - 1 \<or> dirmap demo_bio demo_sb ROOTDEV d' 1 = (dirmap demo_bio demo_sb ROOTDEV link_disk 1)([98] \<mapsto> 2))"
proof -
  have goal: "link_goal demo_bio demo_sb link_disk 1 [47, 108] [98] = Some (2, 1)"
    using link_walk b_parent link_dirmap(1) by (simp add: link_goal_def b_elems ROOTDEV_def link_on_disk dinode_of_def link_ino_def T_DIR_def)
  have count: "\<forall>i. walk demo_bio demo_sb ROOTDEV link_disk (start_of 1 [47, 108]) (path_elems [47, 108]) = Some i \<longrightarrow>
      d_nlink (on_disk demo_bio demo_sb ROOTDEV i link_disk) + 1 \<noteq> 0"
    using link_walk by (simp add: ROOTDEV_def link_on_disk dinode_of_def link_ino_def root_ino_def)
  have space: "\<forall>p. walk_parent demo_bio demo_sb ROOTDEV link_disk (start_of 1 [98]) (path_elems [98]) = Some p \<longrightarrow>
      16 * length (dlist demo_bio demo_sb ROOTDEV link_disk p) + 16 \<le> MAXFILE * BSIZE"
    using b_parent link_space by simp
  show ?thesis
    using link_adds_second_name [OF demo_bio_laws demo_sb_ok link_tree link_inodes link_cached link_room link_cwd count space] goal
    by (auto simp: with_link_def b_elems)
qed

end
