(* ===== verification/SysSymlink.thy ===== *)
theory SysSymlink
  imports SysLink
begin

text \<open>
  \<^verbatim>\<open>symlink\<close> of Lab 5, Task 5.2 (\<^verbatim>\<open>kernel/sysfile.c\<close>). A file is the list of its bytes; the call stores the target, with its
  terminator, at the start of what \<^verbatim>\<open>create\<close> returns. For a new name that is a new link; for a name that is there it is
  whatever has the name, and its first bytes are overwritten.
\<close>

subsection \<open>The bytes of a file\<close>

definition file_bytes :: "'d bio \<Rightarrow> superblock \<Rightarrow> 'd \<Rightarrow> nat \<Rightarrow> u8 list" where
  "file_bytes B sb d i = map (fbyte B (inode_at B sb ROOTDEV i d) d) [0..<unat (d_size (on_disk B sb ROOTDEV i d))]"

lemma length_file_bytes [simp]: "length (file_bytes B sb d i) = unat (d_size (on_disk B sb ROOTDEV i d))"
  by (simp add: file_bytes_def)

lemma file_bytes_empty: "d_size (on_disk B sb ROOTDEV i d) = 0 \<Longrightarrow> file_bytes B sb d i = []"
  by (simp add: file_bytes_def)

text \<open>Writing at the start of a locked file that is not a directory.\<close>

lemma write_start:
  assumes B: "bio_laws B" and sb: "sb_ok sb" and tr: "tree_ok B sb ROOTDEV d" and l: "locked_at B sb k i t d"
    and ty: "d_type (on_disk B sb ROOTDEV i d) \<noteq> T_DIR" and bs: "bs \<noteq> []" "length bs \<le> BSIZE"
    and sz: "unat (d_size (on_disk B sb ROOTDEV i d)) \<le> MAXFILE * BSIZE"
  shows "\<exists>r t' d'. writei_k B sb k bs 0 (t, d) = Some (r, t', d') \<and> tree_ok B sb ROOTDEV d' \<and> locked_at B sb k i t' d' \<and>
     refs t' = refs t \<and> (\<forall>R. keeps R t t') \<and> others_same B sb {i} d d' \<and>
     d_type (on_disk B sb ROOTDEV i d') = d_type (on_disk B sb ROOTDEV i d) \<and> d_nlink (on_disk B sb ROOTDEV i d') = d_nlink (on_disk B sb ROOTDEV i d) \<and>
     (if r = int (length bs) then file_bytes B sb d' i = bs @ drop (length bs) (file_bytes B sb d i)
      else on_disk B sb ROOTDEV i d' = on_disk B sb ROOTDEV i d \<and> (\<forall>m<unat (sb_size sb). bused B sb ROOTDEV d m \<and> bused B sb ROOTDEV d' m))"
proof -
  note f = locked_atD [OF l] and inv = cachedD(1) [OF locked_atD(1) [OF l]]
  note e = locked_entry [OF f(1,2) singletonI f(10,4,3)]
  have len: "length t = NINODE" using itab_invD(1) [OF inv] .
  let ?ip = "t ! k" and ?n = "of_nat (length bs) :: u32" and ?mem = "(store (\<lambda>_. 0) 0 bs, ())"
  have n: "unat ?n = length bs" using bs(2) by (intro unat_of_nat32) simp
  have fs: "fs_wf B sb (i_dev ?ip) d" using tree_okD(1) [OF tr] e(2) by simp
  have rng: "unat (0 :: u32) + unat ?n \<le> MAXFILE * BSIZE" using n bs(2) by (simp add: MAXFILE_bytes)
  note src = src_ok_kernel [of kernel_vm ?mem 0]
  obtain tot ip' d' where w: "writei B sb kernel_vm ?ip False 0 0 ?n ?mem d = Some (int tot, ip', d')" and fs': "fs_wf B sb ROOTDEV d'"
    and od_i: "on_disk B sb ROOTDEV i d' = dinode_of ip'" and z: "unat (i_size ip') = max (unat (i_size ?ip)) tot"
    and fb: "\<forall>p<MAXFILE * BSIZE. fbyte B ip' d' p = (if p < tot then fst ?mem (0 + of_nat p) else fbyte B ?ip d p)"
    and full: "tot < length bs \<longrightarrow> (\<forall>m<unat (sb_size sb). bused B sb ROOTDEV d' m)" and tot: "tot \<le> length bs"
    using writei_spec [OF B sb fs f(6) _ rng src] n e(1,2) by auto
  obtain ip1 d1 s where fr: "file_frame B sb ?ip d ip1 d1" and ip': "ip' = ip1\<lparr>i_size := s\<rparr>" and d': "d' = iupdate B sb ip' d1"
    using writei_frame [OF B sb fs f(6) _ rng src w] by (metis word_zero_le)
  note cf = commit_frame [OF B sb fs f(6) fr ip', folded d', unfolded e(1,2)]
  obtain as where "ip1 = ?ip\<lparr>i_addrs := as\<rparr>" using file_frameD(3) [OF fr] by (auto simp: same_meta_def)
  then have shape: "ip' = ?ip\<lparr>i_size := s, i_addrs := as\<rparr>" using ip' by simp
  have meta: "i_type ip' = d_type (on_disk B sb ROOTDEV i d)" "i_nlink ip' = d_nlink (on_disk B sb ROOTDEV i d)" "i_dev ip' = ROOTDEV"
    using shape e(2,5,8) by simp_all
  have ne: "i_type ip' \<noteq> 0" "i_nlink ip' \<noteq> 0" using meta f(9) tree_okD(2) [OF tr f(3,9)] by (simp_all add: alloced_def)
  have nd: "i_type ip' \<noteq> T_DIR" using meta(1) ty by simp
  note step = tree_ok_step [OF tr fs' cf(5) cf(6) cf(7) od_i [symmetric] meta(3) ne _ f(9), simplified nd, simplified]
  have tr': "tree_ok B sb ROOTDEV d'" by (rule step(1))
  have odj: "\<forall>m<unat (sb_ninodes sb). m \<noteq> i \<longrightarrow> on_disk B sb ROOTDEV m d' = on_disk B sb ROOTDEV m d" using cf(5) by blast
  have alj: "\<forall>m<unat (sb_ninodes sb). alloced B sb ROOTDEV m d' \<longleftrightarrow> alloced B sb ROOTDEV m d" using step(3) by blast
  note cw = cached_write [OF f(1,2) singletonI, of ip' d', unfolded e(1)]
  have lkd: "i_locked ?ip" using cachedD(2) [OF f(1,2)] by simp
  have c': "cached B sb ROOTDEV {k} (t[k := ip']) d'" and rf: "refs (t[k := ip']) = refs t"
    using cw od_i odj alj shape lkd by simp_all
  have l': "locked_at B sb k i (t[k := ip']) d'"
    using f(2,3,4,10) len shape by (intro locked_atI [OF c']) (simp_all add: ikey_def)
  have kp: "\<forall>R. keeps R t (t[k := ip'])" using len shape by (auto intro!: keeps_same simp: nth_list_update_if ikey_def)
  have os: "others_same B sb {i} d d'"
    using odj step(2) by (auto simp: others_same_def dirmap_def alloced_def T_DIR_def)
  have r: "tot = length bs \<or> tot = 0" using writei_one_block [OF w] bs n by auto
  have "if int tot = int (length bs) then file_bytes B sb d' i = bs @ drop (length bs) (file_bytes B sb d i)
      else on_disk B sb ROOTDEV i d' = on_disk B sb ROOTDEV i d \<and> (\<forall>m<unat (sb_size sb). bused B sb ROOTDEV d m \<and> bused B sb ROOTDEV d' m)"
  proof (cases "tot = length bs")
    case True
    have "d_size (on_disk B sb ROOTDEV i d') = i_size ip'" using od_i by (simp add: dinode_of_def)
    then have sz': "unat (d_size (on_disk B sb ROOTDEV i d')) = max (unat (d_size (on_disk B sb ROOTDEV i d))) (length bs)" using z e(7) True by simp
    have "fbyte B (inode_at B sb ROOTDEV i d') d' p = (bs @ drop (length bs) (file_bytes B sb d i)) ! p"
      if p: "p < max (unat (d_size (on_disk B sb ROOTDEV i d))) (length bs)" for p
    proof -
      have "fbyte B (inode_at B sb ROOTDEV i d') d' p = fbyte B ip' d' p"
        using loaded_dir(5) [OF od_i [symmetric] meta(3)] meta(3) by (intro fbyte_cong) simp_all
      moreover have "fbyte B ?ip d p = fbyte B (inode_at B sb ROOTDEV i d) d p"
        using loaded_dir(5) [OF e(3,2)] e(2) by (intro fbyte_cong) simp_all
      moreover have "p < MAXFILE * BSIZE" using p sz rng n by auto
      ultimately show ?thesis
        using fb p True bs(2) by (auto simp: nth_append store_at file_bytes_def)
    qed
    then show ?thesis
      using True sz' by (intro if_P [THEN iffD2]) (auto intro!: nth_equalityI simp: file_bytes_def [of B sb d'])
  next
    case False
    then have "int tot \<noteq> int (unat ?n)" "tot < length bs" using n tot by simp_all
    moreover have "?n \<noteq> 0" using n bs(1) by auto
    ultimately show ?thesis
      using writei_fails [OF B sb fs w] n bs(2) od_i full e(2,3) False by auto
  qed
  moreover have "writei_k B sb k bs 0 (t, d) = Some (int tot, t[k := ip'], d')" using w by (simp add: writei_k_def)
  ultimately show ?thesis
    using tr' l' rf kp os meta od_i
    by (intro exI [of _ "int tot"] exI [of _ "t[k := ip']"] exI [of _ d']) (simp add: dinode_of_def)
qed

subsection \<open>Giving up a locked inode with another link count\<close>

lemma release_nlink:
  assumes B: "bio_laws B" and sb: "sb_ok sb" and tr: "tree_ok B sb ROOTDEV d" and l: "locked_at B sb k i t d"
    and q: "q = (t ! k)\<lparr>i_nlink := n\<rparr>" and R: "R = (refs t)((ROOTDEV, of_nat i) := refs t (ROOTDEV, of_nat i) - 1)"
  shows "\<exists>t' d'. iunlockput B sb k (t[k := q], iupdate B sb q d) = Some (t', d') \<and> cached B sb ROOTDEV {} t' d' \<and> refs t' = R \<and>
     keeps R t t' \<and> others_same B sb {i} d d' \<and>
     (if n = 0 \<and> R (ROOTDEV, of_nat i) = 0
      then \<not> alloced B sb ROOTDEV i d' \<and> (unnamed B sb ROOTDEV d i \<longrightarrow> tree_ok B sb ROOTDEV d') \<and>
        (d_addrs (on_disk B sb ROOTDEV i d) = replicate (NDIRECT + 2) 0 \<longrightarrow>
           (\<forall>m<unat (sb_size sb). bused B sb ROOTDEV d' m = bused B sb ROOTDEV d m))
      else on_disk B sb ROOTDEV i d' = (on_disk B sb ROOTDEV i d)\<lparr>d_nlink := n\<rparr> \<and> (n \<noteq> 0 \<longrightarrow> tree_ok B sb ROOTDEV d') \<and>
        (d_type (on_disk B sb ROOTDEV i d) = T_DIR \<longrightarrow> dirmap B sb ROOTDEV d' i = dirmap B sb ROOTDEV d i))"
proof -
  note f = locked_atD [OF l] and inv = cachedD(1) [OF locked_atD(1) [OF l]]
  note e = locked_entry [OF f(1,2) singletonI f(10,4,3)]
  have len: "length t = NINODE" using itab_invD(1) [OF inv] .
  have ref: "refs t (ROOTDEV, of_nat i) = i_ref (t ! k)" using refs_entry [OF inv f(2,7)] f(4) by simp
  show ?thesis
  proof (cases "n = 0 \<and> R (ROOTDEV, of_nat i) = 0")
    case True
    then have one: "i_ref (t ! k) = 1" and q0: "q = (t ! k)\<lparr>i_nlink := 0\<rparr>" using R ref q by simp_all
    obtain t' d' where u: "iunlockput B sb k (t[k := q], iupdate B sb q d) = Some (t', d')" "cached B sb ROOTDEV ({k} - {k}) t' d'"
      and na: "\<not> alloced B sb ROOTDEV i d'" and rf: "refs t' = (refs t)((ROOTDEV, of_nat i) := 0)"
      and t: "\<forall>j. j \<noteq> k \<longrightarrow> t' ! j = t ! j"
      and od: "\<forall>j<unat (sb_ninodes sb). j \<noteq> i \<longrightarrow> on_disk B sb ROOTDEV j d' = on_disk B sb ROOTDEV j d"
      and br: "\<forall>b. data_block sb b \<longrightarrow> bread B ROOTDEV b d' = bread B ROOTDEV b d"
      and bu: "d_addrs (on_disk B sb ROOTDEV i d) = replicate (NDIRECT + 2) 0 \<longrightarrow> (\<forall>n<unat (sb_size sb). bused B sb ROOTDEV d' n = bused B sb ROOTDEV d n)"
      using free_inode [OF B sb tr f(1,2) singletonI one f(10,4,3) q0] by (elim exE conjE) (rule that)
    have "others_same B sb {i} d d'" using dirs_keep(1) [OF tr, of i d'] od br by (simp add: others_same_def dirmap_def)
    moreover have "unnamed B sb ROOTDEV d i \<longrightarrow> tree_ok B sb ROOTDEV d'"
      using drop_inode [OF B sb tr f(1,2) singletonI one f(10,4,3) _ q0] u(1) by auto
    moreover have rR: "refs t' = R" using rf R ref one by simp
    moreover have "keeps R t t'"
      unfolding keeps_def using t True f(4) by (metis less_irrefl)
    ultimately show ?thesis using u na bu True by (intro exI [of _ t'] exI [of _ d']) simp
  next
    case False
    define d1 where "d1 = iupdate B sb q d"
    note w = write_nlink [OF B sb tr f(1,2) singletonI f(10) e(1) q d1_def]
    have qk: "t[k := q] ! k = q" using f(2) len by simp
    have st: "i_nlink q = 0 \<longrightarrow> 1 < i_ref q" using False R ref f(7) by (auto simp: q)
    obtain t' where u: "iunlockput B sb k (t[k := q], d1) = Some (t', d1)" "cached B sb ROOTDEV ({k} - {k}) t' d1"
      and rf: "refs t' = (refs (t[k := q]))(ikey q := refs (t[k := q]) (ikey q) - 1)"
      and t: "\<forall>j. j \<noteq> k \<longrightarrow> t' ! j = t[k := q] ! j" "t' ! k = q\<lparr>i_locked := False, i_ref := i_ref q - 1\<rparr>"
      using iunlockput_stays [OF w(1) f(2) singletonI, unfolded qk] st by metis
    have kq: "ikey q = (ROOTDEV, of_nat i)" using f(4) q by (simp add: ikey_def)
    have "refs t' = R" using rf w(2) R kq by simp
    moreover have "keeps R t t'"
      by (rule keeps_release [OF inv f(2,7)]) (use t q kq R f(4) in \<open>simp_all add: ikey_def\<close>)
    moreover have "others_same B sb {i} d d1" using w(3,4) by (simp add: others_same_def dirmap_def)
    moreover have "d_type (on_disk B sb ROOTDEV i d) = T_DIR \<longrightarrow> dirmap B sb ROOTDEV d1 i = dirmap B sb ROOTDEV d i"
      using w(3) f(3) by (simp add: dirmap_def)
    ultimately show ?thesis
      using u w(4) [OF f(3)] w(7) False by (intro exI [of _ t'] exI [of _ d1]) (auto simp: d1_def)
  qed
qed

subsection \<open>Storing the target\<close>

text \<open>
  What has become of inode \<open>i\<close>, whose references are \<open>R\<close> afterwards: its first bytes are the target and its terminator, the
  others and its type are as before; or there was no free block, and its link count is 0, so that it is freed unless
  somebody else refers to it.
\<close>

definition target_stored :: "'d bio \<Rightarrow> superblock \<Rightarrow> u8 list \<Rightarrow> nat \<Rightarrow> (u32 \<times> u32 \<Rightarrow> int) \<Rightarrow> 'd \<Rightarrow> int \<Rightarrow> 'd \<Rightarrow> bool" where
  "target_stored B sb target i R d r d' \<longleftrightarrow> others_same B sb {i} d d' \<and>
     (if r = 0 then tree_ok B sb ROOTDEV d' \<and> d_type (on_disk B sb ROOTDEV i d') = d_type (on_disk B sb ROOTDEV i d) \<and>
        d_nlink (on_disk B sb ROOTDEV i d') = d_nlink (on_disk B sb ROOTDEV i d) \<and>
        file_bytes B sb d' i = target @ [0] @ drop (length target + 1) (file_bytes B sb d i)
      else r = - 1 \<and> (\<forall>m<unat (sb_size sb). bused B sb ROOTDEV d m) \<and>
        (if R (ROOTDEV, of_nat i) = 0 then \<not> alloced B sb ROOTDEV i d' else d_nlink (on_disk B sb ROOTDEV i d') = 0))"

lemma others_same_trans:
  "others_same B sb X d d1 \<Longrightarrow> others_same B sb Y d1 d2 \<Longrightarrow> others_same B sb (X \<union> Y) d d2"
  by (simp add: others_same_def)

lemma symlink_write_spec:
  assumes B: "bio_laws B" and sb: "sb_ok sb" and tr: "tree_ok B sb ROOTDEV d" and l: "locked_at B sb k i t d"
    and ty: "d_type (on_disk B sb ROOTDEV i d) \<noteq> T_DIR" and len: "length target < MAXPATH"
    and sz: "unat (d_size (on_disk B sb ROOTDEV i d)) \<le> MAXFILE * BSIZE"
    and R: "R = (refs t)((ROOTDEV, of_nat i) := refs t (ROOTDEV, of_nat i) - 1)"
  shows "\<exists>r t' d'. symlink_write B sb target k (t, d) = Some (r, t', d') \<and> cached B sb ROOTDEV {} t' d' \<and> refs t' = R \<and> keeps R t t' \<and>
     target_stored B sb target i R d r d' \<and>
     (r \<noteq> 0 \<and> d_addrs (on_disk B sb ROOTDEV i d) = replicate (NDIRECT + 2) 0 \<and> R (ROOTDEV, of_nat i) = 0 \<longrightarrow>
        (\<forall>m<unat (sb_size sb). bused B sb ROOTDEV d' m))"
proof -
  have bs: "target @ [0] \<noteq> []" "length (target @ [0]) \<le> BSIZE" using len by (simp_all add: MAXPATH_def)
  obtain n t1 d1 where w: "writei_k B sb k (target @ [0]) 0 (t, d) = Some (n, t1, d1)" and tr1: "tree_ok B sb ROOTDEV d1" and l1: "locked_at B sb k i t1 d1"
    and rf: "refs t1 = refs t" and kp: "\<forall>R. keeps R t t1" and os: "others_same B sb {i} d d1"
    and ty1: "d_type (on_disk B sb ROOTDEV i d1) = d_type (on_disk B sb ROOTDEV i d)" and nl1: "d_nlink (on_disk B sb ROOTDEV i d1) = d_nlink (on_disk B sb ROOTDEV i d)"
    and res: "if n = int (length (target @ [0])) then file_bytes B sb d1 i = (target @ [0]) @ drop (length (target @ [0])) (file_bytes B sb d i)
      else on_disk B sb ROOTDEV i d1 = on_disk B sb ROOTDEV i d \<and> (\<forall>m<unat (sb_size sb). bused B sb ROOTDEV d m \<and> bused B sb ROOTDEV d1 m)"
    using write_start [OF B sb tr l ty bs sz] by (elim exE conjE) (rule that)
  have R1: "R = (refs t1)((ROOTDEV, of_nat i) := refs t1 (ROOTDEV, of_nat i) - 1)" unfolding rf by (rule R)
  show ?thesis
  proof (cases "n = int (length target) + 1")
    case True
    obtain t2 where u: "iunlockput B sb k (t1, d1) = Some (t2, d1)" "cached B sb ROOTDEV {} t2 d1" "refs t2 = R" "keeps R t1 t2"
      using iunlockput_at [OF tr1 l1 R1] by (elim exE conjE) (rule that)
    have "keeps R t t2" using kp u(4) keeps_trans by blast
    moreover have "target_stored B sb target i R d 0 d1" using os tr1 ty1 nl1 res True by (simp add: target_stored_def)
    ultimately show ?thesis using w True u by (intro exI [of _ 0] exI [of _ t2] exI [of _ d1]) (simp add: symlink_write_def)
  next
    case False
    then have full: "on_disk B sb ROOTDEV i d1 = on_disk B sb ROOTDEV i d" "\<forall>m<unat (sb_size sb). bused B sb ROOTDEV d m \<and> bused B sb ROOTDEV d1 m"
      using res by simp_all
    define q where "q = (t1 ! k)\<lparr>i_nlink := 0\<rparr>"
    have lt: "k < length t1" using locked_atD(2) [OF l1] itab_invD(1) [OF cachedD(1) [OF locked_atD(1) [OF l1]]] by simp
    obtain t2 d2 where u: "iunlockput B sb k (t1[k := q], iupdate B sb q d1) = Some (t2, d2)" "cached B sb ROOTDEV {} t2 d2" "refs t2 = R" "keeps R t1 t2"
      and os2: "others_same B sb {i} d1 d2"
      and fin: "if (0 :: u16) = 0 \<and> R (ROOTDEV, of_nat i) = 0
        then \<not> alloced B sb ROOTDEV i d2 \<and> (unnamed B sb ROOTDEV d1 i \<longrightarrow> tree_ok B sb ROOTDEV d2) \<and>
          (d_addrs (on_disk B sb ROOTDEV i d1) = replicate (NDIRECT + 2) 0 \<longrightarrow> (\<forall>m<unat (sb_size sb). bused B sb ROOTDEV d2 m = bused B sb ROOTDEV d1 m))
        else on_disk B sb ROOTDEV i d2 = (on_disk B sb ROOTDEV i d1)\<lparr>d_nlink := 0\<rparr> \<and> ((0 :: u16) \<noteq> 0 \<longrightarrow> tree_ok B sb ROOTDEV d2) \<and>
          (d_type (on_disk B sb ROOTDEV i d1) = T_DIR \<longrightarrow> dirmap B sb ROOTDEV d2 i = dirmap B sb ROOTDEV d1 i)"
      using release_nlink [OF B sb tr1 l1 q_def R1] by (elim exE conjE) (rule that)
    have "keeps R t t2" using kp u(4) keeps_trans by blast
    moreover have "target_stored B sb target i R d (- 1) d2"
      using others_same_trans [OF os os2] full fin by (simp add: target_stored_def split: if_splits)
    moreover have "symlink_write B sb target k (t, d) = Some (- 1, t2, d2)"
      using w False u(1) lt by (simp add: symlink_write_def upd_ino_def iupdate_k_def q_def)
    ultimately show ?thesis using u(2,3) full fin by (intro exI [of _ "- 1"] exI [of _ t2] exI [of _ d2]) simp
  qed
qed

subsection \<open>\<^verbatim>\<open>symlink\<close>\<close>

text \<open>
  The new link \<open>i\<close> under the name \<open>x\<close> of directory \<open>p\<close>. On a full disk the name stays although the inode is freed.
\<close>

definition link_made :: "'d bio \<Rightarrow> superblock \<Rightarrow> u8 list \<Rightarrow> u8 list \<Rightarrow> nat \<Rightarrow> nat \<Rightarrow> 'd \<Rightarrow> int \<Rightarrow> 'd \<Rightarrow> bool" where
  "link_made B sb target x p i d r d' \<longleftrightarrow> 1 \<le> i \<and> \<not> alloced B sb ROOTDEV i d \<and> others_same B sb {i, p} d d' \<and>
     dirmap B sb ROOTDEV d' p = (dirmap B sb ROOTDEV d p)(x \<mapsto> of_nat i) \<and>
     (if r = 0 then tree_ok B sb ROOTDEV d' \<and> d_type (on_disk B sb ROOTDEV i d') = T_SYMLINK \<and> d_nlink (on_disk B sb ROOTDEV i d') = 1 \<and>
        file_bytes B sb d' i = target @ [0]
      else r = - 1 \<and> \<not> alloced B sb ROOTDEV i d' \<and> (\<forall>m<unat (sb_size sb). bused B sb ROOTDEV d' m))"

lemma symlink_fresh:
  assumes B: "bio_laws B" and sb: "sb_ok sb" and tr1: "tree_ok B sb ROOTDEV d1" and p: "p < unat (sb_ninodes sb)"
    and len: "length target < MAXPATH" and c: "cached B sb ROOTDEV {} tbl d" and mk: "made B sb T_SYMLINK 0 0 x p (refs tbl) d (Some k) t1 d1"
  shows "\<exists>r t' d' i. symlink_write B sb target k (t1, d1) = Some (r, t', d') \<and> cached B sb ROOTDEV {} t' d' \<and> refs t' = refs tbl \<and>
     keeps (refs tbl) t1 t' \<and> link_made B sb target x p i d r d'"
proof -
  have nd: "T_SYMLINK \<noteq> T_DIR" by (simp add: T_SYMLINK_def T_DIR_def)
  obtain i where i: "1 \<le> i" "\<not> alloced B sb ROOTDEV i d" and en: "entered B sb T_SYMLINK x p k i d t1 d1" and os: "others_same B sb {i, p} d d1"
    and rf: "refs t1 = (refs tbl)((ROOTDEV, of_nat i) := 1)" and di: "on_disk B sb ROOTDEV i d1 = new_dinode T_SYMLINK 0 0"
    using mk nd by (auto simp: made_def)
  have l: "locked_at B sb k i t1 d1" and pd: "d_type (on_disk B sb ROOTDEV p d1) = T_DIR"
    and dm: "dirmap B sb ROOTDEV d1 p = (dirmap B sb ROOTDEV d p)(x \<mapsto> of_nat i)" using en by (auto simp: entered_def)
  have ip: "p \<noteq> i" using pd di nd by auto
  have "i < 2 ^ 32" using locked_atD(3) [OF l] unsigned_less [of "sb_ninodes sb", where ?'a = nat] by simp
  then have r0: "refs tbl (ROOTDEV, of_nat i) = 0" using not_held [OF c i(2)] by simp
  have R: "refs tbl = (refs t1)((ROOTDEV, of_nat i) := refs t1 (ROOTDEV, of_nat i) - 1)" unfolding rf using r0 by (simp add: fun_eq_iff)
  obtain r t' d' where w: "symlink_write B sb target k (t1, d1) = Some (r, t', d')" "cached B sb ROOTDEV {} t' d'" "refs t' = refs tbl"
      "keeps (refs tbl) t1 t'" and st: "target_stored B sb target i (refs tbl) d1 r d'"
    and full: "r \<noteq> 0 \<and> d_addrs (on_disk B sb ROOTDEV i d1) = replicate (NDIRECT + 2) 0 \<and> refs tbl (ROOTDEV, of_nat i) = 0 \<longrightarrow>
        (\<forall>m<unat (sb_size sb). bused B sb ROOTDEV d' m)"
    using symlink_write_spec [OF B sb tr1 l _ len _ R] di nd by auto
  have os1: "others_same B sb {i} d1 d'" using st by (simp add: target_stored_def)
  then have "dirmap B sb ROOTDEV d' p = dirmap B sb ROOTDEV d1 p" using p ip pd by (simp add: others_same_def)
  moreover have "others_same B sb {i, p} d d'" using others_same_trans [OF os os1] by (simp add: insert_commute)
  ultimately have "link_made B sb target x p i d r d'"
    using i dm st full di r0 file_bytes_empty [of B sb i d1] by (auto simp: link_made_def target_stored_def split: if_splits)
  then show ?thesis using w by blast
qed

text \<open>
  Property C33. \<^verbatim>\<open>symlink\<close> of a name that is not there, on a well-formed tree: without a parent directory it returns -1 and
  the disk is as it was. Otherwise it either makes a symbolic link, one free inode with one link, whose bytes are exactly
  the target and its terminator, under exactly that name, and returns 0 with the tree well formed; or it returns -1,
  and then there was no free inode or no free block, and either the tree is as before, or the name has been
  entered and the inode it names has been freed again: the entry dangles. All other directories and inodes and every
  reference count are as before in each case, and the call neither panics nor blocks.\<close>

theorem symlink_makes_link:
  assumes B: "bio_laws B" and sb: "sb_ok sb" and tr: "tree_ok B sb ROOTDEV d" and root: "1 < unat (sb_ninodes sb)" "alloced B sb ROOTDEV 1 d"
    and n0: "\<not> alloced B sb ROOTDEV 0 d" and n16: "unat (sb_ninodes sb) \<le> 65536"
    and c: "cached B sb ROOTDEV {} tbl d" and room: "card (held tbl) + 3 \<le> NINODE" and cwd: "cwd_ok sb (refs tbl) cwd ci tbl"
    and space: "\<forall>p. walk_parent B sb ROOTDEV d (start_of ci path) (path_elems path) = Some p \<longrightarrow>
      16 * length (dlist B sb ROOTDEV d p) + 16 \<le> MAXFILE * BSIZE \<and> dirmap B sb ROOTDEV d p (last (path_elems path)) = None"
    and len: "length target < MAXPATH"
  shows "\<exists>r t' d'. symlink_fs B sb cwd target path (tbl, d) = Some (r, t', d') \<and> cached B sb ROOTDEV {} t' d' \<and> refs t' = refs tbl \<and>
    keeps (refs tbl) tbl t' \<and>
    (case walk_parent B sb ROOTDEV d (start_of ci path) (path_elems path) of
       None \<Rightarrow> r = - 1 \<and> d' = d
     | Some p \<Rightarrow> r = - 1 \<and> tree_ok B sb ROOTDEV d' \<and> made B sb T_SYMLINK 0 0 (last (path_elems path)) p (refs tbl) d None t' d' \<or>
         (\<exists>i. link_made B sb target (last (path_elems path)) p i d r d'))"
proof -
  have ty: "T_SYMLINK \<noteq> 0" and nd: "T_SYMLINK \<noteq> T_DIR" by (simp_all add: T_SYMLINK_def T_DIR_def)
  have sp: "\<forall>p. walk_parent B sb ROOTDEV d (start_of ci path) (path_elems path) = Some p \<longrightarrow>
      16 * length (dlist B sb ROOTDEV d p) + 16 \<le> MAXFILE * BSIZE \<and> (T_SYMLINK = T_DIR \<longrightarrow> d_nlink (on_disk B sb ROOTDEV p d) + 1 \<noteq> 0)"
    using space nd by blast
  obtain r t1 d1 where cr: "create B sb cwd path T_SYMLINK 0 0 (tbl, d) = Some (r, t1, d1)" "tree_ok B sb ROOTDEV d1" and kp: "keeps (refs tbl) tbl t1"
    and res: "case walk_parent B sb ROOTDEV d (start_of ci path) (path_elems path) of
       None \<Rightarrow> d1 = d \<and> opened B sb (refs tbl) None r t1 d
     | Some p \<Rightarrow>
         (case dirmap B sb ROOTDEV d p (last (path_elems path)) of
            Some j \<Rightarrow> d1 = d \<and> opened B sb (refs tbl) (reuse B sb d T_SYMLINK (unat j)) r t1 d
          | None \<Rightarrow> made B sb T_SYMLINK 0 0 (last (path_elems path)) p (refs tbl) d r t1 d1)"
    using create_spec [OF B sb tr root n0 n16 c room cwd ty sp, of 0 0] by (elim exE conjE) (rule that)
  show ?thesis
  proof (cases "walk_parent B sb ROOTDEV d (start_of ci path) (path_elems path)")
    case None
    then show ?thesis using cr kp res by (auto simp: symlink_fs_def opened_def)
  next
    case (Some p)
    then have mk: "made B sb T_SYMLINK 0 0 (last (path_elems path)) p (refs tbl) d r t1 d1" using res space by simp
    show ?thesis
    proof (cases r)
      case none: None
      then show ?thesis using cr kp mk Some by (auto simp: symlink_fs_def made_def)
    next
      case k: (Some k)
      obtain s t' d' i where "symlink_write B sb target k (t1, d1) = Some (s, t', d')" "cached B sb ROOTDEV {} t' d'" "refs t' = refs tbl"
          "keeps (refs tbl) t1 t'" "link_made B sb target (last (path_elems path)) p i d s d'"
        using symlink_fresh [OF B sb cr(2) walk_parent_range(1) [OF tr root c cwd Some] len c mk [unfolded k]] by blast
      then show ?thesis using cr(1) k Some keeps_trans [OF kp] by (auto simp: symlink_fs_def)
    qed
  qed
qed


text \<open>The link \<^verbatim>\<open>b\<close> to \<^verbatim>\<open>/t\<close> in the root of the tree with a symbolic link.\<close>

theorem symlink_makes_link_witness:
  "\<exists>r t' d'. symlink_fs demo_bio demo_sb 0 [47, 116] [98] (root_tbl, link_disk) = Some (r, t', d') \<and> refs t' = refs root_tbl \<and>
     (r = - 1 \<or> (\<exists>i. dirmap demo_bio demo_sb ROOTDEV d' 1 = (dirmap demo_bio demo_sb ROOTDEV link_disk 1)([98] \<mapsto> of_nat i) \<and>
        file_bytes demo_bio demo_sb d' i = [47, 116, 0]))"
proof -
  have space: "\<forall>p. walk_parent demo_bio demo_sb ROOTDEV link_disk (start_of 1 [98]) (path_elems [98]) = Some p \<longrightarrow>
      16 * length (dlist demo_bio demo_sb ROOTDEV link_disk p) + 16 \<le> MAXFILE * BSIZE \<and>
      dirmap demo_bio demo_sb ROOTDEV link_disk p (last (path_elems [98])) = None"
    using b_parent link_space link_dirmap(1) by (simp add: b_elems)
  have len: "length [47, 116 :: u8] < MAXPATH" by (simp add: MAXPATH_def)
  show ?thesis
    using symlink_makes_link [OF demo_bio_laws demo_sb_ok link_tree link_inodes link_cached link_room link_cwd space len] b_parent
    by (auto simp: link_made_def b_elems split: if_splits)
qed


end
