(* ===== verification/SysUnlink.thy ===== *)
theory SysUnlink
  imports SysSymlink
begin

text \<open>
  \<^verbatim>\<open>unlink\<close> of Lab 5, Task 5.2 (\<^verbatim>\<open>kernel/sysfile.c\<close>): the name disappears from its directory, the link count of the file goes
  down by one, and with the last name and the last reference the file itself goes away. A directory that holds
  anything but itself and its parent stays.
\<close>

subsection \<open>Removing an entry from a list\<close>

abbreviation no_entry :: dirent where
  "no_entry \<equiv> \<lparr>de_inum = 0, de_name = replicate DIRSIZ 0\<rparr>"

definition once :: "dirent list \<Rightarrow> u8 list \<Rightarrow> bool" where
  "once es x \<longleftrightarrow> length (filter (\<lambda>e. de_inum e \<noteq> 0 \<and> cname (de_name e) = x) es) \<le> 1"

lemma no_entry_bytes: "dirent_bytes no_entry = replicate 16 0"
  by (simp add: dirent_bytes_def DIRSIZ_def numeral_eq_Suc)

lemma slot_split:
  assumes "slot_of es x = Some m"
  shows "m < length es" and "es = take m es @ es ! m # drop (Suc m) es" and "de_inum (es ! m) \<noteq> 0" and "cname (de_name (es ! m)) = x"
    and "\<forall>e\<in>set (take m es). de_inum e \<noteq> 0 \<longrightarrow> cname (de_name e) \<noteq> x"
  using assms by (simp_all add: slot_of_def find_idx_Some id_take_nth_drop) (force simp: in_set_conv_nth)

lemma once_rest:
  assumes "slot_of es x = Some m" and "once es x"
  shows "\<forall>e\<in>set (drop (Suc m) es). de_inum e \<noteq> 0 \<longrightarrow> cname (de_name e) \<noteq> x"
proof -
  note s = slot_split [OF assms(1)]
  let ?P = "\<lambda>e. de_inum e \<noteq> 0 \<and> cname (de_name e) = x"
  have "filter ?P es = filter ?P (take m es @ es ! m # drop (Suc m) es)" using s(2) by simp
  then have "length (filter ?P es) = length (filter ?P (take m es)) + 1 + length (filter ?P (drop (Suc m) es))" using s(3,4) by simp
  then have "filter ?P (drop (Suc m) es) = []" using assms(2) by (simp add: once_def)
  then show ?thesis by (auto simp: filter_empty_conv)
qed

lemma dmap_none: "\<forall>e\<in>set es. de_inum e \<noteq> 0 \<longrightarrow> cname (de_name e) \<noteq> x \<Longrightarrow> dmap es x = None"
  by (auto simp: dmap_def find_None_iff)

lemma dmap_remove:
  assumes m: "slot_of es x = Some m" and once: "once es x"
  shows "dmap (es[m := no_entry]) = (dmap es)(x := None)"
proof
  fix y
  note s = slot_split [OF m]
  have "es[m := no_entry] = take m es @ no_entry # drop (Suc m) es" using s(1) by (simp add: upd_conv_take_nth_drop)
  then have new: "dmap (es[m := no_entry]) y = (case dmap (take m es) y of None \<Rightarrow> dmap (drop (Suc m) es) y | Some i \<Rightarrow> Some i)"
    by (simp add: dmap_append dmap_Cons split: option.split)
  have "dmap es y = dmap (take m es @ es ! m # drop (Suc m) es) y" using s(2) by simp
  then have old: "dmap es y = (case dmap (take m es) y of None \<Rightarrow> dmap (es ! m # drop (Suc m) es) y | Some i \<Rightarrow> Some i)"
    by (simp add: dmap_append)
  show "dmap (es[m := no_entry]) y = ((dmap es)(x := None)) y"
  proof (cases "y = x")
    case True
    then show ?thesis using new dmap_none [OF s(5)] dmap_none [OF once_rest [OF m once]] by simp
  next
    case False
    then show ?thesis using new old s(4) by (simp add: dmap_Cons split: option.split)
  qed
qed

subsection \<open>Clearing an entry on disk\<close>

lemma clear_entry:
  assumes B: "bio_laws B" and sb: "sb_ok sb" and tr: "tree_ok B sb ROOTDEV d" and c: "cached B sb ROOTDEV L t d"
    and k: "k < NINODE" and kL: "k \<in> L" and v: "i_valid (t ! k)" and key: "ikey (t ! k) = (ROOTDEV, of_nat p)" and p: "p < unat (sb_ninodes sb)"
    and ty: "d_type (on_disk B sb ROOTDEV p d) = T_DIR" and m: "m < length (dlist B sb ROOTDEV d p)"
  shows "\<exists>q d' z as. writei_k B sb k (replicate 16 0) (of_nat (16 * m)) (t, d) = Some (16, t[k := q], d') \<and> q = (t ! k)\<lparr>i_size := z, i_addrs := as\<rparr> \<and>
     tree_ok B sb ROOTDEV d' \<and> cached B sb ROOTDEV L (t[k := q]) d' \<and> refs (t[k := q]) = refs t \<and>
     dlist B sb ROOTDEV d' p = (dlist B sb ROOTDEV d p)[m := no_entry] \<and>
     on_disk B sb ROOTDEV p d' = (on_disk B sb ROOTDEV p d)\<lparr>d_size := z, d_addrs := as\<rparr> \<and>
     (\<forall>j<unat (sb_ninodes sb). j \<noteq> p \<longrightarrow> on_disk B sb ROOTDEV j d' = on_disk B sb ROOTDEV j d) \<and>
     (\<forall>j<unat (sb_ninodes sb). j \<noteq> p \<longrightarrow> d_type (on_disk B sb ROOTDEV j d) = T_DIR \<longrightarrow> dlist B sb ROOTDEV d' j = dlist B sb ROOTDEV d j)"
proof -
  note e = locked_entry [OF c k kL v key p]
  have ty': "i_type (t ! k) = T_DIR" using e(5) ty by simp
  note f = locked_dir [OF tr c k kL v e(1) [symmetric] ty']
  let ?dp = "t ! k"
  have es: "dirents B ?dp d = dlist B sb ROOTDEV d p" using loaded_dir(1) [OF f(2,1)] .
  have mle: "m \<le> length (dirents B ?dp d)" using m es by simp
  have "16 * length (dirents B ?dp d) = unat (i_size ?dp)" "unat (i_size ?dp) \<le> MAXFILE * BSIZE" using f(6) by (auto simp: dir_ok_def dirents_def)
  then have fit: "16 * m + 16 \<le> MAXFILE * BSIZE" using m es by simp
  obtain r dp' d' z as where w: "writei B sb kernel_vm ?dp False 0 (of_nat (16 * m)) 16 (store (\<lambda>_. 0) 0 (dirent_bytes no_entry), ()) d = Some (r, dp', d')"
    and res: "r = 16 \<and> dirents B dp' d' = put_entry (dirents B ?dp d) m no_entry \<or>
      r = 0 \<and> dirents B dp' d' = dirents B ?dp d \<and> (\<forall>m<unat (sb_size sb). bused B sb ROOTDEV d' m)"
    and tr': "tree_ok B sb ROOTDEV d'" and dn': "dinode_of dp' = on_disk B sb ROOTDEV p d'" and sh: "dp' = ?dp\<lparr>i_size := z, i_addrs := as\<rparr>"
    and od: "\<forall>m<unat (sb_ninodes sb). m \<noteq> p \<longrightarrow> on_disk B sb ROOTDEV m d' = on_disk B sb ROOTDEV m d"
    and al': "\<forall>m<unat (sb_ninodes sb). alloced B sb ROOTDEV m d' \<longleftrightarrow> alloced B sb ROOTDEV m d"
    and oth: "\<forall>m<unat (sb_ninodes sb). m \<noteq> p \<longrightarrow> alloced B sb ROOTDEV m d \<longrightarrow> d_type (on_disk B sb ROOTDEV m d) = T_DIR \<longrightarrow>
      dlist B sb ROOTDEV d' m = dlist B sb ROOTDEV d m"
    and r16: "m < length (dirents B ?dp d) \<longrightarrow> r = 16"
    using entry_write [OF B sb tr f(1,5,2) e(1) [symmetric] ty' mle fit, of no_entry] by (simp del: of_nat_mult) (elim exE conjE, rule that)
  have "i_locked ?dp" using cachedD(2) [OF c k] kL by simp
  then have "i_dev dp' = i_dev ?dp" "i_inum dp' = i_inum ?dp" "i_ref dp' = i_ref ?dp" "i_locked dp'" by (simp_all add: sh)
  note cw = cached_write [OF c k kL this, of d', unfolded e(1), OF dn' od al']
  have r: "r = 16" using r16 m es by simp
  have "dlist B sb ROOTDEV d' p = dirents B dp' d'" using loaded_dir(1) [OF dn'] sh f(1) by simp
  then have "dlist B sb ROOTDEV d' p = (dlist B sb ROOTDEV d p)[m := no_entry]" using res r es m by (simp add: put_entry_def)
  moreover have "writei_k B sb k (replicate 16 0) (of_nat (16 * m)) (t, d) = Some (16, t[k := dp'], d')"
    using w unfolding no_entry_bytes r by (simp add: writei_k_def)
  moreover have "on_disk B sb ROOTDEV p d' = (on_disk B sb ROOTDEV p d)\<lparr>d_size := z, d_addrs := as\<rparr>"
    using dn' [symmetric] e(3) [symmetric] sh by (simp add: dinode_of_def)
  moreover have "alloced B sb ROOTDEV j d" if "d_type (on_disk B sb ROOTDEV j d) = T_DIR" for j using that by (simp add: alloced_def T_DIR_def)
  ultimately show ?thesis using tr' cw od oth sh by blast
qed

lemma isdirempty_spec:
  assumes B: "bio_laws B" and sb: "sb_ok sb" and tr: "tree_ok B sb ROOTDEV d" and c: "cached B sb ROOTDEV L t d"
    and k: "k < NINODE" and kL: "k \<in> L" and v: "i_valid (t ! k)" and key: "ikey (t ! k) = (ROOTDEV, of_nat i)" and i: "i < unat (sb_ninodes sb)"
    and ty: "d_type (on_disk B sb ROOTDEV i d) = T_DIR"
  shows "isdirempty B sb k (t, d) = Some ((\<forall>e\<in>set (drop 2 (dlist B sb ROOTDEV d i)). de_inum e = 0), t, d)"
proof -
  note e = locked_entry [OF c k kL v key i]
  have ty': "i_type (t ! k) = T_DIR" using e(5) ty by simp
  note f = locked_dir [OF tr c k kL v e(1) [symmetric] ty']
  let ?dp = "t ! k" and ?P = "\<lambda>de. de_inum de \<noteq> 0"
  have es: "dirents B ?dp d = dlist B sb ROOTDEV d i" using loaded_dir(1) [OF f(2,1)] .
  have sz: "unat (i_size ?dp) = 16 * length (dirents B ?dp d)" using f(6) by (auto simp: dir_ok_def dirents_def)
  have "\<exists>r off. dirscan B sb ?P 32 ?dp d = Some (r, off, ?dp, d) \<and> (r = None \<longleftrightarrow> (\<forall>e\<in>set (drop 2 (dirents B ?dp d)). de_inum e = 0))"
  proof (cases "2 \<le> length (dirents B ?dp d)")
    case True
    have "(of_nat (16 * 2) :: u32) = 32" by simp
    then show ?thesis
      using dirscan_spec [OF B sb f(7,5,6) True, of ?P] find_idx_None [of ?P "drop 2 (dirents B ?dp d)"] by (auto split: option.splits)
  next
    case False
    then have "\<not> 32 < i_size ?dp" using sz by (simp add: word_less_nat_alt)
    then show ?thesis using False by (subst dirscan.simps) simp
  qed
  then show ?thesis unfolding es by (auto simp: isdirempty_def)
qed

subsection \<open>Taking the name away\<close>

text \<open>The link count of the directory goes down when a directory leaves it.\<close>

lemma lower_parent:
  assumes B: "bio_laws B" and sb: "sb_ok sb" and tr: "tree_ok B sb ROOTDEV d" and c: "cached B sb ROOTDEV L t d"
    and k: "k < NINODE" "k \<in> L" "i_valid (t ! k)" "ikey (t ! k) = (ROOTDEV, of_nat p)" and p: "p < unat (sb_ninodes sb)"
    and nl: "b \<longrightarrow> d_nlink (on_disk B sb ROOTDEV p d) - 1 \<noteq> 0"
  shows "\<exists>q d'. (if b then iupdate_k B sb k (upd_ino k (\<lambda>i. i\<lparr>i_nlink := i_nlink i - 1\<rparr>) (t, d)) else (t, d)) = (t[k := q], d') \<and>
     ikey q = ikey (t ! k) \<and> i_ref q = i_ref (t ! k) \<and> tree_ok B sb ROOTDEV d' \<and> cached B sb ROOTDEV L (t[k := q]) d' \<and> refs (t[k := q]) = refs t \<and>
     (\<forall>j<unat (sb_ninodes sb). d_type (on_disk B sb ROOTDEV j d) = T_DIR \<longrightarrow> dlist B sb ROOTDEV d' j = dlist B sb ROOTDEV d j) \<and>
     (\<forall>j<unat (sb_ninodes sb). on_disk B sb ROOTDEV j d' = (if j = p then (on_disk B sb ROOTDEV p d)\<lparr>d_nlink := d_nlink (on_disk B sb ROOTDEV p d) - (if b then 1 else 0)\<rparr>
        else on_disk B sb ROOTDEV j d))"
proof (cases b)
  case False
  then show ?thesis using tr c by (intro exI [of _ "t ! k"] exI [of _ d]) simp
next
  case True
  note e = locked_entry [OF c k p]
  have len: "k < length t" using k(1) itab_invD(1) [OF cachedD(1) [OF c]] by simp
  define q where "q = (t ! k)\<lparr>i_nlink := d_nlink (on_disk B sb ROOTDEV p d) - 1\<rparr>"
  define d' where "d' = iupdate B sb q d"
  have nz: "d_nlink (on_disk B sb ROOTDEV p d) - 1 \<noteq> 0" using nl True by simp
  note n = set_nlink [OF B sb tr c k(1-3) e(1) q_def nz d'_def]
  have "iupdate_k B sb k (upd_ino k (\<lambda>i. i\<lparr>i_nlink := i_nlink i - 1\<rparr>) (t, d)) = (t[k := q], d')"
    using len e(8) by (simp add: upd_ino_def iupdate_k_def q_def d'_def)
  then show ?thesis
    using True n by (intro exI [of _ q] exI [of _ d']) (auto simp: q_def ikey_def)
qed

text \<open>Inode \<open>i\<close> has no other name than \<open>x\<close> in \<open>p\<close>, its own entries aside.\<close>

definition only_name :: "'d bio \<Rightarrow> superblock \<Rightarrow> u8 list \<Rightarrow> nat \<Rightarrow> nat \<Rightarrow> 'd \<Rightarrow> bool" where
  "only_name B sb x p i d \<longleftrightarrow> (\<forall>q<unat (sb_ninodes sb). q \<noteq> i \<longrightarrow> d_type (on_disk B sb ROOTDEV q d) = T_DIR \<longrightarrow>
     (\<forall>e\<in>set (dlist B sb ROOTDEV d q). de_inum e \<noteq> 0 \<longrightarrow> unat (de_inum e) = i \<longrightarrow> q = p \<and> cname (de_name e) = x))"

text \<open>
  The disk after the name \<open>x\<close> of \<open>i\<close> has left the directory \<open>p\<close>, where \<open>R\<close> counts the remaining references. The tree stays well
  formed unless the file had its last name and is still referred to, in which case it has no link any more.
\<close>

definition name_removed :: "'d bio \<Rightarrow> superblock \<Rightarrow> u8 list \<Rightarrow> nat \<Rightarrow> nat \<Rightarrow> (u32 \<times> u32 \<Rightarrow> int) \<Rightarrow> 'd \<Rightarrow> 'd \<Rightarrow> bool" where
  "name_removed B sb x p i R d d' \<longleftrightarrow> others_same B sb {i, p} d d' \<and>
     dirmap B sb ROOTDEV d' p = (dirmap B sb ROOTDEV d p)(x := None) \<and> d_type (on_disk B sb ROOTDEV p d') = T_DIR \<and>
     d_nlink (on_disk B sb ROOTDEV p d') = d_nlink (on_disk B sb ROOTDEV p d) - (if d_type (on_disk B sb ROOTDEV i d) = T_DIR then 1 else 0) \<and>
     (if d_nlink (on_disk B sb ROOTDEV i d) = 1 \<and> R (ROOTDEV, of_nat i) = 0 then \<not> alloced B sb ROOTDEV i d'
      else on_disk B sb ROOTDEV i d' = (on_disk B sb ROOTDEV i d)\<lparr>d_nlink := d_nlink (on_disk B sb ROOTDEV i d) - 1\<rparr>) \<and>
     (d_nlink (on_disk B sb ROOTDEV i d) \<noteq> 1 \<or> R (ROOTDEV, of_nat i) = 0 \<and> only_name B sb x p i d \<longrightarrow> tree_ok B sb ROOTDEV d')"

lemma removed_unnamed:
  assumes on: "only_name B sb x p i d" and m: "slot_of (dlist B sb ROOTDEV d p) x = Some m" and once: "once (dlist B sb ROOTDEV d p) x"
    and ty: "\<And>j. j < unat (sb_ninodes sb) \<Longrightarrow> d_type (on_disk B sb ROOTDEV j d') = d_type (on_disk B sb ROOTDEV j d)"
    and dp: "dlist B sb ROOTDEV d' p = (dlist B sb ROOTDEV d p)[m := no_entry]"
    and dl: "\<And>j. j < unat (sb_ninodes sb) \<Longrightarrow> j \<noteq> p \<Longrightarrow> d_type (on_disk B sb ROOTDEV j d) = T_DIR \<Longrightarrow> dlist B sb ROOTDEV d' j = dlist B sb ROOTDEV d j"
  shows "unnamed B sb ROOTDEV d' i"
  unfolding unnamed_def
proof (intro allI impI ballI)
  fix j e assume j: "j < unat (sb_ninodes sb)" "j \<noteq> i" "d_type (on_disk B sb ROOTDEV j d') = T_DIR"
    and e: "e \<in> set (dlist B sb ROOTDEV d' j)" "de_inum e \<noteq> 0"
  note onj = on [unfolded only_name_def, rule_format, OF j(1,2)]
  have tj: "d_type (on_disk B sb ROOTDEV j d) = T_DIR" using ty j(1,3) by simp
  show "unat (de_inum e) \<noteq> i"
  proof (cases "j = p")
    case False
    then show ?thesis using onj [OF tj, of e] dl [OF j(1) False tj] e by auto
  next
    case True
    let ?es = "dlist B sb ROOTDEV d p"
    note s = slot_split [OF m]
    have "?es[m := no_entry] = take m ?es @ no_entry # drop (Suc m) ?es" using s(1) by (simp add: upd_conv_take_nth_drop)
    then have r: "e \<in> set (take m ?es) \<or> e \<in> set (drop (Suc m) ?es)" using e dp True by auto
    then have "cname (de_name e) \<noteq> x" using s(5) once_rest [OF m once] e(2) by blast
    moreover have "e \<in> set ?es" using r set_take_subset [of m ?es] set_drop_subset [of "Suc m" ?es] by blast
    ultimately show ?thesis using onj [OF tj, of e] True e(2) by auto
  qed
qed

text \<open>The name leaves the locked directory, which is then released.\<close>

lemma leave_dir:
  assumes B: "bio_laws B" and sb: "sb_ok sb" and tr: "tree_ok B sb ROOTDEV d" and c: "cached B sb ROOTDEV {ip, dp} t d"
    and ip: "ip < NINODE" "i_valid (t ! ip)" "ikey (t ! ip) = (ROOTDEV, of_nat i)" and i: "i < unat (sb_ninodes sb)"
    and dp: "dp < NINODE" "i_valid (t ! dp)" "ikey (t ! dp) = (ROOTDEV, of_nat p)" and p: "p < unat (sb_ninodes sb)"
    and ne: "ip \<noteq> dp" and ty: "d_type (on_disk B sb ROOTDEV p d) = T_DIR" and m: "m < length (dlist B sb ROOTDEV d p)"
    and nl: "b \<longrightarrow> d_nlink (on_disk B sb ROOTDEV p d) - 1 \<noteq> 0" and R: "R (ROOTDEV, of_nat p) = refs t (ROOTDEV, of_nat p) - 1"
  shows "\<exists>t1 d1 t2 d2 t3. writei_k B sb dp (replicate 16 0) (of_nat (16 * m)) (t, d) = Some (16, t1, d1) \<and> t1 ! ip = t ! ip \<and>
     (if b then iupdate_k B sb dp (upd_ino dp (\<lambda>i. i\<lparr>i_nlink := i_nlink i - 1\<rparr>) (t1, d1)) else (t1, d1)) = (t2, d2) \<and>
     iunlockput B sb dp (t2, d2) = Some (t3, d2) \<and> tree_ok B sb ROOTDEV d2 \<and> locked_at B sb ip i t3 d2 \<and>
     refs t3 = (refs t)((ROOTDEV, of_nat p) := refs t (ROOTDEV, of_nat p) - 1) \<and> keeps R t t3 \<and>
     dlist B sb ROOTDEV d2 p = (dlist B sb ROOTDEV d p)[m := no_entry] \<and> d_type (on_disk B sb ROOTDEV p d2) = T_DIR \<and>
     d_nlink (on_disk B sb ROOTDEV p d2) = d_nlink (on_disk B sb ROOTDEV p d) - (if b then 1 else 0) \<and>
     (\<forall>j<unat (sb_ninodes sb). j \<noteq> p \<longrightarrow> on_disk B sb ROOTDEV j d2 = on_disk B sb ROOTDEV j d) \<and>
     (\<forall>j<unat (sb_ninodes sb). j \<noteq> p \<longrightarrow> d_type (on_disk B sb ROOTDEV j d) = T_DIR \<longrightarrow> dlist B sb ROOTDEV d2 j = dlist B sb ROOTDEV d j)"
proof -
  have len: "length t = NINODE" using itab_invD(1) [OF cachedD(1) [OF c]] .
  have L: "dp \<in> {ip, dp}" "{ip, dp} - {dp} = {ip}" using ne by auto
  obtain q d1 z as where w: "writei_k B sb dp (replicate 16 0) (of_nat (16 * m)) (t, d) = Some (16, t[dp := q], d1)"
    and q: "q = (t ! dp)\<lparr>i_size := z, i_addrs := as\<rparr>" and tr1: "tree_ok B sb ROOTDEV d1" and c1: "cached B sb ROOTDEV {ip, dp} (t[dp := q]) d1"
    and rf1: "refs (t[dp := q]) = refs t" and dlp: "dlist B sb ROOTDEV d1 p = (dlist B sb ROOTDEV d p)[m := no_entry]"
    and odp: "on_disk B sb ROOTDEV p d1 = (on_disk B sb ROOTDEV p d)\<lparr>d_size := z, d_addrs := as\<rparr>"
    and od1: "\<forall>j<unat (sb_ninodes sb). j \<noteq> p \<longrightarrow> on_disk B sb ROOTDEV j d1 = on_disk B sb ROOTDEV j d"
    and dl1: "\<forall>j<unat (sb_ninodes sb). j \<noteq> p \<longrightarrow> d_type (on_disk B sb ROOTDEV j d) = T_DIR \<longrightarrow> dlist B sb ROOTDEV d1 j = dlist B sb ROOTDEV d j"
    using clear_entry [OF B sb tr c dp(1) L(1) dp(2,3) p ty m] by (elim exE conjE) (rule that)
  have k1: "i_valid (t[dp := q] ! dp)" "ikey (t[dp := q] ! dp) = (ROOTDEV, of_nat p)" using dp len q by (simp_all add: ikey_def)
  have nl1: "b \<longrightarrow> d_nlink (on_disk B sb ROOTDEV p d1) - 1 \<noteq> 0" using nl odp by simp
  obtain q2 d2 where lp: "(if b then iupdate_k B sb dp (upd_ino dp (\<lambda>i. i\<lparr>i_nlink := i_nlink i - 1\<rparr>) (t[dp := q], d1)) else (t[dp := q], d1)) = (t[dp := q, dp := q2], d2)"
    and q2: "ikey q2 = ikey (t[dp := q] ! dp)" "i_ref q2 = i_ref (t[dp := q] ! dp)"
    and tr2: "tree_ok B sb ROOTDEV d2" and c2: "cached B sb ROOTDEV {ip, dp} (t[dp := q, dp := q2]) d2" and rf2: "refs (t[dp := q, dp := q2]) = refs (t[dp := q])"
    and dl2: "\<forall>j<unat (sb_ninodes sb). d_type (on_disk B sb ROOTDEV j d1) = T_DIR \<longrightarrow> dlist B sb ROOTDEV d2 j = dlist B sb ROOTDEV d1 j"
    and od2: "\<forall>j<unat (sb_ninodes sb). on_disk B sb ROOTDEV j d2 = (if j = p then (on_disk B sb ROOTDEV p d1)\<lparr>d_nlink := d_nlink (on_disk B sb ROOTDEV p d1) - (if b then 1 else 0)\<rparr>
        else on_disk B sb ROOTDEV j d1)"
    using lower_parent [OF B sb tr1 c1 dp(1) L(1) k1 p nl1] by (elim exE conjE) (rule that)
  define t2 where "t2 = t[dp := q2]"
  note lp = lp [unfolded list_update_overwrite, folded t2_def] and c2 = c2 [unfolded list_update_overwrite, folded t2_def]
  have t2: "t2 ! dp = q2" "\<And>j. j \<noteq> dp \<Longrightarrow> t2 ! j = t ! j" using dp(1) len by (simp_all add: t2_def)
  have q2k: "ikey q2 = (ROOTDEV, of_nat p)" "i_ref q2 = i_ref (t ! dp)" using q2 k1(2) dp(1) len q by simp_all
  obtain t3 where u: "iunlockput B sb dp (t2, d2) = Some (t3, d2)" "cached B sb ROOTDEV {ip} t3 d2" "refs t3 = (refs t2)(ikey (t2 ! dp) := refs t2 (ikey (t2 ! dp)) - 1)"
    and t3: "\<forall>j. j \<noteq> dp \<longrightarrow> t3 ! j = t2 ! j" "t3 ! dp = (t2 ! dp)\<lparr>i_locked := False, i_ref := i_ref (t2 ! dp) - 1\<rparr>"
    using iunlockput_cached [OF tr2 c2 dp(1) L(1)] unfolding L(2) by (elim exE conjE) (rule that)
  have rf: "refs t2 = refs t" using rf1 rf2 by (simp add: t2_def)
  have "refs t3 = (refs t)((ROOTDEV, of_nat p) := refs t (ROOTDEV, of_nat p) - 1)" using u(3) rf t2(1) q2k(1) by simp
  moreover have "locked_at B sb ip i t3 d2" by (rule locked_atI [OF u(2) ip(1) _ _ i]) (use t3(1) t2(2) ne ip in simp_all)
  moreover have "keeps R t t3"
  proof (rule keeps_trans [of R t t2])
    show "keeps R t t2" by (rule keeps_same) (use t2 q2k dp(3) in \<open>metis\<close>)
    show "keeps R t2 t3"
    proof (rule keeps_release [OF cachedD(1) [OF c2] dp(1) _ t3(1)])
      show "0 < i_ref (t2 ! dp)" using q2k(2) t2(1) locked_entry(6) [OF c dp(1) L(1) dp(2,3) p] by simp
      show "R (ikey (t2 ! dp)) = refs t2 (ikey (t2 ! dp)) - 1" unfolding rf t2(1) q2k(1) by (rule R)
    qed (use t3(2) in \<open>simp_all add: ikey_def\<close>)
  qed
  moreover have "dlist B sb ROOTDEV d2 p = (dlist B sb ROOTDEV d p)[m := no_entry]" using dl2 p odp ty dlp by simp
  moreover have "d_type (on_disk B sb ROOTDEV p d2) = T_DIR" "d_nlink (on_disk B sb ROOTDEV p d2) = d_nlink (on_disk B sb ROOTDEV p d) - (if b then 1 else 0)"
    using od2 p odp ty by simp_all
  moreover have "t[dp := q] ! ip = t ! ip" using ne by simp
  moreover have "\<forall>j<unat (sb_ninodes sb). j \<noteq> p \<longrightarrow> on_disk B sb ROOTDEV j d2 = on_disk B sb ROOTDEV j d" using od1 od2 by simp
  moreover have "\<forall>j<unat (sb_ninodes sb). j \<noteq> p \<longrightarrow> d_type (on_disk B sb ROOTDEV j d) = T_DIR \<longrightarrow> dlist B sb ROOTDEV d2 j = dlist B sb ROOTDEV d j"
    using od1 dl1 dl2 by simp
  ultimately show ?thesis
    using w lp u(1) tr2 by - (rule exI [of _ "t[dp := q]"], rule exI [of _ d1], rule exI [of _ t2], rule exI [of _ d2], rule exI [of _ t3], simp)
qed

lemma unlink_entry_spec:
  assumes B: "bio_laws B" and sb: "sb_ok sb" and tr: "tree_ok B sb ROOTDEV d" and c: "cached B sb ROOTDEV {ip, dp} t d"
    and ip: "ip < NINODE" "i_valid (t ! ip)" "ikey (t ! ip) = (ROOTDEV, of_nat i)" and i: "i < unat (sb_ninodes sb)"
    and dp: "dp < NINODE" "i_valid (t ! dp)" "ikey (t ! dp) = (ROOTDEV, of_nat p)" and p: "p < unat (sb_ninodes sb)"
    and ne: "ip \<noteq> dp" "i \<noteq> p" and ty: "d_type (on_disk B sb ROOTDEV p d) = T_DIR"
    and m: "slot_of (dlist B sb ROOTDEV d p) x = Some m" and once: "once (dlist B sb ROOTDEV d p) x"
    and nl: "d_type (on_disk B sb ROOTDEV i d) = T_DIR \<longrightarrow> d_nlink (on_disk B sb ROOTDEV p d) - 1 \<noteq> 0"
    and R: "R = (refs t)((ROOTDEV, of_nat p) := refs t (ROOTDEV, of_nat p) - 1, (ROOTDEV, of_nat i) := refs t (ROOTDEV, of_nat i) - 1)"
  shows "\<exists>t' d'. unlink_entry B sb dp ip (of_nat (16 * m)) (t, d) = Some (0, t', d') \<and> cached B sb ROOTDEV {} t' d' \<and> refs t' = R \<and>
     keeps R t t' \<and> name_removed B sb x p i R d d'"
proof -
  define b where "b \<longleftrightarrow> d_type (on_disk B sb ROOTDEV i d) = T_DIR"
  let ?n = "d_nlink (on_disk B sb ROOTDEV i d)"
  have np: "(of_nat i :: u32) \<noteq> of_nat p" using inum32 [OF i] inum32 [OF p] ne(2) by metis
  have Rp: "R (ROOTDEV, of_nat p) = refs t (ROOTDEV, of_nat p) - 1" unfolding R using np by simp
  obtain t1 d1 t2 d2 t3 where w: "writei_k B sb dp (replicate 16 0) (of_nat (16 * m)) (t, d) = Some (16, t1, d1)" "t1 ! ip = t ! ip"
    and lp: "(if b then iupdate_k B sb dp (upd_ino dp (\<lambda>i. i\<lparr>i_nlink := i_nlink i - 1\<rparr>) (t1, d1)) else (t1, d1)) = (t2, d2)"
    and u: "iunlockput B sb dp (t2, d2) = Some (t3, d2)" and tr2: "tree_ok B sb ROOTDEV d2" and l3: "locked_at B sb ip i t3 d2"
    and rf3: "refs t3 = (refs t)((ROOTDEV, of_nat p) := refs t (ROOTDEV, of_nat p) - 1)" and kp: "keeps R t t3"
    and dp2: "dlist B sb ROOTDEV d2 p = (dlist B sb ROOTDEV d p)[m := no_entry]" and tyq: "d_type (on_disk B sb ROOTDEV p d2) = T_DIR"
    and nlp: "d_nlink (on_disk B sb ROOTDEV p d2) = d_nlink (on_disk B sb ROOTDEV p d) - (if b then 1 else 0)"
    and od: "\<forall>j<unat (sb_ninodes sb). j \<noteq> p \<longrightarrow> on_disk B sb ROOTDEV j d2 = on_disk B sb ROOTDEV j d"
    and dl: "\<forall>j<unat (sb_ninodes sb). j \<noteq> p \<longrightarrow> d_type (on_disk B sb ROOTDEV j d) = T_DIR \<longrightarrow> dlist B sb ROOTDEV d2 j = dlist B sb ROOTDEV d j"
    using leave_dir [where R = R, OF B sb tr c ip i dp p ne(1) ty slot_split(1) [OF m] nl [folded b_def] Rp] by (elim exE conjE) (rule that)
  have R3: "R = (refs t3)((ROOTDEV, of_nat i) := refs t3 (ROOTDEV, of_nat i) - 1)" unfolding rf3 R using np by simp
  have odi: "on_disk B sb ROOTDEV i d2 = on_disk B sb ROOTDEV i d" using od i ne(2) by simp
  define r where "r = (t3 ! ip)\<lparr>i_nlink := ?n - 1\<rparr>"
  obtain t4 d4 where f4: "iunlockput B sb ip (t3[ip := r], iupdate B sb r d2) = Some (t4, d4)" "cached B sb ROOTDEV {} t4 d4" "refs t4 = R" "keeps R t3 t4"
    and os4: "others_same B sb {i} d2 d4"
    and fin: "if ?n - 1 = 0 \<and> R (ROOTDEV, of_nat i) = 0
      then \<not> alloced B sb ROOTDEV i d4 \<and> (unnamed B sb ROOTDEV d2 i \<longrightarrow> tree_ok B sb ROOTDEV d4) \<and>
        (d_addrs (on_disk B sb ROOTDEV i d2) = replicate (NDIRECT + 2) 0 \<longrightarrow> (\<forall>m<unat (sb_size sb). bused B sb ROOTDEV d4 m = bused B sb ROOTDEV d2 m))
      else on_disk B sb ROOTDEV i d4 = (on_disk B sb ROOTDEV i d2)\<lparr>d_nlink := ?n - 1\<rparr> \<and> (?n - 1 \<noteq> 0 \<longrightarrow> tree_ok B sb ROOTDEV d4) \<and>
        (d_type (on_disk B sb ROOTDEV i d2) = T_DIR \<longrightarrow> dirmap B sb ROOTDEV d4 i = dirmap B sb ROOTDEV d2 i)"
    using release_nlink [OF B sb tr2 l3 r_def R3] by (elim exE conjE) (rule that)
  note f3 = locked_atD [OF l3]
  have e3: "i_nlink (t3 ! ip) = ?n" using locked_entry(8) [OF f3(1,2) singletonI f3(10,4) i] odi by simp
  have len3: "ip < length t3" using ip(1) itab_invD(1) [OF cachedD(1) [OF f3(1)]] by simp
  have up: "iupdate_k B sb ip (upd_ino ip (\<lambda>i. i\<lparr>i_nlink := i_nlink i - 1\<rparr>) (t3, d2)) = (t3[ip := r], iupdate B sb r d2)"
    using len3 e3 by (simp add: upd_ino_def iupdate_k_def r_def)
  have isd: "i_type (t1 ! ip) = T_DIR \<longleftrightarrow> b" using locked_entry(5) [OF c ip(1) _ ip(2,3) i] w(2) by (simp add: b_def)
  have run: "unlink_entry B sb dp ip (of_nat (16 * m)) (t, d) = Some (0, t4, d4)"
    using w(1) lp u up f4(1) isd by (simp add: unlink_entry_def Let_def)
  have tyj: "d_type (on_disk B sb ROOTDEV j d2) = d_type (on_disk B sb ROOTDEV j d)" if "j < unat (sb_ninodes sb)" for j
    using that od tyq ty by (cases "j = p") simp_all
  have "others_same B sb {p} d d2" using od dl by (simp add: others_same_def dirmap_def)
  then have "others_same B sb {i, p} d d4" using others_same_trans [OF _ os4] by (simp add: insert_commute)
  moreover have pk: "on_disk B sb ROOTDEV p d4 = on_disk B sb ROOTDEV p d2" "dirmap B sb ROOTDEV d4 p = dirmap B sb ROOTDEV d2 p"
    using os4 p ne(2) tyq by (auto simp: others_same_def)
  moreover have "dirmap B sb ROOTDEV d2 p = (dirmap B sb ROOTDEV d p)(x := None)" using dp2 dmap_remove [OF m once] by (simp add: dirmap_def)
  moreover have "unnamed B sb ROOTDEV d2 i" if "only_name B sb x p i d" using removed_unnamed [OF that m once tyj dp2] dl by blast
  ultimately have "name_removed B sb x p i R d d4"
    using fin odi tyq nlp by (auto simp: name_removed_def b_def split: if_splits)
  then show ?thesis using run f4(2,3) keeps_trans [OF kp f4(4)] by blast
qed

subsection \<open>\<^verbatim>\<open>unlink\<close>\<close>

text \<open>Looking the name up in the locked directory and locking what is found.\<close>

lemma lookup_lock:
  assumes B: "bio_laws B" and sb: "sb_ok sb" and tr: "tree_ok B sb ROOTDEV d" and l: "locked_at B sb dp p t d"
    and ty: "d_type (on_disk B sb ROOTDEV p d) = T_DIR" and room: "card (held t) < NINODE"
    and j: "dirmap B sb ROOTDEV d p (cname name) = Some j" and ne: "unat j \<noteq> p"
  shows "\<exists>ip m t1 t2. dirlookup B sb dp name (t, d) = Some (Some (ip, of_nat (16 * m)), t1, d) \<and> ilock B sb ip (t1, d) = Some (t2, d) \<and>
     slot_of (dlist B sb ROOTDEV d p) (cname name) = Some m \<and> cached B sb ROOTDEV {ip, dp} t2 d \<and> ip < NINODE \<and> ip \<noteq> dp \<and>
     i_valid (t2 ! ip) \<and> ikey (t2 ! ip) = (ROOTDEV, of_nat (unat j)) \<and> i_valid (t2 ! dp) \<and> ikey (t2 ! dp) = (ROOTDEV, of_nat p) \<and>
     refs t2 = (refs t)((ROOTDEV, of_nat (unat j)) := refs t (ROOTDEV, of_nat (unat j)) + 1) \<and> (\<forall>R. keeps R t t2)"
proof -
  note f = locked_atD [OF l]
  have uj: "(of_nat (unat j) :: u32) = ucast j" by (rule of_nat_unat32)
  obtain ip off t1 where lk: "dirlookup B sb dp name (t, d) = Some (Some (ip, off), t1, d)" and c1: "cached B sb ROOTDEV {dp} t1 d"
    and ip: "ip < NINODE" "0 < i_ref (t1 ! ip)" "ikey (t1 ! ip) = (ROOTDEV, ucast j)"
    and rf: "refs t1 = (refs t)((ROOTDEV, ucast j) := refs t (ROOTDEV, ucast j) + 1)"
    and kp: "\<forall>j<NINODE. 0 < i_ref (t ! j) \<longrightarrow> ikey (t1 ! j) = ikey (t ! j) \<and> 0 < i_ref (t1 ! j) \<and> i_valid (t1 ! j) = i_valid (t ! j)"
    and sl: "\<exists>m. slot_of (dlist B sb ROOTDEV d p) (cname name) = Some m \<and> off = of_nat (16 * m)"
    using dirlookup_cached(2) [OF B sb tr f(1,2) singletonI f(6,5,3) ty room j] by blast
  then obtain m where m: "slot_of (dlist B sb ROOTDEV d p) (cname name) = Some m" "off = of_nat (16 * m)" by blast
  have dp1: "ikey (t1 ! dp) = (ROOTDEV, of_nat p)" "i_valid (t1 ! dp)" using kp f(2,7,4,10) by simp_all
  have "(ucast j :: u32) \<noteq> of_nat p" using inum32 [OF f(3)] ucast_inum [of j] ne by metis
  then have nd: "ip \<noteq> dp" using ip(3) dp1(1) by auto
  obtain q where q: "ilock B sb ip (t1, d) = Some (t1[ip := q], d)" "cached B sb ROOTDEV {ip, dp} (t1[ip := q]) d"
      "ikey q = ikey (t1 ! ip)" "i_ref q = i_ref (t1 ! ip)" "i_valid q"
    using ilock_cached [OF c1 ip(1,2)] nd by auto
  have len: "length t1 = NINODE" using itab_invD(1) [OF cachedD(1) [OF c1]] .
  have "refs (t1[ip := q]) = refs t1" using ip(1) len q(3,4) by (intro same_refs) simp_all
  moreover have "keeps R t (t1[ip := q])" for R
  proof (rule keeps_trans [of R t t1])
    show "keeps R t t1" by (rule keeps_same) (use kp in blast)
    show "keeps R t1 (t1[ip := q])" by (rule keeps_same) (use q(3,4) len in \<open>auto simp: nth_list_update_if\<close>)
  qed
  ultimately show ?thesis
    using lk q m ip(1,3) nd dp1 rf len unfolding uj
    by (intro exI [of _ ip] exI [of _ m] exI [of _ t1] exI [of _ "t1[ip := q]"]) auto
qed

text \<open>The file \<^verbatim>\<open>unlink\<close> takes away, and from which directory.\<close>

definition unlink_goal :: "'d bio \<Rightarrow> superblock \<Rightarrow> 'd \<Rightarrow> nat \<Rightarrow> u8 list \<Rightarrow> (nat \<times> nat) option" where
  "unlink_goal B sb d ci path =
     (case walk_parent B sb ROOTDEV d (start_of ci path) (path_elems path) of
        None \<Rightarrow> None
      | Some p \<Rightarrow>
          if last (path_elems path) \<in> {[46], [46, 46]} then None
          else (case dirmap B sb ROOTDEV d p (last (path_elems path)) of
                  None \<Rightarrow> None
                | Some j \<Rightarrow>
                    if d_type (on_disk B sb ROOTDEV (unat j) d) = T_DIR \<and> (\<exists>e\<in>set (drop 2 (dlist B sb ROOTDEV d (unat j))). de_inum e \<noteq> 0) then None
                    else Some (p, unat j)))"

lemma unlink_bad_spec:
  assumes tr: "tree_ok B sb ROOTDEV d" and l: "locked_at B sb dp p t d"
    and R: "R = (refs t)((ROOTDEV, of_nat p) := refs t (ROOTDEV, of_nat p) - 1)"
  shows "\<exists>t'. unlink_bad B sb dp (t, d) = Some (- 1, t', d) \<and> cached B sb ROOTDEV {} t' d \<and> refs t' = R \<and> keeps R t t'"
  using iunlockput_at [OF tr l R] by (auto simp: unlink_bad_def)

text \<open>Both locks are given up again when the directory is not empty.\<close>

lemma unlink_refused:
  assumes tr: "tree_ok B sb ROOTDEV d" and c: "cached B sb ROOTDEV {ip, dp} t d"
    and ip: "ip < NINODE" "ikey (t ! ip) = (ROOTDEV, of_nat i)" and i: "i < unat (sb_ninodes sb)"
    and dp: "dp < NINODE" "i_valid (t ! dp)" "ikey (t ! dp) = (ROOTDEV, of_nat p)" and p: "p < unat (sb_ninodes sb)"
    and ne: "ip \<noteq> dp" "i \<noteq> p"
    and R: "R = (refs t)((ROOTDEV, of_nat p) := refs t (ROOTDEV, of_nat p) - 1, (ROOTDEV, of_nat i) := refs t (ROOTDEV, of_nat i) - 1)"
  shows "\<exists>t1 t'. iunlockput B sb ip (t, d) = Some (t1, d) \<and> unlink_bad B sb dp (t1, d) = Some (- 1, t', d) \<and> cached B sb ROOTDEV {} t' d \<and>
     refs t' = R \<and> keeps R t t'"
proof -
  have np: "(of_nat i :: u32) \<noteq> of_nat p" using inum32 [OF i] inum32 [OF p] ne(2) by metis
  have L: "ip \<in> {ip, dp}" "{ip, dp} - {ip} = {dp}" using ne(1) by auto
  have r: "0 < i_ref (t ! ip)" using cachedD(2) [OF c ip(1)] itab_invD(3) [OF cachedD(1) [OF c] ip(1)] by simp
  obtain t1 where u: "iunlockput B sb ip (t, d) = Some (t1, d)" "cached B sb ROOTDEV {dp} t1 d" "refs t1 = (refs t)(ikey (t ! ip) := refs t (ikey (t ! ip)) - 1)"
    and t1: "\<forall>j. j \<noteq> ip \<longrightarrow> t1 ! j = t ! j" "t1 ! ip = (t ! ip)\<lparr>i_locked := False, i_ref := i_ref (t ! ip) - 1\<rparr>"
    using iunlockput_cached [OF tr c ip(1) L(1)] unfolding L(2) by (elim exE conjE) (rule that)
  have l: "locked_at B sb dp p t1 d" by (rule locked_atI [OF u(2) dp(1) _ _ p]) (use t1(1) ne(1) dp in simp_all)
  have R1: "R = (refs t1)((ROOTDEV, of_nat p) := refs t1 (ROOTDEV, of_nat p) - 1)" unfolding u(3) R ip(2) using np by (simp add: fun_upd_twist)
  have "keeps R t t1"
    by (rule keeps_release [OF cachedD(1) [OF c] ip(1) r t1(1)]) (use t1(2) R ip(2) in \<open>simp_all add: ikey_def\<close>)
  then show ?thesis using u(1) unlink_bad_spec [OF tr l R1] keeps_trans by blast
qed

text \<open>The part of \<^verbatim>\<open>unlink\<close> after both inodes are locked.\<close>

lemma unlink_found:
  assumes B: "bio_laws B" and sb: "sb_ok sb" and tr: "tree_ok B sb ROOTDEV d" and l: "locked_at B sb dp p t d"
    and ty: "d_type (on_disk B sb ROOTDEV p d) = T_DIR" and room: "card (held t) < NINODE"
    and j: "dirmap B sb ROOTDEV d p (cname name) = Some j" "unat j = i"
    and tgt: "i \<noteq> p" "0 < sint (d_nlink (on_disk B sb ROOTDEV i d))" "once (dlist B sb ROOTDEV d p) (cname name)"
      "d_type (on_disk B sb ROOTDEV i d) = T_DIR \<longrightarrow> d_nlink (on_disk B sb ROOTDEV p d) - 1 \<noteq> 0"
    and R: "R = (refs t)((ROOTDEV, of_nat p) := refs t (ROOTDEV, of_nat p) - 1)"
  shows "\<exists>ip off s r t' d'. dirlookup B sb dp name (t, d) = Some (Some (ip, off), s) \<and> unlink_file B sb dp ip off s = Some (r, t', d') \<and>
     cached B sb ROOTDEV {} t' d' \<and> refs t' = R \<and> keeps R t t' \<and>
     (if d_type (on_disk B sb ROOTDEV i d) = T_DIR \<and> (\<exists>e\<in>set (drop 2 (dlist B sb ROOTDEV d i)). de_inum e \<noteq> 0) then r = - 1 \<and> d' = d
      else r = 0 \<and> name_removed B sb (cname name) p i R d d')"
proof -
  note f = locked_atD [OF l]
  obtain ip m t1 t2 where lk: "dirlookup B sb dp name (t, d) = Some (Some (ip, of_nat (16 * m)), t1, d)" "ilock B sb ip (t1, d) = Some (t2, d)"
    and m: "slot_of (dlist B sb ROOTDEV d p) (cname name) = Some m" and c2: "cached B sb ROOTDEV {ip, dp} t2 d" and ip: "ip < NINODE" "ip \<noteq> dp"
    and vi: "i_valid (t2 ! ip)" "ikey (t2 ! ip) = (ROOTDEV, of_nat i)" and vd: "i_valid (t2 ! dp)" "ikey (t2 ! dp) = (ROOTDEV, of_nat p)"
    and rf: "refs t2 = (refs t)((ROOTDEV, of_nat i) := refs t (ROOTDEV, of_nat i) + 1)" and kp: "\<forall>R. keeps R t t2"
    using lookup_lock [OF B sb tr l ty room j(1), unfolded j(2), OF tgt(1)] by (elim exE conjE) (rule that)
  have i: "i < unat (sb_ninodes sb)" using dirmap_target(1) [OF tr f(3,9) ty j(1)] j(2) by simp
  have np: "(of_nat i :: u32) \<noteq> of_nat p" using inum32 [OF i] inum32 [OF f(3)] tgt(1) by metis
  have iL: "ip \<in> {ip, dp}" by simp
  note e = locked_entry [OF c2 ip(1) iL vi i]
  have R2: "R = (refs t2)((ROOTDEV, of_nat p) := refs t2 (ROOTDEV, of_nat p) - 1, (ROOTDEV, of_nat i) := refs t2 (ROOTDEV, of_nat i) - 1)"
    unfolding rf R using np by (simp add: fun_eq_iff)
  have nl: "\<not> sint (i_nlink (t2 ! ip)) < 1" using tgt(2) e(8) by simp
  have emp: "(if i_type (t2 ! ip) = T_DIR then isdirempty B sb ip (t2, d) else Some (True, t2, d)) =
      Some (\<not> (d_type (on_disk B sb ROOTDEV i d) = T_DIR \<and> (\<exists>e\<in>set (drop 2 (dlist B sb ROOTDEV d i)). de_inum e \<noteq> 0)), t2, d)"
    using isdirempty_spec [OF B sb tr c2 ip(1) iL vi i] e(5) by auto
  show ?thesis
  proof (cases "d_type (on_disk B sb ROOTDEV i d) = T_DIR \<and> (\<exists>e\<in>set (drop 2 (dlist B sb ROOTDEV d i)). de_inum e \<noteq> 0)")
    case True
    obtain t3 t' where u: "iunlockput B sb ip (t2, d) = Some (t3, d)" "unlink_bad B sb dp (t3, d) = Some (- 1, t', d)" "cached B sb ROOTDEV {} t' d" "refs t' = R" "keeps R t2 t'"
      using unlink_refused [OF tr c2 ip(1) vi(2) i f(2) vd f(3) ip(2) tgt(1) R2] by blast
    have run: "unlink_file B sb dp ip (of_nat (16 * m)) (t1, d) = Some (- 1, t', d)" using lk(2) nl emp True u(1,2) by (simp add: unlink_file_def)
    have kp': "keeps R t t'" using kp u(5) keeps_trans by blast
    show ?thesis unfolding if_P [OF True] using lk(1) run kp' u(3,4) by blast
  next
    case False
    obtain t' d' where u: "unlink_entry B sb dp ip (of_nat (16 * m)) (t2, d) = Some (0, t', d')" "cached B sb ROOTDEV {} t' d'" "refs t' = R" "keeps R t2 t'"
        "name_removed B sb (cname name) p i R d d'"
      using unlink_entry_spec [OF B sb tr c2 ip(1) vi i f(2) vd f(3) ip(2) tgt(1) ty m tgt(3,4) R2] by blast
    have run: "unlink_file B sb dp ip (of_nat (16 * m)) (t1, d) = Some (0, t', d')" using lk(2) nl emp False u(1) by (simp add: unlink_file_def)
    have kp': "keeps R t t'" using kp u(4) keeps_trans by blast
    show ?thesis unfolding if_not_P [OF False] using lk(1) run kp' u(2,3,5) by blast
  qed
qed

text \<open>The name is looked up in its directory, which is locked, and removed if it may be.\<close>

lemma unlink_name:
  assumes B: "bio_laws B" and sb: "sb_ok sb" and tr: "tree_ok B sb ROOTDEV d" and l: "locked_at B sb dp p t d"
    and ty: "d_type (on_disk B sb ROOTDEV p d) = T_DIR" and rm: "card (held t) < NINODE"
    and R: "R = (refs t)((ROOTDEV, of_nat p) := refs t (ROOTDEV, of_nat p) - 1)"
    and tgt: "\<And>j. dirmap B sb ROOTDEV d p (cname name) = Some j \<Longrightarrow>
      unat j \<noteq> p \<and> 0 < sint (d_nlink (on_disk B sb ROOTDEV (unat j) d)) \<and> once (dlist B sb ROOTDEV d p) (cname name) \<and>
      (d_type (on_disk B sb ROOTDEV (unat j) d) = T_DIR \<longrightarrow> d_nlink (on_disk B sb ROOTDEV p d) - 1 \<noteq> 0)"
  shows "\<exists>r t' d'. (case dirlookup B sb dp name (t, d) of None \<Rightarrow> None
        | Some (None, s) \<Rightarrow> unlink_bad B sb dp s | Some (Some (ip, off), s) \<Rightarrow> unlink_file B sb dp ip off s) = Some (r, t', d') \<and>
     cached B sb ROOTDEV {} t' d' \<and> refs t' = R \<and> keeps R t t' \<and>
     (case dirmap B sb ROOTDEV d p (cname name) of
        None \<Rightarrow> r = - 1 \<and> d' = d
      | Some j \<Rightarrow> if d_type (on_disk B sb ROOTDEV (unat j) d) = T_DIR \<and> (\<exists>e\<in>set (drop 2 (dlist B sb ROOTDEV d (unat j))). de_inum e \<noteq> 0)
          then r = - 1 \<and> d' = d else r = 0 \<and> name_removed B sb (cname name) p (unat j) R d d')"
proof (cases "dirmap B sb ROOTDEV d p (cname name)")
  case None
  note f = locked_atD [OF l]
  show ?thesis
    using dirlookup_cached(1) [OF B sb tr f(1,2) singletonI f(6,5,3) ty rm None] unlink_bad_spec [OF tr l R] None by auto
next
  case (Some j)
  have t: "unat j \<noteq> p" "0 < sint (d_nlink (on_disk B sb ROOTDEV (unat j) d))" "once (dlist B sb ROOTDEV d p) (cname name)"
      "d_type (on_disk B sb ROOTDEV (unat j) d) = T_DIR \<longrightarrow> d_nlink (on_disk B sb ROOTDEV p d) - 1 \<noteq> 0"
    using tgt [OF Some] by blast+
  obtain ip off s r t' d' where "dirlookup B sb dp name (t, d) = Some (Some (ip, off), s)" "unlink_file B sb dp ip off s = Some (r, t', d')"
      "cached B sb ROOTDEV {} t' d'" "refs t' = R" "keeps R t t'"
      "if d_type (on_disk B sb ROOTDEV (unat j) d) = T_DIR \<and> (\<exists>e\<in>set (drop 2 (dlist B sb ROOTDEV d (unat j))). de_inum e \<noteq> 0) then r = - 1 \<and> d' = d
       else r = 0 \<and> name_removed B sb (cname name) p (unat j) R d d'"
    using unlink_found [OF B sb tr l ty rm Some refl t R] by (elim exE conjE) (rule that)
  then show ?thesis using Some by simp
qed

text \<open>
  Property C32. \<^verbatim>\<open>unlink\<close> on a well-formed tree returns without panic and without waiting for a lock of its own. It removes
  exactly the last element of the path from its directory if that names a file or an empty directory, and returns 0;
  in all other cases (no such directory, no such name, \<^verbatim>\<open>.\<close> or \<^verbatim>\<open>..\<close>, a directory that holds more than its first two entries) it
  returns -1 and the disk is as it was. With the name, the link count of the file goes down by one, and that of the
  directory when a directory leaves it; a file without links and references is freed. All other inodes and
  directories and all reference counts are as before, and the tree stays well formed, except that a file that lost
  its last name while somebody refers to it stays allocated without a link.\<close>

theorem unlink_removes_name:
  assumes B: "bio_laws B" and sb: "sb_ok sb" and tr: "tree_ok B sb ROOTDEV d" and root: "1 < unat (sb_ninodes sb)" "alloced B sb ROOTDEV 1 d"
    and c: "cached B sb ROOTDEV {} tbl d" and room: "card (held tbl) + 2 \<le> NINODE" and cwd: "cwd_ok sb (refs tbl) cwd ci tbl"
    and tgt: "\<forall>p j. walk_parent B sb ROOTDEV d (start_of ci path) (path_elems path) = Some p \<longrightarrow> last (path_elems path) \<notin> {[46], [46, 46]} \<longrightarrow>
      dirmap B sb ROOTDEV d p (last (path_elems path)) = Some j \<longrightarrow>
      unat j \<noteq> p \<and> 0 < sint (d_nlink (on_disk B sb ROOTDEV (unat j) d)) \<and> once (dlist B sb ROOTDEV d p) (last (path_elems path)) \<and>
      (d_type (on_disk B sb ROOTDEV (unat j) d) = T_DIR \<longrightarrow> d_nlink (on_disk B sb ROOTDEV p d) - 1 \<noteq> 0)"
  shows "\<exists>r t' d'. unlink_fs B sb cwd path (tbl, d) = Some (r, t', d') \<and> cached B sb ROOTDEV {} t' d' \<and> refs t' = refs tbl \<and> keeps (refs tbl) tbl t' \<and>
     (case unlink_goal B sb d ci path of
        None \<Rightarrow> r = - 1 \<and> d' = d
      | Some (p, i) \<Rightarrow> r = 0 \<and> name_removed B sb (last (path_elems path)) p i (refs tbl) d d')"
proof -
  note P = create_parent [OF B sb tr root c room cwd, of path "replicate DIRSIZ 0"]
  show ?thesis
  proof (cases "walk_parent B sb ROOTDEV d (start_of ci path) (path_elems path)")
    case None
    then show ?thesis using P by (auto simp: unlink_fs_def unlink_goal_def opened_def)
  next
    case (Some p)
    then obtain dp name t1 t2 where n: "nameiparent B sb cwd path (replicate DIRSIZ 0) (tbl, d) = Some (Some dp, name, t1, d)" "ilock B sb dp (t1, d) = Some (t2, d)"
      and ty: "d_type (on_disk B sb ROOTDEV p d) = T_DIR" and cn: "cname name = last (path_elems path)"
      and l: "locked_at B sb dp p t2 d" and kp: "keeps (refs tbl) tbl t2"
      and rf: "refs t2 = (refs tbl)((ROOTDEV, of_nat p) := refs tbl (ROOTDEV, of_nat p) + 1)"
      using P keeps_trans by fastforce
    note f = locked_atD [OF l]
    have R: "refs tbl = (refs t2)((ROOTDEV, of_nat p) := refs t2 (ROOTDEV, of_nat p) - 1)" unfolding rf by simp
    have rm: "card (held t2) < NINODE" using card_held_upd [OF cachedD(1) [OF c] rf] room by simp
    have dots: "namecmp name [46] = 0 \<or> namecmp name [46, 46] = 0 \<longleftrightarrow> last (path_elems path) \<in> {[46], [46, 46]}"
      unfolding namecmp_eq_0 cn by (simp add: cname_def DIRSIZ_def)
    obtain t3 where bad: "unlink_bad B sb dp (t2, d) = Some (- 1, t3, d)" "cached B sb ROOTDEV {} t3 d" "refs t3 = refs tbl" "keeps (refs tbl) tbl t3"
      using unlink_bad_spec [OF tr l R] keeps_trans [OF kp] by blast
    show ?thesis
    proof (cases "last (path_elems path) \<in> {[46], [46, 46]}")
      case True
      then have "unlink_fs B sb cwd path (tbl, d) = Some (- 1, t3, d)" using n bad(1) dots by (simp add: unlink_fs_def)
      then show ?thesis using bad True Some by (auto simp: unlink_goal_def)
    next
      case False
      have go: "unlink_fs B sb cwd path (tbl, d) = (case dirlookup B sb dp name (t2, d) of None \<Rightarrow> None
          | Some (None, s) \<Rightarrow> unlink_bad B sb dp s | Some (Some (ip, off), s) \<Rightarrow> unlink_file B sb dp ip off s)"
        using n dots False by (simp add: unlink_fs_def split: option.split)
      have u: "\<exists>r t' d'. unlink_fs B sb cwd path (tbl, d) = Some (r, t', d') \<and> cached B sb ROOTDEV {} t' d' \<and> refs t' = refs tbl \<and> keeps (refs tbl) t2 t' \<and>
         (case dirmap B sb ROOTDEV d p (last (path_elems path)) of
            None \<Rightarrow> r = - 1 \<and> d' = d
          | Some j \<Rightarrow> if d_type (on_disk B sb ROOTDEV (unat j) d) = T_DIR \<and> (\<exists>e\<in>set (drop 2 (dlist B sb ROOTDEV d (unat j))). de_inum e \<noteq> 0)
              then r = - 1 \<and> d' = d else r = 0 \<and> name_removed B sb (last (path_elems path)) p (unat j) (refs tbl) d d')"
        unfolding go by (rule unlink_name [OF B sb tr l ty rm R, where name = name, unfolded cn]) (use tgt Some False in blast)
      then show ?thesis
        using keeps_trans [OF kp] Some False
        by (elim exE conjE) (auto simp: unlink_goal_def split: if_splits option.splits)
    qed
  qed
qed

text \<open>\<^verbatim>\<open>unlink("/l")\<close> takes the only name of inode 2 away, and with it the inode.\<close>

theorem unlink_removes_name_witness:
  "\<exists>t' d'. unlink_fs demo_bio demo_sb 0 [47, 108] (root_tbl, link_disk) = Some (0, t', d') \<and> refs t' = refs root_tbl \<and> tree_ok demo_bio demo_sb ROOTDEV d' \<and>
     dirmap demo_bio demo_sb ROOTDEV d' 1 = (dirmap demo_bio demo_sb ROOTDEV link_disk 1)([108] := None) \<and> \<not> alloced demo_bio demo_sb ROOTDEV 2 d'"
proof -
  have u: "unat (2 :: u16) = 2" "unat (1 :: u16) = 1" by simp_all
  have nl: "d_nlink (on_disk demo_bio demo_sb ROOTDEV 2 link_disk) = 1" and ty: "d_type (on_disk demo_bio demo_sb ROOTDEV 2 link_disk) \<noteq> T_DIR"
    by (simp_all add: ROOTDEV_def link_on_disk dinode_of_def link_ino_def root_ino_def T_DIR_def)
  have es: "dlist demo_bio demo_sb ROOTDEV link_disk 1 =
      [\<lparr>de_inum = 1, de_name = 46 # replicate 13 0\<rparr>, \<lparr>de_inum = 2, de_name = 108 # replicate 13 0\<rparr>]"
    using link_dirents by (simp add: ROOTDEV_def dir_at_def)
  have cn: "cname (46 # replicate 13 0) = [46]" "cname (108 # replicate 13 0) = [108]" by (simp_all add: cname_def DIRSIZ_def)
  have once: "once (dlist demo_bio demo_sb ROOTDEV link_disk 1) [108]" unfolding es by (simp add: once_def cn)
  have tgt: "\<forall>p j. walk_parent demo_bio demo_sb ROOTDEV link_disk (start_of 1 [47, 108]) (path_elems [47, 108]) = Some p \<longrightarrow> last (path_elems [47, 108]) \<notin> {[46], [46, 46]} \<longrightarrow>
      dirmap demo_bio demo_sb ROOTDEV link_disk p (last (path_elems [47, 108])) = Some j \<longrightarrow>
      unat j \<noteq> p \<and> 0 < sint (d_nlink (on_disk demo_bio demo_sb ROOTDEV (unat j) link_disk)) \<and>
      once (dlist demo_bio demo_sb ROOTDEV link_disk p) (last (path_elems [47, 108])) \<and>
      (d_type (on_disk demo_bio demo_sb ROOTDEV (unat j) link_disk) = T_DIR \<longrightarrow> d_nlink (on_disk demo_bio demo_sb ROOTDEV p link_disk) - 1 \<noteq> 0)"
    using l_parent link_dirmap(2) nl ty once by (simp add: l_elems)
  have goal: "unlink_goal demo_bio demo_sb link_disk 1 [47, 108] = Some (1, 2)"
    using l_parent link_dirmap(2) ty by (simp add: unlink_goal_def l_elems)
  have only: "only_name demo_bio demo_sb [108] 1 2 link_disk"
    unfolding only_name_def
  proof (intro allI impI ballI)
    fix q e assume q: "q < unat (sb_ninodes demo_sb)" "d_type (on_disk demo_bio demo_sb ROOTDEV q link_disk) = T_DIR" "q \<noteq> 2"
      and e: "e \<in> set (dlist demo_bio demo_sb ROOTDEV link_disk q)" "unat (de_inum e) = 2"
    have "alloced demo_bio demo_sb 1 q link_disk" using q(2) by (simp add: alloced_def T_DIR_def ROOTDEV_def)
    then have "q = 1" using link_alloced [of q] q by (simp add: demo_ninodes)
    then show "q = 1 \<and> cname (de_name e) = [108]" using e es cn u by auto
  qed
  have "refs root_tbl (ROOTDEV, of_nat 2) = 0"
    using not_held [OF root_cached, of 2] by (simp add: root_alloced ROOTDEV_def)
  then show ?thesis
    using unlink_removes_name [OF demo_bio_laws demo_sb_ok link_tree link_inodes(1,2) link_cached _ link_cwd tgt] link_room goal only nl
    by (auto simp: name_removed_def l_elems)
qed

end
