(* ===== verification/ProcLife.thy ===== *)
theory ProcLife
  imports ProcSync Shm
begin

unbundle bit_operations_syntax

text \<open>
  The life of a process: \<^verbatim>\<open>kernel/proc.c\<close> of Lab 3, Task 3.1 (\<^verbatim>\<open>procinit\<close>, \<^verbatim>\<open>allocpid\<close>, \<^verbatim>\<open>allocproc\<close>,
  \<^verbatim>\<open>freeproc\<close>, \<^verbatim>\<open>proc_pagetable\<close>, \<^verbatim>\<open>proc_freepagetable\<close>, \<^verbatim>\<open>userinit\<close>, \<^verbatim>\<open>growproc\<close>, \<^verbatim>\<open>kfork\<close>, \<^verbatim>\<open>reparent\<close>, \<^verbatim>\<open>kexit\<close>,
  \<^verbatim>\<open>kwait\<close>). The same functions of Lab 2 differ in the per-lab lines that initialise the scheduling
  fields and in not calling \<^verbatim>\<open>shm_cleanup\<close>: those lines are the three fields of the record \<open>lab\<close>, and the
  scheduler theories instantiate it. Pages, page tables, files and inodes belong to code outside the
  repository: the record \<open>kops\<close> over an arbitrary state of the machine.
\<close>

abbreviation PTE_X :: u64 where
  "PTE_X \<equiv> 8"

text \<open>
  \<^verbatim>\<open>struct trapframe\<close>: five fields for the kernel and the user registers, \<^verbatim>\<open>x1\<close> to \<^verbatim>\<open>x31\<close> by number
  (\<^verbatim>\<open>a0\<close> is \<^verbatim>\<open>x10\<close>).
\<close>

record trapframe =
  kernel_satp :: u64
  kernel_sp :: u64
  kernel_trap :: u64
  epc :: u64
  kernel_hartid :: u64
  uregs :: "nat \<Rightarrow> u64"

abbreviation a0 :: nat where
  "a0 \<equiv> 10"

text \<open>
  The private fields of \<^verbatim>\<open>struct proc\<close>. A pointer to a page, a page table, a file or an inode is a
  number, 0 for null; the contents of the trapframe page are kept beside the pointer.
\<close>

record kproc = proc +
  kstack :: u64
  sz :: u64
  pagetable :: nat
  trapframe_pa :: nat
  tf :: trapframe
  context_ra :: u64
  context_sp :: u64
  ofile :: "nat list"
  cwd :: nat
  pname :: string

record 'w kops =
  vm :: "'w vmops"
  uvmcreate :: "'w \<Rightarrow> nat \<times> 'w"
  uvmfree :: "nat \<Rightarrow> u64 \<Rightarrow> 'w \<Rightarrow> 'w"
  uvmcopy :: "nat \<Rightarrow> nat \<Rightarrow> u64 \<Rightarrow> 'w \<Rightarrow> int \<times> 'w"
  uvmalloc :: "nat \<Rightarrow> u64 \<Rightarrow> u64 \<Rightarrow> u64 \<Rightarrow> 'w \<Rightarrow> u64 \<times> 'w"
  uvmdealloc :: "nat \<Rightarrow> u64 \<Rightarrow> u64 \<Rightarrow> 'w \<Rightarrow> u64 \<times> 'w"
  copyout_int :: "nat \<Rightarrow> u64 \<Rightarrow> int \<Rightarrow> 'w \<Rightarrow> int \<times> 'w"
  filedup :: "nat \<Rightarrow> 'w \<Rightarrow> nat \<times> 'w"
  fileclose :: "nat \<Rightarrow> 'w \<Rightarrow> 'w"
  inode_dup :: "nat \<Rightarrow> 'w \<Rightarrow> nat \<times> 'w"
  inode_put :: "nat \<Rightarrow> 'w \<Rightarrow> 'w"
  root_inode :: "'w \<Rightarrow> nat \<times> 'w"
  TRAMPOLINE :: u64
  TRAPFRAME :: u64
  trampoline_pa :: nat
  forkret_pc :: u64
  kstack_va :: "nat \<Rightarrow> u64"

record ('w, 'a) kstate =
  procs :: "'a kproc_scheme list"
  nextpid :: int
  initproc :: "nat option"
  shms :: "shm_region list"
  world :: 'w

record ('w, 'a) lab =
  lab_alloc :: "'a kproc_scheme \<Rightarrow> 'a kproc_scheme"
  lab_fork :: "'a kproc_scheme \<Rightarrow> 'a kproc_scheme \<Rightarrow> 'a kproc_scheme"
  lab_free :: "'w kops \<Rightarrow> nat \<Rightarrow> ('w, 'a) kstate \<Rightarrow> ('w, 'a) kstate"

text \<open>Assigning to the fields of one entry of the process table.\<close>

definition upd_proc :: "nat \<Rightarrow> ('a kproc_scheme \<Rightarrow> 'a kproc_scheme) \<Rightarrow> ('w, 'a) kstate \<Rightarrow> ('w, 'a) kstate" where
  "upd_proc i f s = s\<lparr>procs := (procs s)[i := f (procs s ! i)]\<rparr>"

definition upd_world :: "('w \<Rightarrow> 'w) \<Rightarrow> ('w, 'a) kstate \<Rightarrow> ('w, 'a) kstate" where
  "upd_world f s = s\<lparr>world := f (world s)\<rparr>"

subsection \<open>Operations\<close>

fun procinit_from :: "'w kops \<Rightarrow> nat \<Rightarrow> 'a kproc_scheme list \<Rightarrow> 'a kproc_scheme list" where
  "procinit_from K i [] = []"
| "procinit_from K i (p # ps) = p\<lparr>state := UNUSED, kstack := kstack_va K i\<rparr> # procinit_from K (Suc i) ps"

definition procinit :: "'w kops \<Rightarrow> 'a kproc_scheme list \<Rightarrow> 'a kproc_scheme list" where
  "procinit K ps = procinit_from K 0 ps"

definition allocpid :: "('w, 'a) kstate \<Rightarrow> int \<times> ('w, 'a) kstate" where
  "allocpid s = (nextpid s, s\<lparr>nextpid := nextpid s + 1\<rparr>)"

definition proc_pagetable :: "'w kops \<Rightarrow> nat \<Rightarrow> 'w \<Rightarrow> nat \<times> 'w" where
  "proc_pagetable K trapframe_page w =
     (let (pt, w1) = uvmcreate K w in
      if pt = 0 then (0, w1)
      else let (r1, w2) = mappages (vm K) pt (TRAMPOLINE K) PGSIZE (trampoline_pa K) (PTE_R OR PTE_X) w1 in
        if r1 < 0 then (0, uvmfree K pt 0 w2)
        else let (r2, w3) = mappages (vm K) pt (TRAPFRAME K) PGSIZE trapframe_page (PTE_R OR PTE_W) w2 in
          if r2 < 0 then (0, uvmfree K pt 0 (uvmunmap (vm K) pt (TRAMPOLINE K) 1 False w3))
          else (pt, w3))"

definition proc_freepagetable :: "'w kops \<Rightarrow> nat \<Rightarrow> u64 \<Rightarrow> 'w \<Rightarrow> 'w" where
  "proc_freepagetable K pt n w =
     uvmfree K pt n (uvmunmap (vm K) pt (TRAPFRAME K) 1 False (uvmunmap (vm K) pt (TRAMPOLINE K) 1 False w))"

text \<open>\<^verbatim>\<open>shm_cleanup(p)\<close> of Task 3.1, called by \<^verbatim>\<open>freeproc\<close>.\<close>

definition shm_cleanup_proc :: "'w kops \<Rightarrow> nat \<Rightarrow> ('w, 'a) kstate \<Rightarrow> ('w, 'a) kstate" where
  "shm_cleanup_proc K i s =
     (let (rs, w) = shm_cleanup (vm K) (pagetable (procs s ! i)) (shms s, world s)
      in s\<lparr>shms := rs, world := w\<rparr>)"

definition lab31 :: "('w, 'a) lab" where
  "lab31 = \<lparr>lab_alloc = (\<lambda>p. p), lab_fork = (\<lambda>p np. np), lab_free = shm_cleanup_proc\<rparr>"

definition freeproc :: "('w, 'a) lab \<Rightarrow> 'w kops \<Rightarrow> nat \<Rightarrow> ('w, 'a) kstate \<Rightarrow> ('w, 'a) kstate" where
  "freeproc L K i s =
     (let p = procs s ! i;
          s1 = (if trapframe_pa p \<noteq> 0 then upd_world (kfree (vm K) (trapframe_pa p)) s else s);
          s2 = upd_proc i (\<lambda>p. p\<lparr>trapframe_pa := 0\<rparr>) s1;
          s3 = (if pagetable p \<noteq> 0
                then upd_world (proc_freepagetable K (pagetable p) (sz p)) (lab_free L K i s2) else s2)
      in upd_proc i (\<lambda>p. p\<lparr>pagetable := 0, sz := 0, pid := 0, parent := None, pname := '''',
           chan := Chan0, killed_flag := False, xstate := 0, state := UNUSED\<rparr>) s3)"

definition allocproc :: "('w, 'a) lab \<Rightarrow> 'w kops \<Rightarrow> ('w, 'a) kstate \<Rightarrow> nat option \<times> ('w, 'a) kstate" where
  "allocproc L K s =
     (case find_idx (\<lambda>p. state p = UNUSED) (procs s) of
        None \<Rightarrow> (None, s)
      | Some i \<Rightarrow>
          let (np, s1) = allocpid s;
              s2 = upd_proc i (\<lambda>p. lab_alloc L (p\<lparr>pid := np, state := USED\<rparr>)) s1;
              (pa, w) = kalloc (vm K) (world s2);
              s3 = upd_proc i (\<lambda>p. p\<lparr>trapframe_pa := pa\<rparr>) (s2\<lparr>world := w\<rparr>)
          in if pa = 0 then (None, freeproc L K i s3)
             else let (pt, w1) = proc_pagetable K pa (world s3);
                      s4 = upd_proc i (\<lambda>p. p\<lparr>pagetable := pt\<rparr>) (s3\<lparr>world := w1\<rparr>)
                  in if pt = 0 then (None, freeproc L K i s4)
                     else (Some i, upd_proc i (\<lambda>p. p\<lparr>context_ra := forkret_pc K, context_sp := kstack p + PGSIZE\<rparr>) s4))"

definition userinit :: "('w, 'a) lab \<Rightarrow> 'w kops \<Rightarrow> ('w, 'a) kstate \<Rightarrow> ('w, 'a) kstate option" where
  "userinit L K s =
     (case allocproc L K s of
        (None, s1) \<Rightarrow> None
      | (Some i, s1) \<Rightarrow>
          let (ino, w) = root_inode K (world s1)
          in Some (upd_proc i (\<lambda>p. p\<lparr>cwd := ino, state := RUNNABLE\<rparr>) (s1\<lparr>initproc := Some i, world := w\<rparr>)))"

definition growproc :: "'w kops \<Rightarrow> nat \<Rightarrow> int \<Rightarrow> ('w, 'a) kstate \<Rightarrow> int \<times> ('w, 'a) kstate" where
  "growproc K me n s =
     (let p = procs s ! me in
      if n > 0 then
        let (z, w) = uvmalloc K (pagetable p) (sz p) (sz p + of_int n) PTE_W (world s) in
        if z = 0 then (- 1, s\<lparr>world := w\<rparr>)
        else (0, upd_proc me (\<lambda>p. p\<lparr>sz := z\<rparr>) (s\<lparr>world := w\<rparr>))
      else if n < 0 then
        let (z, w) = uvmdealloc K (pagetable p) (sz p) (sz p + of_int n) (world s)
        in (0, upd_proc me (\<lambda>p. p\<lparr>sz := z\<rparr>) (s\<lparr>world := w\<rparr>))
      else (0, s))"

text \<open>\<^verbatim>\<open>for (i = 0; i < NOFILE; i++) if (p->ofile[i]) np->ofile[i] = filedup(p->ofile[i]);\<close>\<close>

fun dup_files :: "'w kops \<Rightarrow> nat list \<Rightarrow> nat list \<Rightarrow> 'w \<Rightarrow> nat list \<times> 'w" where
  "dup_files K (f # fs) (g # gs) w =
     (let (h, w1) = (if f \<noteq> 0 then filedup K f w else (g, w));
          (hs, w2) = dup_files K fs gs w1
      in (h # hs, w2))"
| "dup_files K fs gs w = (gs, w)"

definition kfork :: "('w, 'a) lab \<Rightarrow> 'w kops \<Rightarrow> nat \<Rightarrow> ('w, 'a) kstate \<Rightarrow> int \<times> ('w, 'a) kstate" where
  "kfork L K me s =
     (case allocproc L K s of
        (None, s1) \<Rightarrow> (- 1, s1)
      | (Some n, s1) \<Rightarrow>
          let p = procs s1 ! me;
              s2 = upd_proc n (lab_fork L p) s1;
              (r, w) = uvmcopy K (pagetable p) (pagetable (procs s2 ! n)) (sz p) (world s2);
              s3 = s2\<lparr>world := w\<rparr>
          in if r < 0 then (- 1, freeproc L K n s3)
             else
               let s4 = upd_proc n (\<lambda>np. np\<lparr>sz := sz p, tf := (tf p)\<lparr>uregs := (uregs (tf p))(a0 := 0)\<rparr>\<rparr>) s3;
                   (fs, w1) = dup_files K (ofile p) (ofile (procs s4 ! n)) (world s4);
                   (c, w2) = inode_dup K (cwd p) w1;
                   s5 = upd_proc n (\<lambda>np. np\<lparr>ofile := fs, cwd := c, pname := pname p\<rparr>) (s4\<lparr>world := w2\<rparr>);
                   pd = pid (procs s5 ! n)
               in (pd, upd_proc n (\<lambda>np. np\<lparr>parent := Some me, state := RUNNABLE\<rparr>) s5))"

text \<open>\<^verbatim>\<open>reparent\<close> scans the table and wakes init for every child it passes on.\<close>

fun reparent_from :: "nat list \<Rightarrow> nat \<Rightarrow> nat option \<Rightarrow> 'a proc_scheme list \<Rightarrow> 'a proc_scheme list" where
  "reparent_from [] me ini ps = ps"
| "reparent_from (i # is) me ini ps =
     reparent_from is me ini
       (if parent (ps ! i) = Some me
        then wakeup me (case ini of None \<Rightarrow> Chan0 | Some q \<Rightarrow> ChanProc q) (ps[i := (ps ! i)\<lparr>parent := ini\<rparr>])
        else ps)"

definition reparent :: "nat \<Rightarrow> nat option \<Rightarrow> 'a proc_scheme list \<Rightarrow> 'a proc_scheme list" where
  "reparent me ini ps = reparent_from [0..<length ps] me ini ps"

fun close_files :: "'w kops \<Rightarrow> nat list \<Rightarrow> 'w \<Rightarrow> nat list \<times> 'w" where
  "close_files K [] w = ([], w)"
| "close_files K (f # fs) w =
     (let (gs, w1) = close_files K fs (if f \<noteq> 0 then fileclose K f w else w) in (0 # gs, w1))"

definition kexit :: "'w kops \<Rightarrow> nat \<Rightarrow> int \<Rightarrow> ('w, 'a) kstate \<Rightarrow> ('w, 'a) kstate option" where
  "kexit K me status s =
     (if initproc s = Some me then None
      else
        let p = procs s ! me;
            (fs, w) = close_files K (ofile p) (world s);
            s1 = upd_proc me (\<lambda>p. p\<lparr>ofile := fs, cwd := 0\<rparr>) (s\<lparr>world := inode_put K (cwd p) w\<rparr>);
            s2 = s1\<lparr>procs := reparent me (initproc s1) (procs s1)\<rparr>;
            s3 = s2\<lparr>procs := wakeup me (case parent (procs s2 ! me) of None \<Rightarrow> Chan0 | Some q \<Rightarrow> ChanProc q) (procs s2)\<rparr>
        in Some (upd_proc me (\<lambda>p. p\<lparr>xstate := status, state := ZOMBIE\<rparr>) s3))"

text \<open>
  One pass of the loop of \<^verbatim>\<open>kwait\<close>: the first zombie child in table order is reaped; without children, or
  when killed, the call fails; otherwise the process goes to sleep on its own entry and makes another
  pass when it is woken.
\<close>

definition kwait :: "('w, 'a) lab \<Rightarrow> 'w kops \<Rightarrow> nat \<Rightarrow> u64 \<Rightarrow> ('w, 'a) kstate \<Rightarrow> int outcome \<times> ('w, 'a) kstate" where
  "kwait L K me addr s =
     (case find_idx (\<lambda>pp. parent pp = Some me \<and> state pp = ZOMBIE) (procs s) of
        Some i \<Rightarrow>
          let pd = pid (procs s ! i);
              (r, w) = (if addr \<noteq> 0 then copyout_int K (pagetable (procs s ! me)) addr (xstate (procs s ! i)) (world s)
                        else (0, world s));
              s1 = s\<lparr>world := w\<rparr>
          in if r < 0 then (Ret (- 1), s1) else (Ret pd, freeproc L K i s1)
      | None \<Rightarrow>
          if \<not> (\<exists>pp\<in>set (procs s). parent pp = Some me) \<or> killed me (procs s) then (Ret (- 1), s)
          else (Sleep, s\<lparr>procs := sleep_enter me (ChanProc me) (procs s)\<rparr>))"

end
