(* ===== verification/ProcInv.thy ===== *)
theory ProcInv
  imports ProcLife
begin

text \<open>
  The process table over time: the steps processes take (\<open>pstep\<close>), the invariant \<open>tinv\<close> of the fields
  that \<^verbatim>\<open>p->lock\<close> and \<^verbatim>\<open>wait_lock\<close> protect, and what it gives: process ids are unique, every process has a
  live parent, and a parent asleep in \<^verbatim>\<open>kwait\<close> has no zombie child. The invariant is stated on the
  table of \<open>proc\<close> records that the operations of \<open>ProcSync\<close> share.
\<close>

definition live :: "'a proc_scheme \<Rightarrow> bool" where
  "live p \<longleftrightarrow> state p \<noteq> UNUSED \<and> state p \<noteq> ZOMBIE"

definition entry_ok :: "proc list \<Rightarrow> int \<Rightarrow> nat \<Rightarrow> nat \<Rightarrow> bool" where
  "entry_ok c np ini i \<longleftrightarrow>
     (if state (c ! i) = UNUSED then pid (c ! i) = 0 \<and> parent (c ! i) = None
      else 0 < pid (c ! i) \<and> pid (c ! i) < np \<and> (i = ini \<or> parent (c ! i) \<noteq> None)) \<and>
     (\<forall>q. parent (c ! i) = Some q \<longrightarrow> q < length c \<and> live (c ! q)) \<and>
     (\<forall>q. asleep_on (ChanProc q) (c ! i) \<longrightarrow>
        q = i \<and> (\<forall>j<length c. parent (c ! j) = Some i \<longrightarrow> state (c ! j) \<noteq> ZOMBIE))"

definition tinv :: "proc list \<Rightarrow> int \<Rightarrow> nat option \<Rightarrow> bool" where
  "tinv c np ini \<longleftrightarrow> length c = NPROC \<and> 1 \<le> np \<and>
     (\<exists>i<NPROC. ini = Some i \<and> live (c ! i) \<and> (\<forall>j<NPROC. entry_ok c np i j)) \<and>
     unique_keys (\<lambda>p. state p \<noteq> UNUSED) pid c"

definition core :: "('w, 'a) kstate \<Rightarrow> proc list" where
  "core s = map proc.truncate (procs s)"

definition pinv :: "('w, 'a) kstate \<Rightarrow> bool" where
  "pinv s \<longleftrightarrow> tinv (core s) (nextpid s) (initproc s)"

text \<open>
  The steps. A process is scheduled, resumes inside \<^verbatim>\<open>sleep\<close>, yields, forks, exits, waits, or sleeps on
  a channel that is no process; any running kernel code may kill, wake a channel, or change the machine.
\<close>

inductive pstep :: "('w, 'a) lab \<Rightarrow> 'w kops \<Rightarrow> ('w, 'a) kstate \<Rightarrow> ('w, 'a) kstate \<Rightarrow> bool" for L K where
  run: "i < length (procs s) \<Longrightarrow> state (procs s ! i) = RUNNABLE \<Longrightarrow> pstep L K s (upd_proc i (\<lambda>p. p\<lparr>state := RUNNING\<rparr>) s)"
| resume: "i < length (procs s) \<Longrightarrow> state (procs s ! i) = RUNNING \<Longrightarrow> pstep L K s (s\<lparr>procs := sleep_return i (procs s)\<rparr>)"
| yields: "i < length (procs s) \<Longrightarrow> state (procs s ! i) = RUNNING \<Longrightarrow> pstep L K s (s\<lparr>procs := yield i (procs s)\<rparr>)"
| forks: "i < length (procs s) \<Longrightarrow> state (procs s ! i) = RUNNING \<Longrightarrow> kfork L K i s = (r, s') \<Longrightarrow> pstep L K s s'"
| exits: "i < length (procs s) \<Longrightarrow> state (procs s ! i) = RUNNING \<Longrightarrow> kexit K i st s = Some s' \<Longrightarrow> pstep L K s s'"
| waits: "i < length (procs s) \<Longrightarrow> state (procs s ! i) = RUNNING \<Longrightarrow> kwait L K i addr s = (r, s') \<Longrightarrow> pstep L K s s'"
| sleeps: "i < length (procs s) \<Longrightarrow> state (procs s ! i) = RUNNING \<Longrightarrow> \<forall>q. ch \<noteq> ChanProc q \<Longrightarrow>
    pstep L K s (s\<lparr>procs := sleep_enter i ch (procs s)\<rparr>)"
| wakes: "pstep L K s (s\<lparr>procs := wakeup i ch (procs s)\<rparr>)"
| kills: "kkill pd (procs s) = (r, ps') \<Longrightarrow> pstep L K s (s\<lparr>procs := ps'\<rparr>)"
| machine: "pstep L K s (s\<lparr>world := w, shms := rs\<rparr>)"

text \<open>A run starts from the table of zeroed entries after \<^verbatim>\<open>procinit\<close> and a successful \<^verbatim>\<open>userinit\<close>.\<close>

definition boot_table :: "'a kproc_scheme list \<Rightarrow> bool" where
  "boot_table ps \<longleftrightarrow> length ps = NPROC \<and> (\<forall>p\<in>set ps. chan p = Chan0 \<and> \<not> killed_flag p \<and> xstate p = 0 \<and> pid p = 0 \<and> parent p = None)"

inductive preach :: "('w, 'a) lab \<Rightarrow> 'w kops \<Rightarrow> ('w, 'a) kstate \<Rightarrow> bool" for L K where
  boot: "boot_table ps \<Longrightarrow> procs s = procinit K ps \<Longrightarrow> nextpid s = 1 \<Longrightarrow> userinit L K s = Some s' \<Longrightarrow> preach L K s'"
| step: "preach L K s \<Longrightarrow> pstep L K s s' \<Longrightarrow> preach L K s'"

text \<open>What the lab-specific lines must respect: they assign to their own fields only.\<close>

definition lab_ok :: "('w, 'a) lab \<Rightarrow> bool" where
  "lab_ok L \<longleftrightarrow> (\<forall>p. proc.truncate (lab_alloc L p) = proc.truncate p) \<and>
     (\<forall>p np. proc.truncate (lab_fork L p np) = proc.truncate np) \<and>
     (\<forall>K i s. procs (lab_free L K i s) = procs s \<and> nextpid (lab_free L K i s) = nextpid s \<and> initproc (lab_free L K i s) = initproc s)"

lemma lab31_ok: "lab_ok lab31"
  by (auto simp: lab_ok_def lab31_def shm_cleanup_proc_def split: prod.splits)

subsection \<open>Preservation on the table of protected fields\<close>

lemma tinvE:
  assumes "tinv c np ini"
  obtains i where "ini = Some i" "i < length c" "live (c ! i)" "\<And>j. j < length c \<Longrightarrow> entry_ok c np i j"
    "length c = NPROC" "1 \<le> np" "unique_keys (\<lambda>p. state p \<noteq> UNUSED) pid c"
  using assms unfolding tinv_def by fastforce

lemma tinvI:
  assumes "length c = NPROC" "1 \<le> np" "i < length c" "live (c ! i)" "\<And>j. j < length c \<Longrightarrow> entry_ok c np i j"
    "unique_keys (\<lambda>p. state p \<noteq> UNUSED) pid c"
  shows "tinv c np (Some i)"
  using assms unfolding tinv_def by auto

lemma entry_okD:
  assumes "entry_ok c np ini i"
  shows "state (c ! i) = UNUSED \<Longrightarrow> pid (c ! i) = 0 \<and> parent (c ! i) = None"
    and "state (c ! i) \<noteq> UNUSED \<Longrightarrow> 0 < pid (c ! i) \<and> pid (c ! i) < np"
    and "state (c ! i) \<noteq> UNUSED \<Longrightarrow> i \<noteq> ini \<Longrightarrow> parent (c ! i) \<noteq> None"
    and "parent (c ! i) = Some q \<Longrightarrow> q < length c \<and> live (c ! q)"
    and "asleep_on (ChanProc q) (c ! i) \<Longrightarrow> q = i"
    and "asleep_on (ChanProc q) (c ! i) \<Longrightarrow> j < length c \<Longrightarrow> parent (c ! j) = Some i \<Longrightarrow> state (c ! j) \<noteq> ZOMBIE"
  using assms unfolding entry_ok_def by (auto split: if_splits)

lemma entry_okI:
  assumes "state (c ! i) = UNUSED \<Longrightarrow> pid (c ! i) = 0 \<and> parent (c ! i) = None"
    and "state (c ! i) \<noteq> UNUSED \<Longrightarrow> 0 < pid (c ! i) \<and> pid (c ! i) < np"
    and "state (c ! i) \<noteq> UNUSED \<Longrightarrow> i \<noteq> ini \<Longrightarrow> parent (c ! i) \<noteq> None"
    and "\<And>q. parent (c ! i) = Some q \<Longrightarrow> q < length c \<and> live (c ! q)"
    and "\<And>q. asleep_on (ChanProc q) (c ! i) \<Longrightarrow>
      q = i \<and> (\<forall>j<length c. parent (c ! j) = Some i \<longrightarrow> state (c ! j) \<noteq> ZOMBIE)"
  shows "entry_ok c np ini i"
  using assms unfolding entry_ok_def by auto

text \<open>Waking: entries keep everything but may go from asleep to runnable.\<close>

lemma tinv_wake:
  assumes inv: "tinv c np ini" and len: "length c' = length c"
    and w: "\<And>j. j < length c \<Longrightarrow> pid (c' ! j) = pid (c ! j) \<and> parent (c' ! j) = parent (c ! j) \<and>
      (state (c' ! j) = state (c ! j) \<and> (state (c ! j) = SLEEPING \<longrightarrow> chan (c' ! j) = chan (c ! j)) \<or>
       live (c ! j) \<and> (state (c' ! j) = RUNNABLE \<or> state (c' ! j) = RUNNING))"
  shows "tinv c' np ini"
proof -
  from inv obtain i where i: "ini = Some i" "i < length c" "live (c ! i)" "\<And>j. j < length c \<Longrightarrow> entry_ok c np i j"
    "length c = NPROC" "1 \<le> np" "unique_keys (\<lambda>p. state p \<noteq> UNUSED) pid c" by (rule tinvE) blast
  have st: "(state (c' ! j) = UNUSED \<longleftrightarrow> state (c ! j) = UNUSED)" "state (c' ! j) = ZOMBIE \<longleftrightarrow> state (c ! j) = ZOMBIE"
    "live (c' ! j) = live (c ! j)" if "j < length c" for j
    using w [OF that] by (auto simp: live_def)
  have as: "asleep_on (ChanProc q) (c' ! j) \<Longrightarrow> asleep_on (ChanProc q) (c ! j)" if "j < length c" for j q
    using w [OF that] by (auto simp: asleep_on_def)
  have pp: "pid (c' ! j) = pid (c ! j)" "parent (c' ! j) = parent (c ! j)" if "j < length c" for j using w [OF that] by auto
  have "entry_ok c' np i j" if j: "j < length c'" for j
  proof -
    have jc: "j < length c" using j len by simp
    note e = entry_okD [OF i(4) [OF jc]]
    show ?thesis
    proof (rule entry_okI)
      fix q assume "parent (c' ! j) = Some q"
      then show "q < length c' \<and> live (c' ! q)" using e(4) [of q] pp(2) [OF jc] st(3) len by simp
    next
      fix q assume "asleep_on (ChanProc q) (c' ! j)"
      then have "q = j" and z: "\<And>k. k < length c \<Longrightarrow> parent (c ! k) = Some j \<Longrightarrow> state (c ! k) \<noteq> ZOMBIE"
        using e(5,6) as [OF jc] by blast+
      then show "q = j \<and> (\<forall>k<length c'. parent (c' ! k) = Some j \<longrightarrow> state (c' ! k) \<noteq> ZOMBIE)"
        using pp(2) st(2) len by simp
    qed (use e(1-3) st(1) [OF jc] pp [OF jc] in auto)
  qed
  moreover have "unique_keys (\<lambda>p. state p \<noteq> UNUSED) pid c'"
    using i(7) st(1) pp(1) len unfolding unique_keys_def by simp
  ultimately show ?thesis
    unfolding i(1) using i len st(3) [OF i(2)] by (intro tinvI) auto
qed

text \<open>One entry whose process id and parent stay: awake, or asleep on a channel for which that is right.\<close>

lemma tinv_set_live:
  assumes inv: "tinv c np ini" and i: "i < length c" "live (c ! i)" "live p" "pid p = pid (c ! i)" "parent p = parent (c ! i)"
    and sl: "\<And>q. asleep_on (ChanProc q) p \<Longrightarrow> q = i \<and> (\<forall>j<length c. parent (c ! j) = Some i \<longrightarrow> state (c ! j) \<noteq> ZOMBIE)"
  shows "tinv (c[i := p]) np ini"
proof -
  from inv obtain n where n: "ini = Some n" "n < length c" "live (c ! n)" "\<And>j. j < length c \<Longrightarrow> entry_ok c np n j"
    "length c = NPROC" "1 \<le> np" "unique_keys (\<lambda>p. state p \<noteq> UNUSED) pid c" by (rule tinvE) blast
  have nth: "c[i := p] ! j = (if j = i then p else c ! j)" for j using i(1) by (simp add: nth_list_update_if)
  have st: "state (c[i := p] ! j) = UNUSED \<longleftrightarrow> state (c ! j) = UNUSED" "state (c[i := p] ! j) = ZOMBIE \<longleftrightarrow> state (c ! j) = ZOMBIE"
    "live (c[i := p] ! j) = live (c ! j)" "pid (c[i := p] ! j) = pid (c ! j)" "parent (c[i := p] ! j) = parent (c ! j)" for j
    using i by (auto simp: nth live_def)
  have "entry_ok (c[i := p]) np n j" if "j < length (c[i := p])" for j
  proof -
    note e = entry_okD [OF n(4) [of j]]
    show ?thesis
    proof (rule entry_okI)
      fix q assume "parent (c[i := p] ! j) = Some q"
      then show "q < length (c[i := p]) \<and> live (c[i := p] ! q)" using e(4) [of q] st(3,5) that by simp
    next
      fix q assume as: "asleep_on (ChanProc q) (c[i := p] ! j)"
      show "q = j \<and> (\<forall>k<length (c[i := p]). parent (c[i := p] ! k) = Some j \<longrightarrow> state (c[i := p] ! k) \<noteq> ZOMBIE)"
      proof (cases "j = i")
        case True
        then show ?thesis using sl [of q] as i(1) st(2,5) by simp
      next
        case False
        then show ?thesis using e(5,6) as that st(2,5) by (simp add: nth)
      qed
    qed (use e(1-3) st that in auto)
  qed
  moreover have "unique_keys (\<lambda>p. state p \<noteq> UNUSED) pid (c[i := p])"
    using n(7) i by (intro unique_keys_update) (auto simp: live_def)
  ultimately show ?thesis
    unfolding n(1) using n st(3) by (intro tinvI) auto
qed

text \<open>Freeing the entry of a zombie, which has no children.\<close>

lemma zombie_no_children:
  assumes "tinv c np ini" and "i < length c" "state (c ! i) = ZOMBIE" "j < length c"
  shows "parent (c ! j) \<noteq> Some i"
proof -
  from assms(1) obtain n where "\<And>j. j < length c \<Longrightarrow> entry_ok c np n j" by (rule tinvE) blast
  then show ?thesis using entry_okD(4) [of c np n j i] assms(3,4) by (auto simp: live_def)
qed

lemma tinv_free:
  assumes inv: "tinv c np ini" and i: "i < length c" "state (c ! i) = ZOMBIE \<or> state (c ! i) = UNUSED"
    and p: "state p = UNUSED" "pid p = 0" "parent p = None" and np: "np \<le> np'"
  shows "tinv (c[i := p]) np' ini"
proof -
  from inv obtain n where n: "ini = Some n" "n < length c" "live (c ! n)" "\<And>j. j < length c \<Longrightarrow> entry_ok c np n j"
    "length c = NPROC" "1 \<le> np" "unique_keys (\<lambda>p. state p \<noteq> UNUSED) pid c" by (rule tinvE) blast
  have nth: "c[i := p] ! j = (if j = i then p else c ! j)" for j using i(1) by (simp add: nth_list_update_if)
  have ni: "n \<noteq> i" using n(3) i(2) by (auto simp: live_def)
  have "entry_ok (c[i := p]) np' n j" if j: "j < length (c[i := p])" for j
  proof (cases "j = i")
    case True
    then show ?thesis using p by (intro entry_okI) (auto simp: nth asleep_on_def)
  next
    case False
    note e = entry_okD [OF n(4) [of j]]
    show ?thesis
    proof (rule entry_okI)
      fix q assume "parent (c[i := p] ! j) = Some q"
      then have "q < length c" "live (c ! q)" using e(4) [of q] False j by (auto simp: nth)
      then show "q < length (c[i := p]) \<and> live (c[i := p] ! q)" using i(2) by (auto simp: nth live_def)
    next
      fix q assume "asleep_on (ChanProc q) (c[i := p] ! j)"
      then show "q = j \<and> (\<forall>k<length (c[i := p]). parent (c[i := p] ! k) = Some j \<longrightarrow> state (c[i := p] ! k) \<noteq> ZOMBIE)"
        using e(5,6) False j p(3) by (auto simp: nth)
    qed (use e(1-3) False j np in \<open>auto simp: nth\<close>)
  qed
  moreover have "unique_keys (\<lambda>p. state p \<noteq> UNUSED) pid (c[i := p])"
    using n(7) p by (intro unique_keys_update) auto
  ultimately show ?thesis
    unfolding n(1) using n np ni by (intro tinvI) (auto simp: nth)
qed

text \<open>A new process in an unused entry, with the next process id and a live parent.\<close>

lemma tinv_spawn:
  assumes inv: "tinv c np ini" and i: "i < length c" "state (c ! i) = UNUSED"
    and p: "state p = RUNNABLE" "pid p = np" "parent p = Some me" and me: "me < length c" "live (c ! me)"
  shows "tinv (c[i := p]) (np + 1) ini"
proof -
  from inv obtain n where n: "ini = Some n" "n < length c" "live (c ! n)" "\<And>j. j < length c \<Longrightarrow> entry_ok c np n j"
    "length c = NPROC" "1 \<le> np" "unique_keys (\<lambda>p. state p \<noteq> UNUSED) pid c" by (rule tinvE) blast
  have nth: "c[i := p] ! j = (if j = i then p else c ! j)" for j using i(1) by (simp add: nth_list_update_if)
  have lv: "live (c ! j) \<Longrightarrow> live (c[i := p] ! j)" for j using p by (auto simp: nth live_def)
  have "entry_ok (c[i := p]) (np + 1) n j" if j: "j < length (c[i := p])" for j
  proof (cases "j = i")
    case True
    then show ?thesis using p n(6) me lv by (intro entry_okI) (auto simp: nth asleep_on_def)
  next
    case False
    note e = entry_okD [OF n(4) [of j]]
    have z: "parent (c[i := p] ! k) = Some j \<longrightarrow> state (c[i := p] ! k) \<noteq> ZOMBIE"
      if "asleep_on (ChanProc q) (c ! j)" "k < length c" for q k
      using e(6) [OF _ that] j p(1) by (auto simp: nth)
    show ?thesis
    proof (rule entry_okI)
      fix q assume "parent (c[i := p] ! j) = Some q"
      then show "q < length (c[i := p]) \<and> live (c[i := p] ! q)" using e(4) [of q] False j lv by (auto simp: nth)
    next
      fix q assume "asleep_on (ChanProc q) (c[i := p] ! j)"
      then have a: "asleep_on (ChanProc q) (c ! j)" using False by (simp add: nth)
      then show "q = j \<and> (\<forall>k<length (c[i := p]). parent (c[i := p] ! k) = Some j \<longrightarrow> state (c[i := p] ! k) \<noteq> ZOMBIE)"
        using e(5) j z [OF a] by auto
    qed (use e(1-3) False j in \<open>auto simp: nth\<close>)
  qed
  moreover have "unique_keys (\<lambda>p. state p \<noteq> UNUSED) pid (c[i := p])"
  proof (rule unique_keys_claim [OF n(7)], intro ballI impI)
    fix y assume "y \<in> set c" "state y \<noteq> UNUSED"
    then obtain k where "k < length c" "y = c ! k" by (auto simp: in_set_conv_nth)
    then show "pid y \<noteq> pid p" using entry_okD(2) [OF n(4)] \<open>state y \<noteq> UNUSED\<close> p(2) by fastforce
  qed
  ultimately show ?thesis
    unfolding n(1) using n lv by (intro tinvI) auto
qed

subsection \<open>Exit\<close>

definition proc_chan :: "nat option \<Rightarrow> chan" where
  "proc_chan q = (case q of None \<Rightarrow> Chan0 | Some i \<Rightarrow> ChanProc i)"

lemma wake_one_idem: "wake_one ch (wake_one ch p) = wake_one ch p"
  by (simp add: wake_one_def)

lemma wake_one_parent: "wake_one ch (p\<lparr>parent := q\<rparr>) = (wake_one ch p)\<lparr>parent := q\<rparr>"
  by (simp add: wake_one_def)

lemma length_reparent_from [simp]: "length (reparent_from is me ini ps) = length ps"
  by (induction "is" me ini ps rule: reparent_from.induct) auto

text \<open>The scan of \<^verbatim>\<open>reparent\<close>: children go to init, and init is woken if there was one.\<close>

lemma nth_reparent_from:
  assumes "distinct is" and "\<forall>i\<in>set is. i < length ps" and "ini \<noteq> Some me" and "j < length ps"
  shows "reparent_from is me ini ps ! j =
    (let p = (if j \<in> set is \<and> parent (ps ! j) = Some me then (ps ! j)\<lparr>parent := ini\<rparr> else ps ! j)
     in if (\<exists>k\<in>set is. parent (ps ! k) = Some me) \<and> j \<noteq> me then wake_one (proc_chan ini) p else p)"
  using assms(1,2,4)
proof (induction "is" arbitrary: ps)
  case Nil
  then show ?case by simp
next
  case (Cons i "is")
  show ?case
  proof (cases "parent (ps ! i) = Some me")
    case False
    then show ?thesis using Cons by (auto simp: Let_def)
  next
    case True
    let ?ps = "wakeup me (proc_chan ini) (ps[i := (ps ! i)\<lparr>parent := ini\<rparr>])"
    have i: "i < length ps" "i \<notin> set is" using Cons.prems by auto
    have par: "parent (?ps ! k) = Some me \<longleftrightarrow> k \<noteq> i \<and> parent (ps ! k) = Some me" if "k < length ps" for k
      using that i assms(3) by (auto simp: nth_wakeup nth_list_update_if)
    have r: "reparent_from (i # is) me ini ps = reparent_from is me ini ?ps" using True by (simp add: proc_chan_def)
    have IH: "reparent_from is me ini ?ps ! j =
      (let p = (if j \<in> set is \<and> parent (?ps ! j) = Some me then (?ps ! j)\<lparr>parent := ini\<rparr> else ?ps ! j)
       in if (\<exists>k\<in>set is. parent (?ps ! k) = Some me) \<and> j \<noteq> me then wake_one (proc_chan ini) p else p)"
      using Cons.IH [of ?ps] Cons.prems by simp
    have nth: "?ps ! j = (let p = (if j = i then (ps ! i)\<lparr>parent := ini\<rparr> else ps ! j) in if j \<noteq> me then wake_one (proc_chan ini) p else p)"
      using Cons.prems(3) by (simp add: nth_wakeup nth_list_update_if)
    show ?thesis
    proof (cases "j = i")
      case True
      then show ?thesis
        unfolding r IH nth Let_def using i assms(3) \<open>parent (ps ! i) = Some me\<close>
        by (cases "j = me") (simp_all add: wake_one_idem)
    next
      case False
      have pj: "parent (?ps ! j) = Some me \<longleftrightarrow> parent (ps ! j) = Some me" using par [OF Cons.prems(3)] False by simp
      show ?thesis
      proof (cases "j \<in> set is \<and> parent (ps ! j) = Some me")
        case True
        then show ?thesis
          unfolding r IH pj nth Let_def using False \<open>parent (ps ! i) = Some me\<close>
          by (cases "j = me") (simp_all add: wake_one_idem wake_one_parent)
      next
        case nc: False
        then show ?thesis
          unfolding r IH pj nth Let_def using False \<open>parent (ps ! i) = Some me\<close>
          by (cases "j = me"; cases "j \<in> set is") (simp_all add: wake_one_idem)
      qed
    qed
  qed
qed

lemma nth_reparent:
  assumes "ini \<noteq> Some me" and "j < length ps"
  shows "reparent me ini ps ! j =
    (let p = (if parent (ps ! j) = Some me then (ps ! j)\<lparr>parent := ini\<rparr> else ps ! j)
     in if (\<exists>k<length ps. parent (ps ! k) = Some me) \<and> j \<noteq> me then wake_one (proc_chan ini) p else p)"
  unfolding reparent_def using nth_reparent_from [of "[0..<length ps]" ps ini me j] assms
  by (auto simp: Let_def)

text \<open>The protected part of \<^verbatim>\<open>kexit\<close>: reparent, wake the parent, become a zombie.\<close>

definition exit_table :: "nat \<Rightarrow> nat option \<Rightarrow> int \<Rightarrow> proc list \<Rightarrow> proc list" where
  "exit_table me ini status c =
     (let c1 = reparent me ini c; c2 = wakeup me (proc_chan (parent (c1 ! me))) c1
      in c2[me := (c2 ! me)\<lparr>xstate := status, state := ZOMBIE\<rparr>])"

lemma length_exit_table [simp]: "length (exit_table me ini status c) = length c"
  by (simp add: exit_table_def Let_def reparent_def)

lemma exit_table_nth:
  assumes "ini \<noteq> Some me" and "j < length c" and "me < length c"
  shows "pid (exit_table me ini status c ! j) = pid (c ! j)"
    and "parent (exit_table me ini status c ! j) = (if parent (c ! j) = Some me then ini else parent (c ! j))"
    and "state (exit_table me ini status c ! j) =
      (if j = me then ZOMBIE
       else if state (c ! j) = SLEEPING \<and> ((\<exists>k<length c. parent (c ! k) = Some me) \<and> chan (c ! j) = proc_chan ini \<or>
          chan (c ! j) = proc_chan (if parent (c ! me) = Some me then ini else parent (c ! me))) then RUNNABLE
       else state (c ! j))"
    and "chan (exit_table me ini status c ! j) = chan (c ! j)"
  using assms
  by (auto simp: exit_table_def Let_def nth_list_update_if nth_wakeup nth_reparent reparent_def [THEN arg_cong [where f = length]] wake_one_def)

lemma tinv_exit:
  assumes inv: "tinv c np ini" and me: "me < length c" "live (c ! me)" "ini \<noteq> Some me"
  shows "tinv (exit_table me ini status c) np ini"
proof -
  from inv obtain n where n: "ini = Some n" "n < length c" "live (c ! n)" "\<And>j. j < length c \<Longrightarrow> entry_ok c np n j"
    "length c = NPROC" "1 \<le> np" "unique_keys (\<lambda>p. state p \<noteq> UNUSED) pid c" by (rule tinvE) blast
  have nm: "n \<noteq> me" using n(1) me(3) by auto
  let ?c = "exit_table me ini status c"
  note x = exit_table_nth [OF me(3) _ me(1), of _ status]
  have un: "state (?c ! j) = UNUSED \<longleftrightarrow> state (c ! j) = UNUSED" if "j < length c" for j
    using x(3) [OF that] me(2) by (auto simp: live_def)
  have lv: "live (?c ! j) \<longleftrightarrow> j \<noteq> me \<and> live (c ! j)" if "j < length c" for j
    using x(3) [OF that] by (auto simp: live_def)
  have "entry_ok ?c np n j" if "j < length ?c" for j
  proof -
    have j: "j < length c" using that by simp
    note e = entry_okD [OF n(4) [OF j]]
    show ?thesis
    proof (rule entry_okI)
      fix q assume "parent (?c ! j) = Some q"
      then have "q = n \<or> q \<noteq> me \<and> parent (c ! j) = Some q" using x(2) [OF j] n(1) by (auto split: if_splits)
      then show "q < length ?c \<and> live (?c ! q)" using e(4) [of q] lv n(2,3) nm by auto
    next
      fix q assume as: "asleep_on (ChanProc q) (?c ! j)"
      then have jm: "j \<noteq> me" using x(3) [OF j] by (auto simp: asleep_on_def)
      have st: "state (c ! j) = SLEEPING" "chan (c ! j) = ChanProc q"
        and nw: "\<not> ((\<exists>k<length c. parent (c ! k) = Some me) \<and> chan (c ! j) = proc_chan ini)"
          "chan (c ! j) \<noteq> proc_chan (if parent (c ! me) = Some me then ini else parent (c ! me))"
        using as x(3,4) [OF j] jm by (auto simp: asleep_on_def split: if_splits)
      then have a: "asleep_on (ChanProc q) (c ! j)" by (simp add: asleep_on_def)
      have q: "q = j" using e(5) [OF a] .
      have "state (?c ! k) \<noteq> ZOMBIE" if k: "k < length c" "parent (?c ! k) = Some j" for k
      proof (cases "k = me")
        case True
        then have "(if parent (c ! me) = Some me then ini else parent (c ! me)) = Some j" using k x(2) [OF me(1)] by simp
        then show ?thesis using nw(2) st(2) q by (simp add: proc_chan_def)
      next
        case False
        show ?thesis
        proof (cases "parent (c ! k) = Some me")
          case True
          then have "ini = Some j" using x(2) [OF k(1)] k(2) by simp
          then show ?thesis using nw(1) True k(1) st(2) q by (auto simp: proc_chan_def)
        next
          case f: False
          then have "state (c ! k) \<noteq> ZOMBIE" using e(6) [OF a k(1)] x(2) [OF k(1)] k(2) by simp
          then show ?thesis using x(3) [OF k(1)] False by auto
        qed
      qed
      then show "q = j \<and> (\<forall>k<length ?c. parent (?c ! k) = Some j \<longrightarrow> state (?c ! k) \<noteq> ZOMBIE)" using q by simp
    qed (use e(1-3) un [OF j] x(1,2) [OF j] n(1) in auto)
  qed
  moreover have "unique_keys (\<lambda>p. state p \<noteq> UNUSED) pid ?c"
    using n(7) un x(1) unfolding unique_keys_def by simp
  ultimately show ?thesis
    unfolding n(1) [symmetric] using n lv nm unfolding n(1) by (intro tinvI) auto
qed

subsection \<open>The operations on the protected fields\<close>

abbreviation trunc :: "'a proc_scheme \<Rightarrow> proc" where
  "trunc \<equiv> proc.truncate"

lemma trunc_simps [simp]:
  "state (trunc p) = state p" "chan (trunc p) = chan p" "killed_flag (trunc p) = killed_flag p"
  "xstate (trunc p) = xstate p" "pid (trunc p) = pid p" "parent (trunc p) = parent p"
  "trunc (p\<lparr>state := x1\<rparr>) = (trunc p)\<lparr>state := x1\<rparr>" "trunc (p\<lparr>chan := x2\<rparr>) = (trunc p)\<lparr>chan := x2\<rparr>"
  "trunc (p\<lparr>killed_flag := x3\<rparr>) = (trunc p)\<lparr>killed_flag := x3\<rparr>" "trunc (p\<lparr>xstate := x4\<rparr>) = (trunc p)\<lparr>xstate := x4\<rparr>"
  "trunc (p\<lparr>pid := x5\<rparr>) = (trunc p)\<lparr>pid := x5\<rparr>" "trunc (p\<lparr>parent := x6\<rparr>) = (trunc p)\<lparr>parent := x6\<rparr>"
  by (simp_all add: proc.truncate_def)

lemma trunc_kproc [simp]:
  "trunc (p\<lparr>kstack := y1\<rparr>) = trunc p" "trunc (p\<lparr>sz := y2\<rparr>) = trunc p" "trunc (p\<lparr>pagetable := y3\<rparr>) = trunc p"
  "trunc (p\<lparr>trapframe_pa := y4\<rparr>) = trunc p" "trunc (p\<lparr>tf := y5\<rparr>) = trunc p" "trunc (p\<lparr>context_ra := y6\<rparr>) = trunc p"
  "trunc (p\<lparr>context_sp := y7\<rparr>) = trunc p" "trunc (p\<lparr>ofile := y8\<rparr>) = trunc p" "trunc (p\<lparr>cwd := y9\<rparr>) = trunc p"
  "trunc (p\<lparr>pname := y10\<rparr>) = trunc p"
  by (simp_all add: proc.truncate_def)

lemma trunc_wake_one: "trunc (wake_one ch p) = wake_one ch (trunc p)"
  by (simp add: wake_one_def)

lemma map_trunc_wakeup: "map trunc (wakeup me ch ps) = wakeup me ch (map trunc ps)"
  unfolding wakeup_def by (induction me ch ps rule: wakeup_from.induct) (auto simp: trunc_wake_one)

lemma map_trunc_reparent_from:
  "\<forall>i\<in>set is. i < length ps \<Longrightarrow> map trunc (reparent_from is me ini ps) = reparent_from is me ini (map trunc ps)"
proof (induction "is" arbitrary: ps)
  case Nil
  then show ?case by simp
next
  case (Cons i "is")
  then show ?case by (simp add: map_trunc_wakeup map_update)
qed

lemma map_trunc_reparent: "map trunc (reparent me ini ps) = reparent me ini (map trunc ps)"
  unfolding reparent_def by (subst map_trunc_reparent_from) auto

lemma length_core [simp]: "length (core s) = length (procs s)"
  by (simp add: core_def)

lemma nth_core: "i < length (procs s) \<Longrightarrow> core s ! i = trunc (procs s ! i)"
  by (simp add: core_def)

lemma core_upd [simp]:
  "core (upd_proc i f s) = (core s)[i := trunc (f (procs s ! i))]"
  "core (upd_world g s) = core s"
  "core (s\<lparr>world := w\<rparr>) = core s"
  "core (s\<lparr>shms := rs\<rparr>) = core s"
  "core (s\<lparr>nextpid := np\<rparr>) = core s"
  "core (s\<lparr>initproc := ini\<rparr>) = core s"
  by (simp_all add: core_def upd_proc_def upd_world_def map_update)

lemma upd_simps [simp]:
  "nextpid (upd_proc i f s) = nextpid s" "initproc (upd_proc i f s) = initproc s" "world (upd_proc i f s) = world s"
  "nextpid (upd_world g s) = nextpid s" "initproc (upd_world g s) = initproc s" "procs (upd_world g s) = procs s"
  "length (procs (upd_proc i f s)) = length (procs s)"
  "i < length (procs s) \<Longrightarrow> procs (upd_proc i f s) ! i = f (procs s ! i)"
  by (simp_all add: upd_proc_def upd_world_def)

definition blank :: "proc \<Rightarrow> bool" where
  "blank p \<longleftrightarrow> state p = UNUSED \<and> pid p = 0 \<and> parent p = None"

lemma lab_okD:
  assumes "lab_ok L"
  shows "trunc (lab_alloc L p) = trunc p" and "trunc (lab_fork L p np) = trunc np"
    and "procs (lab_free L K i s) = procs s" and "nextpid (lab_free L K i s) = nextpid s"
    and "initproc (lab_free L K i s) = initproc s"
  using assms by (auto simp: lab_ok_def)

lemma freeproc_core:
  assumes "lab_ok L" and "i < length (procs s)"
  shows "\<exists>p. blank p \<and> core (freeproc L K i s) = (core s)[i := p]" and "nextpid (freeproc L K i s) = nextpid s"
    and "initproc (freeproc L K i s) = initproc s" and "length (procs (freeproc L K i s)) = length (procs s)"
proof -
  have c: "core (lab_free L K i s') = core s'" for s' using lab_okD(3) [OF assms(1)] by (simp add: core_def)
  show "\<exists>p. blank p \<and> core (freeproc L K i s) = (core s)[i := p]"
    using assms(2) by (auto simp: freeproc_def Let_def c blank_def intro!: exI [of _ "_\<lparr>state := UNUSED\<rparr>"])
  show "nextpid (freeproc L K i s) = nextpid s" "initproc (freeproc L K i s) = initproc s"
    "length (procs (freeproc L K i s)) = length (procs s)"
    using lab_okD(3,4,5) [OF assms(1)] by (auto simp: freeproc_def Let_def)
qed

text \<open>
  \<^verbatim>\<open>allocproc\<close> either fails, leaving at most one unused entry blanked, or claims the first unused entry
  with a fresh process id.
\<close>

definition failed_alloc :: "('w, 'a) kstate \<Rightarrow> ('w, 'a) kstate \<Rightarrow> bool" where
  "failed_alloc s s' \<longleftrightarrow> initproc s' = initproc s \<and> nextpid s \<le> nextpid s' \<and>
     (core s' = core s \<or> (\<exists>i<length (procs s). \<exists>p. state (core s ! i) = UNUSED \<and> blank p \<and> core s' = (core s)[i := p]))"

definition alloc_claim :: "('w, 'a) lab \<Rightarrow> nat \<Rightarrow> ('w, 'a) kstate \<Rightarrow> ('w, 'a) kstate" where
  "alloc_claim L i s = upd_proc i (\<lambda>p. lab_alloc L (p\<lparr>pid := nextpid s, state := USED\<rparr>)) (s\<lparr>nextpid := nextpid s + 1\<rparr>)"

lemma allocproc_eq:
  assumes "find_idx (\<lambda>p. state p = UNUSED) (procs s) = Some i" and "kalloc (vm K) (world s) = (pa, w)"
    and "proc_pagetable K pa w = (pt, w1)"
  shows "allocproc L K s =
    (let s3 = upd_proc i (\<lambda>p. p\<lparr>trapframe_pa := pa\<rparr>) ((alloc_claim L i s)\<lparr>world := w\<rparr>);
         s4 = upd_proc i (\<lambda>p. p\<lparr>pagetable := pt\<rparr>) (s3\<lparr>world := w1\<rparr>)
     in if pa = 0 then (None, freeproc L K i s3)
        else if pt = 0 then (None, freeproc L K i s4)
        else (Some i, upd_proc i (\<lambda>p. p\<lparr>context_ra := forkret_pc K, context_sp := kstack p + PGSIZE\<rparr>) s4))"
  using assms by (simp add: allocproc_def allocpid_def Let_def alloc_claim_def)

lemma allocproc_core:
  assumes L: "lab_ok L" and r: "allocproc L K s = (r, s')"
  shows "case r of
      None \<Rightarrow> failed_alloc s s'
    | Some i \<Rightarrow> find_idx (\<lambda>p. state p = UNUSED) (procs s) = Some i \<and> i < length (procs s) \<and> state (core s ! i) = UNUSED \<and>
        core s' = (core s)[i := (core s ! i)\<lparr>pid := nextpid s, state := USED\<rparr>] \<and> nextpid s' = nextpid s + 1 \<and>
        initproc s' = initproc s \<and> length (procs s') = length (procs s)"
proof (cases "find_idx (\<lambda>p. state p = UNUSED) (procs s)")
  case None
  then show ?thesis using r by (auto simp: allocproc_def failed_alloc_def)
next
  case (Some i)
  then have i: "i < length (procs s)" "state (procs s ! i) = UNUSED" by (auto dest: find_idx_SomeD)
  obtain pa w where k: "kalloc (vm K) (world s) = (pa, w)" by fastforce
  obtain pt w1 where q: "proc_pagetable K pa w = (pt, w1)" by fastforce
  define s2 where "s2 = alloc_claim L i s"
  define s3 where "s3 = upd_proc i (\<lambda>p. p\<lparr>trapframe_pa := pa\<rparr>) (s2\<lparr>world := w\<rparr>)"
  define s4 where "s4 = upd_proc i (\<lambda>p. p\<lparr>pagetable := pt\<rparr>) (s3\<lparr>world := w1\<rparr>)"
  have len: "length (procs s2) = length (procs s)" "length (procs s3) = length (procs s)" "length (procs s4) = length (procs s)"
    by (simp_all add: s2_def s3_def s4_def alloc_claim_def)
  have c2: "core s2 = (core s)[i := (core s ! i)\<lparr>pid := nextpid s, state := USED\<rparr>]"
    using lab_okD(1) [OF L] i(1) by (simp add: s2_def alloc_claim_def nth_core)
  have c3: "core s3 = core s2" "core s4 = core s2"
    using i(1) len by (simp_all add: s3_def s4_def list_update_id flip: nth_core)
  have np: "nextpid s3 = nextpid s + 1" "nextpid s4 = nextpid s + 1" "initproc s3 = initproc s" "initproc s4 = initproc s"
    by (simp_all add: s2_def s3_def s4_def alloc_claim_def)
  have a: "allocproc L K s = (if pa = 0 then (None, freeproc L K i s3)
      else if pt = 0 then (None, freeproc L K i s4)
      else (Some i, upd_proc i (\<lambda>p. p\<lparr>context_ra := forkret_pc K, context_sp := kstack p + PGSIZE\<rparr>) s4))"
    using allocproc_eq [OF Some k q, of L] by (simp only: Let_def s2_def s3_def s4_def)
  have fail: "failed_alloc s (freeproc L K i t)" if "core t = core s2" "nextpid t = nextpid s + 1" "initproc t = initproc s" "length (procs t) = length (procs s)" for t
    using freeproc_core [OF L, of i t K] that i c2 by (auto simp: failed_alloc_def nth_core)
  have c5: "core (upd_proc i (\<lambda>p. p\<lparr>context_ra := forkret_pc K, context_sp := kstack p + PGSIZE\<rparr>) s4) = core s2"
    using i(1) len c3(2) by (simp add: list_update_id flip: nth_core)
  show ?thesis
  proof (cases "pa = 0 \<or> pt = 0")
    case True
    then show ?thesis
      using r a fail [OF c3(1) np(1,3) len(2)] fail [OF c3(2) np(2,4) len(3)] by (auto split: if_splits)
  next
    case False
    then have "r = Some i" "s' = upd_proc i (\<lambda>p. p\<lparr>context_ra := forkret_pc K, context_sp := kstack p + PGSIZE\<rparr>) s4"
      using r a by auto
    then show ?thesis using Some i c5 c2 np len by (simp add: nth_core)
  qed
qed

lemma pinv_failed_alloc: "pinv s \<Longrightarrow> failed_alloc s s' \<Longrightarrow> pinv s'"
proof -
  assume inv: "pinv s" and f: "failed_alloc s s'"
  from f consider "core s' = core s" | i p where "i < length (core s)" "state (core s ! i) = UNUSED" "blank p" "core s' = (core s)[i := p]"
    by (auto simp: failed_alloc_def)
  then show "pinv s'"
  proof cases
    case 1
    from inv [unfolded pinv_def] obtain n where n: "initproc s = Some n" "n < length (core s)" "live (core s ! n)"
      "\<And>j. j < length (core s) \<Longrightarrow> entry_ok (core s) (nextpid s) n j" "length (core s) = NPROC" "1 \<le> nextpid s"
      "unique_keys (\<lambda>p. state p \<noteq> UNUSED) pid (core s)" by (rule tinvE) blast
    have "entry_ok (core s) (nextpid s') n j" if "j < length (core s)" for j
      using entry_okD [OF n(4) [OF that]] f by (intro entry_okI) (auto simp: failed_alloc_def)
    then show ?thesis
      unfolding pinv_def 1 using n f by (auto simp: failed_alloc_def intro!: tinvI)
  next
    case 2
    then show ?thesis
      using tinv_free [OF inv [unfolded pinv_def] 2(1)] f unfolding pinv_def by (auto simp: failed_alloc_def blank_def)
  qed
qed

definition fork_copy :: "nat \<Rightarrow> 'a kproc_scheme \<Rightarrow> ('w, 'a) kstate \<Rightarrow> ('w, 'a) kstate" where
  "fork_copy n p = upd_proc n (\<lambda>np. np\<lparr>sz := sz p, tf := (tf p)\<lparr>uregs := (uregs (tf p))(a0 := 0)\<rparr>\<rparr>)"

lemma kfork_eq:
  assumes a: "allocproc L K s = (Some n, s1)" and s2: "s2 = upd_proc n (lab_fork L (procs s1 ! me)) s1"
    and cp: "uvmcopy K (pagetable (procs s1 ! me)) (pagetable (procs s2 ! n)) (sz (procs s1 ! me)) (world s1) = (u, w)"
    and s4: "s4 = fork_copy n (procs s1 ! me) (s2\<lparr>world := w\<rparr>)"
    and fs: "dup_files K (ofile (procs s1 ! me)) (ofile (procs s4 ! n)) w = (fs, w1)"
    and c: "inode_dup K (cwd (procs s1 ! me)) w1 = (c, w2)"
    and s5: "s5 = upd_proc n (\<lambda>np. np\<lparr>ofile := fs, cwd := c, pname := pname (procs s1 ! me)\<rparr>) (s4\<lparr>world := w2\<rparr>)"
  shows "kfork L K me s =
    (if u < 0 then (- 1, freeproc L K n (s2\<lparr>world := w\<rparr>))
     else (pid (procs s5 ! n), upd_proc n (\<lambda>np. np\<lparr>parent := Some me, state := RUNNABLE\<rparr>) s5))"
proof -
  have w2: "world s2 = world s1" "world s4 = w" by (simp_all add: s2 s4 fork_copy_def)
  show ?thesis
    unfolding kfork_def a using cp fs c w2
    by (simp add: Let_def s5 flip: s2) (simp add: s4 fork_copy_def)
qed

lemma kfork_core:
  assumes L: "lab_ok L" and r: "kfork L K me s = (r, s')"
  shows "r = - 1 \<and> failed_alloc s s' \<or>
    r = nextpid s \<and> initproc s' = initproc s \<and> nextpid s' = nextpid s + 1 \<and>
    (\<exists>n. find_idx (\<lambda>p. state p = UNUSED) (procs s) = Some n \<and>
       core s' = (core s)[n := (core s ! n)\<lparr>pid := nextpid s, parent := Some me, state := RUNNABLE\<rparr>])"
proof -
  obtain q s1 where a: "allocproc L K s = (q, s1)" by fastforce
  show ?thesis
  proof (cases q)
    case None
    then show ?thesis using r a allocproc_core [OF L a] by (simp add: kfork_def)
  next
    case (Some n)
    note c1 = allocproc_core [OF L a, unfolded Some, simplified]
    have n: "n < length (procs s1)" "n < length (core s)" using c1 by auto
    let ?p = "procs s1 ! me"
    define s2 where "s2 = upd_proc n (lab_fork L ?p) s1"
    obtain u w where cp: "uvmcopy K (pagetable ?p) (pagetable (procs s2 ! n)) (sz ?p) (world s1) = (u, w)" by fastforce
    have s2: "core s2 = core s1" "length (procs s2) = length (procs s1)" "nextpid s2 = nextpid s1" "initproc s2 = initproc s1"
      using lab_okD(2) [OF L] n by (simp_all add: s2_def list_update_id flip: nth_core)
    show ?thesis
    proof (cases "u < 0")
      case True
      then have s': "s' = freeproc L K n (s2\<lparr>world := w\<rparr>)" "r = - 1"
        using r a Some cp by (simp_all add: kfork_def Let_def s2_def)
      have "failed_alloc s s'"
        using freeproc_core [OF L, of n "s2\<lparr>world := w\<rparr>" K] n s2 c1 by (auto simp: s' failed_alloc_def)
      then show ?thesis using s'(2) by simp
    next
      case False
      define s4 where "s4 = upd_proc n (\<lambda>np. np\<lparr>sz := sz ?p, tf := (tf ?p)\<lparr>uregs := (uregs (tf ?p))(a0 := 0)\<rparr>\<rparr>) (s2\<lparr>world := w\<rparr>)"
      obtain fs w1 where fs: "dup_files K (ofile ?p) (ofile (procs s4 ! n)) w = (fs, w1)" by fastforce
      obtain c w2 where c: "inode_dup K (cwd ?p) w1 = (c, w2)" by fastforce
      define s5 where "s5 = upd_proc n (\<lambda>np. np\<lparr>ofile := fs, cwd := c, pname := pname ?p\<rparr>) (s4\<lparr>world := w2\<rparr>)"
      have w4: "world s4 = w" by (simp add: s4_def)
      have res: "r = pid (procs s5 ! n) \<and> s' = upd_proc n (\<lambda>np. np\<lparr>parent := Some me, state := RUNNABLE\<rparr>) s5"
        using r a Some cp False fs c w4 by (simp add: kfork_def Let_def s4_def s5_def s2_def)
      have s5: "r = pid (procs s5 ! n)" "s' = upd_proc n (\<lambda>np. np\<lparr>parent := Some me, state := RUNNABLE\<rparr>) s5"
        "core s5 = core s2" "length (procs s5) = length (procs s2)" "nextpid s5 = nextpid s2" "initproc s5 = initproc s2"
        using res n s2(2) by (simp_all add: s4_def s5_def list_update_id flip: nth_core)
      have t5: "trunc (procs s5 ! n) = core s5 ! n" by (subst nth_core) (use n s5(4) s2(2) in auto)
      then have "pid (procs s5 ! n) = nextpid s" using n c1 by (metis s2(1) s5(3) nth_list_update_eq proc.select_convs(5) proc.surjective proc.update_convs trunc_simps(5))
      then show ?thesis using n c1 t5 by (simp add: s5 s2)
    qed
  qed
qed

lemma kfork_pinv:
  assumes L: "lab_ok L" and inv: "pinv s" and me: "me < length (procs s)" "state (procs s ! me) = RUNNING"
    and r: "kfork L K me s = (r, s')"
  shows "pinv s'"
  using kfork_core [OF L r]
proof (elim disjE conjE exE)
  assume "failed_alloc s s'"
  then show ?thesis using pinv_failed_alloc [OF inv] by simp
next
  fix n assume f: "find_idx (\<lambda>p. state p = UNUSED) (procs s) = Some n"
    and c: "core s' = (core s)[n := (core s ! n)\<lparr>pid := nextpid s, parent := Some me, state := RUNNABLE\<rparr>]"
    and np: "initproc s' = initproc s" "nextpid s' = nextpid s + 1"
  have n: "n < length (procs s)" "state (procs s ! n) = UNUSED" using find_idx_SomeD [OF f] by auto
  show ?thesis
    unfolding pinv_def c np
    by (rule tinv_spawn [OF inv [unfolded pinv_def], where me = me]) (use n me in \<open>auto simp: nth_core live_def\<close>)
qed

lemma kexit_pinv:
  assumes inv: "pinv s" and me: "me < length (procs s)" "state (procs s ! me) = RUNNING"
    and r: "kexit K me status s = Some s'"
  shows "pinv s'" and "core s' = exit_table me (initproc s) status (core s)"
proof -
  have ini: "initproc s \<noteq> Some me" using r by (auto simp: kexit_def)
  obtain fs w where cf: "close_files K (ofile (procs s ! me)) (world s) = (fs, w)" by fastforce
  define s1 where "s1 = upd_proc me (\<lambda>p. p\<lparr>ofile := fs, cwd := 0\<rparr>) (s\<lparr>world := inode_put K (cwd (procs s ! me)) w\<rparr>)"
  have c1: "core s1 = core s" using me(1) by (simp add: s1_def list_update_id flip: nth_core)
  have i1: "initproc s1 = initproc s" "nextpid s1 = nextpid s" "length (procs s1) = length (procs s)" by (simp_all add: s1_def)
  define ps2 where "ps2 = reparent me (initproc s) (procs s1)"
  define ps3 where "ps3 = wakeup me (proc_chan (parent (ps2 ! me))) ps2"
  have s': "s' = upd_proc me (\<lambda>p. p\<lparr>xstate := status, state := ZOMBIE\<rparr>) (s1\<lparr>procs := ps3\<rparr>)"
    using r ini cf by (simp add: kexit_def Let_def proc_chan_def ps3_def ps2_def s1_def)
  have len: "length ps2 = length (procs s)" using i1 by (simp add: ps2_def reparent_def)
  have m2: "map trunc ps2 = reparent me (initproc s) (core s)"
    unfolding ps2_def map_trunc_reparent using c1 by (simp add: core_def)
  have m3: "map trunc ps3 = wakeup me (proc_chan (parent (reparent me (initproc s) (core s) ! me))) (reparent me (initproc s) (core s))"
    unfolding ps3_def map_trunc_wakeup m2 using me(1) len by (simp flip: m2)
  have "core s' = (map trunc ps3)[me := (map trunc ps3 ! me)\<lparr>xstate := status, state := ZOMBIE\<rparr>]"
    using me(1) len by (simp add: s' core_def upd_proc_def map_update ps3_def)
  then show c: "core s' = exit_table me (initproc s) status (core s)"
    unfolding m3 by (simp add: exit_table_def Let_def)
  show "pinv s'"
    using tinv_exit [OF inv [unfolded pinv_def], of me status] me ini i1 unfolding pinv_def c
    by (simp add: s' nth_core live_def)
qed

lemma sleep_enter_core: "core (s\<lparr>procs := sleep_enter me ch (procs s)\<rparr>) = sleep_enter me ch (core s)"
  if "me < length (procs s)"
  using that by (simp add: core_def sleep_enter_def map_update)

lemma kwait_cases:
  assumes "kwait L K me addr s = (r, s')"
  obtains (reap) i w where "i < length (procs s)" "parent (procs s ! i) = Some me" "state (procs s ! i) = ZOMBIE"
      "\<forall>j<i. \<not> (parent (procs s ! j) = Some me \<and> state (procs s ! j) = ZOMBIE)"
      "r = Ret (pid (procs s ! i))" "s' = freeproc L K i (s\<lparr>world := w\<rparr>)"
  | (fail) w where "r = Ret (- 1)" "s' = s\<lparr>world := w\<rparr>"
      "(\<exists>pp\<in>set (procs s). parent pp = Some me \<and> state pp = ZOMBIE) \<longrightarrow> addr \<noteq> 0"
      "(\<forall>pp\<in>set (procs s). parent pp = Some me \<longrightarrow> state pp \<noteq> ZOMBIE) \<longrightarrow>
        (\<forall>pp\<in>set (procs s). parent pp \<noteq> Some me) \<or> killed me (procs s)"
  | (sleep) "r = Sleep" "s' = s\<lparr>procs := sleep_enter me (ChanProc me) (procs s)\<rparr>"
      "\<forall>pp\<in>set (procs s). parent pp = Some me \<longrightarrow> state pp \<noteq> ZOMBIE"
      "\<exists>pp\<in>set (procs s). parent pp = Some me" "\<not> killed me (procs s)"
proof (cases "find_idx (\<lambda>pp. parent pp = Some me \<and> state pp = ZOMBIE) (procs s)")
  case (Some i)
  obtain u w where c: "(if addr \<noteq> 0 then copyout_int K (pagetable (procs s ! me)) addr (xstate (procs s ! i)) (world s) else (0, world s)) = (u, w)"
    by fastforce
  have u: "u < 0 \<Longrightarrow> addr \<noteq> 0" using c by (auto split: if_splits)
  have w: "kwait L K me addr s = (if u < 0 then (Ret (- 1), s\<lparr>world := w\<rparr>) else (Ret (pid (procs s ! i)), freeproc L K i (s\<lparr>world := w\<rparr>)))"
    using Some c by (simp add: kwait_def Let_def split del: if_split)
  have i: "i < length (procs s)" "parent (procs s ! i) = Some me" "state (procs s ! i) = ZOMBIE"
    "\<forall>j<i. \<not> (parent (procs s ! j) = Some me \<and> state (procs s ! j) = ZOMBIE)"
    using Some by (auto simp: find_idx_Some)
  show ?thesis
  proof (cases "u < 0")
    case True
    have "\<exists>pp\<in>set (procs s). parent pp = Some me \<and> state pp = ZOMBIE" using i by (meson nth_mem)
    then show ?thesis using fail [of w] assms w True u by auto
  next
    case False
    then show ?thesis using reap [of i w] assms w i by auto
  qed
next
  case None
  then have z: "\<forall>pp\<in>set (procs s). parent pp = Some me \<longrightarrow> state pp \<noteq> ZOMBIE" by (auto simp: find_idx_None)
  show ?thesis
  proof (cases "\<not> (\<exists>pp\<in>set (procs s). parent pp = Some me) \<or> killed me (procs s)")
    case True
    then show ?thesis using fail [of "world s"] assms None z by (auto simp: kwait_def)
  next
    case False
    then show ?thesis using sleep assms None z by (auto simp: kwait_def)
  qed
qed

lemma kwait_pinv:
  assumes L: "lab_ok L" and inv: "pinv s" and me: "me < length (procs s)" "state (procs s ! me) = RUNNING"
    and r: "kwait L K me addr s = (r, s')"
  shows "pinv s'"
  using r
proof (cases rule: kwait_cases)
  case (reap i w)
  obtain p where p: "blank p" "core s' = (core s)[i := p]" "nextpid s' = nextpid s" "initproc s' = initproc s"
    using freeproc_core [OF L, of i "s\<lparr>world := w\<rparr>" K] reap(1,6) by auto
  show ?thesis
    unfolding pinv_def p(2-) using reap p(1) inv by (intro tinv_free) (auto simp: pinv_def blank_def nth_core)
next
  case (fail w)
  then show ?thesis using inv by (simp add: pinv_def)
next
  case sleep
  have "tinv ((core s)[me := (core s ! me)\<lparr>chan := ChanProc me, state := SLEEPING\<rparr>]) (nextpid s) (initproc s)"
  proof (rule tinv_set_live [OF inv [unfolded pinv_def]])
    fix q assume "asleep_on (ChanProc q) ((core s ! me)\<lparr>chan := ChanProc me, state := SLEEPING\<rparr>)"
    then show "q = me \<and> (\<forall>j<length (core s). parent (core s ! j) = Some me \<longrightarrow> state (core s ! j) \<noteq> ZOMBIE)"
      using sleep(3) by (auto simp: asleep_on_def nth_core)
  qed (use me in \<open>auto simp: nth_core live_def\<close>)
  then show ?thesis using me sleep(2) by (simp add: pinv_def sleep_enter_core) (simp add: sleep_enter_def)
qed

lemma length_procinit_from: "length (procinit_from K i qs) = length qs"
  by (induction qs arbitrary: i) auto

lemma nth_procinit_from: "j < length qs \<Longrightarrow> trunc (procinit_from K i qs ! j) = (trunc (qs ! j))\<lparr>state := UNUSED\<rparr>"
  by (induction qs arbitrary: i j) (auto simp: nth_Cons split: nat.splits)

lemma userinit_core:
  assumes L: "lab_ok L" and u: "userinit L K s = Some s'"
  shows "\<exists>i. find_idx (\<lambda>p. state p = UNUSED) (procs s) = Some i \<and> i < length (core s) \<and>
    core s' = (core s)[i := (core s ! i)\<lparr>pid := nextpid s, state := RUNNABLE\<rparr>] \<and> initproc s' = Some i \<and> nextpid s' = nextpid s + 1"
proof -
  obtain i s1 where a: "allocproc L K s = (Some i, s1)" using u by (auto simp: userinit_def split: prod.splits option.splits)
  note c1 = allocproc_core [OF L a, simplified]
  obtain w where s': "s' = upd_proc i (\<lambda>p. p\<lparr>cwd := fst w, state := RUNNABLE\<rparr>) (s1\<lparr>initproc := Some i, world := snd w\<rparr>)"
    using u a by (auto simp: userinit_def Let_def split: prod.splits)
  have "trunc (procs s1 ! i) = core s1 ! i" by (subst nth_core) (use c1 in auto)
  then have "core s' = (core s)[i := (core s ! i)\<lparr>pid := nextpid s, state := RUNNABLE\<rparr>]" using c1 by (simp add: s')
  then show ?thesis using c1 by (simp add: s')
qed

lemma boot_pinv:
  assumes L: "lab_ok L" and ps: "boot_table ps" "procs s = procinit K ps" "nextpid s = 1" and u: "userinit L K s = Some s'"
  shows "pinv s'"
proof -
  have l: "length (core s) = NPROC" using ps(1,2) by (simp add: procinit_def boot_table_def length_procinit_from)
  have b: "blank (core s ! j)" if "j < length (core s)" for j
    using that ps(1,2) l by (auto simp: nth_core procinit_def boot_table_def blank_def length_procinit_from nth_procinit_from)
  obtain i where i: "i < length (core s)" and c: "core s' = (core s)[i := (core s ! i)\<lparr>pid := 1, state := RUNNABLE\<rparr>]"
    and ini: "initproc s' = Some i" "nextpid s' = 2"
    using userinit_core [OF L u] ps(3) by auto
  have nth': "core s' ! j = (if j = i then (core s ! i)\<lparr>pid := 1, state := RUNNABLE\<rparr> else core s ! j)" for j
    using i by (simp add: c nth_list_update_if)
  have len': "length (procs s') = length (procs s)" using arg_cong [OF c, of length] by simp
  have "tinv (core s') 2 (Some i)"
  proof (rule tinvI)
    show "unique_keys (\<lambda>p. state p \<noteq> UNUSED) pid (core s')"
      unfolding unique_keys_def using b i by (auto simp: nth' len' blank_def split: if_splits)
  next
    fix j assume "j < length (core s')"
    then show "entry_ok (core s') 2 i j"
      using b [of j] b [OF i] i by (intro entry_okI) (auto simp: nth' len' blank_def asleep_on_def split: if_splits)
  qed (use l i in \<open>auto simp: len' nth' live_def\<close>)
  then show ?thesis using ini by (simp add: pinv_def)
qed

lemma kkill_pinv:
  assumes "pinv s" and "kkill pd (procs s) = (r, ps')"
  shows "pinv (s\<lparr>procs := ps'\<rparr>)"
proof (cases "find_idx (\<lambda>q. pid q = pd) (procs s)")
  case None
  then show ?thesis using assms by (simp add: kkill_def pinv_def core_def)
next
  case (Some i)
  have i: "i < length (procs s)" using Some by (auto dest: find_idx_SomeD)
  let ?q = "(procs s ! i)\<lparr>killed_flag := True\<rparr>"
  have ps': "ps' = (procs s)[i := (if state ?q = SLEEPING then ?q\<lparr>state := RUNNABLE\<rparr> else ?q)]"
    using assms(2) Some by (auto simp: kkill_def Let_def)
  have "tinv (map trunc ps') (nextpid s) (initproc s)"
    by (rule tinv_wake [OF assms(1) [unfolded pinv_def]])
      (use i in \<open>auto simp: ps' core_def map_update nth_list_update_if live_def\<close>)
  then show ?thesis by (simp add: pinv_def core_def)
qed

lemma pstep_pinv:
  assumes L: "lab_ok L" and inv: "pinv s" and st: "pstep L K s s'"
  shows "pinv s'"
  using st
proof cases
  case (run i)
  have "tinv ((core s)[i := (core s ! i)\<lparr>state := RUNNING\<rparr>]) (nextpid s) (initproc s)"
    by (rule tinv_set_live [OF inv [unfolded pinv_def]]) (use run in \<open>auto simp: nth_core live_def asleep_on_def\<close>)
  then show ?thesis using run by (simp add: pinv_def nth_core)
next
  case (resume i)
  have "tinv ((core s)[i := (core s ! i)\<lparr>chan := Chan0\<rparr>]) (nextpid s) (initproc s)"
    by (rule tinv_set_live [OF inv [unfolded pinv_def]]) (use resume in \<open>auto simp: nth_core live_def asleep_on_def\<close>)
  then show ?thesis using resume by (simp add: pinv_def core_def sleep_return_def map_update)
next
  case (yields i)
  have "tinv ((core s)[i := (core s ! i)\<lparr>state := RUNNABLE\<rparr>]) (nextpid s) (initproc s)"
    by (rule tinv_set_live [OF inv [unfolded pinv_def]]) (use yields in \<open>auto simp: nth_core live_def asleep_on_def\<close>)
  then show ?thesis using yields by (simp add: pinv_def core_def yield_def map_update)
next
  case (forks i r)
  then show ?thesis using kfork_pinv [OF L inv] by blast
next
  case (exits i status)
  then show ?thesis using kexit_pinv(1) [OF inv] by blast
next
  case (waits i addr r)
  then show ?thesis using kwait_pinv [OF L inv] by blast
next
  case (sleeps i ch)
  have "tinv ((core s)[i := (core s ! i)\<lparr>chan := ch, state := SLEEPING\<rparr>]) (nextpid s) (initproc s)"
    by (rule tinv_set_live [OF inv [unfolded pinv_def]]) (use sleeps in \<open>auto simp: nth_core live_def asleep_on_def\<close>)
  then show ?thesis using sleeps by (simp add: pinv_def core_def sleep_enter_def map_update)
next
  case (wakes i ch)
  have "tinv (wakeup i ch (core s)) (nextpid s) (initproc s)"
    by (rule tinv_wake [OF inv [unfolded pinv_def]]) (auto simp: nth_wakeup wake_one_def live_def)
  then show ?thesis using wakes by (simp add: pinv_def core_def map_trunc_wakeup)
next
  case (kills pd r ps')
  then show ?thesis using kkill_pinv [OF inv] by blast
next
  case (machine w rs)
  then show ?thesis using inv by (simp add: pinv_def core_def)
qed

lemma preach_pinv:
  assumes "lab_ok L" and "preach L K s"
  shows "pinv s"
  using assms(2)
proof (induction rule: preach.induct)
  case (boot ps s s')
  then show ?case using boot_pinv [OF assms(1)] by blast
next
  case (step s s')
  then show ?case using pstep_pinv [OF assms(1)] by blast
qed

subsection \<open>Properties\<close>

lemma preach_entry:
  assumes "lab_ok L" and "preach L K s" and "i < NPROC"
  obtains n where "initproc s = Some n" "n < NPROC" "live (procs s ! n)" "length (procs s) = NPROC"
    "entry_ok (core s) (nextpid s) n i" "unique_keys (\<lambda>p. state p \<noteq> UNUSED) pid (core s)"
proof -
  from preach_pinv [OF assms(1,2), unfolded pinv_def] obtain n where n: "initproc s = Some n" "n < length (core s)" "live (core s ! n)"
    "\<And>j. j < length (core s) \<Longrightarrow> entry_ok (core s) (nextpid s) n j" "length (core s) = NPROC" "1 \<le> nextpid s"
    "unique_keys (\<lambda>p. state p \<noteq> UNUSED) pid (core s)" by (rule tinvE) blast
  then show ?thesis using that [of n] assms(3) by (auto simp: nth_core live_def)
qed


text \<open>
  Property C14. No exit is lost on a waiting parent: in every reachable state, a process asleep in \<^verbatim>\<open>kwait\<close>
  (asleep on its own table entry) has no child in state \<^verbatim>\<open>ZOMBIE\<close>.\<close>

theorem wait_no_lost_exit:
  assumes "lab_ok L" and "preach L K s" and "i < NPROC" and "asleep_on (ChanProc q) (procs s ! i)"
  shows "q = i \<and> (\<forall>j<NPROC. parent (procs s ! j) = Some i \<longrightarrow> state (procs s ! j) \<noteq> ZOMBIE)"
proof -
  obtain n where n: "length (procs s) = NPROC" "entry_ok (core s) (nextpid s) n i"
    using preach_entry [OF assms(1-3)] by metis
  have a: "asleep_on (ChanProc q) (core s ! i)" using assms(3,4) n(1) by (simp add: nth_core asleep_on_def)
  show ?thesis using entry_okD(5,6) [OF n(2) a] n(1) by (auto simp: nth_core)
qed

text \<open>
  Property C15. In every reachable state init is alive, and every other process, zombies included, has a
  parent that is alive; so every zombie has a process that can reap it.\<close>

theorem every_process_has_live_parent:
  assumes "lab_ok L" and "preach L K s" and "i < NPROC" and "state (procs s ! i) \<noteq> UNUSED"
  shows "\<exists>n<NPROC. initproc s = Some n \<and> live (procs s ! n) \<and>
    (i \<noteq> n \<longrightarrow> (\<exists>q<NPROC. parent (procs s ! i) = Some q \<and> live (procs s ! q)))"
proof -
  obtain n where n: "initproc s = Some n" "n < NPROC" "live (procs s ! n)" "length (procs s) = NPROC"
    "entry_ok (core s) (nextpid s) n i" using preach_entry [OF assms(1-3)] by metis
  have "\<exists>q<NPROC. parent (procs s ! i) = Some q \<and> live (procs s ! q)" if "i \<noteq> n"
    using entry_okD(3,4) [OF n(5)] that assms(3,4) n(4) by (fastforce simp: nth_core live_def)
  then show ?thesis using n by blast
qed

text \<open>
  One pass of \<^verbatim>\<open>kwait\<close>: with a zombie child it returns the process id of the first one and frees
  that entry, and no other entry changes (or it fails, changing no entry, if the status cannot be copied
  out); without one it fails if there is no child or the caller is killed, and otherwise the caller is
  asleep on its own entry.\<close>

theorem kwait_pass:
  assumes L: "lab_ok L" and "me < length (procs s)" and r: "kwait L K me addr s = (r, s')"
  shows "case r of
      Ret v \<Rightarrow> (v = - 1 \<and> core s' = core s \<and>
          ((\<exists>p\<in>set (procs s). parent p = Some me \<and> state p = ZOMBIE) \<longrightarrow> addr \<noteq> 0) \<and>
          ((\<forall>p\<in>set (procs s). parent p = Some me \<longrightarrow> state p \<noteq> ZOMBIE) \<longrightarrow>
             (\<forall>p\<in>set (procs s). parent p \<noteq> Some me) \<or> killed me (procs s))) \<or>
        (\<exists>i<length (procs s). parent (procs s ! i) = Some me \<and> state (procs s ! i) = ZOMBIE \<and> v = pid (procs s ! i) \<and>
           (\<forall>j<i. \<not> (parent (procs s ! j) = Some me \<and> state (procs s ! j) = ZOMBIE)) \<and>
           (\<exists>p. state p = UNUSED \<and> pid p = 0 \<and> parent p = None \<and> core s' = (core s)[i := p]))
    | Sleep \<Rightarrow> (\<forall>p\<in>set (procs s). parent p = Some me \<longrightarrow> state p \<noteq> ZOMBIE) \<and> (\<exists>p\<in>set (procs s). parent p = Some me) \<and>
        \<not> killed me (procs s) \<and> asleep_on (ChanProc me) (procs s' ! me)"
  using r
proof (cases rule: kwait_cases)
  case (reap i w)
  then show ?thesis
    using freeproc_core(1) [OF L, of i "s\<lparr>world := w\<rparr>" K] by (auto simp: blank_def)
next
  case (fail w)
  then show ?thesis by simp
next
  case sleep
  then show ?thesis using assms(2) by (simp add: asleep_sleep_enter)
qed

text \<open>
  Property C17. \<^verbatim>\<open>kill(0)\<close> succeeds although no process has process id 0: it marks the first unused entry,
  whose \<^verbatim>\<open>pid\<close> is 0. \<^verbatim>\<open>allocproc\<close> does not clear \<^verbatim>\<open>killed\<close>, so the next process that is forked is born killed.\<close>

theorem kill_zero_kills_next_fork:
  assumes L: "lab_ok L" and re: "preach L K s" and k: "kkill 0 (procs s) = (r, ps')"
    and f: "kfork L K me (s\<lparr>procs := ps'\<rparr>) = (c, s')" and c: "c \<noteq> - 1"
  shows "r = 0 \<and> (\<exists>n<NPROC. pid (procs s' ! n) = c \<and> state (procs s' ! n) = RUNNABLE \<and> killed_flag (procs s' ! n))"
proof -
  let ?s = "s\<lparr>procs := ps'\<rparr>"
  have len: "length (procs s) = NPROC" using preach_entry [OF L re, of 0] by auto
  have un: "state (procs s ! i) = UNUSED \<longleftrightarrow> pid (procs s ! i) = 0" if i: "i < NPROC" for i
  proof -
    obtain n where "entry_ok (core s) (nextpid s) n i" using preach_entry [OF L re i] by metis
    from entry_okD(1,2) [OF this] show ?thesis using i len by (cases "state (procs s ! i) = UNUSED") (auto simp: nth_core)
  qed
  have same: "find_idx (\<lambda>q. pid q = 0) (procs s) = find_idx (\<lambda>q. state q = UNUSED) (procs s)"
    using un len by (intro find_idx_cong) (auto simp: in_set_conv_nth)
  have ini: "initproc s \<noteq> None" using preach_entry [OF L re, of 0] by auto
  obtain n where n: "find_idx (\<lambda>p. state p = UNUSED) ps' = Some n"
    and cs: "core s' = (core ?s)[n := (core ?s ! n)\<lparr>pid := nextpid s, parent := Some me, state := RUNNABLE\<rparr>]" "c = nextpid s"
    using kfork_core [OF L f] c by auto
  obtain i where i: "find_idx (\<lambda>q. pid q = 0) (procs s) = Some i"
  proof (cases "find_idx (\<lambda>q. pid q = 0) (procs s)")
    case None
    then have "ps' = procs s" using k by (simp add: kkill_def)
    then show ?thesis using n same None by simp
  qed
  have il: "i < length (procs s)" "state (procs s ! i) = UNUSED" using i same by (auto dest: find_idx_SomeD)
  have ps': "ps' = (procs s)[i := (procs s ! i)\<lparr>killed_flag := True\<rparr>]" and r0: "r = 0"
    using k i il(2) by (auto simp: kkill_def Let_def)
  have st: "state (ps' ! j) = state (procs s ! j)" for j using il(1) by (simp add: ps' nth_list_update_if)
  have "find_idx (\<lambda>p. state p = UNUSED) ps' = Some i"
    using i [unfolded same] st by (simp add: find_idx_Some ps' nth_list_update_if)
  then have "n = i" using n by simp
  have l': "length (procs s') = NPROC" using arg_cong [OF cs(1), of length] len by (simp add: ps')
  have "trunc (procs s' ! i) = core s' ! i" by (subst nth_core) (use il len l' in auto)
  also have "\<dots> = (trunc (procs s ! i))\<lparr>killed_flag := True, pid := nextpid s, parent := Some me, state := RUNNABLE\<rparr>"
    using il(1) unfolding cs(1) \<open>n = i\<close> by (simp add: nth_core ps' core_def)
  finally have "pid (procs s' ! i) = nextpid s \<and> state (procs s' ! i) = RUNNABLE \<and> killed_flag (procs s' ! i)"
    by (metis (no_types, lifting) proc.select_convs(1,3,5) proc.surjective proc.update_convs trunc_simps(1,3,5))
  then show ?thesis using il(1) len cs(2) r0 by auto
qed

subsection \<open>Witnesses\<close>

text \<open>A machine on which every allocation succeeds.\<close>

definition demo_kops :: "unit kops" where
  "demo_kops = \<lparr>vm = \<lparr>kalloc = (\<lambda>w. (1, ())), kfree = (\<lambda>p w. ()), memset_page = (\<lambda>p c w. ()), walk = (\<lambda>pt va w. None),
       mappages = (\<lambda>pt va n pa perm w. (0, ())), uvmunmap = (\<lambda>pt va n fr w. ())\<rparr>,
     uvmcreate = (\<lambda>w. (1, ())), uvmfree = (\<lambda>pt n w. ()), uvmcopy = (\<lambda>p q n w. (0, ())),
     uvmalloc = (\<lambda>pt a b f w. (b, ())), uvmdealloc = (\<lambda>pt a b w. (b, ())), copyout_int = (\<lambda>pt a v w. (0, ())),
     filedup = (\<lambda>f w. (f, ())), fileclose = (\<lambda>f w. ()), inode_dup = (\<lambda>i w. (i, ())), inode_put = (\<lambda>i w. ()),
     root_inode = (\<lambda>w. (1, ())), TRAMPOLINE = 0x3ffffff000, TRAPFRAME = 0x3fffffe000, trampoline_pa = 1,
     forkret_pc = 0, kstack_va = (\<lambda>i. 0)\<rparr>"

definition zero_proc :: kproc where
  "zero_proc = \<lparr>state = UNUSED, chan = Chan0, killed_flag = False, xstate = 0, pid = 0, parent = None, kstack = 0, sz = 0,
     pagetable = 0, trapframe_pa = 0, tf = \<lparr>kernel_satp = 0, kernel_sp = 0, kernel_trap = 0, epc = 0, kernel_hartid = 0, uregs = (\<lambda>_. 0)\<rparr>,
     context_ra = 0, context_sp = 0, ofile = replicate NOFILE 0, cwd = 0, pname = []\<rparr>"

definition boot_state :: "(unit, unit) kstate" where
  "boot_state = \<lparr>procs = procinit demo_kops (replicate NPROC zero_proc), nextpid = 1, initproc = None, shms = [], world = ()\<rparr>"

lemma demo_alloc:
  "find_idx (\<lambda>p. state p = UNUSED) (procs s) = Some i \<Longrightarrow> \<exists>s'. allocproc lab31 demo_kops s = (Some i, s')"
  by (simp add: allocproc_def allocpid_def Let_def demo_kops_def proc_pagetable_def)

lemma demo_fork:
  assumes "find_idx (\<lambda>p. state p = UNUSED) (procs s) = Some n" and "0 < nextpid s"
  shows "\<exists>s'. kfork lab31 demo_kops me s = (nextpid s, s') \<and>
    core s' = (core s)[n := (core s ! n)\<lparr>pid := nextpid s, parent := Some me, state := RUNNABLE\<rparr>]"
proof -
  obtain s1 where a: "allocproc lab31 demo_kops s = (Some n, s1)" using demo_alloc [OF assms(1)] by blast
  note c1 = allocproc_core [OF lab31_ok a, simplified]
  obtain r s' where k: "kfork lab31 demo_kops me s = (r, s')" by fastforce
  have "trunc (procs s1 ! n) = core s1 ! n" by (subst nth_core) (use c1 in auto)
  then have "pid (trunc (procs s1 ! n)) = nextpid s" using c1 by simp
  then have "r = nextpid s"
    using k a c1 by (auto simp: kfork_def Let_def demo_kops_def lab31_def split: prod.splits)
  then show ?thesis using kfork_core [OF lab31_ok k] k assms by auto
qed

lemma boot_core: "core boot_state = replicate NPROC (trunc zero_proc)"
proof (rule nth_equalityI)
  show "length (core boot_state) = length (replicate NPROC (trunc zero_proc))"
    by (simp add: boot_state_def procinit_def length_procinit_from)
  fix i assume "i < length (core boot_state)"
  then show "core boot_state ! i = replicate NPROC (trunc zero_proc) ! i"
    by (simp add: core_def boot_state_def procinit_def length_procinit_from nth_procinit_from) (simp add: zero_proc_def proc.truncate_def)
qed

lemma find_unused_core: "find_idx (\<lambda>p. state p = UNUSED) (core s) = find_idx (\<lambda>p. state p = UNUSED) (procs s)"
proof -
  have "find_idx (\<lambda>p. state p = UNUSED) (map trunc ps) = find_idx (\<lambda>p. state p = UNUSED) ps" for ps :: "'b kproc_scheme list"
    by (induction ps) auto
  then show ?thesis by (simp add: core_def)
qed

lemma nth_from_core: "core s = c \<Longrightarrow> i < length c \<Longrightarrow> trunc (procs s ! i) = c ! i"
  using nth_core [of i s] by auto

text \<open>The first user process has been started and scheduled.\<close>

lemma demo_init:
  "\<exists>s :: (unit, unit) kstate. preach lab31 demo_kops s \<and> nextpid s = 2 \<and> initproc s = Some 0 \<and>
     core s = (replicate NPROC (trunc zero_proc))[0 := (trunc zero_proc)\<lparr>pid := 1, state := RUNNING\<rparr>]"
proof -
  have f: "find_idx (\<lambda>p. state p = UNUSED) (procs boot_state) = Some 0"
    unfolding find_unused_core [symmetric] boot_core by (simp add: find_idx_Some zero_proc_def)
  obtain s1 where a: "allocproc lab31 demo_kops boot_state = (Some 0, s1)" using demo_alloc [OF f] by blast
  note c1 = allocproc_core [OF lab31_ok a, simplified]
  let ?s2 = "upd_proc 0 (\<lambda>p. p\<lparr>cwd := 1, state := RUNNABLE\<rparr>) (s1\<lparr>initproc := Some 0, world := ()\<rparr>)"
  let ?s3 = "upd_proc 0 (\<lambda>p. p\<lparr>state := RUNNING\<rparr>) ?s2"
  have u: "userinit lab31 demo_kops boot_state = Some ?s2" using a by (simp add: userinit_def demo_kops_def)
  have r2: "preach lab31 demo_kops ?s2"
    by (rule preach.boot [OF _ _ _ u]) (simp_all add: boot_state_def boot_table_def zero_proc_def)
  have len: "0 < length (procs s1)" using c1 by simp
  have "preach lab31 demo_kops ?s3"
    by (rule preach.step [OF r2 pstep.run]) (use len in simp_all)
  moreover have "trunc (procs s1 ! 0) = core s1 ! 0" by (subst nth_core) (use len in auto)
  then have "core ?s3 = (replicate NPROC (trunc zero_proc))[0 := (trunc zero_proc)\<lparr>pid := 1, state := RUNNING\<rparr>]"
    using c1 len by (simp add: boot_core) (simp add: boot_state_def)
  ultimately show ?thesis using c1 by (intro exI [of _ ?s3]) (simp add: boot_state_def)
qed

text \<open>Init has forked one child.\<close>

lemma demo_forked:
  "\<exists>s :: (unit, unit) kstate. preach lab31 demo_kops s \<and> length (procs s) = NPROC \<and>
     core s = (replicate NPROC (trunc zero_proc))[0 := (trunc zero_proc)\<lparr>pid := 1, state := RUNNING\<rparr>,
       1 := (trunc zero_proc)\<lparr>pid := 2, parent := Some 0, state := RUNNABLE\<rparr>]"
proof -
  obtain s :: "(unit, unit) kstate" where s: "preach lab31 demo_kops s" "nextpid s = 2" 
    and c: "core s = (replicate NPROC (trunc zero_proc))[0 := (trunc zero_proc)\<lparr>pid := 1, state := RUNNING\<rparr>]"
    using demo_init by blast
  have len: "length (procs s) = NPROC" using arg_cong [OF c, of length] by simp
  have f: "find_idx (\<lambda>p. state p = UNUSED) (procs s) = Some 1"
    unfolding find_unused_core [symmetric] c by (simp add: find_idx_Some zero_proc_def)
  obtain s' where k: "kfork lab31 demo_kops 0 s = (nextpid s, s')"
    and c': "core s' = (core s)[1 := (core s ! 1)\<lparr>pid := nextpid s, parent := Some 0, state := RUNNABLE\<rparr>]"
    using demo_fork [OF f, of 0] s(2) by auto
  have "state (trunc (procs s ! 0)) = RUNNING" using nth_from_core [OF c, of 0] by simp
  then have "preach lab31 demo_kops s'"
    using preach.step [OF s(1) pstep.forks [OF _ _ k]] len by simp
  moreover have "core s' = (replicate NPROC (trunc zero_proc))[0 := (trunc zero_proc)\<lparr>pid := 1, state := RUNNING\<rparr>,
       1 := (trunc zero_proc)\<lparr>pid := 2, parent := Some 0, state := RUNNABLE\<rparr>]"
    unfolding c' s(2) c by simp
  moreover have "length (procs s') = NPROC" using arg_cong [OF c', of length] len by simp
  ultimately show ?thesis by blast
qed


text \<open>Init waits for its running child.\<close>

theorem wait_no_lost_exit_witness:
  "\<exists>s :: (unit, unit) kstate. preach lab31 demo_kops s \<and> asleep_on (ChanProc 0) (procs s ! 0) \<and> parent (procs s ! 1) = Some 0 \<and>
     state (procs s ! 1) \<noteq> ZOMBIE"
proof -
  obtain s :: "(unit, unit) kstate" where s: "preach lab31 demo_kops s" "length (procs s) = NPROC" and c: "core s = (replicate NPROC (trunc zero_proc))[0 := (trunc zero_proc)\<lparr>pid := 1, state := RUNNING\<rparr>,
       1 := (trunc zero_proc)\<lparr>pid := 2, parent := Some 0, state := RUNNABLE\<rparr>]" using demo_forked by blast
  have e: "trunc (procs s ! i) = (if i = 0 then (trunc zero_proc)\<lparr>pid := 1, state := RUNNING\<rparr>
      else if i = 1 then (trunc zero_proc)\<lparr>pid := 2, parent := Some 0, state := RUNNABLE\<rparr> else trunc zero_proc)" if "i < NPROC" for i
    using nth_from_core [OF c, of i] that by (auto simp: nth_list_update_if)
  have st: "state (procs s ! i) \<noteq> ZOMBIE" if "i < NPROC" for i
    using arg_cong [OF e [OF that], of state] by (auto simp: zero_proc_def split: if_splits)
  have p1: "parent (procs s ! 1) = Some 0" using arg_cong [OF e [of 1], of parent] by simp
  have k0: "\<not> killed_flag (procs s ! 0)" "state (procs s ! 0) = RUNNING"
    using arg_cong [OF e [of 0], of killed_flag] arg_cong [OF e [of 0], of state] by (simp_all add: zero_proc_def)
  have fn: "find_idx (\<lambda>pp. parent pp = Some 0 \<and> state pp = ZOMBIE) (procs s) = None"
    using st s(2) by (auto simp: find_idx_None in_set_conv_nth)
  have ch: "\<exists>pp\<in>set (procs s). parent pp = Some 0" using p1 s(2) by (intro bexI [of _ "procs s ! 1"]) auto
  let ?s = "s\<lparr>procs := sleep_enter 0 (ChanProc 0) (procs s)\<rparr>"
  have w: "kwait lab31 demo_kops 0 0 s = (Sleep, ?s)"
    using fn ch k0(1) by (simp add: kwait_def killed_def)
  have r: "preach lab31 demo_kops ?s"
    using preach.step [OF s(1) pstep.waits [OF _ _ w]] s(2) k0(2) by simp
  have a: "asleep_on (ChanProc 0) (procs ?s ! 0)" using asleep_sleep_enter [of 0 "procs s"] s(2) by simp
  have "parent (procs ?s ! 1) = Some 0" using p1 by simp
  moreover from this have "state (procs ?s ! 1) \<noteq> ZOMBIE"
    using wait_no_lost_exit [OF lab31_ok r _ a, THEN conjunct2, rule_format, of 1] by simp
  ultimately show ?thesis using r a by blast
qed

theorem every_process_has_live_parent_witness:
  "\<exists>s :: (unit, unit) kstate. preach lab31 demo_kops s \<and> state (procs s ! 1) \<noteq> UNUSED \<and> (\<exists>n<NPROC. initproc s = Some n \<and> live (procs s ! n))"
proof -
  obtain s :: "(unit, unit) kstate" where s: "preach lab31 demo_kops s" and c: "core s = (replicate NPROC (trunc zero_proc))[0 := (trunc zero_proc)\<lparr>pid := 1, state := RUNNING\<rparr>,
       1 := (trunc zero_proc)\<lparr>pid := 2, parent := Some 0, state := RUNNABLE\<rparr>]" using demo_forked by blast
  have "state (trunc (procs s ! 1)) \<noteq> UNUSED" using nth_from_core [OF c, of 1] by simp
  then have "state (procs s ! 1) \<noteq> UNUSED" by simp
  then show ?thesis using every_process_has_live_parent [OF lab31_ok s, of 1] s by fastforce
qed

text \<open>A parent with a zombie child of process id 7.\<close>

definition zombie_state :: "(unit, unit) kstate" where
  "zombie_state = \<lparr>procs = [zero_proc\<lparr>state := RUNNING, pid := 1\<rparr>, zero_proc\<lparr>state := ZOMBIE, pid := 7, parent := Some 0\<rparr>],
     nextpid = 8, initproc = Some 0, shms = [], world = ()\<rparr>"

theorem kwait_pass_witness:
  "\<exists>s'. kwait lab31 demo_kops 0 0 zombie_state = (Ret 7, s') \<and>
     (\<exists>p. state p = UNUSED \<and> pid p = 0 \<and> parent p = None \<and> core s' = (core zombie_state)[1 := p])"
proof -
  have "\<exists>s'. kwait lab31 demo_kops 0 0 zombie_state = (Ret 7, s')"
    by (simp add: kwait_def zombie_state_def zero_proc_def)
  then obtain s' where k: "kwait lab31 demo_kops 0 0 zombie_state = (Ret 7, s')" by blast
  have i: "i = 1" if "i < length (procs zombie_state)" "parent (procs zombie_state ! i) = Some 0" for i
    using that by (cases i) (auto simp: zombie_state_def zero_proc_def)
  have "0 < length (procs zombie_state)" by (simp add: zombie_state_def)
  from kwait_pass [OF lab31_ok this k] obtain j p where j: "j < length (procs zombie_state)" "parent (procs zombie_state ! j) = Some 0"
    and p: "state p = UNUSED" "pid p = 0" "parent p = None" "core s' = (core zombie_state)[j := p]" by auto
  from p(4) have "core s' = (core zombie_state)[1 := p]" unfolding i [OF j] .
  then show ?thesis using k p(1-3) by blast
qed

theorem kill_zero_kills_next_fork_witness:
  "\<exists>(s :: (unit, unit) kstate) ps' c s'. preach lab31 demo_kops s \<and> kkill 0 (procs s) = (0, ps') \<and>
     kfork lab31 demo_kops 0 (s\<lparr>procs := ps'\<rparr>) = (c, s') \<and> (\<exists>n<NPROC. pid (procs s' ! n) = c \<and> killed_flag (procs s' ! n))"
proof -
  obtain s :: "(unit, unit) kstate" where s: "preach lab31 demo_kops s" "nextpid s = 2"
    and c: "core s = (replicate NPROC (trunc zero_proc))[0 := (trunc zero_proc)\<lparr>pid := 1, state := RUNNING\<rparr>]"
    using demo_init by blast
  have len: "length (procs s) = NPROC" using arg_cong [OF c, of length] by simp
  obtain r ps' where k: "kkill 0 (procs s) = (r, ps')" by fastforce
  have e: "trunc (procs s ! i) = (if i = 0 then (trunc zero_proc)\<lparr>pid := 1, state := RUNNING\<rparr> else trunc zero_proc)" if "i < NPROC" for i
    using nth_from_core [OF c, of i] that by (auto simp: nth_list_update_if)
  have p: "pid (procs s ! 0) = 1" "pid (procs s ! 1) = 0" "state (procs s ! 1) = UNUSED" "state (procs s ! 0) = RUNNING"
    using arg_cong [OF e [of 0], of pid] arg_cong [OF e [of 1], of pid] arg_cong [OF e [of 1], of state] arg_cong [OF e [of 0], of state]
    by (simp_all add: zero_proc_def)
  have "find_idx (\<lambda>q. pid q = 0) (procs s) = Some 1" using p len by (simp add: find_idx_Some)
  then have ps': "ps' = (procs s)[1 := (procs s ! 1)\<lparr>killed_flag := True\<rparr>]" using k p(3) by (auto simp: kkill_def Let_def)
  have "find_idx (\<lambda>p. state p = UNUSED) ps' = Some 1" using p len by (simp add: find_idx_Some ps')
  then obtain s' where f: "kfork lab31 demo_kops 0 (s\<lparr>procs := ps'\<rparr>) = (2, s')"
    using demo_fork [of "s\<lparr>procs := ps'\<rparr>" 1 0] s(2) by auto
  have "r = 0" "\<exists>n<NPROC. pid (procs s' ! n) = 2 \<and> killed_flag (procs s' ! n)"
    using kill_zero_kills_next_fork [OF lab31_ok s(1) k f] by auto
  then show ?thesis using s(1) k f by blast
qed

end
