(* ===== verification/Syscall.thy ===== *)
theory Syscall
  imports ProcLife Mailbox
begin

text \<open>
  System calls: the argument access and the dispatch of \<^verbatim>\<open>kernel/syscall.c\<close>, the handlers of
  \<^verbatim>\<open>kernel/sysproc.c\<close>, and the tables \<^verbatim>\<open>syscalls[]\<close> of the labs. A handler runs on behalf of the process
  \<open>me\<close> on the kernel state and the counters and tables beside it (\<open>kext\<close>: \<^verbatim>\<open>ticks\<close>, and the mailboxes of
  Task 3.1). A handler whose code is not in the repository is an argument of the table.
\<close>

text \<open>What a handler does: it returns a value, goes to sleep, never returns because the process exits, or panics.\<close>

datatype sysout = Done u64 | Blocked | Exited | Panicked

record kext =
  uticks :: u32

record mext = kext +
  mboxes :: "mailbox list"

type_synonym ('w, 'a, 'e) sysst = "('w, 'a) kstate \<times> 'e kext_scheme"
type_synonym ('w, 'a, 'e) handler = "nat \<Rightarrow> ('w, 'a, 'e) sysst \<Rightarrow> sysout \<times> ('w, 'a, 'e) sysst"

text \<open>User memory as \<^verbatim>\<open>copyin\<close> and \<^verbatim>\<open>copyinstr\<close> read it: \<^verbatim>\<open>None\<close> is a failure, a string comes without its NUL.\<close>

record 'w usermem =
  copyin_u64 :: "nat \<Rightarrow> u64 \<Rightarrow> 'w \<Rightarrow> u64 option"
  copyinstr :: "nat \<Rightarrow> u64 \<Rightarrow> nat \<Rightarrow> 'w \<Rightarrow> u8 list option"

subsection \<open>Arguments\<close>

definition fetchaddr :: "'w usermem \<Rightarrow> 'a kproc_scheme \<Rightarrow> u64 \<Rightarrow> 'w \<Rightarrow> int \<times> u64 option" where
  "fetchaddr U p addr w =
     (if addr \<ge> sz p \<or> addr + 8 > sz p then (- 1, None)
      else case copyin_u64 U (pagetable p) addr w of None \<Rightarrow> (- 1, None) | Some v \<Rightarrow> (0, Some v))"

definition fetchstr :: "'w usermem \<Rightarrow> 'a kproc_scheme \<Rightarrow> u64 \<Rightarrow> nat \<Rightarrow> 'w \<Rightarrow> int \<times> u8 list" where
  "fetchstr U p addr mx w =
     (case copyinstr U (pagetable p) addr mx w of None \<Rightarrow> (- 1, []) | Some bs \<Rightarrow> (int (length bs), bs))"

text \<open>\<^verbatim>\<open>a0\<close> to \<^verbatim>\<open>a5\<close> are the registers \<^verbatim>\<open>x10\<close> to \<^verbatim>\<open>x15\<close>; any other index panics.\<close>

definition argraw :: "nat \<Rightarrow> 'a kproc_scheme \<Rightarrow> u64 option" where
  "argraw n p = (if n \<le> 5 then Some (uregs (tf p) (a0 + n)) else None)"

definition argint :: "nat \<Rightarrow> 'a kproc_scheme \<Rightarrow> int option" where
  "argint n p = map_option (\<lambda>v. sint (ucast v :: u32)) (argraw n p)"

definition argaddr :: "nat \<Rightarrow> 'a kproc_scheme \<Rightarrow> u64 option" where
  "argaddr n p = argraw n p"

definition argstr :: "'w usermem \<Rightarrow> nat \<Rightarrow> nat \<Rightarrow> 'a kproc_scheme \<Rightarrow> 'w \<Rightarrow> (int \<times> u8 list) option" where
  "argstr U n mx p w = map_option (\<lambda>addr. fetchstr U p addr mx w) (argaddr n p)"

text \<open>The handlers pass constant indices up to 5, for which these are defined.\<close>

abbreviation iarg :: "nat \<Rightarrow> 'a kproc_scheme \<Rightarrow> int" where
  "iarg n p \<equiv> the (argint n p)"

abbreviation aarg :: "nat \<Rightarrow> 'a kproc_scheme \<Rightarrow> u64" where
  "aarg n p \<equiv> the (argaddr n p)"

subsection \<open>Dispatch\<close>

abbreviation a7 :: nat where
  "a7 \<equiv> 17"

definition set_reg :: "nat \<Rightarrow> nat \<Rightarrow> u64 \<Rightarrow> ('w, 'a) kstate \<Rightarrow> ('w, 'a) kstate" where
  "set_reg me r v s = upd_proc me (\<lambda>p. p\<lparr>tf := (tf p)\<lparr>uregs := (uregs (tf p))(r := v)\<rparr>\<rparr>) s"

text \<open>
  \<^verbatim>\<open>syscalls[]\<close> is a list of optional handlers. When the handler blocks, \<^verbatim>\<open>a0\<close> is set by the pass of the
  handler's loop that returns.
\<close>

definition syscall :: "('w, 'a, 'e) handler option list \<Rightarrow> ('w, 'a, 'e) handler" where
  "syscall tbl me st =
     (let num = sint (ucast (uregs (tf (procs (fst st) ! me)) a7) :: u32) in
      if num > 0 \<and> num < int (length tbl) \<and> tbl ! nat num \<noteq> None then
        case the (tbl ! nat num) me st of
          (Done v, (s, e)) \<Rightarrow> (Done v, (set_reg me a0 v s, e))
        | r \<Rightarrow> r
      else (Done (- 1), (set_reg me a0 (- 1) (fst st), snd st)))"

subsection \<open>Handlers of sysproc.c\<close>

definition sys_exit :: "'w kops \<Rightarrow> ('w, 'a, 'e) handler" where
  "sys_exit K me st =
     (case kexit K me (iarg 0 (procs (fst st) ! me)) (fst st) of
        None \<Rightarrow> (Panicked, st)
      | Some s \<Rightarrow> (Exited, (s, snd st)))"

definition sys_getpid :: "('w, 'a, 'e) handler" where
  "sys_getpid me st = (Done (of_int (pid (procs (fst st) ! me))), st)"

definition sys_fork :: "('w, 'a) lab \<Rightarrow> 'w kops \<Rightarrow> ('w, 'a, 'e) handler" where
  "sys_fork L K me st = (let (r, s) = kfork L K me (fst st) in (Done (of_int r), (s, snd st)))"

definition sys_wait :: "('w, 'a) lab \<Rightarrow> 'w kops \<Rightarrow> ('w, 'a, 'e) handler" where
  "sys_wait L K me st =
     (case kwait L K me (aarg 0 (procs (fst st) ! me)) (fst st) of
        (Ret v, s) \<Rightarrow> (Done (of_int v), (s, snd st))
      | (Sleep, s) \<Rightarrow> (Blocked, (s, snd st)))"

text \<open>\<^verbatim>\<open>sys_sbrk\<close> of Lab 2 always grows eagerly.\<close>

definition sys_sbrk21 :: "'w kops \<Rightarrow> ('w, 'a, 'e) handler" where
  "sys_sbrk21 K me st =
     (let p = procs (fst st) ! me; (r, s) = growproc K me (iarg 0 p) (fst st)
      in (Done (if r < 0 then - 1 else sz p), (s, snd st)))"

text \<open>Task 3.1 can grow lazily; the flag value \<^verbatim>\<open>SBRK_EAGER\<close> of \<^verbatim>\<open>vm.h\<close> is the argument \<open>eager\<close>.\<close>

definition sys_sbrk :: "'w kops \<Rightarrow> int \<Rightarrow> ('w, 'a, 'e) handler" where
  "sys_sbrk K eager me st =
     (let p = procs (fst st) ! me; n = iarg 0 p; t = iarg 1 p; addr = sz p in
      if t = eager \<or> n < 0 then
        let (r, s) = growproc K me n (fst st) in (Done (if r < 0 then - 1 else addr), (s, snd st))
      else if addr + of_int n < addr then (Done (- 1), st)
      else (Done addr, (upd_proc me (\<lambda>p. p\<lparr>sz := sz p + of_int n\<rparr>) (fst st), snd st)))"

text \<open>
  The loop of \<^verbatim>\<open>sys_pause\<close> (\<^verbatim>\<open>sys_sleep\<close> in Lab 2), entered with \<^verbatim>\<open>ticks0\<close> and resumed at each wakeup. The
  comparison is between unsigned 32-bit values.
\<close>

definition pause_loop :: "int \<Rightarrow> u32 \<Rightarrow> ('w, 'a, 'e) handler" where
  "pause_loop n ticks0 me st =
     (if uticks (snd st) - ticks0 < of_int n then
        if killed me (procs (fst st)) then (Done (- 1), st)
        else (Blocked, ((fst st)\<lparr>procs := sleep_enter me ChanTicks (procs (fst st))\<rparr>, snd st))
      else (Done 0, st))"

definition sys_pause :: "('w, 'a, 'e) handler" where
  "sys_pause me st =
     (let n = iarg 0 (procs (fst st) ! me); n' = (if n < 0 then 0 else n)
      in pause_loop n' (uticks (snd st)) me st)"

definition sys_kill :: "('w, 'a, 'e) handler" where
  "sys_kill me st =
     (let (r, ps) = kkill (iarg 0 (procs (fst st) ! me)) (procs (fst st))
      in (Done (of_int r), ((fst st)\<lparr>procs := ps\<rparr>, snd st)))"

definition sys_uptime :: "('w, 'a, 'e) handler" where
  "sys_uptime me st = (Done (ucast (uticks (snd st))), st)"

subsection \<open>Handlers of Task 3.1\<close>

definition on_shm :: "(nat \<Rightarrow> int \<Rightarrow> 'w shmst \<Rightarrow> u64 \<times> 'w shmst) \<Rightarrow> ('w, 'a, 'e) handler" where
  "on_shm f me st =
     (let p = procs (fst st) ! me;
          (r, rs, w) = f (pagetable p) (iarg 0 p) (shms (fst st), world (fst st))
      in (Done r, ((fst st)\<lparr>shms := rs, world := w\<rparr>, snd st)))"

definition sys_shm_create :: "'w kops \<Rightarrow> ('w, 'a, 'e) handler" where
  "sys_shm_create K = on_shm (\<lambda>pt key st. let (r, st') = shm_create (vm K) key st in (of_int r, st'))"

definition sys_shm_get :: "'w kops \<Rightarrow> ('w, 'a, 'e) handler" where
  "sys_shm_get K = on_shm (shm_get (vm K))"

definition sys_shm_close :: "'w kops \<Rightarrow> ('w, 'a, 'e) handler" where
  "sys_shm_close K = on_shm (\<lambda>pt key st. let (r, st') = shm_close (vm K) pt key st in (of_int r, st'))"

text \<open>Storing what an operation on the mailboxes and the process table produces.\<close>

definition put_mbox :: "'a kproc_ext mstate \<Rightarrow> ('w, 'a, 'e mext_ext) sysst \<Rightarrow> ('w, 'a, 'e mext_ext) sysst" where
  "put_mbox bp st = ((fst st)\<lparr>procs := snd bp\<rparr>, (snd st)\<lparr>mboxes := fst bp\<rparr>)"

definition sys_mbox_create :: "('w, 'a, 'e mext_ext) handler" where
  "sys_mbox_create me st =
     (let (r, bs) = mbox_create (iarg 0 (procs (fst st) ! me)) (mboxes (snd st))
      in (Done (of_int r), (fst st, (snd st)\<lparr>mboxes := bs\<rparr>)))"

definition end_mbox_send :: "int outcome \<times> 'a kproc_ext mstate \<Rightarrow> ('w, 'a, 'e mext_ext) sysst \<Rightarrow> sysout \<times> ('w, 'a, 'e mext_ext) sysst" where
  "end_mbox_send r st =
     (case r of (Ret v, bp) \<Rightarrow> (Done (of_int v), put_mbox bp st) | (Sleep, bp) \<Rightarrow> (Blocked, put_mbox bp st))"

definition sys_mbox_send :: "('w, 'a, 'e mext_ext) handler" where
  "sys_mbox_send me st =
     (let p = procs (fst st) ! me
      in end_mbox_send (mbox_send me (iarg 0 p) (iarg 1 p) (mboxes (snd st), procs (fst st))) st)"

definition end_mbox_recv :: "'w kops \<Rightarrow> nat \<Rightarrow> int option outcome \<times> 'a kproc_ext mstate \<Rightarrow> ('w, 'a, 'e mext_ext) sysst \<Rightarrow>
    sysout \<times> ('w, 'a, 'e mext_ext) sysst" where
  "end_mbox_recv K me r st =
     (case r of
        (Sleep, bp) \<Rightarrow> (Blocked, put_mbox bp st)
      | (Ret None, bp) \<Rightarrow> (Done (- 1), put_mbox bp st)
      | (Ret (Some v), bp) \<Rightarrow>
          let (s, e) = put_mbox bp st; p = procs s ! me;
              (c, w) = copyout_int K (pagetable p) (aarg 1 p) v (world s)
          in (Done (if c < 0 then - 1 else 0), (s\<lparr>world := w\<rparr>, e)))"

definition sys_mbox_recv :: "'w kops \<Rightarrow> ('w, 'a, 'e mext_ext) handler" where
  "sys_mbox_recv K me st =
     end_mbox_recv K me (mbox_recv me (iarg 0 (procs (fst st) ! me)) (mboxes (snd st), procs (fst st))) st"

definition sys_mbox_close :: "('w, 'a, 'e mext_ext) handler" where
  "sys_mbox_close me st =
     (let (r, bp) = mbox_close me (iarg 0 (procs (fst st) ! me)) (mboxes (snd st), procs (fst st))
      in (Done (of_int r), put_mbox bp st))"

text \<open>
  \<^verbatim>\<open>syscalls[]\<close> of Task 3.1. The entry 0 is empty; the handlers of files and of \<^verbatim>\<open>exec\<close> are the argument
  \<open>ext\<close>, by system call number.
\<close>

definition syscalls31 :: "'w kops \<Rightarrow> int \<Rightarrow> (nat \<Rightarrow> ('w, 'a, 'e mext_ext) handler) \<Rightarrow> ('w, 'a, 'e mext_ext) handler option list" where
  "syscalls31 K eager ext = None # map Some
     [sys_fork lab31 K, sys_exit K, sys_wait lab31 K, ext 4, ext 5, sys_kill, ext 7, ext 8, ext 9, ext 10,
      sys_getpid, sys_sbrk K eager, sys_pause, sys_uptime, ext 15, ext 16, ext 17, ext 18, ext 19, ext 20, ext 21,
      sys_shm_create K, sys_shm_get K, sys_shm_close K,
      sys_mbox_create, sys_mbox_send, sys_mbox_recv K, sys_mbox_close]"

subsection \<open>Properties\<close>

lemma sint_u32_nonneg: "0 \<le> n \<Longrightarrow> n < 2 ^ 31 \<Longrightarrow> unat (of_int n :: u32) = nat n"
  by (simp add: unat_eq_nat_uint uint_word_of_int take_bit_eq_mod)

text \<open>
  Property C25. \<^verbatim>\<open>sys_pause(n)\<close> that has been asleep for \<open>k\<close> clock ticks returns 0 exactly when \<open>k\<close> has reached
  \<open>n\<close>, also when the 32-bit tick counter has wrapped around in between; before that it fails if the process
  was killed and otherwise goes back to sleep on the tick counter, so it never returns early.\<close>

theorem pause_sleeps_exactly:
  assumes "0 \<le> n" and "n < 2 ^ 31" and "k < 2 ^ 32" and "uticks e = ticks0 + of_nat k"
  shows "pause_loop n ticks0 me (s, e) =
    (if n \<le> int k then (Done 0, (s, e))
     else if killed me (procs s) then (Done (- 1), (s, e))
     else (Blocked, (s\<lparr>procs := sleep_enter me ChanTicks (procs s)\<rparr>, e)))"
proof -
  have "unat (of_nat k :: u32) = k" using assms(3) by (simp add: unat_of_nat take_bit_eq_mod)
  then have "(uticks e - ticks0 < of_int n) \<longleftrightarrow> \<not> n \<le> int k"
    using assms(1,2,4) sint_u32_nonneg [OF assms(1,2)] by (simp add: word_less_nat_alt) linarith
  then show ?thesis by (auto simp: pause_loop_def)
qed

definition idle_kernel :: "(unit, unit) kstate" where
  "idle_kernel = \<lparr>procs = [], nextpid = 1, initproc = None, shms = [], world = ()\<rparr>"

theorem pause_sleeps_exactly_witness:
  "pause_loop 3 0xFFFFFFFE 0 (idle_kernel, \<lparr>uticks = 1\<rparr>) = (Done 0, (idle_kernel, \<lparr>uticks = 1\<rparr>))"
  using pause_sleeps_exactly [of 3 3 "\<lparr>uticks = 1\<rparr>" "0xFFFFFFFE" 0 idle_kernel] by simp

end
