(* ===== verification/Wrr.thy ===== *)
theory Wrr
  imports ProcInv Syscall
begin

text \<open>
  The weighted round-robin scheduler of Lab 2, Task 2.1: the fields \<^verbatim>\<open>priority\<close> and \<^verbatim>\<open>ticks\<close> of \<^verbatim>\<open>struct proc\<close>, the
  lines of \<^verbatim>\<open>kernel/proc.c\<close> that set them, \<^verbatim>\<open>scheduler\<close>, the timer branch of \<^verbatim>\<open>kernel/trap.c\<close>, and the calls
  \<^verbatim>\<open>setpriority\<close> and \<^verbatim>\<open>getpriority\<close>, on any number of CPUs. \<^verbatim>\<open>DEFAULT_PRIORITY\<close> and \<^verbatim>\<open>MAX_PRIORITY\<close> come from a
  header that is not in the repository: the arguments \<open>dp\<close> and \<open>mp\<close>.
\<close>

record wproc = kproc +
  priority :: int
  ticks :: int

type_synonym wext = "unit wproc_ext"

definition lab21 :: "int \<Rightarrow> ('w, wext) lab" where
  "lab21 dp = \<lparr>lab_alloc = (\<lambda>p. p\<lparr>priority := dp, ticks := 0\<rparr>),
     lab_fork = (\<lambda>p np. np\<lparr>priority := priority p, ticks := 0\<rparr>), lab_free = (\<lambda>K i s. s)\<rparr>"

text \<open>The process life of Task 2.1: \<^verbatim>\<open>proc.c\<close> of Lab 2 with the lines above.\<close>

definition freeproc21 :: "'w kops \<Rightarrow> nat \<Rightarrow> ('w, wext) kstate \<Rightarrow> ('w, wext) kstate" where
  "freeproc21 K = freeproc (lab21 0) K"

definition allocproc21 :: "int \<Rightarrow> 'w kops \<Rightarrow> ('w, wext) kstate \<Rightarrow> nat option \<times> ('w, wext) kstate" where
  "allocproc21 dp K = allocproc (lab21 dp) K"

definition fork21 :: "int \<Rightarrow> 'w kops \<Rightarrow> nat \<Rightarrow> ('w, wext) kstate \<Rightarrow> int \<times> ('w, wext) kstate" where
  "fork21 dp K = kfork (lab21 dp) K"

definition exit21 :: "'w kops \<Rightarrow> nat \<Rightarrow> int \<Rightarrow> ('w, wext) kstate \<Rightarrow> ('w, wext) kstate option" where
  "exit21 K = kexit K"

definition wait21 :: "int \<Rightarrow> 'w kops \<Rightarrow> nat \<Rightarrow> u64 \<Rightarrow> ('w, wext) kstate \<Rightarrow> int outcome \<times> ('w, wext) kstate" where
  "wait21 dp K = kwait (lab21 dp) K"

text \<open>The program \<^verbatim>\<open>initcode\<close> and the first process, whose user page is filled by \<^verbatim>\<open>uvmfirst\<close>.\<close>

definition initcode :: "u8 list" where
  "initcode =
    [0x17, 0x05, 0x00, 0x00, 0x13, 0x05, 0x45, 0x02,
     0x97, 0x05, 0x00, 0x00, 0x93, 0x85, 0x35, 0x02,
     0x93, 0x08, 0x70, 0x00, 0x73, 0x00, 0x00, 0x00,
     0x93, 0x08, 0x20, 0x00, 0x73, 0x00, 0x00, 0x00,
     0xef, 0xf0, 0x9f, 0xff, 0x2f, 0x69, 0x6e, 0x69,
     0x74, 0x00, 0x00, 0x24, 0x00, 0x00, 0x00, 0x00,
     0x00, 0x00, 0x00, 0x00]"

abbreviation sp_reg :: nat where
  "sp_reg \<equiv> 2"

definition userinit21 :: "int \<Rightarrow> 'w kops \<Rightarrow> (nat \<Rightarrow> u8 list \<Rightarrow> 'w \<Rightarrow> 'w) \<Rightarrow> ('w, wext) kstate \<Rightarrow> ('w, wext) kstate option" where
  "userinit21 dp K uvmfirst s =
     (case allocproc21 dp K s of
        (None, s1) \<Rightarrow> None
      | (Some i, s1) \<Rightarrow>
          let s2 = upd_world (uvmfirst (pagetable (procs s1 ! i)) initcode) (s1\<lparr>initproc := Some i\<rparr>);
              (ino, w) = root_inode K (world s2)
          in Some (upd_proc i (\<lambda>p. p\<lparr>sz := PGSIZE, tf := (tf p)\<lparr>epc := 0, uregs := (uregs (tf p))(sp_reg := PGSIZE)\<rparr>,
                     pname := ''initcode'', cwd := ino, state := RUNNABLE\<rparr>) (s2\<lparr>world := w\<rparr>)))"

subsection \<open>The scheduler\<close>

text \<open>
  A CPU is in its scheduler, at an entry of the process table (\<open>scan\<close>) and with the flag \<^verbatim>\<open>found\<close> of the
  current pass, or it runs a process (\<open>cproc\<close>, \<^verbatim>\<open>c->proc\<close>) that the scheduler switched to.
\<close>

record cpu =
  cproc :: "nat option"
  scan :: nat
  found :: bool

record 'w wk =
  ks :: "('w, wext) kstate"
  cpus :: "cpu list"

definition upd_cpu :: "nat \<Rightarrow> (cpu \<Rightarrow> cpu) \<Rightarrow> 'w wk \<Rightarrow> 'w wk" where
  "upd_cpu c f s = s\<lparr>cpus := (cpus s)[c := f (cpus s ! c)]\<rparr>"

text \<open>
  One iteration of the loop of \<^verbatim>\<open>scheduler\<close> on CPU \<open>c\<close>: test the entry at \<open>scan\<close>, switch to it if it is
  runnable, and go to the next one otherwise; after the last entry start the next pass (waiting for an
  interrupt first if the pass found nothing). \<open>swtch_back\<close> is what follows \<^verbatim>\<open>swtch\<close> when the process
  gives the CPU up.
\<close>

definition scheduler :: "nat \<Rightarrow> 'w wk \<Rightarrow> 'w wk" where
  "scheduler c s =
     (let i = scan (cpus s ! c) in
      if i < NPROC then
        if state (procs (ks s) ! i) = RUNNABLE
        then upd_cpu c (\<lambda>u. u\<lparr>cproc := Some i\<rparr>)
               (s\<lparr>ks := upd_proc i (\<lambda>p. p\<lparr>ticks := priority p, state := RUNNING\<rparr>) (ks s)\<rparr>)
        else upd_cpu c (\<lambda>u. u\<lparr>scan := Suc i\<rparr>) s
      else upd_cpu c (\<lambda>u. u\<lparr>scan := 0, found := False\<rparr>) s)"

definition swtch_back :: "nat \<Rightarrow> 'w wk \<Rightarrow> 'w wk" where
  "swtch_back c = upd_cpu c (\<lambda>u. u\<lparr>cproc := None, found := True, scan := Suc (scan u)\<rparr>)"

text \<open>
  The timer branch of \<^verbatim>\<open>usertrap\<close> and \<^verbatim>\<open>kerneltrap\<close> for the process \<open>me\<close>: it reports whether the process
  yields.
\<close>

definition timer_branch :: "nat \<Rightarrow> wproc list \<Rightarrow> bool \<times> wproc list" where
  "timer_branch me ps =
     (let p = ps ! me in
      if state p = RUNNING then
        let p1 = p\<lparr>ticks := ticks p + 1\<rparr> in
        if ticks p1 \<ge> priority p1 then (True, yield me (ps[me := p1\<lparr>ticks := 0\<rparr>]))
        else (False, ps[me := p1])
      else (True, yield me ps))"

definition set_priority :: "int \<Rightarrow> nat \<Rightarrow> int \<Rightarrow> ('w, wext) kstate \<Rightarrow> int \<times> ('w, wext) kstate" where
  "set_priority mp me n s =
     (if n < 1 \<or> n > mp then (- 1, s)
      else (0, upd_proc me (\<lambda>p. p\<lparr>priority := n, ticks := 0\<rparr>) s))"

definition sys_setpriority :: "int \<Rightarrow> ('w, wext, 'e) handler" where
  "sys_setpriority mp me st =
     (let (r, s) = set_priority mp me (iarg 0 (procs (fst st) ! me)) (fst st) in (Done (of_int r), (s, snd st)))"

definition sys_getpriority :: "('w, wext, 'e) handler" where
  "sys_getpriority me st = (Done (of_int (priority (procs (fst st) ! me))), st)"

definition syscalls21 :: "int \<Rightarrow> int \<Rightarrow> 'w kops \<Rightarrow> (nat \<Rightarrow> ('w, wext, 'e) handler) \<Rightarrow> ('w, wext, 'e) handler option list" where
  "syscalls21 dp mp K ext = None # map Some
     [sys_fork (lab21 dp) K, sys_exit K, sys_wait (lab21 dp) K, ext 4, ext 5, sys_kill, ext 7, ext 8, ext 9, ext 10,
      sys_getpid, sys_sbrk21 K, sys_pause, sys_uptime, ext 15, ext 16, ext 17, ext 18, ext 19, ext 20, ext 21,
      sys_setpriority mp, sys_getpriority]"

end
