(* ===== verification/WrrInv.thy ===== *)
theory WrrInv
  imports Wrr
begin

text \<open>
  The weighted round-robin machine over time. \<open>wstep\<close> interleaves any number of CPUs: each is in its
  scheduler loop or runs a process that forks, exits, waits, sleeps, wakes others, kills, changes its
  priority, is marked killed after a fault, saves its registers in its trapframe, or is interrupted by the
  timer. The invariant \<open>winv\<close> extends that of the process table by
  the assignment of processes to CPUs and the range of the scheduling fields.
\<close>

inductive wstep :: "int \<Rightarrow> int \<Rightarrow> 'w kops \<Rightarrow> 'w wk \<Rightarrow> 'w wk \<Rightarrow> bool" for dp mp K where
  sched: "c < length (cpus s) \<Longrightarrow> cproc (cpus s ! c) = None \<Longrightarrow> wstep dp mp K s (scheduler c s)"
| timer: "c < length (cpus s) \<Longrightarrow> cproc (cpus s ! c) = Some me \<Longrightarrow> timer_branch me (procs (ks s)) = (g, ps) \<Longrightarrow>
    wstep dp mp K s ((if g then swtch_back c else (\<lambda>t. t)) (s\<lparr>ks := (ks s)\<lparr>procs := ps\<rparr>\<rparr>))"
| forks: "c < length (cpus s) \<Longrightarrow> cproc (cpus s ! c) = Some me \<Longrightarrow> fork21 dp K me (ks s) = (r, k) \<Longrightarrow>
    wstep dp mp K s (s\<lparr>ks := k\<rparr>)"
| exits: "c < length (cpus s) \<Longrightarrow> cproc (cpus s ! c) = Some me \<Longrightarrow> exit21 K me st (ks s) = Some k \<Longrightarrow>
    wstep dp mp K s (swtch_back c (s\<lparr>ks := k\<rparr>))"
| waits: "c < length (cpus s) \<Longrightarrow> cproc (cpus s ! c) = Some me \<Longrightarrow> wait21 dp K me addr (ks s) = (r, k) \<Longrightarrow>
    wstep dp mp K s ((if r = Sleep then swtch_back c else (\<lambda>t. t)) (s\<lparr>ks := k\<rparr>))"
| sleeps: "c < length (cpus s) \<Longrightarrow> cproc (cpus s ! c) = Some me \<Longrightarrow> \<forall>q. ch \<noteq> ChanProc q \<Longrightarrow>
    wstep dp mp K s (swtch_back c (s\<lparr>ks := (ks s)\<lparr>procs := sleep_enter me ch (procs (ks s))\<rparr>\<rparr>))"
| resume: "c < length (cpus s) \<Longrightarrow> cproc (cpus s ! c) = Some me \<Longrightarrow>
    wstep dp mp K s (s\<lparr>ks := (ks s)\<lparr>procs := sleep_return me (procs (ks s))\<rparr>\<rparr>)"
| setprio: "c < length (cpus s) \<Longrightarrow> cproc (cpus s ! c) = Some me \<Longrightarrow> set_priority mp me n (ks s) = (r, k) \<Longrightarrow>
    wstep dp mp K s (s\<lparr>ks := k\<rparr>)"
| faults: "c < length (cpus s) \<Longrightarrow> cproc (cpus s ! c) = Some me \<Longrightarrow>
    wstep dp mp K s (s\<lparr>ks := (ks s)\<lparr>procs := setkilled me (procs (ks s))\<rparr>\<rparr>)"
| frame: "c < length (cpus s) \<Longrightarrow> cproc (cpus s ! c) = Some me \<Longrightarrow>
    wstep dp mp K s (s\<lparr>ks := upd_proc me (\<lambda>p. p\<lparr>tf := f\<rparr>) (ks s)\<rparr>)"
| wakes: "wstep dp mp K s (s\<lparr>ks := (ks s)\<lparr>procs := wakeup i ch (procs (ks s))\<rparr>\<rparr>)"
| kills: "kkill pd (procs (ks s)) = (r, ps) \<Longrightarrow> wstep dp mp K s (s\<lparr>ks := (ks s)\<lparr>procs := ps\<rparr>\<rparr>)"
| machine: "wstep dp mp K s (s\<lparr>ks := (ks s)\<lparr>world := w, shms := rs\<rparr>\<rparr>)"

text \<open>At boot every CPU enters its scheduler with one runnable process, set up by \<^verbatim>\<open>userinit\<close>.\<close>

inductive wreach :: "int \<Rightarrow> int \<Rightarrow> 'w kops \<Rightarrow> 'w wk \<Rightarrow> bool" for dp mp K where
  boot: "boot_table ps \<Longrightarrow> procs k = procinit K ps \<Longrightarrow> nextpid k = 1 \<Longrightarrow> userinit21 dp K uvmfirst k = Some (ks s) \<Longrightarrow>
    \<forall>u\<in>set (cpus s). u = \<lparr>cproc = None, scan = 0, found = False\<rparr> \<Longrightarrow> wreach dp mp K s"
| step: "wreach dp mp K s \<Longrightarrow> wstep dp mp K s t \<Longrightarrow> wreach dp mp K t"

subsection \<open>The invariant\<close>

definition running_set :: "('w, 'a) kstate \<Rightarrow> nat set" where
  "running_set k = {i. i < length (core k) \<and> state (core k ! i) = RUNNING}"

definition cpus_ok :: "nat set \<Rightarrow> cpu list \<Rightarrow> bool" where
  "cpus_ok R us \<longleftrightarrow>
     (\<forall>c<length us. scan (us ! c) \<le> NPROC \<and> (\<forall>i. cproc (us ! c) = Some i \<longrightarrow> scan (us ! c) = i \<and> i < NPROC \<and> i \<in> R)) \<and>
     (\<forall>i\<in>R. \<exists>c<length us. cproc (us ! c) = Some i) \<and>
     (\<forall>c<length us. \<forall>d<length us. cproc (us ! c) = cproc (us ! d) \<and> cproc (us ! c) \<noteq> None \<longrightarrow> c = d)"

definition prio_ok :: "int \<Rightarrow> 'a wproc_scheme \<Rightarrow> bool" where
  "prio_ok mp p \<longleftrightarrow> (state p \<noteq> UNUSED \<longrightarrow> 1 \<le> priority p \<and> priority p \<le> mp \<and> 0 \<le> ticks p \<and> ticks p \<le> priority p)"

definition prios :: "int \<Rightarrow> wproc list \<Rightarrow> bool" where
  "prios mp ps \<longleftrightarrow> list_all (prio_ok mp) ps"

definition winv :: "int \<Rightarrow> 'w wk \<Rightarrow> bool" where
  "winv mp s \<longleftrightarrow> pinv (ks s) \<and> cpus_ok (running_set (ks s)) (cpus s) \<and> prios mp (procs (ks s))"

lemma lab21_ok: "lab_ok (lab21 dp)"
  by (simp add: lab_ok_def lab21_def proc.truncate_def)

lemma trunc_wproc [simp]:
  "trunc (p\<lparr>priority := y1\<rparr>) = trunc p" "trunc (p\<lparr>ticks := y2\<rparr>) = trunc p"
  by (simp_all add: proc.truncate_def)

lemma pinv_len: "pinv k \<Longrightarrow> length (procs k) = NPROC"
  by (simp add: pinv_def tinv_def)

text \<open>The invariant of the process table depends on the protected fields only.\<close>

lemma pinv_cong: "pinv k \<Longrightarrow> core k' = core k \<Longrightarrow> nextpid k' = nextpid k \<Longrightarrow> initproc k' = initproc k \<Longrightarrow> pinv k'"
  by (simp add: pinv_def)

subsubsection \<open>Which processes are running\<close>

lemma running_set_iff: "i \<in> running_set k \<longleftrightarrow> i < length (procs k) \<and> state (procs k ! i) = RUNNING"
  by (auto simp: running_set_def nth_core)

lemma running_set_failed: "failed_alloc k k' \<Longrightarrow> running_set k' = running_set k"
proof -
  assume f: "failed_alloc k k'"
  then have "length (core k') = length (core k)" by (auto simp: failed_alloc_def simp del: length_core)
  then show ?thesis using f by (auto simp: failed_alloc_def running_set_def blank_def nth_list_update_if split: if_splits)
qed

lemma running_set_fork:
  assumes "lab_ok L" and "kfork L K me k = (r, k')"
  shows "running_set k' = running_set k"
  using kfork_core [OF assms]
proof (elim disjE conjE exE)
  assume "failed_alloc k k'"
  then show ?thesis by (rule running_set_failed)
next
  fix n assume f: "find_idx (\<lambda>p. state p = UNUSED) (procs k) = Some n"
    and c: "core k' = (core k)[n := (core k ! n)\<lparr>pid := nextpid k, parent := Some me, state := RUNNABLE\<rparr>]"
  have "state (core k ! n) = UNUSED" using find_idx_SomeD [OF f] by (simp add: nth_core)
  then show ?thesis using arg_cong [OF c, of length] by (auto simp: running_set_def c nth_list_update_if)
qed

lemma running_set_exit:
  assumes "pinv k" and "me < length (procs k)" "state (procs k ! me) = RUNNING" and "kexit K me st k = Some k'"
  shows "running_set k' = running_set k - {me}"
proof -
  have ini: "initproc k \<noteq> Some me" using assms(4) by (auto simp: kexit_def)
  note c = kexit_pinv(2) [OF assms]
  have "state (core k' ! j) = RUNNING \<longleftrightarrow> state (core k ! j) = RUNNING \<and> j \<noteq> me" if "j < length (core k)" for j
    using exit_table_nth(3) [OF ini that, of st] assms(2) by (auto simp: c)
  moreover have "length (core k') = length (core k)" by (simp only: c length_exit_table)
  ultimately show ?thesis by (auto simp: running_set_def)
qed

lemma running_set_sleep:
  "me < length (procs k) \<Longrightarrow> running_set (k\<lparr>procs := sleep_enter me ch (procs k)\<rparr>) = running_set k - {me}"
  by (auto simp: running_set_iff sleep_enter_def nth_list_update_if split: if_splits)

lemma running_set_wait:
  assumes "lab_ok L" and "me < length (procs k)" and "kwait L K me addr k = (r, k')"
  shows "running_set k' = (if r = Sleep then running_set k - {me} else running_set k)"
  using assms(3)
proof (cases rule: kwait_cases)
  case (reap i w)
  obtain p where p: "blank p" "core k' = (core k)[i := p]"
    using freeproc_core [OF assms(1), of i "k\<lparr>world := w\<rparr>" K] reap(1,6) by auto
  have "state (core k ! i) = ZOMBIE" using reap by (simp add: nth_core)
  then show ?thesis
    using reap(5) p arg_cong [OF p(2), of length] by (auto simp: running_set_def blank_def nth_list_update_if)
next
  case (fail w)
  then show ?thesis by (simp add: running_set_def)
next
  case sleep
  then show ?thesis using running_set_sleep [OF assms(2)] by simp
qed

lemma running_set_kill: "kkill pd (procs k) = (r, ps) \<Longrightarrow> running_set (k\<lparr>procs := ps\<rparr>) = running_set k"
  by (auto simp: kkill_def Let_def running_set_iff nth_list_update_if split: option.splits if_splits)

lemma running_set_wakeup: "running_set (k\<lparr>procs := wakeup i ch (procs k)\<rparr>) = running_set k"
  by (auto simp: running_set_iff nth_wakeup wake_one_def split: if_splits)

lemma running_set_boot:
  assumes L: "lab_ok L" and ps: "boot_table ps" "procs s = procinit K ps" and u: "userinit L K s = Some s'"
  shows "running_set s' = {}"
proof -
  have len: "length (procs s) = NPROC" using ps by (simp add: procinit_def boot_table_def length_procinit_from)
  have un: "state (core s ! j) = UNUSED" if "j < NPROC" for j
  proof -
    have "core s ! j = trunc (procinit_from K 0 ps ! j)" using that len ps(2) nth_core [of j s] by (simp add: procinit_def)
    then show ?thesis using that ps(1) by (simp add: nth_procinit_from boot_table_def)
  qed
  obtain i where c: "core s' = (core s)[i := (core s ! i)\<lparr>pid := nextpid s, state := RUNNABLE\<rparr>]" using userinit_core [OF L u] by blast
  then have "length (core s') = NPROC" using len by simp
  then show ?thesis using un by (auto simp: running_set_def c nth_list_update_if split: if_splits)
qed

subsubsection \<open>The assignment of CPUs\<close>

lemma cpus_okD:
  assumes "cpus_ok R us" and "c < length us"
  shows "scan (us ! c) \<le> NPROC" and "cproc (us ! c) = Some i \<Longrightarrow> scan (us ! c) = i \<and> i < NPROC \<and> i \<in> R"
  using assms unfolding cpus_ok_def by blast+

lemma cpus_okI:
  assumes "\<And>c. c < length us \<Longrightarrow> scan (us ! c) \<le> NPROC"
    and "\<And>c i. c < length us \<Longrightarrow> cproc (us ! c) = Some i \<Longrightarrow> scan (us ! c) = i \<and> i < NPROC \<and> i \<in> R"
    and "\<And>i. i \<in> R \<Longrightarrow> \<exists>c<length us. cproc (us ! c) = Some i"
    and "\<And>c d i. c < length us \<Longrightarrow> d < length us \<Longrightarrow> cproc (us ! c) = Some i \<Longrightarrow> cproc (us ! d) = Some i \<Longrightarrow> c = d"
  shows "cpus_ok R us"
  unfolding cpus_ok_def
proof (intro conjI allI impI ballI)
  fix c d assume cd: "c < length us" "d < length us" and eq: "cproc (us ! c) = cproc (us ! d) \<and> cproc (us ! c) \<noteq> None"
  from eq obtain i where "cproc (us ! c) = Some i" by blast
  with eq show "c = d" by (intro assms(4) [OF cd, of i]) auto
qed (use assms(1-3) in blast)+

lemma cpus_okE:
  assumes "cpus_ok R us"
  shows "i \<in> R \<Longrightarrow> \<exists>c<length us. cproc (us ! c) = Some i"
    and "c < length us \<Longrightarrow> d < length us \<Longrightarrow> cproc (us ! c) = Some i \<Longrightarrow> cproc (us ! d) = Some i \<Longrightarrow> c = d"
  using assms unfolding cpus_ok_def by (blast, metis option.distinct(1))

text \<open>A CPU whose process leaves, one that takes a process, and one that moves on in its scan.\<close>

lemma cpus_ok_leave:
  assumes ok: "cpus_ok R us" and c: "c < length us" "cproc (us ! c) = Some me"
  shows "cpus_ok (R - {me}) (us[c := (us ! c)\<lparr>cproc := None, found := True, scan := Suc (scan (us ! c))\<rparr>])" (is "cpus_ok _ ?us")
proof (rule cpus_okI)
  have other: "d \<noteq> c \<and> cproc (us ! d) = Some i" if "d < length ?us" "cproc (?us ! d) = Some i" for d i
    using that c(1) by (cases "d = c") auto
  fix d assume d: "d < length ?us"
  show "scan (?us ! d) \<le> NPROC"
    using d cpus_okD(1) [OF ok, of d] cpus_okD(2) [OF ok c] by (cases "d = c") auto
  fix i assume i: "cproc (?us ! d) = Some i"
  have "i \<noteq> me" using other [OF d i] cpus_okE(2) [OF ok, of d c me] d c by auto
  then show "scan (?us ! d) = i \<and> i < NPROC \<and> i \<in> R - {me}"
    using other [OF d i] cpus_okD(2) [OF ok, of d i] d by auto
  fix e assume "e < length ?us" "cproc (?us ! e) = Some i"
  then show "d = e" using other [OF d i] other [of e i] cpus_okE(2) [OF ok, of d e i] d by auto
next
  fix i assume "i \<in> R - {me}"
  then obtain d where "d < length us" "cproc (us ! d) = Some i" using cpus_okE(1) [OF ok, of i] by auto
  moreover have "d \<noteq> c" using calculation(2) c(2) \<open>i \<in> R - {me}\<close> by auto
  ultimately
  show "\<exists>d<length ?us. cproc (?us ! d) = Some i" by auto
qed

lemma cpus_ok_enter:
  assumes ok: "cpus_ok R us" and c: "c < length us" "cproc (us ! c) = None" and i: "scan (us ! c) = i" "i < NPROC" "i \<notin> R"
  shows "cpus_ok (insert i R) (us[c := (us ! c)\<lparr>cproc := Some i\<rparr>])" (is "cpus_ok _ ?us")
proof (rule cpus_okI)
  fix d assume d: "d < length ?us"
  show "scan (?us ! d) \<le> NPROC" using d cpus_okD(1) [OF ok, of d] by (cases "d = c") auto
  fix j assume j: "cproc (?us ! d) = Some j"
  show "scan (?us ! d) = j \<and> j < NPROC \<and> j \<in> insert i R"
    using d j i c cpus_okD(2) [OF ok, of d j] by (cases "d = c") auto
  fix e assume e: "e < length ?us" "cproc (?us ! e) = Some j"
  have "cproc (us ! b) \<noteq> Some i" if "b < length us" for b using cpus_okD(2) [OF ok that] i(3) by blast
  then show "d = e" using d j e c(1) cpus_okE(2) [OF ok, of d e j] by (cases "d = c"; cases "e = c") auto
next
  fix j assume "j \<in> insert i R"
  then consider "j = i" | d where "d < length us" "cproc (us ! d) = Some j" using cpus_okE(1) [OF ok, of j] by blast
  then show "\<exists>d<length ?us. cproc (?us ! d) = Some j"
  proof cases
    case 1
    then show ?thesis using c(1) by (intro exI [of _ c]) simp
  next
    case (2 d)
    then show ?thesis using c(2) by (intro exI [of _ d]) (cases "d = c", auto)
  qed
qed

lemma cpus_ok_scan:
  assumes ok: "cpus_ok R us" and c: "c < length us" "cproc (us ! c) = None" and u: "cproc u = None" "scan u \<le> NPROC"
  shows "cpus_ok R (us[c := u])"
proof (rule cpus_okI)
  fix d assume d: "d < length (us[c := u])"
  show "scan (us[c := u] ! d) \<le> NPROC" using d u cpus_okD(1) [OF ok, of d] by (cases "d = c") auto
  fix i assume i: "cproc (us[c := u] ! d) = Some i"
  show "scan (us[c := u] ! d) = i \<and> i < NPROC \<and> i \<in> R"
    using d i u cpus_okD(2) [OF ok, of d i] by (cases "d = c") auto
  fix e assume "e < length (us[c := u])" "cproc (us[c := u] ! e) = Some i"
  then show "d = e" using d i u cpus_okE(2) [OF ok, of d e i] by (cases "d = c"; cases "e = c") auto
next
  fix i assume "i \<in> R"
  then obtain d where "d < length us" "cproc (us ! d) = Some i" using cpus_okE(1) [OF ok, of i] by auto
  moreover have "d \<noteq> c" using calculation(2) c(2) by auto
  ultimately
  show "\<exists>d<length (us[c := u]). cproc (us[c := u] ! d) = Some i" by auto
qed

subsubsection \<open>The scheduling fields\<close>

lemma prio_ok_frame [simp]:
  "prio_ok mp (p\<lparr>chan := x2\<rparr>) = prio_ok mp p" "prio_ok mp (p\<lparr>killed_flag := x3\<rparr>) = prio_ok mp p"
  "prio_ok mp (p\<lparr>xstate := x4\<rparr>) = prio_ok mp p" "prio_ok mp (p\<lparr>pid := x5\<rparr>) = prio_ok mp p"
  "prio_ok mp (p\<lparr>parent := x6\<rparr>) = prio_ok mp p" "prio_ok mp (p\<lparr>sz := y2\<rparr>) = prio_ok mp p"
  "prio_ok mp (p\<lparr>pagetable := y3\<rparr>) = prio_ok mp p" "prio_ok mp (p\<lparr>trapframe_pa := y4\<rparr>) = prio_ok mp p"
  "prio_ok mp (p\<lparr>tf := y5\<rparr>) = prio_ok mp p" "prio_ok mp (p\<lparr>context_ra := y6\<rparr>) = prio_ok mp p"
  "prio_ok mp (p\<lparr>context_sp := y7\<rparr>) = prio_ok mp p" "prio_ok mp (p\<lparr>ofile := y8\<rparr>) = prio_ok mp p"
  "prio_ok mp (p\<lparr>cwd := y9\<rparr>) = prio_ok mp p" "prio_ok mp (p\<lparr>pname := y10\<rparr>) = prio_ok mp p"
  "prio_ok mp (p\<lparr>state := UNUSED\<rparr>)"
  by (simp_all add: prio_ok_def)

lemma prio_ok_state: "prio_ok mp p \<Longrightarrow> state p \<noteq> UNUSED \<Longrightarrow> prio_ok mp (p\<lparr>state := x\<rparr>)"
  by (simp add: prio_ok_def)

lemma prios_iff: "prios mp ps \<longleftrightarrow> (\<forall>i<length ps. prio_ok mp (ps ! i))"
  by (simp add: prios_def list_all_length)

lemma priosD: "prios mp ps \<Longrightarrow> i < length ps \<Longrightarrow> prio_ok mp (ps ! i)"
  by (simp add: prios_iff)

lemma prios_update:
  "prios mp ps \<Longrightarrow> (i < length ps \<Longrightarrow> prio_ok mp (ps ! i) \<Longrightarrow> prio_ok mp p) \<Longrightarrow> prios mp (ps[i := p])"
  by (simp add: prios_iff nth_list_update_if)

lemma prios_upd:
  "prios mp (procs k) \<Longrightarrow> (i < length (procs k) \<Longrightarrow> prio_ok mp (procs k ! i) \<Longrightarrow> prio_ok mp (f (procs k ! i))) \<Longrightarrow>
    prios mp (procs (upd_proc i f k))"
  by (simp add: upd_proc_def prios_update)

lemma prios_wakeup: "prios mp ps \<Longrightarrow> prios mp (wakeup me ch ps)"
  by (simp add: prios_iff nth_wakeup wake_one_def prio_ok_state)

lemma prios_reparent: "prios mp ps \<Longrightarrow> prios mp (reparent me ini ps)"
proof -
  have "prios mp (reparent_from is me ini ps)" if "prios mp ps" for "is" ps
    using that
  proof (induction "is" arbitrary: ps)
    case (Cons i "is")
    have "prios mp (ps[i := (ps ! i)\<lparr>parent := ini\<rparr>])" using Cons.prems by (rule prios_update) simp
    then show ?case using Cons by (simp add: prios_wakeup)
  qed simp
  then show "prios mp ps \<Longrightarrow> ?thesis" by (simp add: reparent_def)
qed

lemma prios_free: "prios mp (procs k) \<Longrightarrow> prios mp (procs (freeproc (lab21 dp) K i k))"
proof -
  assume k: "prios mp (procs k)"
  have "prios mp (procs (upd_proc i (\<lambda>p. p\<lparr>trapframe_pa := 0\<rparr>) k'))" if "procs k' = procs k" for k' :: "('a, wext) kstate"
    by (rule prios_upd) (use that k in simp_all)
  then have "prios mp (procs (if b then upd_world f (lab_free (lab21 dp) K i (upd_proc i (\<lambda>p. p\<lparr>trapframe_pa := 0\<rparr>) k'))
      else upd_proc i (\<lambda>p. p\<lparr>trapframe_pa := 0\<rparr>) k'))" if "procs k' = procs k" for b f and k' :: "('a, wext) kstate"
    using that by (simp add: lab21_def)
  then show ?thesis unfolding freeproc_def Let_def by (intro prios_upd) (simp_all split: if_splits)
qed

lemma prios_exit:
  assumes k: "prios mp (procs k)" and me: "state (procs k ! me) \<noteq> UNUSED" "me < length (procs k)" and r: "kexit K me st k = Some k'"
  shows "prios mp (procs k')"
proof -
  obtain fs w where cf: "close_files K (ofile (procs k ! me)) (world k) = (fs, w)" by fastforce
  define k1 where "k1 = upd_proc me (\<lambda>p. p\<lparr>ofile := fs, cwd := 0\<rparr>) (k\<lparr>world := inode_put K (cwd (procs k ! me)) w\<rparr>)"
  define ps where "ps = reparent me (initproc k) (procs k1)"
  have k': "k' = upd_proc me (\<lambda>p. p\<lparr>xstate := st, state := ZOMBIE\<rparr>)
      (k1\<lparr>procs := wakeup me (case parent (ps ! me) of None \<Rightarrow> Chan0 | Some q \<Rightarrow> ChanProc q) ps\<rparr>)"
    using r cf by (simp add: kexit_def Let_def k1_def ps_def split: if_splits)
  have "prios mp (procs k1)" unfolding k1_def using k by (intro prios_upd) simp_all
  then have w: "prios mp (wakeup me ch ps)" for ch unfolding ps_def by (intro prios_wakeup prios_reparent)
  have len: "me < length ps" "me < length (procs k1)" using me(2) by (simp_all add: ps_def k1_def reparent_def)
  have "state (wakeup me ch ps ! me) \<noteq> UNUSED" for ch
    using me nth_reparent [OF _ len(2), of "initproc k" me] r len
    by (auto simp: nth_wakeup ps_def Let_def k1_def kexit_def split: if_splits)
  then show ?thesis unfolding k' using w by (intro prios_upd) (simp_all add: prio_ok_state)
qed

lemma prios_alloc:
  assumes "prios mp (procs k)" and "1 \<le> dp" "dp \<le> mp" and "allocproc (lab21 dp) K k = (r, k')"
  shows "prios mp (procs k')"
proof (cases "find_idx (\<lambda>p. state p = UNUSED) (procs k)")
  case None
  then show ?thesis using assms by (simp add: allocproc_def)
next
  case (Some i)
  obtain pa w where a: "kalloc (vm K) (world k) = (pa, w)" by fastforce
  obtain pt w1 where q: "proc_pagetable K pa w = (pt, w1)" by fastforce
  define k2 where "k2 = alloc_claim (lab21 dp) i k"
  define k3 where "k3 = upd_proc i (\<lambda>p. p\<lparr>trapframe_pa := pa\<rparr>) (k2\<lparr>world := w\<rparr>)"
  define k4 where "k4 = upd_proc i (\<lambda>p. p\<lparr>pagetable := pt\<rparr>) (k3\<lparr>world := w1\<rparr>)"
  note r = allocproc_eq [OF Some a q, of "lab21 dp", folded k2_def, unfolded Let_def, folded k3_def, folded k4_def]
  have k2: "prios mp (procs k2)"
    unfolding k2_def alloc_claim_def by (rule prios_upd) (use assms(1-3) in \<open>simp_all add: lab21_def prio_ok_def\<close>)
  have k3: "prios mp (procs k3)" unfolding k3_def by (rule prios_upd) (use k2 in simp_all)
  have k4: "prios mp (procs k4)" unfolding k4_def by (rule prios_upd) (use k3 in simp_all)
  have k5: "prios mp (procs (upd_proc i (\<lambda>p. p\<lparr>context_ra := forkret_pc K, context_sp := kstack p + PGSIZE\<rparr>) k4))"
    by (rule prios_upd) (use k4 in simp_all)
  show ?thesis using assms(4) r prios_free [OF k3] prios_free [OF k4] k5 by (auto split: if_splits)
qed

lemma prios_fork:
  fixes k :: "('w, wext) kstate"
  assumes k: "prios mp (procs k)" and dp: "1 \<le> dp" "dp \<le> mp" and me: "me < length (procs k)" "state (procs k ! me) = RUNNING"
    and r: "kfork (lab21 dp) K me k = (r, k')"
  shows "prios mp (procs k')"
proof -
  obtain q k1 where a: "allocproc (lab21 dp) K k = (q, k1)" by fastforce
  have k1: "prios mp (procs k1)" by (rule prios_alloc [OF k dp a])
  show ?thesis
  proof (cases q)
    case None
    then show ?thesis using r a k1 by (simp add: kfork_def)
  next
    case (Some n)
    note c1 = allocproc_core [OF lab21_ok a, unfolded Some, simplified]
    have n: "n < length (procs k1)" "n \<noteq> me" using c1 me by (auto simp: nth_core)
    have "core k1 ! me = core k ! me" using c1 n(2) by simp
    then have me1: "me < length (procs k1)" "state (procs k1 ! me) = RUNNING"
      using c1 me by (metis length_core length_list_update, metis length_core length_list_update nth_core trunc_simps(1))
    let ?p = "procs k1 ! me"
    have p: "1 \<le> priority ?p" "priority ?p \<le> mp" using priosD [OF k1 me1(1)] me1(2) by (auto simp: prio_ok_def)
    define k2 where "k2 = upd_proc n (lab_fork (lab21 dp :: ('w, wext) lab) ?p) k1"
    have k2: "prios mp (procs k2)" unfolding k2_def
      by (rule prios_upd [OF k1]) (use p in \<open>simp add: lab21_def prio_ok_def\<close>)
    obtain u w where cp: "uvmcopy K (pagetable ?p) (pagetable (procs k2 ! n)) (sz ?p) (world k1) = (u, w)" by fastforce
    define k4 where "k4 = fork_copy n ?p (k2\<lparr>world := w\<rparr>)"
    obtain fs w1 where fs: "dup_files K (ofile ?p) (ofile (procs k4 ! n)) w = (fs, w1)" by fastforce
    obtain c w2 where c: "inode_dup K (cwd ?p) w1 = (c, w2)" by fastforce
    define k5 where "k5 = upd_proc n (\<lambda>np. np\<lparr>ofile := fs, cwd := c, pname := pname ?p\<rparr>) (k4\<lparr>world := w2\<rparr>)"
    note eq = kfork_eq [OF a [unfolded Some] k2_def cp k4_def fs c k5_def]
    have k4: "prios mp (procs k4)" unfolding k4_def fork_copy_def by (rule prios_upd) (use k2 in simp_all)
    have k5: "prios mp (procs k5)" unfolding k5_def by (rule prios_upd) (use k4 in simp_all)
    have "prio_ok mp ((procs k5 ! n)\<lparr>state := RUNNABLE\<rparr>)"
      using n(1) p by (simp add: k5_def k4_def k2_def fork_copy_def lab21_def prio_ok_def)
    then have "prios mp (procs (upd_proc n (\<lambda>np. np\<lparr>parent := Some me, state := RUNNABLE\<rparr>) k5))"
      by (intro prios_upd [OF k5]) (simp add: prio_ok_def)
    then show ?thesis
      using r eq prios_free [of mp "k2\<lparr>world := w\<rparr>" dp K n] k2 by (auto split: if_splits)
  qed
qed

lemma prios_wait:
  assumes "prios mp (procs k)" and "state (procs k ! me) = RUNNING" and "kwait (lab21 dp) K me addr k = (r, k')"
  shows "prios mp (procs k')"
  using assms(3)
proof (cases rule: kwait_cases)
  case (reap i w)
  then show ?thesis using prios_free [of mp "k\<lparr>world := w\<rparr>" dp K i] assms(1) by simp
next
  case (sleep)
  then show ?thesis using assms(1,2) by (auto simp: sleep_enter_def prio_ok_state intro!: prios_update)
qed (use assms(1) in simp)

subsubsection \<open>Preservation\<close>

lemma winvE:
  assumes "winv mp s"
  shows "pinv (ks s)" and "cpus_ok (running_set (ks s)) (cpus s)" and "prios mp (procs (ks s))"
    and "length (procs (ks s)) = NPROC"
    and "c < length (cpus s) \<Longrightarrow> cproc (cpus s ! c) = Some me \<Longrightarrow> me < length (procs (ks s)) \<and> state (procs (ks s) ! me) = RUNNING"
  using assms pinv_len [of "ks s"] cpus_okD(2) [of "running_set (ks s)" "cpus s" c me]
  by (simp_all add: winv_def running_set_iff)

lemma winv_keep:
  assumes "winv mp s" and "pinv k" and "running_set k = running_set (ks s)" and "prios mp (procs k)"
  shows "winv mp (s\<lparr>ks := k\<rparr>)"
  using assms by (simp add: winv_def)

lemma winv_leave:
  assumes "winv mp s" and "c < length (cpus s)" "cproc (cpus s ! c) = Some me" and "pinv k"
    and "running_set k = running_set (ks s) - {me}" and "prios mp (procs k)"
  shows "winv mp (swtch_back c (s\<lparr>ks := k\<rparr>))"
  using assms cpus_ok_leave [of "running_set (ks s)" "cpus s" c me]
  by (simp add: winv_def swtch_back_def upd_cpu_def)

lemma pinv_procs:
  assumes "pinv k" and "map trunc ps = core k"
  shows "pinv (k\<lparr>procs := ps\<rparr>)"
  using assms by (simp add: pinv_def core_def)

lemma setkilled_pinv:
  assumes "pinv k" and "me < length (procs k)" "state (procs k ! me) = RUNNING"
  shows "pinv (k\<lparr>procs := setkilled me (procs k)\<rparr>)"
proof -
  have "tinv (map trunc (setkilled me (procs k))) (nextpid k) (initproc k)"
    by (rule tinv_wake [OF assms(1) [unfolded pinv_def]])
      (use assms in \<open>auto simp: setkilled_def core_def map_update nth_list_update_if live_def\<close>)
  then show ?thesis by (simp add: pinv_def core_def)
qed

lemma timer_pinv:
  assumes inv: "pinv k" and me: "me < length (procs k)" "state (procs k ! me) = RUNNING"
    and r: "timer_branch me (procs k) = (g, ps)"
  shows "pinv (k\<lparr>procs := ps\<rparr>)" and "running_set (k\<lparr>procs := ps\<rparr>) = (if g then running_set k - {me} else running_set k)"
proof -
  let ?p = "procs k ! me"
  have t: "trunc ?p = core k ! me" using me(1) by (simp add: nth_core)
  show "pinv (k\<lparr>procs := ps\<rparr>)"
  proof (cases g)
    case True
    then have ps: "ps = yield me ((procs k)[me := ?p\<lparr>ticks := 0\<rparr>])"
      using r me(2) by (auto simp: timer_branch_def Let_def split: if_splits)
    have "map trunc ps = core (k\<lparr>procs := yield me (procs k)\<rparr>)"
      using me(1) by (simp add: ps yield_def core_def map_update)
    moreover have "pinv (k\<lparr>procs := yield me (procs k)\<rparr>)"
      by (rule pstep_pinv [OF lab31_ok inv pstep.yields [OF me, where K = undefined]])
    ultimately show ?thesis using pinv_procs [of "k\<lparr>procs := yield me (procs k)\<rparr>" ps] by simp
  next
    case False
    then have ps: "ps = (procs k)[me := ?p\<lparr>ticks := ticks ?p + 1\<rparr>]"
      using r me(2) by (auto simp: timer_branch_def Let_def split: if_splits)
    have "map trunc ps = core k" using list_update_id [of "core k" me] t by (simp add: ps map_update) (simp add: core_def)
    then show ?thesis by (rule pinv_procs [OF inv])
  qed
  show "running_set (k\<lparr>procs := ps\<rparr>) = (if g then running_set k - {me} else running_set k)"
    using r me by (auto simp: timer_branch_def Let_def yield_def running_set_iff nth_list_update_if split: if_splits)
qed

lemma timer_prios:
  assumes "prios mp ps" and "state (ps ! me) = RUNNING" and "timer_branch me ps = (g, ps')"
  shows "prios mp ps'"
  using assms by (auto simp: timer_branch_def Let_def yield_def prio_ok_def intro!: prios_update split: if_splits)

lemma scheduler_winv:
  assumes inv: "winv mp s" and c: "c < length (cpus s)" "cproc (cpus s ! c) = None"
  shows "winv mp (scheduler c s)"
proof -
  define i where "i = scan (cpus s ! c)"
  note ok = winvE [OF inv]
  have le: "i \<le> NPROC" using cpus_okD(1) [OF ok(2) c(1)] by (simp add: i_def)
  show ?thesis
  proof (cases "i < NPROC \<and> state (procs (ks s) ! i) = RUNNABLE")
    case True
    let ?k = "upd_proc i (\<lambda>p. p\<lparr>ticks := priority p, state := RUNNING\<rparr>) (ks s)"
    let ?r = "upd_proc i (\<lambda>p. p\<lparr>state := RUNNING\<rparr>) (ks s)"
    have i: "i < length (procs (ks s))" using True ok(4) by simp
    have "pinv ?r" by (rule pstep_pinv [OF lab31_ok ok(1) pstep.run [where K = undefined]]) (use True i in auto)
    then have "pinv ?k" by (rule pinv_cong) simp_all
    moreover have "running_set ?k = insert i (running_set (ks s))"
      using i by (auto simp: running_set_iff upd_proc_def nth_list_update_if split: if_splits)
    moreover have "prios mp (procs ?k)"
      using True by (intro prios_upd [OF ok(3)]) (simp add: prio_ok_def)
    moreover have "cpus_ok (insert i (running_set (ks s))) ((cpus s)[c := (cpus s ! c)\<lparr>cproc := Some i\<rparr>])"
      by (rule cpus_ok_enter [OF ok(2) c]) (use True in \<open>auto simp: i_def running_set_iff\<close>)
    ultimately show ?thesis using True by (simp add: scheduler_def winv_def upd_cpu_def flip: i_def)
  next
    case False
    then have "scheduler c s = upd_cpu c (\<lambda>u. if i < NPROC then u\<lparr>scan := Suc i\<rparr> else u\<lparr>scan := 0, found := False\<rparr>) s"
      by (auto simp: scheduler_def upd_cpu_def Let_def simp flip: i_def)
    moreover have "cpus_ok (running_set (ks s)) ((cpus s)[c := (if i < NPROC then (cpus s ! c)\<lparr>scan := Suc i\<rparr> else (cpus s ! c)\<lparr>scan := 0, found := False\<rparr>)])"
      by (rule cpus_ok_scan [OF ok(2) c]) (use c(2) in auto)
    ultimately show ?thesis using inv by (simp add: winv_def upd_cpu_def)
  qed
qed

lemma set_priority_winv:
  assumes inv: "winv mp s" and c: "c < length (cpus s)" "cproc (cpus s ! c) = Some me" and r: "set_priority mp me n (ks s) = (r, k)"
  shows "winv mp (s\<lparr>ks := k\<rparr>)"
proof (cases "n < 1 \<or> n > mp")
  case True
  then show ?thesis using inv r by (auto simp: set_priority_def)
next
  case False
  note ok = winvE [OF inv]
  have me: "me < length (procs (ks s))" using ok(5) [OF c] by simp
  have k: "k = upd_proc me (\<lambda>p. p\<lparr>priority := n, ticks := 0\<rparr>) (ks s)" using False r by (auto simp: set_priority_def)
  have "core k = core (ks s)" using me by (simp add: k list_update_id flip: nth_core)
  then have "pinv k" "running_set k = running_set (ks s)"
    using ok(1) by (auto simp: running_set_def pinv_def k)
  moreover have "prios mp (procs k)" unfolding k using False by (intro prios_upd [OF ok(3)]) (simp add: prio_ok_def)
  ultimately show ?thesis using winv_keep [OF inv] by blast
qed

lemma wstep_winv:
  assumes dp: "1 \<le> dp" "dp \<le> mp" and inv: "winv mp s" and st: "wstep dp mp K s t"
  shows "winv mp t"
proof -
  note ok = winvE [OF inv]
  from st show ?thesis
  proof cases
    case (sched c)
    then show ?thesis using scheduler_winv [OF inv] by simp
  next
    case (timer c me g ps)
    note me = ok(5) [OF timer(2,3), THEN conjunct1] ok(5) [OF timer(2,3), THEN conjunct2]
    note k = timer_pinv [OF ok(1) me timer(4)] timer_prios [OF ok(3) me(2) timer(4)]
    show ?thesis
      unfolding timer(1) using k winv_leave [OF inv timer(2,3)] winv_keep [OF inv] by (cases g) simp_all
  next
    case (forks c me r k)
    note me = ok(5) [OF forks(2,3), THEN conjunct1] ok(5) [OF forks(2,3), THEN conjunct2]
    note f = forks(4) [unfolded fork21_def]
    show ?thesis unfolding forks(1)
      by (rule winv_keep [OF inv kfork_pinv [OF lab21_ok ok(1) me f] running_set_fork [OF lab21_ok f] prios_fork [OF ok(3) dp me f]])
  next
    case (exits c me st k)
    note me = ok(5) [OF exits(2,3), THEN conjunct1] ok(5) [OF exits(2,3), THEN conjunct2]
    note e = exits(4) [unfolded exit21_def]
    show ?thesis unfolding exits(1)
      by (rule winv_leave [OF inv exits(2,3) kexit_pinv(1) [OF ok(1) me e] running_set_exit [OF ok(1) me e] prios_exit [OF ok(3) _ me(1) e]])
        (simp add: me(2))
  next
    case (waits c me addr r k)
    note me = ok(5) [OF waits(2,3), THEN conjunct1] ok(5) [OF waits(2,3), THEN conjunct2]
    note w = waits(4) [unfolded wait21_def]
    note k = kwait_pinv [OF lab21_ok ok(1) me w] running_set_wait [OF lab21_ok me(1) w] prios_wait [OF ok(3) me(2) w]
    show ?thesis
      unfolding waits(1) using k winv_leave [OF inv waits(2,3)] winv_keep [OF inv] by (cases "r = Sleep") simp_all
  next
    case (sleeps c me ch)
    note me = ok(5) [OF sleeps(2,3), THEN conjunct1] ok(5) [OF sleeps(2,3), THEN conjunct2]
    have "pinv ((ks s)\<lparr>procs := sleep_enter me ch (procs (ks s))\<rparr>)"
      by (rule pstep_pinv [OF lab21_ok ok(1) pstep.sleeps [OF me sleeps(4)]])
    moreover have "prios mp (sleep_enter me ch (procs (ks s)))"
      unfolding sleep_enter_def using me(2) by (intro prios_update [OF ok(3)]) (simp add: prio_ok_def)
    ultimately show ?thesis
      unfolding sleeps(1) using running_set_sleep [OF me(1)] by (intro winv_leave [OF inv sleeps(2,3)]) simp_all
  next
    case (resume c me)
    note me = ok(5) [OF resume(2,3), THEN conjunct1] ok(5) [OF resume(2,3), THEN conjunct2]
    have "pinv ((ks s)\<lparr>procs := sleep_return me (procs (ks s))\<rparr>)"
      by (rule pstep_pinv [OF lab21_ok ok(1) pstep.resume [OF me]])
    moreover have "prios mp (sleep_return me (procs (ks s)))"
      unfolding sleep_return_def by (intro prios_update [OF ok(3)]) simp
    moreover have "running_set ((ks s)\<lparr>procs := sleep_return me (procs (ks s))\<rparr>) = running_set (ks s)"
      by (auto simp: running_set_iff sleep_return_def nth_list_update_if split: if_splits)
    ultimately show ?thesis unfolding resume(1) by (intro winv_keep [OF inv]) simp_all
  next
    case (setprio c me n r k)
    then show ?thesis using set_priority_winv [OF inv] by simp
  next
    case (faults c me)
    note me = ok(5) [OF faults(2,3), THEN conjunct1] ok(5) [OF faults(2,3), THEN conjunct2]
    have "pinv ((ks s)\<lparr>procs := setkilled me (procs (ks s))\<rparr>)" by (rule setkilled_pinv [OF ok(1) me])
    moreover have "prios mp (setkilled me (procs (ks s)))"
      unfolding setkilled_def by (intro prios_update [OF ok(3)]) simp
    moreover have "running_set ((ks s)\<lparr>procs := setkilled me (procs (ks s))\<rparr>) = running_set (ks s)"
      by (auto simp: running_set_iff setkilled_def nth_list_update_if split: if_splits)
    ultimately show ?thesis unfolding faults(1) by (intro winv_keep [OF inv]) simp_all
  next
    case (frame c me f)
    note me = ok(5) [OF frame(2,3), THEN conjunct1]
    let ?k = "upd_proc me (\<lambda>p. p\<lparr>tf := f\<rparr>) (ks s)"
    have core: "core ?k = core (ks s)" using me by (simp add: list_update_id flip: nth_core)
    have "prios mp (procs ?k)" by (intro prios_upd [OF ok(3)]) simp
    moreover have "pinv ?k" by (rule pinv_cong [OF ok(1) core]) simp_all
    moreover have "running_set ?k = running_set (ks s)" unfolding running_set_def core ..
    ultimately show ?thesis unfolding frame(1) by (intro winv_keep [OF inv])
  next
    case (wakes i ch)
    have "pinv ((ks s)\<lparr>procs := wakeup i ch (procs (ks s))\<rparr>)"
      by (rule pstep_pinv [OF lab21_ok ok(1) pstep.wakes])
    then show ?thesis
      unfolding wakes using running_set_wakeup prios_wakeup [OF ok(3)] by (intro winv_keep [OF inv]) simp_all
  next
    case (kills pd r ps)
    have "prios mp ps"
      using kills(2) ok(3) by (auto simp: kkill_def Let_def prio_ok_def intro!: prios_update split: option.splits if_splits)
    then show ?thesis
      unfolding kills(1) using running_set_kill [OF kills(2)] kkill_pinv [OF ok(1) kills(2)] by (intro winv_keep [OF inv]) simp_all
  next
    case (machine rs w)
    have "pinv ((ks s)\<lparr>world := w, shms := rs\<rparr>)" by (rule pinv_cong [OF ok(1)]) (simp_all add: core_def)
    then show ?thesis unfolding machine using ok(3) by (intro winv_keep [OF inv]) (auto simp: running_set_iff)
  qed
qed

lemma wboot_winv:
  assumes dp: "1 \<le> dp" "dp \<le> mp" and ps: "boot_table ps" "procs k = procinit K ps" "nextpid k = 1"
    and u: "userinit21 dp K uvmfirst k = Some (ks s)" and us: "\<forall>u\<in>set (cpus s). u = \<lparr>cproc = None, scan = 0, found = False\<rparr>"
  shows "winv mp s"
proof -
  obtain i k1 where a: "allocproc (lab21 dp) K k = (Some i, k1)"
    using u by (auto simp: userinit21_def allocproc21_def split: prod.splits option.splits)
  define k2 where "k2 = upd_world (uvmfirst (pagetable (procs k1 ! i)) initcode) (k1\<lparr>initproc := Some i\<rparr>)"
  obtain ino w where rt: "root_inode K (world k2) = (ino, w)" by fastforce
  have s: "ks s = upd_proc i (\<lambda>p. p\<lparr>sz := PGSIZE, tf := (tf p)\<lparr>epc := 0, uregs := (uregs (tf p))(sp_reg := PGSIZE)\<rparr>,
                     pname := ''initcode'', cwd := ino, state := RUNNABLE\<rparr>) (k2\<lparr>world := w\<rparr>)"
    using u a rt by (simp add: userinit21_def allocproc21_def Let_def k2_def)
  obtain ino' w' where rt': "root_inode K (world k1) = (ino', w')" by fastforce
  then obtain k' where k': "userinit (lab21 dp) K k = Some k'" using a by (simp add: userinit_def)
  have "pinv k'" by (rule boot_pinv [OF lab21_ok ps k'])
  moreover have "core (ks s) = core k'" "nextpid (ks s) = nextpid k'" "initproc (ks s) = initproc k'"
    using k' a rt' by (auto simp: s k2_def userinit_def)
  ultimately have inv: "pinv (ks s)" by (rule pinv_cong) 
  note c1 = allocproc_core [OF lab21_ok a, simplified]
  have len: "length (procs k) = NPROC" using ps by (simp add: procinit_def boot_table_def length_procinit_from)
  have un: "state (procs k ! j) = UNUSED" if "j < NPROC" for j
    using that ps arg_cong [OF nth_procinit_from [of j ps K 0], of state] by (simp add: procinit_def boot_table_def)
  have i: "i < length (procs k1)" using c1 by simp
  have "running_set (ks s) = {}" using running_set_boot [OF lab21_ok ps(1,2) k'] \<open>core (ks s) = core k'\<close> by (simp add: running_set_def)
  moreover have "prios mp (procs k)" using un len by (simp add: prios_iff prio_ok_def)
  then have p1: "prios mp (procs k1)" by (rule prios_alloc [OF _ dp a])
  have "state (procs k1 ! i) = state (core k1 ! i)" using i by (simp add: nth_core)
  then have "state (procs k1 ! i) \<noteq> UNUSED" using c1 by simp
  then have "prios mp (procs (ks s))"
    unfolding s by (intro prios_upd) (use p1 i in \<open>auto simp: k2_def prio_ok_state\<close>)
  moreover have u: "cpus s ! c = \<lparr>cproc = None, scan = 0, found = False\<rparr>" if "c < length (cpus s)" for c
    using us nth_mem [OF that] by blast
  have "cpus_ok {} (cpus s)" by (rule cpus_okI) (simp_all add: u)
  ultimately show ?thesis using inv \<open>cpus_ok {} (cpus s)\<close> by (simp add: winv_def)
qed

lemma wreach_winv:
  assumes "1 \<le> dp" "dp \<le> mp" and "wreach dp mp K s"
  shows "winv mp s"
  using assms(3)
proof (induction rule: wreach.induct)
  case (boot ps k uvmfirst s)
  then show ?case using wboot_winv [OF assms(1,2)] by blast
next
  case (step s t)
  then show ?case using wstep_winv [OF assms(1,2)] by blast
qed

end
