(* ===== verification/WrrProps.thy ===== *)
theory WrrProps
  imports WrrInv
begin

text \<open>
  What the weighted round-robin scheduler gives: the assignment of processes to CPUs, the range of the
  scheduling fields, bounded waiting, and the length of a time slice.
\<close>

subsection \<open>Runs in which a process waits\<close>

text \<open>
  \<open>wait_run j c s ds t\<close>: the machine goes from \<open>s\<close> to \<open>t\<close> while process \<open>j\<close> stays runnable; \<open>ds\<close> are the
  processes CPU \<open>c\<close> dispatched meanwhile, in order.
\<close>

inductive wait_run :: "int \<Rightarrow> int \<Rightarrow> 'w kops \<Rightarrow> nat \<Rightarrow> nat \<Rightarrow> 'w wk \<Rightarrow> nat list \<Rightarrow> 'w wk \<Rightarrow> bool" for dp mp K j c s where
  start: "state (procs (ks s) ! j) = RUNNABLE \<Longrightarrow> wait_run dp mp K j c s [] s"
| keep: "wait_run dp mp K j c s ds t \<Longrightarrow> wstep dp mp K t u \<Longrightarrow> state (procs (ks u) ! j) = RUNNABLE \<Longrightarrow>
    cproc (cpus t ! c) = cproc (cpus u ! c) \<or> cproc (cpus u ! c) = None \<Longrightarrow> wait_run dp mp K j c s ds u"
| dispatch: "wait_run dp mp K j c s ds t \<Longrightarrow> wstep dp mp K t u \<Longrightarrow> state (procs (ks u) ! j) = RUNNABLE \<Longrightarrow>
    cproc (cpus t ! c) = None \<Longrightarrow> cproc (cpus u ! c) = Some i \<Longrightarrow> wait_run dp mp K j c s (ds @ [i]) u"

text \<open>How many entries the scan of CPU \<open>c\<close> passes before it is at \<open>j\<close>.\<close>

definition ahead :: "nat \<Rightarrow> nat \<Rightarrow> nat" where
  "ahead j i = (if i \<le> j then j - i else j + (Suc NPROC - i))"

lemma ahead_Suc: "i < NPROC \<Longrightarrow> i \<noteq> j \<Longrightarrow> ahead j i = Suc (ahead j (Suc i))"
  by (auto simp: ahead_def)

lemma ahead_wrap: "j < NPROC \<Longrightarrow> ahead j NPROC = Suc (ahead j 0)"
  by (auto simp: ahead_def)

lemma ahead_le: "j < NPROC \<Longrightarrow> i \<le> NPROC \<Longrightarrow> ahead j i \<le> NPROC"
  by (auto simp: ahead_def)

text \<open>What one step does to CPU \<open>c\<close>: nothing, its process leaves, or its scheduler makes a turn.\<close>

lemma cpu_upd [simp]: "cpus (upd_cpu d f s) ! c = (if d = c \<and> c < length (cpus s) then f (cpus s ! c) else cpus s ! c)"
  "length (cpus (upd_cpu d f s)) = length (cpus s)" "ks (upd_cpu d f s) = ks s"
  by (auto simp: upd_cpu_def nth_list_update_if)

lemma scheduler_other: "d \<noteq> c \<Longrightarrow> cpus (scheduler d s) ! c = cpus s ! c"
  by (simp add: scheduler_def Let_def)

lemma wstep_cpu:
  assumes "wstep dp mp K t u" and "c < length (cpus t)"
  shows "length (cpus u) = length (cpus t) \<and>
    (cpus u ! c = cpus t ! c \<or>
     (\<exists>i. cproc (cpus t ! c) = Some i \<and> cpus u ! c = (cpus t ! c)\<lparr>cproc := None, found := True, scan := Suc (scan (cpus t ! c))\<rparr>) \<or>
     cproc (cpus t ! c) = None \<and> u = scheduler c t)"
  using assms(1)
proof cases
  case (sched d)
  then show ?thesis by (cases "d = c") (auto simp: scheduler_other scheduler_def Let_def)
next
  case (timer d me g ps)
  then show ?thesis using assms(2) by (cases "d = c"; cases g) (auto simp: swtch_back_def)
next
  case (exits d me st k)
  then show ?thesis using assms(2) by (cases "d = c") (auto simp: swtch_back_def)
next
  case (waits d me addr r k)
  then show ?thesis using assms(2) by (cases "d = c"; cases "r = Sleep") (auto simp: swtch_back_def)
next
  case (sleeps d me ch)
  then show ?thesis using assms(2) by (cases "d = c") (auto simp: swtch_back_def)
qed (use assms(2) in simp_all)

lemma wstep_cpu_cases:
  assumes "wstep dp mp K t u" and "c < length (cpus t)"
  obtains (same) "cpus u ! c = cpus t ! c"
  | (leave) i where "cproc (cpus t ! c) = Some i"
      "cpus u ! c = (cpus t ! c)\<lparr>cproc := None, found := True, scan := Suc (scan (cpus t ! c))\<rparr>"
  | (turn) "cproc (cpus t ! c) = None" "u = scheduler c t"
  using wstep_cpu [OF assms]
  by (elim conjE disjE exE) (rule same leave turn, assumption+)+

text \<open>
  While \<open>j\<close> stays runnable the scan of \<open>c\<close> only approaches it: a turn of the scheduler either dispatches
  the process it is at, staying there, or moves one entry on; and so does a process that leaves.
\<close>

lemma scheduler_turn:
  assumes j: "j < NPROC" and c: "c < length (cpus t)" "cproc (cpus t ! c) = None" "scan (cpus t ! c) \<le> NPROC"
    and rn: "state (procs (ks (scheduler c t)) ! j) = RUNNABLE" and len: "length (procs (ks t)) = NPROC"
  shows "cpus (scheduler c t) ! c = (cpus t ! c)\<lparr>cproc := Some (scan (cpus t ! c))\<rparr> \<and> scan (cpus t ! c) \<noteq> j \<and> scan (cpus t ! c) < NPROC \<or>
    cproc (cpus (scheduler c t) ! c) = None \<and> ahead j (scan (cpus t ! c)) = Suc (ahead j (scan (cpus (scheduler c t) ! c)))"
proof -
  let ?u = "cpus t ! c"
  consider (run) "scan ?u < NPROC" "state (procs (ks t) ! scan ?u) = RUNNABLE"
    | (skip) "scan ?u < NPROC" "state (procs (ks t) ! scan ?u) \<noteq> RUNNABLE" | (wrap) "scan ?u = NPROC" using c(3) by linarith
  then show ?thesis
  proof cases
    case run
    then have "scan ?u \<noteq> j" using rn len by (auto simp: scheduler_def Let_def)
    then show ?thesis using run c by (simp add: scheduler_def Let_def)
  next
    case skip
    then have "scan ?u \<noteq> j" using rn by (auto simp: scheduler_def Let_def)
    then show ?thesis using skip c ahead_Suc [of "scan ?u" j] by (simp add: scheduler_def Let_def)
  next
    case wrap
    then show ?thesis using c j ahead_wrap [of j] by (simp add: scheduler_def Let_def)
  qed
qed

lemma wait_run_end: "wait_run dp mp K j c s ds t \<Longrightarrow> state (procs (ks t) ! j) = RUNNABLE"
  by (induction rule: wait_run.induct) auto

lemma wait_run_inv:
  assumes dp: "1 \<le> dp" "dp \<le> mp" and inv: "winv mp s" and j: "j < NPROC" and c: "c < length (cpus s)"
    and r: "wait_run dp mp K j c s ds t"
  shows "winv mp t \<and> c < length (cpus t) \<and> sorted_wrt (>) (map (ahead j) ds) \<and>
    (\<forall>i\<in>set ds. i < NPROC \<and> i \<noteq> j \<and>
       (if cproc (cpus t ! c) = None then ahead j (scan (cpus t ! c)) < ahead j i else ahead j (scan (cpus t ! c)) \<le> ahead j i))"
  using r
proof (induction rule: wait_run.induct)
  case start
  then show ?case using inv c by simp
next
  case (keep ds t u)
  then have I: "winv mp t" "c < length (cpus t)" by auto
  note ok = winvE [OF I(1)]
  have "winv mp u" by (rule wstep_winv [OF dp I(1) keep.hyps(2)])
  have "if cproc (cpus u ! c) = None then ahead j (scan (cpus u ! c)) < ahead j (scan (cpus t ! c)) \<or> cpus u ! c = cpus t ! c
      else cpus u ! c = cpus t ! c"
    using keep.hyps(2) I(2)
  proof (cases rule: wstep_cpu_cases)
    case (leave i)
    note m = cpus_okD(2) [OF ok(2) I(2) leave(1)]
    have "state (procs (ks t) ! i) = RUNNING" using m unfolding running_set_iff by simp
    moreover have "state (procs (ks t) ! j) = RUNNABLE" by (rule wait_run_end [OF keep.hyps(1)])
    ultimately have "i \<noteq> j" by (metis procstate.simps(26))
    then have "ahead j i = Suc (ahead j (Suc i))" using m by (intro ahead_Suc) simp_all
    then show ?thesis using leave m by simp
  next
    case turn
    then show ?thesis
      using scheduler_turn [OF j I(2), OF _ cpus_okD(1) [OF ok(2) I(2)] _ ok(4)] keep.hyps(3,4) by auto
  qed simp
  then show ?case using keep \<open>winv mp u\<close> wstep_cpu [OF keep.hyps(2) I(2)] by (auto split: if_splits)
next
  case (dispatch ds t u i)
  then have I: "winv mp t" "c < length (cpus t)" by auto
  note ok = winvE [OF I(1)]
  have "winv mp u" by (rule wstep_winv [OF dp I(1) dispatch.hyps(2)])
  have u: "u = scheduler c t" using wstep_cpu [OF dispatch.hyps(2) I(2)] dispatch.hyps(4,5) by auto
  have "cpus u ! c = (cpus t ! c)\<lparr>cproc := Some i\<rparr> \<and> scan (cpus t ! c) = i \<and> i \<noteq> j \<and> i < NPROC"
    using scheduler_turn [OF j I(2) dispatch.hyps(4) cpus_okD(1) [OF ok(2) I(2)] _ ok(4)] dispatch.hyps(3,5) by (auto simp: u)
  then show ?case
    using dispatch \<open>winv mp u\<close> wstep_cpu [OF dispatch.hyps(2) I(2)] by (auto simp: sorted_wrt_append)
qed

lemma scheduler_search:
  assumes "length (procs (ks s)) = NPROC" and "c < length (cpus s)" and "cproc (cpus s ! c) = None" and "scan (cpus s ! c) \<le> NPROC"
    and "j < NPROC" and "state (procs (ks s) ! j) = RUNNABLE"
  shows "\<exists>n\<le>ahead j (scan (cpus s ! c)). ks ((scheduler c ^^ n) s) = ks s \<and>
    (\<exists>i<NPROC. state (procs (ks s) ! i) = RUNNABLE \<and> cproc (cpus ((scheduler c ^^ Suc n) s) ! c) = Some i)"
  using assms
proof (induction "ahead j (scan (cpus s ! c))" arbitrary: s rule: less_induct)
  case less
  let ?u = "cpus s ! c"
  show ?case
  proof (cases "scan ?u < NPROC \<and> state (procs (ks s) ! scan ?u) = RUNNABLE")
    case True
    then show ?thesis using less.prems(2) by (intro exI [of _ 0]) (auto simp: scheduler_def Let_def)
  next
    case False
    define t where "t = scheduler c s"
    have ks: "ks t = ks s" and cp: "cproc (cpus t ! c) = None" "scan (cpus t ! c) \<le> NPROC" "length (cpus t) = length (cpus s)"
      using False less.prems by (auto simp: t_def scheduler_def Let_def)
    have ah: "ahead j (scan ?u) = Suc (ahead j (scan (cpus t ! c)))"
      using scheduler_turn [OF less.prems(5,2,3,4) _ less.prems(1)] less.prems(6) ks cp(1) by (auto simp: t_def)
    obtain n i where n: "n \<le> ahead j (scan (cpus t ! c))" "ks ((scheduler c ^^ n) t) = ks t" "i < NPROC"
      "state (procs (ks t) ! i) = RUNNABLE" "cproc (cpus ((scheduler c ^^ Suc n) t) ! c) = Some i"
      using less.hyps [of t] ah less.prems ks cp by auto
    show ?thesis
      by (rule exI [of _ "Suc n"]) (use n ah ks in \<open>auto simp: t_def funpow_swap1\<close>)
  qed
qed

subsection \<open>Properties\<close>

text \<open>
  Property C18. However the CPUs interleave, a process runs on at most one CPU, and the processes in state
  \<^verbatim>\<open>RUNNING\<close> are exactly those that some CPU runs.\<close>

theorem no_process_on_two_cpus:
  assumes "1 \<le> dp" "dp \<le> mp" and "wreach dp mp K s" and "i < NPROC"
  shows "(\<forall>c<length (cpus s). \<forall>d<length (cpus s). cproc (cpus s ! c) = Some i \<and> cproc (cpus s ! d) = Some i \<longrightarrow> c = d) \<and>
    (state (procs (ks s) ! i) = RUNNING \<longleftrightarrow> (\<exists>c<length (cpus s). cproc (cpus s ! c) = Some i))"
proof -
  note inv = wreach_winv [OF assms(1-3)]
  note ok = winvE [OF inv]
  have "state (procs (ks s) ! i) = RUNNING \<longleftrightarrow> i \<in> running_set (ks s)" using assms(4) ok(4) by (simp add: running_set_iff)
  then show ?thesis using cpus_okE [OF ok(2)] cpus_okD(2) [OF ok(2)] by metis
qed

text \<open>
  Property C23. In every reachable state a process has a priority between 1 and \<^verbatim>\<open>MAX_PRIORITY\<close> and has used
  between 0 and \<^verbatim>\<open>priority\<close> ticks of its slice: \<^verbatim>\<open>setpriority\<close>, \<^verbatim>\<open>fork\<close> and the timer keep the fields in range,
  so the increment in the timer interrupt cannot overflow.\<close>

theorem priority_in_range:
  assumes "1 \<le> dp" "dp \<le> mp" and "wreach dp mp K s" and "i < NPROC" and "state (procs (ks s) ! i) \<noteq> UNUSED"
  shows "1 \<le> priority (procs (ks s) ! i) \<and> priority (procs (ks s) ! i) \<le> mp \<and>
    0 \<le> ticks (procs (ks s) ! i) \<and> ticks (procs (ks s) ! i) \<le> priority (procs (ks s) ! i)"
  using priosD [OF winvE(3) [OF wreach_winv [OF assms(1-3)]], of i] winvE(4) [OF wreach_winv [OF assms(1-3)]] assms(4,5)
  by (simp add: prio_ok_def)

text \<open>
  Property C19. Bounded waiting: while a process stays runnable, each CPU dispatches every other process at
  most once, whatever the priorities are and whatever the processes do, so a waiting process is passed over
  fewer than \<^verbatim>\<open>NPROC\<close> times.\<close>

theorem round_robin_bounded_wait:
  assumes "1 \<le> dp" "dp \<le> mp" and "wreach dp mp K s" and "j < NPROC" and "c < length (cpus s)"
    and "wait_run dp mp K j c s ds t"
  shows "distinct ds \<and> j \<notin> set ds \<and> length ds < NPROC"
proof -
  note I = wait_run_inv [OF assms(1,2) wreach_winv [OF assms(1-3)] assms(4-6)]
  have "distinct (map (ahead j) ds)" using I by (metis distinct_rev sorted_wrt_rev strict_sorted_imp_sorted strict_sorted_iff)
  then have d: "distinct ds" by (simp add: distinct_map)
  have "set ds \<subseteq> {..<NPROC} - {j}" using I by auto
  then have "card (set ds) \<le> card ({..<NPROC} - {j})" by (intro card_mono) auto
  then have "length ds < NPROC" using assms(4) distinct_card [OF d] by simp
  then show ?thesis using d I by auto
qed

text \<open>
  Property C24. The scan of the scheduler finds work: with a runnable process in the table, a CPU in its
  scheduler dispatches a runnable process after at most \<^verbatim>\<open>NPROC\<close> turns of the loop that change nothing.\<close>

theorem scheduler_finds_work:
  assumes "1 \<le> dp" "dp \<le> mp" and "wreach dp mp K s" and "c < length (cpus s)" and "cproc (cpus s ! c) = None"
    and "j < NPROC" and "state (procs (ks s) ! j) = RUNNABLE"
  shows "\<exists>n\<le>NPROC. ks ((scheduler c ^^ n) s) = ks s \<and>
    (\<exists>i<NPROC. state (procs (ks s) ! i) = RUNNABLE \<and> cproc (cpus ((scheduler c ^^ Suc n) s) ! c) = Some i)"
proof -
  note ok = winvE [OF wreach_winv [OF assms(1-3)]]
  note sc = cpus_okD(1) [OF ok(2) assms(4)]
  show ?thesis
    using scheduler_search [OF ok(4) assms(4,5) sc assms(6,7)] ahead_le [OF assms(6) sc] by (meson order_trans)
qed

text \<open>\<open>m\<close> timer interrupts in a row taken by the process \<open>me\<close>.\<close>

definition timer_ticks :: "nat \<Rightarrow> nat \<Rightarrow> wproc list \<Rightarrow> wproc list" where
  "timer_ticks me m ps = ((\<lambda>qs. snd (timer_branch me qs)) ^^ m) ps"

lemma timer_ticks_count:
  assumes "me < length ps" and "state (ps ! me) = RUNNING" and "ticks (ps ! me) + int m < priority (ps ! me)"
  shows "timer_ticks me m ps = ps[me := (ps ! me)\<lparr>ticks := ticks (ps ! me) + int m\<rparr>]"
  using assms(3)
proof (induction m)
  case 0
  then show ?case by (simp add: timer_ticks_def)
next
  case (Suc m)
  then have "timer_ticks me (Suc m) ps = snd (timer_branch me (ps[me := (ps ! me)\<lparr>ticks := ticks (ps ! me) + int m\<rparr>]))"
    by (simp add: timer_ticks_def)
  then show ?case using assms(1,2) Suc.prems by (simp add: timer_branch_def Let_def ac_simps)
qed

text \<open>
  Property C20. The length of a slice. A process that the scheduler dispatches is preempted at its first timer
  interrupt, whatever its priority: the scheduler sets \<^verbatim>\<open>ticks\<close> to \<^verbatim>\<open>priority\<close> where the timer counts up to
  \<^verbatim>\<open>priority\<close>. Only \<^verbatim>\<open>setpriority(n)\<close>, which sets \<^verbatim>\<open>ticks\<close> to 0, gives the caller a slice of \<open>n\<close> timer interrupts:
  the first \<open>n - 1\<close> do not preempt it and the \<open>n\<close>-th does.\<close>

theorem slice_length:
  assumes "c < length (cpus s)" and "length (procs (ks s)) = NPROC"
  shows "(cproc (cpus s ! c) = None \<and> cproc (cpus (scheduler c s) ! c) = Some i \<longrightarrow>
      fst (timer_branch i (procs (ks (scheduler c s))))) \<and>
    (me < NPROC \<and> state (procs (ks s) ! me) = RUNNING \<and> set_priority mp me n (ks s) = (0, k) \<longrightarrow>
      (\<forall>m<nat n. fst (timer_branch me (timer_ticks me m (procs k))) \<longleftrightarrow> Suc m = nat n))"
proof (intro conjI impI allI)
  assume a: "cproc (cpus s ! c) = None \<and> cproc (cpus (scheduler c s) ! c) = Some i"
  then have "scan (cpus s ! c) = i" "i < NPROC" "ks (scheduler c s) = upd_proc i (\<lambda>p. p\<lparr>ticks := priority p, state := RUNNING\<rparr>) (ks s)"
    using assms by (auto simp: scheduler_def Let_def split: if_splits)
  then show "fst (timer_branch i (procs (ks (scheduler c s))))" using assms(2) by (simp add: timer_branch_def Let_def)
next
  fix m assume b: "me < NPROC \<and> state (procs (ks s) ! me) = RUNNING \<and> set_priority mp me n (ks s) = (0, k)" and m: "m < nat n"
  then have k: "procs k = (procs (ks s))[me := (procs (ks s) ! me)\<lparr>priority := n, ticks := 0\<rparr>]"
    by (auto simp: set_priority_def upd_proc_def split: if_splits)
  have "timer_ticks me m (procs k) = (procs k)[me := (procs k ! me)\<lparr>ticks := int m\<rparr>]"
    using timer_ticks_count [of me "procs k" m] b m assms(2) by (simp add: k)
  then show "fst (timer_branch me (timer_ticks me m (procs k))) \<longleftrightarrow> Suc m = nat n"
    using b m assms(2) by (auto simp: timer_branch_def Let_def k)
qed

subsection \<open>A machine with two CPUs\<close>

definition wzero :: wproc where
  "wzero = \<lparr>state = UNUSED, chan = Chan0, killed_flag = False, xstate = 0, pid = 0, parent = None, kstack = 0, sz = 0,
     pagetable = 0, trapframe_pa = 0, tf = \<lparr>kernel_satp = 0, kernel_sp = 0, kernel_trap = 0, epc = 0, kernel_hartid = 0, uregs = (\<lambda>_. 0)\<rparr>,
     context_ra = 0, context_sp = 0, ofile = replicate NOFILE 0, cwd = 0, pname = [], priority = 0, ticks = 0\<rparr>"

definition wboot :: "(unit, wext) kstate" where
  "wboot = \<lparr>procs = procinit demo_kops (replicate NPROC wzero), nextpid = 1, initproc = None, shms = [], world = ()\<rparr>"

definition idle_cpu :: cpu where
  "idle_cpu = \<lparr>cproc = None, scan = 0, found = False\<rparr>"

lemma demo_wboot:
  "\<exists>s. wreach 3 5 demo_kops s \<and> cpus s = [idle_cpu, idle_cpu] \<and> state (procs (ks s) ! 0) = RUNNABLE \<and> length (procs (ks s)) = NPROC \<and>
     state (procs (ks s) ! 1) = UNUSED \<and> nextpid (ks s) = 2"
proof -
  have un: "find_idx (\<lambda>p. state p = UNUSED) (procs wboot) = Some 0"
    by (simp add: wboot_def procinit_def numeral_eq_Suc)
  obtain k1 where a: "allocproc21 3 demo_kops wboot = (Some 0, k1)"
    unfolding allocproc21_def using un by (auto simp: allocproc_def allocpid_def Let_def demo_kops_def proc_pagetable_def)
  note c1 = allocproc_core [OF lab21_ok a [unfolded allocproc21_def], simplified]
  have len: "length (procs k1) = NPROC" and np: "nextpid k1 = 2"
    using c1 by (simp_all add: wboot_def procinit_def length_procinit_from)
  have "state (core k1 ! 1) = state (core wboot ! 1)" using c1 by simp
  also have "\<dots> = UNUSED" by (simp add: wboot_def core_def procinit_def numeral_eq_Suc)
  finally have k1: "state (procs k1 ! 1) = UNUSED" using nth_core [of 1 k1] len by simp
  define k where "k = upd_proc 0 (\<lambda>p. p\<lparr>sz := PGSIZE, tf := (tf p)\<lparr>epc := 0, uregs := (uregs (tf p))(sp_reg := PGSIZE)\<rparr>,
                     pname := ''initcode'', cwd := 1, state := RUNNABLE\<rparr>) (k1\<lparr>initproc := Some 0, world := ()\<rparr>)"
  have u: "userinit21 3 demo_kops (\<lambda>pt c w. w) wboot = Some k"
    unfolding userinit21_def a by (simp add: k_def Let_def upd_world_def) (simp add: demo_kops_def)
  have "wreach 3 5 demo_kops \<lparr>ks = k, cpus = [idle_cpu, idle_cpu]\<rparr>"
    by (rule wreach.boot [where k = wboot and ps = "replicate NPROC wzero" and uvmfirst = "\<lambda>pt c w. w"])
      (use u in \<open>simp_all add: idle_cpu_def wboot_def boot_table_def wzero_def\<close>)
  moreover have "state (procs k ! 0) = RUNNABLE" "length (procs k) = NPROC" "state (procs k ! 1) = UNUSED" "nextpid k = 2"
    using len np k1 by (simp_all add: k_def) (simp add: upd_proc_def)
  ultimately show ?thesis by (intro exI [of _ "\<lparr>ks = k, cpus = [idle_cpu, idle_cpu]\<rparr>"]) simp
qed

text \<open>CPU 0 has dispatched the first process.\<close>

lemma demo_dispatched:
  "\<exists>s. wreach 3 5 demo_kops s \<and> cpus s = [\<lparr>cproc = Some 0, scan = 0, found = False\<rparr>, idle_cpu] \<and>
     state (procs (ks s) ! 0) = RUNNING \<and> length (procs (ks s)) = NPROC \<and> state (procs (ks s) ! 1) = UNUSED \<and> nextpid (ks s) = 2"
proof -
  obtain s where s: "wreach 3 5 demo_kops s" "cpus s = [idle_cpu, idle_cpu]" "state (procs (ks s) ! 0) = RUNNABLE"
    "length (procs (ks s)) = NPROC" "state (procs (ks s) ! 1) = UNUSED" "nextpid (ks s) = 2" using demo_wboot by blast
  have "wreach 3 5 demo_kops (scheduler 0 s)"
    by (rule wreach.step [OF s(1) wstep.sched]) (simp_all add: s(2) idle_cpu_def)
  then show ?thesis
    using s(2-) by (intro exI [of _ "scheduler 0 s"]) (simp add: scheduler_def Let_def upd_cpu_def idle_cpu_def upd_proc_def)
qed

theorem no_process_on_two_cpus_witness:
  "\<exists>s. wreach 3 5 demo_kops s \<and> cproc (cpus s ! 0) = Some 0 \<and> cproc (cpus s ! 1) \<noteq> Some 0 \<and> state (procs (ks s) ! 0) = RUNNING"
proof -
  obtain s where s: "wreach 3 5 demo_kops s" "cpus s = [\<lparr>cproc = Some 0, scan = 0, found = False\<rparr>, idle_cpu]"
    using demo_dispatched by blast
  show ?thesis
    using no_process_on_two_cpus [OF _ _ s(1), of 0] s by (intro exI [of _ s]) (force simp: s(2) less_Suc_eq)
qed

theorem priority_in_range_witness:
  "\<exists>s. wreach 3 5 demo_kops s \<and> state (procs (ks s) ! 0) = RUNNING \<and> 1 \<le> priority (procs (ks s) ! 0) \<and> priority (procs (ks s) ! 0) \<le> 5"
proof -
  obtain s where s: "wreach 3 5 demo_kops s" "state (procs (ks s) ! 0) = RUNNING" using demo_dispatched by blast
  show ?thesis using priority_in_range [OF _ _ s(1), of 0] s by (intro exI [of _ s]) simp
qed

text \<open>The first process has forked a child and been preempted: both are runnable and CPU 0 scans on at entry 1.\<close>

lemma demo_wfork:
  assumes "find_idx (\<lambda>p. state p = UNUSED) (procs k) = Some n" and "0 < nextpid k"
  shows "\<exists>k'. fork21 3 demo_kops me k = (nextpid k, k') \<and>
    core k' = (core k)[n := (core k ! n)\<lparr>pid := nextpid k, parent := Some me, state := RUNNABLE\<rparr>]"
proof -
  let ?L = "lab21 3 :: (unit, wext) lab"
  obtain k1 where a: "allocproc ?L demo_kops k = (Some n, k1)"
    using assms(1) by (simp add: allocproc_def allocpid_def Let_def demo_kops_def proc_pagetable_def)
  have k1: "length (procs k1) = length (procs k)" "n < length (procs k)" "pid (procs k1 ! n) = nextpid k"
    using allocproc_core [OF lab21_ok a] arg_cong [OF nth_from_core [of k1 "core k1" n], of pid] by auto
  have u: "uvmcopy demo_kops p q z w = (0, ())" for p q z w by (simp add: demo_kops_def)
  obtain fs w1 where fs: "dup_files demo_kops (ofile (procs k1 ! me))
      (ofile (procs (fork_copy n (procs k1 ! me) ((upd_proc n (lab_fork ?L (procs k1 ! me)) k1)\<lparr>world := ()\<rparr>)) ! n)) () = (fs, w1)" by (meson surj_pair)
  obtain c w2 where c: "inode_dup demo_kops (cwd (procs k1 ! me)) w1 = (c, w2)" by (meson surj_pair)
  note eq = kfork_eq [OF a refl u refl fs c refl]
  obtain k' where "kfork ?L demo_kops me k = (nextpid k, k')"
    using eq k1 by (simp add: fork_copy_def lab21_def)
  then show ?thesis using kfork_core [OF lab21_ok] assms unfolding fork21_def by fastforce
qed

lemma demo_two_runnable:
  "\<exists>s. wreach 3 5 demo_kops s \<and> cpus s = [\<lparr>cproc = None, scan = 1, found = True\<rparr>, idle_cpu] \<and>
     state (procs (ks s) ! 0) = RUNNABLE \<and> state (procs (ks s) ! 1) = RUNNABLE \<and> length (procs (ks s)) = NPROC"
proof -
  obtain s where s: "wreach 3 5 demo_kops s" "cpus s = [\<lparr>cproc = Some 0, scan = 0, found = False\<rparr>, idle_cpu]"
    "state (procs (ks s) ! 0) = RUNNING" "length (procs (ks s)) = NPROC" "state (procs (ks s) ! 1) = UNUSED" "nextpid (ks s) = 2"
    using demo_dispatched by blast
  have f: "find_idx (\<lambda>p. state p = UNUSED) (procs (ks s)) = Some 1" using s(3-5) by (simp add: find_idx_Some)
  obtain k where k: "fork21 3 demo_kops 0 (ks s) = (2, k)"
    "core k = (core (ks s))[1 := (core (ks s) ! 1)\<lparr>pid := 2, parent := Some 0, state := RUNNABLE\<rparr>]"
    using demo_wfork [OF f, of 0] s(6) by auto
  have len: "length (procs k) = NPROC" using arg_cong [OF k(2), of length] s(4) by simp
  have st: "state (procs k ! 0) = RUNNING" "state (procs k ! 1) = RUNNABLE"
    using arg_cong [OF k(2), of "\<lambda>c. state (c ! 0)"] arg_cong [OF k(2), of "\<lambda>c. state (c ! 1)"] len s(3,4) by (simp_all add: nth_core)
  let ?t1 = "s\<lparr>ks := k\<rparr>"
  let ?t2 = "swtch_back 0 (?t1\<lparr>ks := k\<lparr>procs := sleep_enter 0 ChanTicks (procs k)\<rparr>\<rparr>)"
  let ?t3 = "?t2\<lparr>ks := (ks ?t2)\<lparr>procs := wakeup 5 ChanTicks (procs (ks ?t2))\<rparr>\<rparr>"
  have r1: "wreach 3 5 demo_kops ?t1"
    by (rule wreach.step [OF s(1) wstep.forks [OF _ _ k(1), where c = 0]]) (simp_all add: s(2))
  have "wstep 3 5 demo_kops ?t1 ?t2" using wstep.sleeps [of 0 ?t1 0 ChanTicks 3 5 demo_kops] s(2) by simp
  then have r2: "wreach 3 5 demo_kops ?t2" by (rule wreach.step [OF r1])
  have "wreach 3 5 demo_kops ?t3" by (rule wreach.step [OF r2 wstep.wakes])
  moreover have "cpus ?t3 = [\<lparr>cproc = None, scan = 1, found = True\<rparr>, idle_cpu]" using s(2) by (simp add: swtch_back_def upd_cpu_def)
  moreover have "state (procs (ks ?t3) ! 0) = RUNNABLE" "state (procs (ks ?t3) ! 1) = RUNNABLE" "length (procs (ks ?t3)) = NPROC"
    using len st by (simp_all add: swtch_back_def nth_wakeup sleep_enter_def wake_one_def)
  ultimately show ?thesis by blast
qed

theorem round_robin_bounded_wait_witness:
  "\<exists>s t. wait_run 3 5 demo_kops 0 0 s [1] t \<and> distinct [1 :: nat] \<and> 0 \<notin> set [1 :: nat] \<and> length [1 :: nat] < NPROC"
proof -
  obtain s where s: "wreach 3 5 demo_kops s" "cpus s = [\<lparr>cproc = None, scan = 1, found = True\<rparr>, idle_cpu]"
    "state (procs (ks s) ! 0) = RUNNABLE" "state (procs (ks s) ! 1) = RUNNABLE" "length (procs (ks s)) = NPROC"
    using demo_two_runnable by blast
  have c: "cpus (scheduler 0 s) = [\<lparr>cproc = Some 1, scan = 1, found = True\<rparr>, idle_cpu]" and k: "state (procs (ks (scheduler 0 s)) ! 0) = RUNNABLE"
    using s(2-) by (simp_all add: scheduler_def Let_def upd_cpu_def upd_proc_def)
  have "wait_run 3 5 demo_kops 0 0 s ([] @ [1]) (scheduler 0 s)"
    by (rule wait_run.dispatch [OF wait_run.start [OF s(3)] wstep.sched k]) (simp_all add: s(2) c)
  then have w: "wait_run 3 5 demo_kops 0 0 s [1] (scheduler 0 s)" by simp
  show ?thesis using round_robin_bounded_wait [OF _ _ s(1) _ _ w] s(2) w by (intro exI [of _ s] exI [of _ "scheduler 0 s"]) simp
qed

theorem scheduler_finds_work_witness:
  "\<exists>s n. wreach 3 5 demo_kops s \<and> n \<le> NPROC \<and> cproc (cpus ((scheduler 0 ^^ Suc n) s) ! 0) \<noteq> None"
proof -
  obtain s where s: "wreach 3 5 demo_kops s" "cpus s = [idle_cpu, idle_cpu]" "state (procs (ks s) ! 0) = RUNNABLE"
    using demo_wboot by blast
  obtain n i where "n \<le> NPROC" "cproc (cpus ((scheduler 0 ^^ Suc n) s) ! 0) = Some i"
    using scheduler_finds_work [OF _ _ s(1), of 0 0] s(2,3) by (auto simp: idle_cpu_def)
  then show ?thesis using s(1) by (intro exI [of _ s] exI [of _ n]) simp
qed

definition slice_demo :: "unit wk" where
  "slice_demo = \<lparr>ks = \<lparr>procs = (replicate NPROC wzero)[0 := wzero\<lparr>state := RUNNABLE, priority := 3\<rparr>, 1 := wzero\<lparr>state := RUNNING, priority := 1\<rparr>],
      nextpid = 3, initproc = Some 0, shms = [], world = ()\<rparr>, cpus = [idle_cpu]\<rparr>"

theorem slice_length_witness:
  "fst (timer_branch 0 (procs (ks (scheduler 0 slice_demo)))) \<and>
   \<not> fst (timer_branch 1 (timer_ticks 1 1 (procs (snd (set_priority 5 1 3 (ks slice_demo)))))) \<and>
   fst (timer_branch 1 (timer_ticks 1 2 (procs (snd (set_priority 5 1 3 (ks slice_demo))))))"
proof -
  define k where "k = snd (set_priority 5 1 3 (ks slice_demo))"
  have len: "0 < length (cpus slice_demo)" "length (procs (ks slice_demo)) = NPROC" by (simp_all add: slice_demo_def)
  have c: "cproc (cpus slice_demo ! 0) = None \<and> cproc (cpus (scheduler 0 slice_demo) ! 0) = Some 0"
    by (simp add: scheduler_def Let_def upd_cpu_def slice_demo_def idle_cpu_def)
  have m: "1 < NPROC \<and> state (procs (ks slice_demo) ! 1) = RUNNING \<and> set_priority 5 1 3 (ks slice_demo) = (0, k)"
    by (simp add: k_def set_priority_def slice_demo_def)
  show ?thesis
    using slice_length [OF len, of 0 1 5 3 k] c m unfolding k_def [symmetric] by simp
qed

end
