(* ===== verification/Trap.thy ===== *)
theory Trap
  imports WrrProps
begin

unbundle bit_operations_syntax

text \<open>
  Traps of Lab 2, Task 2.1: \<^verbatim>\<open>kernel/trap.c\<close> (\<^verbatim>\<open>trapinithart\<close>, \<^verbatim>\<open>usertrap\<close>, \<^verbatim>\<open>usertrapret\<close>, \<^verbatim>\<open>kerneltrap\<close>, \<^verbatim>\<open>clockintr\<close>, \<^verbatim>\<open>devintr\<close>) on
  one hart \<open>c\<close> of the machine of \<open>Wrr\<close>. The control registers of the hart are the record \<open>hart\<close>; the
  interrupt controller, the device drivers and the addresses the linker fixes are the record \<open>plat\<close>.
  A path that gives the CPU up (\<^verbatim>\<open>exit\<close>, \<^verbatim>\<open>yield\<close>, a blocking system call) ends the function; what runs when
  the process is scheduled again is \<open>usertrap_tail\<close> after a system call and \<open>usertrapret\<close> after a yield.
\<close>

record hart =
  sstatus :: u64
  sepc :: u64
  scause :: u64
  stvec :: u64
  satp :: u64
  htime :: u64
  stimecmp :: u64
  intr_on :: bool

record 'w plat =
  plic_claim :: "'w \<Rightarrow> int \<times> 'w"
  plic_complete :: "int \<Rightarrow> 'w \<Rightarrow> 'w"
  uartintr :: "'w \<Rightarrow> 'w"
  virtio_disk_intr :: "'w \<Rightarrow> 'w"
  UART0_IRQ :: int
  VIRTIO0_IRQ :: int
  SSTATUS_SPP :: u64
  SSTATUS_SPIE :: u64
  kernelvec :: u64
  trampoline_uservec :: u64
  usertrap_pc :: u64
  make_satp :: "nat \<Rightarrow> u64"

record 'w tk =
  wkern :: "'w wk"
  kx :: kext
  hart :: hart


definition map_ks :: "(('w, wext) kstate \<Rightarrow> ('w, wext) kstate) \<Rightarrow> 'w tk \<Rightarrow> 'w tk" where
  "map_ks f s = s\<lparr>wkern := (wkern s)\<lparr>ks := f (ks (wkern s))\<rparr>\<rparr>"

definition map_hart :: "(hart \<Rightarrow> hart) \<Rightarrow> 'w tk \<Rightarrow> 'w tk" where
  "map_hart f s = s\<lparr>hart := f (hart s)\<rparr>"

definition trapinithart :: "'w plat \<Rightarrow> 'w tk \<Rightarrow> 'w tk" where
  "trapinithart H = map_hart (\<lambda>h. h\<lparr>stvec := kernelvec H\<rparr>)"

text \<open>The table index \<open>NPROC\<close> stands for no current process.\<close>

definition cur :: "nat \<Rightarrow> 'w tk \<Rightarrow> nat" where
  "cur c s = (case cproc (cpus (wkern s) ! c) of None \<Rightarrow> NPROC | Some i \<Rightarrow> i)"





text \<open>\<^verbatim>\<open>exit(-1)\<close>, \<^verbatim>\<open>yield()\<close> and a blocking call leave the hart in its scheduler.\<close>

definition leave_cpu :: "nat \<Rightarrow> 'w tk \<Rightarrow> 'w tk" where
  "leave_cpu c s = s\<lparr>wkern := swtch_back c (wkern s)\<rparr>"







subsection \<open>Traps are steps of the scheduling machine\<close>

lemma wkern_simps [simp]:
  "wkern (map_hart f s) = wkern s" "cpus (wkern (map_ks g s)) = cpus (wkern s)" "wkern (trapinithart H s) = wkern s"
  "ks (wkern (map_ks g s)) = g (ks (wkern s))" "wkern (s\<lparr>kx := x\<rparr>) = wkern s" "wkern (map_ks g s) = (wkern s)\<lparr>ks := g (ks (wkern s))\<rparr>"
  "wkern (leave_cpu c s) = swtch_back c (wkern s)" "cur c (s\<lparr>kx := x\<rparr>) = cur c s"
  by (simp_all add: map_hart_def map_ks_def trapinithart_def leave_cpu_def cur_def)

lemma wkern_self: "(wkern s)\<lparr>ks := ks (wkern s)\<rparr> = wkern s"
  by simp









subsection \<open>Properties\<close>







end
