(* ===== verification/Lottery.thy ===== *)
theory Lottery
  imports ProcInv Syscall
begin

text \<open>
  The lottery scheduler of Lab 2, Task 2.2: the field \<^verbatim>\<open>tickets\<close> of \<^verbatim>\<open>struct proc\<close>, the generator \<^verbatim>\<open>rand32\<close>, the draw in
  \<^verbatim>\<open>scheduler\<close> of \<^verbatim>\<open>kernel/proc.c\<close>, and the calls \<^verbatim>\<open>settickets\<close> and \<^verbatim>\<open>gettickets\<close>. The generator's state is a
  64-bit word and wraps; \<^verbatim>\<open>total\<close> and \<^verbatim>\<open>prefix\<close> are C integers that are converted to 32 bits where the code
  compares them with \<^verbatim>\<open>winner\<close>.
\<close>

record lproc = kproc +
  tickets :: int

type_synonym lext = "unit lproc_ext"

definition lab22 :: "('w, lext) lab" where
  "lab22 = \<lparr>lab_alloc = (\<lambda>p. p\<lparr>tickets := 10\<rparr>), lab_fork = (\<lambda>p np. np\<lparr>tickets := tickets p\<rparr>), lab_free = (\<lambda>K i s. s)\<rparr>"

definition allocproc22 :: "'w kops \<Rightarrow> ('w, lext) kstate \<Rightarrow> nat option \<times> ('w, lext) kstate" where
  "allocproc22 K = allocproc lab22 K"

definition fork22 :: "'w kops \<Rightarrow> nat \<Rightarrow> ('w, lext) kstate \<Rightarrow> int \<times> ('w, lext) kstate" where
  "fork22 K = kfork lab22 K"

definition freeproc22 :: "'w kops \<Rightarrow> nat \<Rightarrow> ('w, lext) kstate \<Rightarrow> ('w, lext) kstate" where
  "freeproc22 K = freeproc lab22 K"

definition exit22 :: "'w kops \<Rightarrow> nat \<Rightarrow> int \<Rightarrow> ('w, lext) kstate \<Rightarrow> ('w, lext) kstate option" where
  "exit22 K = kexit K"

definition wait22 :: "'w kops \<Rightarrow> nat \<Rightarrow> u64 \<Rightarrow> ('w, lext) kstate \<Rightarrow> int outcome \<times> ('w, lext) kstate" where
  "wait22 K = kwait lab22 K"

subsection \<open>The draw\<close>

definition rand_seed :: u64 where
  "rand_seed = 88172645463393265"

definition rand32 :: "u64 \<Rightarrow> u32 \<times> u64" where
  "rand32 st = (let st1 = st * 6364136223846793005 + 1 in (ucast (drop_bit 33 st1), st1))"

definition runnable :: "'a proc_scheme \<Rightarrow> bool" where
  "runnable p = (state p = RUNNABLE)"

definition share :: "'a lproc_scheme \<Rightarrow> int" where
  "share p = (if tickets p < 1 then 1 else tickets p)"

text \<open>First pass: \<^verbatim>\<open>found\<close> and \<^verbatim>\<open>total\<close>.\<close>

fun count_tickets :: "'a lproc_scheme list \<Rightarrow> bool \<times> int \<Rightarrow> bool \<times> int" where
  "count_tickets [] ft = ft"
| "count_tickets (p # ps) (found, tot) =
     count_tickets ps (if runnable p then (True, tot + share p) else (found, tot))"

text \<open>Second pass: the entry that is dispatched, if any.\<close>

fun draw :: "u32 \<Rightarrow> int \<Rightarrow> nat \<Rightarrow> 'a lproc_scheme list \<Rightarrow> nat option" where
  "draw winner prefix i [] = None"
| "draw winner prefix i (p # ps) =
     (if runnable p then
        if winner < of_int (prefix + share p - 1) then Some i
        else draw winner (prefix + share p) (Suc i) ps
      else draw winner prefix (Suc i) ps)"

record 'w lk =
  lks :: "('w, lext) kstate"
  lcpus :: "nat option list"
  randstate :: u64

text \<open>
  One round of the loop of \<^verbatim>\<open>scheduler\<close> on CPU \<open>c\<close>. The process locks are released between the passes: the
  second pass reads the table \<open>ps2\<close> that other CPUs may have changed. Without a winner the CPU waits for
  an interrupt and starts the next round.
\<close>

definition scheduler22_draw :: "'w lk \<Rightarrow> lproc list \<Rightarrow> lproc list \<Rightarrow> nat option \<times> u64" where
  "scheduler22_draw s ps1 ps2 =
     (case count_tickets ps1 (False, 0) of
        (found, tot) \<Rightarrow>
          if \<not> found then (None, randstate s)
          else let (r, st) = rand32 (randstate s); winner = r mod of_int tot
               in (draw winner 0 0 ps2, st))"

definition scheduler22 :: "nat \<Rightarrow> lproc list \<Rightarrow> 'w lk \<Rightarrow> 'w lk" where
  "scheduler22 c ps1 s =
     (case scheduler22_draw s ps1 (procs (lks s)) of
        (None, st) \<Rightarrow> s\<lparr>randstate := st\<rparr>
      | (Some i, st) \<Rightarrow> s\<lparr>randstate := st, lks := upd_proc i (\<lambda>p. p\<lparr>state := RUNNING\<rparr>) (lks s),
                         lcpus := (lcpus s)[c := Some i]\<rparr>)"

definition set_tickets :: "nat \<Rightarrow> int \<Rightarrow> ('w, lext) kstate \<Rightarrow> int \<times> ('w, lext) kstate" where
  "set_tickets me n s = (if n < 1 then (- 1, s) else (0, upd_proc me (\<lambda>p. p\<lparr>tickets := n\<rparr>) s))"

definition sys_settickets :: "('w, lext, 'e) handler" where
  "sys_settickets me st =
     (let (r, s) = set_tickets me (iarg 0 (procs (fst st) ! me)) (fst st) in (Done (of_int r), (s, snd st)))"

definition sys_gettickets :: "('w, lext, 'e) handler" where
  "sys_gettickets me st = (Done (of_int (tickets (procs (fst st) ! me))), st)"

definition syscalls22 :: "'w kops \<Rightarrow> (nat \<Rightarrow> ('w, lext, 'e) handler) \<Rightarrow> ('w, lext, 'e) handler option list" where
  "syscalls22 K ext = None # map Some
     [sys_fork lab22 K, sys_exit K, sys_wait lab22 K, ext 4, ext 5, sys_kill, ext 7, ext 8, ext 9, ext 10,
      sys_getpid, sys_sbrk21 K, sys_pause, sys_uptime, ext 15, ext 16, ext 17, ext 18, ext 19, ext 20, ext 21,
      sys_settickets, sys_gettickets]"

lemma lab22_ok: "lab_ok lab22"
  by (simp add: lab_ok_def lab22_def proc.truncate_def)

subsection \<open>Who wins\<close>

lemma share_pos: "1 \<le> share p"
  by (simp add: share_def)

text \<open>The tickets of the runnable processes of a list.\<close>

definition held :: "'a lproc_scheme list \<Rightarrow> int" where
  "held ps = (\<Sum>p\<leftarrow>filter runnable ps. share p)"

lemma held_simps [simp]:
  "held [] = 0" "held (p # ps) = (if runnable p then share p + held ps else held ps)"
  by (simp_all add: held_def)

lemma held_nonneg: "0 \<le> held ps"
proof (induction ps)
  case (Cons p ps)
  then show ?case using share_pos [of p] by auto
qed simp

lemma count_tickets_eq: "count_tickets ps (f, t) = (f \<or> (\<exists>p\<in>set ps. runnable p), t + held ps)"
  by (induction ps arbitrary: f t) auto

lemma held_pos: "(\<exists>p\<in>set ps. runnable p) \<longleftrightarrow> 0 < held ps"
proof (induction ps)
  case (Cons p ps)
  then show ?case using share_pos [of p] held_nonneg [of ps] by auto
qed simp

lemma less_of_int: "0 \<le> n \<Longrightarrow> n < 2 ^ 31 \<Longrightarrow> w < 2 ^ 31 \<Longrightarrow> (of_nat w :: u32) < of_int n \<longleftrightarrow> int w < n"
proof -
  assume n: "0 \<le> n" "n < 2 ^ 31" and w: "w < 2 ^ 31"
  have "unat (of_nat w :: u32) = w" using w by (simp add: unat_of_nat take_bit_eq_mod)
  then show ?thesis using sint_u32_nonneg [OF n] by (simp add: word_less_nat_alt) (use n in linarith)
qed

lemma draw_Some:
  assumes "0 \<le> pf" and "pf - 1 \<le> int w" and "pf + held ps < 2 ^ 31" and "w < 2 ^ 31"
  shows "draw (of_nat w) pf k ps = Some m \<longleftrightarrow>
    (\<exists>i<length ps. m = k + i \<and> runnable (ps ! i) \<and> pf + held (take i ps) - 1 \<le> int w \<and> int w < pf + held (take (Suc i) ps) - 1)"
  using assms
proof (induction ps arbitrary: pf k)
  case Nil
  then show ?case by simp
next
  case (Cons p ps)
  have ex: "(\<exists>i<length (p # ps). Q i) \<longleftrightarrow> Q 0 \<or> (\<exists>i<length ps. Q (Suc i))" for Q
    by (auto simp: less_Suc_eq_0_disj)
  show ?case
  proof (cases "runnable p")
    case False
    then show ?thesis using Cons.IH [of pf "Suc k"] Cons.prems unfolding ex by auto
  next
    case True
    have b: "(of_nat w :: u32) < of_int (pf + share p - 1) \<longleftrightarrow> int w < pf + share p - 1"
      using Cons.prems True share_pos [of p] held_nonneg [of ps] by (intro less_of_int) auto
    show ?thesis
    proof (cases "int w < pf + share p - 1")
      case lt: True
      have "\<not> (pf + held (take (Suc i) (p # ps)) - 1 \<le> int w)" for i
        using lt True held_nonneg [of "take i ps"] by simp
      then show ?thesis unfolding ex using True b lt Cons.prems(2) by auto
    next
      case False
      then show ?thesis
        unfolding ex using True b Cons.IH [of "pf + share p" "Suc k"] Cons.prems share_pos [of p] by (auto simp: algebra_simps)
    qed
  qed
qed

lemma draw_None:
  assumes "0 \<le> pf" and "pf - 1 \<le> int w" and "pf + held ps < 2 ^ 31" and "w < 2 ^ 31"
  shows "draw (of_nat w) pf k ps = None \<longleftrightarrow> pf + held ps - 1 \<le> int w"
  using assms
proof (induction ps arbitrary: pf k)
  case Nil
  then show ?case by simp
next
  case (Cons p ps)
  show ?case
  proof (cases "runnable p")
    case True
    have b: "(of_nat w :: u32) < of_int (pf + share p - 1) \<longleftrightarrow> int w < pf + share p - 1"
      using Cons.prems True share_pos [of p] held_nonneg [of ps] by (intro less_of_int) auto
    show ?thesis
      using True b Cons.IH [of "pf + share p" "Suc k"] Cons.prems share_pos [of p] held_nonneg [of ps] by auto
  qed (use Cons in auto)
qed

lemma held_take_Suc: "i < length ps \<Longrightarrow> held (take (Suc i) ps) = held (take i ps) + (if runnable (ps ! i) then share (ps ! i) else 0)"
  by (simp add: take_Suc_conv_app_nth held_def)

lemma held_take_le: "held (take i ps) \<le> held ps"
proof -
  have "held ps = held (take i ps) + held (drop i ps)"
    by (metis append_take_drop_id filter_append held_def map_append sum_list_append)
  then show ?thesis using held_nonneg [of "drop i ps"] by simp
qed

lemma held_take_zero: "held (take i ps) = 0 \<longleftrightarrow> (\<forall>j<i. j < length ps \<longrightarrow> \<not> runnable (ps ! j))"
proof -
  have "held (take i ps) = 0 \<longleftrightarrow> \<not> (\<exists>p\<in>set (take i ps). runnable p)"
    using held_pos [of "take i ps"] held_nonneg [of "take i ps"] by linarith
  also have "\<dots> \<longleftrightarrow> (\<forall>j<length (take i ps). \<not> runnable (take i ps ! j))" using all_set_conv_all_nth [of "take i ps" "\<lambda>p. \<not> runnable p"] by simp
  finally show ?thesis by auto
qed

subsection \<open>Properties\<close>

lemma winning_draws:
  assumes "held ps < 2 ^ 31" and "i < length ps" and "runnable (ps ! i)"
  shows "card {w. w < nat (held ps) \<and> draw (of_nat w) 0 0 ps = Some i} = nat (share (ps ! i)) - (if \<forall>j<i. \<not> runnable (ps ! j) then 1 else 0)"
proof -
  let ?lo = "held (take i ps)"
  have lo: "0 \<le> ?lo" "?lo + share (ps ! i) \<le> held ps" "1 \<le> share (ps ! i)"
    using held_nonneg held_take_le [of "Suc i" ps] held_take_Suc [OF assms(2)] assms(3) share_pos by auto
  have wins: "w < nat (held ps) \<and> draw (of_nat w) 0 0 ps = Some i \<longleftrightarrow> nat (?lo - 1) \<le> w \<and> w < nat (?lo + share (ps ! i) - 1)" for w
  proof (cases "w < nat (held ps)")
    case True
    then have "draw (of_nat w) 0 0 ps = Some i \<longleftrightarrow> ?lo - 1 \<le> int w \<and> int w < ?lo + share (ps ! i) - 1"
      using draw_Some [of 0 w ps 0 i] assms held_take_Suc [OF assms(2)] by auto
    then show ?thesis using True lo by linarith
  next
    case False
    then show ?thesis using lo by linarith
  qed
  then have "{w. w < nat (held ps) \<and> draw (of_nat w) 0 0 ps = Some i} = {nat (?lo - 1)..<nat (?lo + share (ps ! i) - 1)}"
    by (intro set_eqI) (simp only: mem_Collect_eq wins atLeastLessThan_iff)
  then have n: "card {w. w < nat (held ps) \<and> draw (of_nat w) 0 0 ps = Some i} = nat (?lo + share (ps ! i) - 1) - nat (?lo - 1)"
    by (simp only: card_atLeastLessThan)
  have z: "(\<forall>j<i. \<not> runnable (ps ! j)) \<longleftrightarrow> ?lo = 0" unfolding held_take_zero using assms(2) by (meson less_trans)
  show ?thesis unfolding n z using lo by (simp split: if_split) linarith
qed

lemma losing_draws:
  assumes "held ps < 2 ^ 31" and "0 < held ps"
  shows "card {w. w < nat (held ps) \<and> draw (of_nat w) 0 0 ps = None} = 1"
proof -
  have none: "w < nat (held ps) \<and> draw (of_nat w) 0 0 ps = None \<longleftrightarrow> w = nat (held ps) - 1" for w
  proof (cases "w < nat (held ps)")
    case True
    then have "draw (of_nat w) 0 0 ps = None \<longleftrightarrow> held ps - 1 \<le> int w" using draw_None [of 0 w ps 0] assms(1) by auto
    then show ?thesis using True assms(2) by linarith
  next
    case False
    then show ?thesis using assms(2) by linarith
  qed
  have "{w. w < nat (held ps) \<and> draw (of_nat w) 0 0 ps = None} = {nat (held ps) - 1}"
    by (intro set_eqI) (simp only: mem_Collect_eq none singleton_iff)
  then show ?thesis by simp
qed

text \<open>
  Property C21. The exact odds of the lottery. With \<open>n\<close> tickets among the runnable processes the draw is decided by
  \<^verbatim>\<open>rand32() % n\<close>. Of the \<open>n\<close> possible values a process wins with as many as it has tickets, except the first
  runnable process of the table, which wins with one fewer; and exactly one value lets no process run. The
  comparison \<^verbatim>\<open>winner < prefix + t-1\<close> in the code is off by one against \<^verbatim>\<open>winner < prefix + t\<close>.\<close>

theorem lottery_shares:
  assumes "held ps < 2 ^ 31" and "i < length ps" and "runnable (ps ! i)"
  shows "scheduler22_draw s ps ps =
      (let (r, st) = rand32 (randstate s) in (draw (of_nat (unat r mod nat (held ps))) 0 0 ps, st)) \<and>
    card {w. w < nat (held ps) \<and> draw (of_nat w) 0 0 ps = Some i} =
      nat (share (ps ! i)) - (if \<forall>j<i. \<not> runnable (ps ! j) then 1 else 0) \<and>
    card {w. w < nat (held ps) \<and> draw (of_nat w) 0 0 ps = None} = 1"
proof (intro conjI)
  have pos: "0 < held ps" using assms(2,3) held_pos [of ps] nth_mem by blast
  have "r mod of_int (held ps) = (of_nat (unat r mod nat (held ps)) :: u32)" for r :: u32
  proof -
    have "unat (of_int (held ps) :: u32) = nat (held ps)" using pos assms(1) by (intro sint_u32_nonneg) auto
    then show ?thesis by (simp add: word_arith_nat_mod)
  qed
  then show "scheduler22_draw s ps ps =
      (let (r, st) = rand32 (randstate s) in (draw (of_nat (unat r mod nat (held ps))) 0 0 ps, st))"
    using pos held_pos [of ps] by (simp add: scheduler22_draw_def count_tickets_eq Let_def split: prod.splits)
  show "card {w. w < nat (held ps) \<and> draw (of_nat w) 0 0 ps = None} = 1" using assms(1) pos by (rule losing_draws)
qed (rule winning_draws [OF assms])

definition lzero :: lproc where
  "lzero = \<lparr>state = UNUSED, chan = Chan0, killed_flag = False, xstate = 0, pid = 0, parent = None, kstack = 0, sz = 0,
     pagetable = 0, trapframe_pa = 0, tf = \<lparr>kernel_satp = 0, kernel_sp = 0, kernel_trap = 0, epc = 0, kernel_hartid = 0, uregs = (\<lambda>_. 0)\<rparr>,
     context_ra = 0, context_sp = 0, ofile = replicate NOFILE 0, cwd = 0, pname = [], tickets = 0\<rparr>"

definition lottery_demo :: "lproc list" where
  "lottery_demo = [lzero\<lparr>state := RUNNABLE, tickets := 2\<rparr>, lzero\<lparr>state := SLEEPING\<rparr>, lzero\<lparr>state := RUNNABLE, tickets := 3\<rparr>]"

theorem lottery_shares_witness:
  "card {w. w < 5 \<and> draw (of_nat w) 0 0 lottery_demo = Some 0} = 1 \<and>
   card {w. w < 5 \<and> draw (of_nat w) 0 0 lottery_demo = Some 2} = 3 \<and>
   card {w. w < 5 \<and> draw (of_nat w) 0 0 lottery_demo = None} = 1"
proof -
  have h: "held lottery_demo = 5" by (simp add: lottery_demo_def runnable_def share_def lzero_def)
  have r: "length lottery_demo = 3" "runnable (lottery_demo ! 0)" "runnable (lottery_demo ! 2)" "share (lottery_demo ! 0) = 2" "share (lottery_demo ! 2) = 3"
    by (simp_all add: lottery_demo_def runnable_def share_def)
  have f: "\<not> (\<forall>j<2. \<not> runnable (lottery_demo ! j))" using r(2) by (metis zero_less_numeral)
  note w0 = lottery_shares [of lottery_demo 0, THEN conjunct2] and w2 = lottery_shares [of lottery_demo 2, THEN conjunct2]
  have "card {w. w < 5 \<and> draw (of_nat w) 0 0 lottery_demo = Some 0} = 1" using w0 h r by simp
  moreover have "card {w. w < 5 \<and> draw (of_nat w) 0 0 lottery_demo = Some 2} = 3" using w2 h r f by simp
  moreover have "card {w. w < 5 \<and> draw (of_nat w) 0 0 lottery_demo = None} = 1" using w2 h r by simp
  ultimately show ?thesis by simp
qed

text \<open>In particular a single runnable process with one ticket is never dispatched, whatever the generator delivers.\<close>

lemma sole_ticket_never_runs: "held ps = 1 \<Longrightarrow> fst (scheduler22_draw s ps ps) = None"
  using draw_None [of 0 0 ps 0] held_pos [of ps] by (auto simp: scheduler22_draw_def count_tickets_eq Let_def split: prod.splits)

end
