(* ===== verification/LotteryInv.thy ===== *)
theory LotteryInv
  imports Lottery WrrInv
begin

text \<open>
  The lottery scheduler of Lab 2, Task 2.2 over time: \<open>lstep\<close> interleaves any number of CPUs, each in its scheduler or
  running a process that is interrupted by the timer, forks, exits, waits, sleeps, wakes others, kills or changes
  its tickets. The two passes of \<^verbatim>\<open>scheduler\<close> read the process table at different times, so the tickets are counted on an
  arbitrary earlier table. The invariant of the process table and the assignment of processes to CPUs hold all the same.
\<close>

definition userinit22 :: "'w kops \<Rightarrow> (nat \<Rightarrow> u8 list \<Rightarrow> 'w \<Rightarrow> 'w) \<Rightarrow> ('w, lext) kstate \<Rightarrow> ('w, lext) kstate option" where
  "userinit22 K uvmfirst s =
     (case allocproc22 K s of
        (None, s1) \<Rightarrow> None
      | (Some i, s1) \<Rightarrow>
          let s2 = upd_world (uvmfirst (pagetable (procs s1 ! i)) initcode) (s1\<lparr>initproc := Some i\<rparr>);
              (ino, w) = root_inode K (world s2)
          in Some (upd_proc i (\<lambda>p. p\<lparr>sz := PGSIZE, tf := (tf p)\<lparr>epc := 0, uregs := (uregs (tf p))(sp_reg := PGSIZE)\<rparr>,
                     pname := ''initcode'', cwd := ino, state := RUNNABLE\<rparr>) (s2\<lparr>world := w\<rparr>)))"

text \<open>What follows \<^verbatim>\<open>swtch\<close> in \<^verbatim>\<open>scheduler\<close> when the process gives the CPU up.\<close>

definition swtch_back22 :: "nat \<Rightarrow> 'w lk \<Rightarrow> 'w lk" where
  "swtch_back22 c s = s\<lparr>lcpus := (lcpus s)[c := None]\<rparr>"

inductive lstep :: "'w kops \<Rightarrow> 'w lk \<Rightarrow> 'w lk \<Rightarrow> bool" for K where
  sched: "c < length (lcpus s) \<Longrightarrow> lcpus s ! c = None \<Longrightarrow> lstep K s (scheduler22 c earlier s)"
| timer: "c < length (lcpus s) \<Longrightarrow> lcpus s ! c = Some me \<Longrightarrow>
    lstep K s (swtch_back22 c (s\<lparr>lks := (lks s)\<lparr>procs := yield me (procs (lks s))\<rparr>\<rparr>))"
| forks: "c < length (lcpus s) \<Longrightarrow> lcpus s ! c = Some me \<Longrightarrow> fork22 K me (lks s) = (r, k) \<Longrightarrow> lstep K s (s\<lparr>lks := k\<rparr>)"
| exits: "c < length (lcpus s) \<Longrightarrow> lcpus s ! c = Some me \<Longrightarrow> exit22 K me st (lks s) = Some k \<Longrightarrow>
    lstep K s (swtch_back22 c (s\<lparr>lks := k\<rparr>))"
| waits: "c < length (lcpus s) \<Longrightarrow> lcpus s ! c = Some me \<Longrightarrow> wait22 K me addr (lks s) = (r, k) \<Longrightarrow>
    lstep K s ((if r = Sleep then swtch_back22 c else (\<lambda>t. t)) (s\<lparr>lks := k\<rparr>))"
| sleeps: "c < length (lcpus s) \<Longrightarrow> lcpus s ! c = Some me \<Longrightarrow> \<forall>q. ch \<noteq> ChanProc q \<Longrightarrow>
    lstep K s (swtch_back22 c (s\<lparr>lks := (lks s)\<lparr>procs := sleep_enter me ch (procs (lks s))\<rparr>\<rparr>))"
| resume: "c < length (lcpus s) \<Longrightarrow> lcpus s ! c = Some me \<Longrightarrow>
    lstep K s (s\<lparr>lks := (lks s)\<lparr>procs := sleep_return me (procs (lks s))\<rparr>\<rparr>)"
| settickets: "c < length (lcpus s) \<Longrightarrow> lcpus s ! c = Some me \<Longrightarrow> set_tickets me n (lks s) = (r, k) \<Longrightarrow> lstep K s (s\<lparr>lks := k\<rparr>)"
| faults: "c < length (lcpus s) \<Longrightarrow> lcpus s ! c = Some me \<Longrightarrow>
    lstep K s (s\<lparr>lks := (lks s)\<lparr>procs := setkilled me (procs (lks s))\<rparr>\<rparr>)"
| wakes: "lstep K s (s\<lparr>lks := (lks s)\<lparr>procs := wakeup i ch (procs (lks s))\<rparr>\<rparr>)"
| kills: "kkill pd (procs (lks s)) = (r, ps) \<Longrightarrow> lstep K s (s\<lparr>lks := (lks s)\<lparr>procs := ps\<rparr>\<rparr>)"
| machine: "lstep K s (s\<lparr>lks := (lks s)\<lparr>world := w, shms := rs\<rparr>\<rparr>)"

inductive lreach :: "'w kops \<Rightarrow> 'w lk \<Rightarrow> bool" for K where
  boot: "boot_table ps \<Longrightarrow> procs k = procinit K ps \<Longrightarrow> nextpid k = 1 \<Longrightarrow> userinit22 K uvmfirst k = Some (lks s) \<Longrightarrow>
    \<forall>u\<in>set (lcpus s). u = None \<Longrightarrow> lreach K s"
| step: "lreach K s \<Longrightarrow> lstep K s t \<Longrightarrow> lreach K t"

subsection \<open>The assignment of CPUs\<close>

text \<open>A CPU of this scheduler as one of the round-robin scheduler, so that the lemmas on their assignment apply.\<close>

definition as_cpu :: "nat option \<Rightarrow> cpu" where
  "as_cpu u = \<lparr>cproc = u, scan = (case u of None \<Rightarrow> 0 | Some i \<Rightarrow> i), found = False\<rparr>"

definition lcpus_ok :: "nat set \<Rightarrow> nat option list \<Rightarrow> bool" where
  "lcpus_ok R us \<longleftrightarrow> cpus_ok R (map as_cpu us)"

lemma as_cpu_simps [simp]: "cproc (as_cpu u) = u" "scan (as_cpu None) = 0"
  by (simp_all add: as_cpu_def)

lemma lcpus_ok_leave:
  assumes ok: "lcpus_ok R us" and c: "c < length us" "us ! c = Some me"
  shows "lcpus_ok (R - {me}) (us[c := None])"
proof -
  have "cpus_ok (R - {me}) ((map as_cpu us)[c := (map as_cpu us ! c)\<lparr>cproc := None, found := True, scan := Suc (scan (map as_cpu us ! c))\<rparr>])"
    by (rule cpus_ok_leave [OF ok [unfolded lcpus_ok_def]]) (use c in simp_all)
  from cpus_ok_scan [OF this, of c "as_cpu None"] show ?thesis using c(1) by (simp add: lcpus_ok_def map_update)
qed

lemma lcpus_ok_enter:
  assumes ok: "lcpus_ok R us" and c: "c < length us" "us ! c = None" and i: "i < NPROC" "i \<notin> R"
  shows "lcpus_ok (insert i R) (us[c := Some i])"
proof -
  let ?u = "(as_cpu None)\<lparr>scan := i\<rparr>"
  have "cpus_ok R ((map as_cpu us)[c := ?u])" by (rule cpus_ok_scan [OF ok [unfolded lcpus_ok_def]]) (use c i in simp_all)
  from cpus_ok_enter [OF this, of c i] have "cpus_ok (insert i R) ((map as_cpu us)[c := ?u\<lparr>cproc := Some i\<rparr>])" using c i by simp
  moreover have "?u\<lparr>cproc := Some i\<rparr> = as_cpu (Some i)" by (simp add: as_cpu_def)
  ultimately show ?thesis by (simp add: lcpus_ok_def map_update)
qed

subsection \<open>The invariant\<close>

definition linv :: "'w lk \<Rightarrow> bool" where
  "linv s \<longleftrightarrow> pinv (lks s) \<and> lcpus_ok (running_set (lks s)) (lcpus s)"

lemma linvE:
  assumes "linv s"
  shows "pinv (lks s)" and "lcpus_ok (running_set (lks s)) (lcpus s)" and "length (procs (lks s)) = NPROC"
    and "c < length (lcpus s) \<Longrightarrow> lcpus s ! c = Some me \<Longrightarrow> me < length (procs (lks s)) \<and> state (procs (lks s) ! me) = RUNNING"
  using assms pinv_len [of "lks s"] cpus_okD(2) [of "running_set (lks s)" "map as_cpu (lcpus s)" c me]
  by (simp_all add: linv_def lcpus_ok_def running_set_iff)

lemma linv_keep: "linv s \<Longrightarrow> pinv k \<Longrightarrow> running_set k = running_set (lks s) \<Longrightarrow> linv (s\<lparr>lks := k\<rparr>)"
  by (simp add: linv_def)

lemma linv_leave:
  "linv s \<Longrightarrow> c < length (lcpus s) \<Longrightarrow> lcpus s ! c = Some me \<Longrightarrow> pinv k \<Longrightarrow> running_set k = running_set (lks s) - {me} \<Longrightarrow>
    linv (swtch_back22 c (s\<lparr>lks := k\<rparr>))"
  by (simp add: linv_def swtch_back22_def lcpus_ok_leave)

lemma trunc_lproc [simp]: "trunc (p\<lparr>tickets := y\<rparr>) = trunc p"
  by (simp add: proc.truncate_def)

text \<open>Whatever the count of tickets was, the draw takes a process that is runnable now.\<close>

lemma draw_runnable: "draw winner pf k ps = Some m \<Longrightarrow> \<exists>i<length ps. m = k + i \<and> runnable (ps ! i)"
proof (induction winner pf k ps rule: draw.induct)
  case (2 winner pf i p ps)
  have "\<exists>j<length ps. m = Suc i + j \<and> runnable (ps ! j) \<Longrightarrow> ?case" by auto
  then show ?case using 2 by (fastforce split: if_splits)
qed simp

lemma scheduler22_linv:
  assumes inv: "linv s" and c: "c < length (lcpus s)" "lcpus s ! c = None"
  shows "linv (scheduler22 c earlier s)"
proof -
  note ok = linvE [OF inv]
  obtain w st where d: "scheduler22_draw s earlier (procs (lks s)) = (w, st)" by fastforce
  show ?thesis
  proof (cases w)
    case None
    then show ?thesis using inv d by (simp add: scheduler22_def linv_def)
  next
    case (Some i)
    then obtain wn where "draw wn 0 0 (procs (lks s)) = Some i" using d by (auto simp: scheduler22_draw_def Let_def split: prod.splits if_splits)
    then have i: "i < length (procs (lks s))" "state (procs (lks s) ! i) = RUNNABLE" using draw_runnable by (fastforce simp: runnable_def)+
    let ?k = "upd_proc i (\<lambda>p. p\<lparr>state := RUNNING\<rparr>) (lks s)"
    have "pinv ?k" by (rule pstep_pinv [OF lab22_ok ok(1) pstep.run [OF i, where K = undefined]])
    moreover have "running_set ?k = insert i (running_set (lks s))"
      using i by (auto simp: running_set_iff upd_proc_def nth_list_update_if split: if_splits)
    moreover have "lcpus_ok (insert i (running_set (lks s))) ((lcpus s)[c := Some i])"
      by (rule lcpus_ok_enter [OF ok(2) c]) (use i ok(3) in \<open>auto simp: running_set_iff\<close>)
    ultimately show ?thesis using d Some by (simp add: scheduler22_def linv_def)
  qed
qed

lemma lstep_linv:
  assumes inv: "linv s" and st: "lstep K s t"
  shows "linv t"
proof -
  note ok = linvE [OF inv]
  note pinv_step = pstep_pinv [OF lab22_ok ok(1), of K]
  from st show ?thesis
  proof cases
    case (sched c earlier)
    then show ?thesis using scheduler22_linv [OF inv] by simp
  next
    case (timer c me)
    note me = ok(4) [OF timer(2,3), THEN conjunct1] ok(4) [OF timer(2,3), THEN conjunct2]
    have "running_set ((lks s)\<lparr>procs := yield me (procs (lks s))\<rparr>) = running_set (lks s) - {me}"
      using me by (auto simp: running_set_iff yield_def nth_list_update_if split: if_splits)
    then show ?thesis unfolding timer(1) by (rule linv_leave [OF inv timer(2,3) pinv_step [OF pstep.yields [OF me]]])
  next
    case (forks c me r k)
    note me = ok(4) [OF forks(2,3), THEN conjunct1] ok(4) [OF forks(2,3), THEN conjunct2]
    note f = forks(4) [unfolded fork22_def]
    show ?thesis unfolding forks(1) by (rule linv_keep [OF inv pinv_step [OF pstep.forks [OF me f]] running_set_fork [OF lab22_ok f]])
  next
    case (exits c me st k)
    note me = ok(4) [OF exits(2,3), THEN conjunct1] ok(4) [OF exits(2,3), THEN conjunct2]
    note e = exits(4) [unfolded exit22_def]
    show ?thesis unfolding exits(1)
      by (rule linv_leave [OF inv exits(2,3) pinv_step [OF pstep.exits [OF me e]] running_set_exit [OF ok(1) me e]])
  next
    case (waits c me addr r k)
    note me = ok(4) [OF waits(2,3), THEN conjunct1] ok(4) [OF waits(2,3), THEN conjunct2]
    note w = waits(4) [unfolded wait22_def]
    note k = pinv_step [OF pstep.waits [OF me w]] running_set_wait [OF lab22_ok me(1) w]
    show ?thesis unfolding waits(1) using k linv_leave [OF inv waits(2,3)] linv_keep [OF inv] by (cases "r = Sleep") simp_all
  next
    case (sleeps c me ch)
    note me = ok(4) [OF sleeps(2,3), THEN conjunct1] ok(4) [OF sleeps(2,3), THEN conjunct2]
    show ?thesis unfolding sleeps(1)
      by (rule linv_leave [OF inv sleeps(2,3) pinv_step [OF pstep.sleeps [OF me sleeps(4)]] running_set_sleep [OF me(1)]])
  next
    case (resume c me)
    note me = ok(4) [OF resume(2,3), THEN conjunct1] ok(4) [OF resume(2,3), THEN conjunct2]
    have "running_set ((lks s)\<lparr>procs := sleep_return me (procs (lks s))\<rparr>) = running_set (lks s)"
      by (auto simp: running_set_iff sleep_return_def nth_list_update_if split: if_splits)
    then show ?thesis unfolding resume(1) by (rule linv_keep [OF inv pinv_step [OF pstep.resume [OF me]]])
  next
    case (settickets c me n r k)
    note me = ok(4) [OF settickets(2,3), THEN conjunct1]
    have "core (upd_proc me (\<lambda>p. p\<lparr>tickets := n\<rparr>) (lks s)) = core (lks s)"
      using me by (simp add: list_update_id flip: nth_core)
    then have "core k = core (lks s)" "nextpid k = nextpid (lks s)" "initproc k = initproc (lks s)"
      using settickets(4) by (auto simp: set_tickets_def split: if_splits)
    then have "pinv k" "running_set k = running_set (lks s)" using ok(1) by (simp_all add: pinv_def running_set_def)
    then show ?thesis unfolding settickets(1) by (rule linv_keep [OF inv])
  next
    case (faults c me)
    note me = ok(4) [OF faults(2,3), THEN conjunct1] ok(4) [OF faults(2,3), THEN conjunct2]
    have "running_set ((lks s)\<lparr>procs := setkilled me (procs (lks s))\<rparr>) = running_set (lks s)"
      by (auto simp: running_set_iff setkilled_def nth_list_update_if split: if_splits)
    then show ?thesis unfolding faults(1) by (rule linv_keep [OF inv setkilled_pinv [OF ok(1) me]])
  next
    case (wakes i ch)
    show ?thesis unfolding wakes by (rule linv_keep [OF inv pinv_step [OF pstep.wakes] running_set_wakeup])
  next
    case (kills pd r ps)
    show ?thesis unfolding kills(1) by (rule linv_keep [OF inv kkill_pinv [OF ok(1) kills(2)] running_set_kill [OF kills(2)]])
  next
    case (machine rs w)
    have "running_set ((lks s)\<lparr>world := w, shms := rs\<rparr>) = running_set (lks s)" by (auto simp: running_set_iff)
    then show ?thesis unfolding machine by (rule linv_keep [OF inv pinv_step [OF pstep.machine]])
  qed
qed

lemma lboot_linv:
  assumes ps: "boot_table ps" "procs k = procinit K ps" "nextpid k = 1" and u: "userinit22 K uvmfirst k = Some (lks s)"
    and us: "\<forall>u\<in>set (lcpus s). u = None"
  shows "linv s"
proof -
  obtain i k1 where a: "allocproc lab22 K k = (Some i, k1)"
    using u by (auto simp: userinit22_def allocproc22_def split: prod.splits option.splits)
  define k2 where "k2 = upd_world (uvmfirst (pagetable (procs k1 ! i)) initcode) (k1\<lparr>initproc := Some i\<rparr>)"
  obtain ino' w' where "root_inode K (world k2) = (ino', w')" by fastforce
  then have s: "lks s = upd_proc i (\<lambda>p. p\<lparr>sz := PGSIZE, tf := (tf p)\<lparr>epc := 0, uregs := (uregs (tf p))(sp_reg := PGSIZE)\<rparr>,
                     pname := ''initcode'', cwd := ino', state := RUNNABLE\<rparr>) (k2\<lparr>world := w'\<rparr>)"
    using u a by (simp add: userinit22_def allocproc22_def Let_def k2_def)
  obtain ino w where rt: "root_inode K (world k1) = (ino, w)" by fastforce
  then obtain k' where k': "userinit lab22 K k = Some k'" using a by (simp add: userinit_def)
  have eq: "core (lks s) = core k'" "nextpid (lks s) = nextpid k'" "initproc (lks s) = initproc k'"
    using k' a rt by (auto simp: s k2_def userinit_def)
  have "pinv (lks s)" using boot_pinv [OF lab22_ok ps k'] eq by (rule pinv_cong)
  moreover have "running_set (lks s) = {}" using running_set_boot [OF lab22_ok ps(1,2) k'] eq(1) by (simp add: running_set_def)
  moreover have n: "lcpus s ! c = None" if "c < length (lcpus s)" for c using us nth_mem [OF that] by blast
  have "lcpus_ok {} (lcpus s)" unfolding lcpus_ok_def by (rule cpus_okI) (simp_all add: n)
  ultimately show ?thesis using \<open>lcpus_ok {} (lcpus s)\<close> by (simp add: linv_def)
qed

lemma lreach_linv: "lreach K s \<Longrightarrow> linv s"
  by (induction rule: lreach.induct) (use lboot_linv lstep_linv in blast)+

text \<open>
  Property C40. However the CPUs interleave, and whatever table the tickets were counted on, the lottery scheduler never
  runs a process on two CPUs, and the processes in state \<^verbatim>\<open>RUNNING\<close> are exactly those that some CPU runs. The process
  table keeps its invariant.\<close>

theorem lottery_exclusive:
  assumes "lreach K s" and "i < NPROC"
  shows "(\<forall>c<length (lcpus s). \<forall>d<length (lcpus s). lcpus s ! c = Some i \<and> lcpus s ! d = Some i \<longrightarrow> c = d) \<and>
    (state (procs (lks s) ! i) = RUNNING \<longleftrightarrow> (\<exists>c<length (lcpus s). lcpus s ! c = Some i)) \<and> pinv (lks s)"
proof -
  note ok = linvE [OF lreach_linv [OF assms(1)]]
  have "state (procs (lks s) ! i) = RUNNING \<longleftrightarrow> i \<in> running_set (lks s)" using assms(2) ok(3) by (simp add: running_set_iff)
  moreover note e = cpus_okE [OF ok(2) [unfolded lcpus_ok_def]] and d = cpus_okD(2) [OF ok(2) [unfolded lcpus_ok_def]]
  have "\<exists>c<length (lcpus s). lcpus s ! c = Some i" if "i \<in> running_set (lks s)" using e(1) [OF that] by auto
  moreover have "i \<in> running_set (lks s)" if "c < length (lcpus s)" "lcpus s ! c = Some i" for c using d [of c i] that by simp
  moreover have "c = d" if "c < length (lcpus s)" "d < length (lcpus s)" "lcpus s ! c = Some i" "lcpus s ! d = Some i" for c d
    using e(2) [of c d i] that by simp
  ultimately show ?thesis using ok(1) by blast
qed

text \<open>Two CPUs; the first dispatches the first process.\<close>

definition lboot :: "(unit, lext) kstate" where
  "lboot = \<lparr>procs = procinit demo_kops (replicate NPROC lzero), nextpid = 1, initproc = None, shms = [], world = ()\<rparr>"

lemma demo_lboot:
  "\<exists>k. lreach demo_kops \<lparr>lks = k, lcpus = [None, None], randstate = 0\<rparr> \<and> find_idx runnable (procs k) = Some 0 \<and> tickets (procs k ! 0) = 10"
proof -
  have un: "find_idx (\<lambda>p. state p = UNUSED) (procs lboot) = Some 0" by (simp add: lboot_def procinit_def numeral_eq_Suc)
  have len: "0 < length (procs lboot)" by (simp add: lboot_def procinit_def numeral_eq_Suc)
  obtain k1 where a: "allocproc22 demo_kops lboot = (Some 0, k1)" and tk: "tickets (procs k1 ! 0) = 10" "length (procs k1) = length (procs lboot)"
    unfolding allocproc22_def using un len by (auto simp: allocproc_def allocpid_def Let_def demo_kops_def proc_pagetable_def lab22_def upd_proc_def)
  define k where "k = upd_proc 0 (\<lambda>p. p\<lparr>sz := PGSIZE, tf := (tf p)\<lparr>epc := 0, uregs := (uregs (tf p))(sp_reg := PGSIZE)\<rparr>,
                     pname := ''initcode'', cwd := 1, state := RUNNABLE\<rparr>) (k1\<lparr>initproc := Some 0, world := ()\<rparr>)"
  have u: "userinit22 demo_kops (\<lambda>pt c w. w) lboot = Some k"
    unfolding userinit22_def a by (simp add: k_def Let_def upd_world_def) (simp add: demo_kops_def)
  have "lreach demo_kops \<lparr>lks = k, lcpus = [None, None], randstate = 0\<rparr>"
    by (rule lreach.boot [where k = lboot and ps = "replicate NPROC lzero" and uvmfirst = "\<lambda>pt c w. w"])
      (use u in \<open>simp_all add: lboot_def boot_table_def lzero_def\<close>)
  moreover have "find_idx runnable (procs k) = Some 0" "tickets (procs k ! 0) = 10"
    using tk len by (simp_all add: find_idx_Some k_def runnable_def)
  ultimately show ?thesis by blast
qed

lemma draw_first: "find_idx runnable ps = Some 0 \<Longrightarrow> 1 < share (ps ! 0) \<Longrightarrow> share (ps ! 0) < 2 ^ 31 \<Longrightarrow> draw 0 0 0 ps = Some 0"
  using less_of_int [of "share (hd ps) - 1" 0] by (cases ps) (auto split: if_splits)

theorem lottery_exclusive_witness:
  "\<exists>s. lreach demo_kops s \<and> lcpus s ! 0 = Some 0 \<and> lcpus s ! 1 \<noteq> Some 0 \<and> state (procs (lks s) ! 0) = RUNNING"
proof -
  obtain k where k: "lreach demo_kops \<lparr>lks = k, lcpus = [None, None], randstate = 0\<rparr>" "find_idx runnable (procs k) = Some 0" "tickets (procs k ! 0) = 10"
    using demo_lboot by blast
  let ?s = "\<lparr>lks = k, lcpus = [None, None], randstate = 0\<rparr>"
  let ?t = "scheduler22 0 (procs k) ?s"
  have f: "\<exists>p\<in>set (procs k). runnable p" using k(2) by (meson find_idx_SomeD nth_mem)
  have "draw 0 0 0 (procs k) = Some 0" by (rule draw_first [OF k(2)]) (simp_all add: share_def k(3))
  then have "lcpus ?t = [Some 0, None]" using f by (simp add: scheduler22_def scheduler22_draw_def count_tickets_eq rand32_def Let_def)
  moreover have "lreach demo_kops ?t" by (rule lreach.step [OF k(1) lstep.sched]) simp_all
  ultimately show ?thesis using lottery_exclusive [of demo_kops ?t 0] by (intro exI [of _ ?t]) force
qed

end
