(* ===== verification/Maze.thy ===== *)
theory Maze
  imports Mailbox
begin

text \<open>
  The two-process maze of Lab 3, Task 3.2 (\<^verbatim>\<open>user/master.c\<close>, \<^verbatim>\<open>user/process.c\<close>) on the mailboxes of \<open>Mailbox\<close>.
  \<^verbatim>\<open>master\<close> fills the shared page \<^verbatim>\<open>struct details\<close>, creates a mailbox per direction and starts the processes A
  and B. Each process runs from one call on a mailbox to the next; a call that would sleep is a step that
  is not enabled yet (that sleeping processes are woken is shown with the mailboxes). Which process moves
  is not determined. The shared page stays mapped while the game runs, since \<^verbatim>\<open>master\<close> holds it.
\<close>

record details =
  dL :: int
  dend :: int
  startA :: int
  startB :: int
  next_for_A :: "int list"
  next_for_B :: "int list"
  doneA :: int
  doneB :: int

text \<open>\<^verbatim>\<open>main\<close> of \<^verbatim>\<open>master.c\<close> up to the forks: the checks of the arguments and the table of next positions.\<close>

definition fill_next :: "details \<Rightarrow> details" where
  "fill_next g =
     (let n = nat (dL g) in
      g\<lparr>next_for_A := map (\<lambda>i. if int i + 1 < dL g then int i + 1 else dend g) [0..<n] @ drop n (next_for_A g),
        next_for_B := map (\<lambda>i. if int i + 2 < dL g then int i + 2 else dend g) [0..<n] @ drop n (next_for_B g)\<rparr>)"

definition master_init :: "int \<Rightarrow> int \<Rightarrow> int \<Rightarrow> details \<Rightarrow> details option" where
  "master_init l a b g =
     (let g1 = g\<lparr>dL := l\<rparr> in
      if dL g1 \<le> 0 \<or> dL g1 > 255 then None
      else
        let g2 = g1\<lparr>dend := - 1, startA := a, startB := b\<rparr> in
        if startA g2 < 0 \<or> startA g2 \<ge> dL g2 \<or> startB g2 < 0 \<or> startB g2 \<ge> dL g2 then None
        else Some (fill_next (g2\<lparr>doneA := 0, doneB := 0\<rparr>)))"

definition master_boxes :: "int \<Rightarrow> mailbox list \<Rightarrow> (int \<times> int \<times> mailbox list) option" where
  "master_boxes mypid bs =
     (let base = 10 + mypid;
          (ab, bs1) = mbox_create (base + 100) bs;
          (ba, bs2) = mbox_create (base + 101) bs1
      in if ab < 0 \<or> ba < 0 then None else Some (ab, ba, bs2))"

text \<open>Where the processes are in their loops.\<close>

datatype apc = A_send int | A_recv | A_exit
datatype bpc = B_recv int | B_send int int | B_exit

record maze =
  mbs :: "mailbox list"
  mg :: details
  pa :: apc
  pb :: bpc

definition next_pos :: "details \<Rightarrow> int list \<Rightarrow> int \<Rightarrow> int" where
  "next_pos g tbl x = (if x \<ge> 0 \<and> x < dL g then tbl ! nat x else dend g)"

text \<open>\<^verbatim>\<open>recv_loc\<close>: the message, or -1 when the call fails.\<close>

definition recv_loc :: "int option \<Rightarrow> int" where
  "recv_loc r = (case r of None \<Rightarrow> - 1 | Some v \<Rightarrow> v)"

definition stepA :: "int \<Rightarrow> int \<Rightarrow> maze \<Rightarrow> maze option" where
  "stepA ab ba s =
     (case pa s of
        A_send a \<Rightarrow>
          let next_B = next_pos (mg s) (next_for_B (mg s)) a in
          (case mbox_send 0 ab next_B (mbs s, [] :: proc list) of
             (Sleep, _) \<Rightarrow> None
           | (Ret _, bs, _) \<Rightarrow>
               if next_B = dend (mg s) then Some (s\<lparr>mbs := bs, mg := (mg s)\<lparr>doneA := 1\<rparr>, pa := A_exit\<rparr>)
               else Some (s\<lparr>mbs := bs, pa := A_recv\<rparr>))
      | A_recv \<Rightarrow>
          (case mbox_recv 0 ba (mbs s, [] :: proc list) of
             (Sleep, _) \<Rightarrow> None
           | (Ret v, bs, _) \<Rightarrow>
               let next_A = recv_loc v in
               if next_A = dend (mg s) then Some (s\<lparr>mbs := bs, mg := (mg s)\<lparr>doneA := 1\<rparr>, pa := A_exit\<rparr>)
               else Some (s\<lparr>mbs := bs, pa := A_send next_A\<rparr>))
      | A_exit \<Rightarrow> None)"

definition stepB :: "int \<Rightarrow> int \<Rightarrow> maze \<Rightarrow> maze option" where
  "stepB ab ba s =
     (case pb s of
        B_recv b \<Rightarrow>
          (case mbox_recv 1 ab (mbs s, [] :: proc list) of
             (Sleep, _) \<Rightarrow> None
           | (Ret v, bs, _) \<Rightarrow> Some (s\<lparr>mbs := bs, pb := B_send b (recv_loc v)\<rparr>))
      | B_send b next_B \<Rightarrow>
          let next_A = next_pos (mg s) (next_for_A (mg s)) b in
          (case mbox_send 1 ba next_A (mbs s, [] :: proc list) of
             (Sleep, _) \<Rightarrow> None
           | (Ret _, bs, _) \<Rightarrow>
               if next_B = dend (mg s) then Some (s\<lparr>mbs := bs, mg := (mg s)\<lparr>doneB := 1\<rparr>, pb := B_exit\<rparr>)
               else if next_A = dend (mg s) then Some (s\<lparr>mbs := bs, mg := (mg s)\<lparr>doneB := 1\<rparr>, pb := B_exit\<rparr>)
               else Some (s\<lparr>mbs := bs, pb := B_recv next_B\<rparr>))
      | B_exit \<Rightarrow> None)"

text \<open>The verdict \<^verbatim>\<open>master\<close> prints after both \<^verbatim>\<open>wait\<close>s.\<close>

definition maze_won :: "maze \<Rightarrow> bool" where
  "maze_won s \<longleftrightarrow> doneA (mg s) \<noteq> 0 \<and> doneB (mg s) \<noteq> 0"

inductive mazestep :: "int \<Rightarrow> int \<Rightarrow> maze \<Rightarrow> maze \<Rightarrow> bool" for ab ba where
  A: "stepA ab ba s = Some t \<Longrightarrow> mazestep ab ba s t"
| B: "stepB ab ba s = Some t \<Longrightarrow> mazestep ab ba s t"

inductive_simps mazestep_iff: "mazestep ab ba s t"

subsection \<open>The game\<close>

text \<open>A mailbox that is open and holds the messages \<open>q\<close>.\<close>

definition holds :: "mailbox list \<Rightarrow> int \<Rightarrow> int list \<Rightarrow> bool" where
  "holds bs i q \<longleftrightarrow> 0 \<le> i \<and> i < int MAX_MBOX \<and> nat i < length bs \<and> mb_inv (bs ! nat i) \<and> mb_used (bs ! nat i) \<and>
     \<not> mb_closed (bs ! nat i) \<and> mb_contents (bs ! nat i) = q"

lemma holds_other: "0 \<le> i \<Longrightarrow> j \<noteq> i \<Longrightarrow> holds bs j r \<Longrightarrow> holds (bs[nat i := b]) j r"
proof -
  assume a: "0 \<le> i" "j \<noteq> i" "holds bs j r"
  then have "nat i \<noteq> nat j" by (auto simp: holds_def)
  then show ?thesis using a(3) by (simp add: holds_def)
qed

lemma holds_send:
  assumes "holds bs i q" and "length q < 16"
  shows "\<exists>bs'. mbox_send me i v (bs, [] :: proc list) = (Ret 0, bs', []) \<and> holds bs' i (q @ [v]) \<and>
    (\<forall>j r. j \<noteq> i \<longrightarrow> holds bs j r \<longrightarrow> holds bs' j r)"
proof -
  let ?b = "bs ! nat i"
  have inv: "mb_inv ?b" and c: "mb_count ?b < 16"
    using assms length_mb_contents [of ?b] by (auto simp: holds_def)
  have "mbox_send me i v (bs, [] :: proc list) = (Ret 0, bs[nat i := mb_put v ?b], [])"
    using assms(1) c by (simp add: mbox_send_def mbox_send_loop_def Let_def holds_def wakeup_def)
  moreover have "holds (bs[nat i := mb_put v ?b]) i (q @ [v])"
    using assms(1) mb_inv_put [OF inv c] mb_contents_put [OF inv c] by (simp add: holds_def)
  moreover have "\<forall>j r. j \<noteq> i \<longrightarrow> holds bs j r \<longrightarrow> holds (bs[nat i := mb_put v ?b]) j r"
    using assms(1) holds_other by (auto simp: holds_def [of bs i])
  ultimately show ?thesis by blast
qed

lemma holds_recv:
  assumes "holds bs i (v # q)"
  shows "\<exists>bs'. mbox_recv me i (bs, [] :: proc list) = (Ret (Some v), bs', []) \<and> holds bs' i q \<and>
    (\<forall>j r. j \<noteq> i \<longrightarrow> holds bs j r \<longrightarrow> holds bs' j r)"
proof -
  let ?b = "bs ! nat i"
  have inv: "mb_inv ?b" and c: "mb_count ?b \<noteq> 0"
    using assms length_mb_contents [of ?b] by (auto simp: holds_def)
  have ct: "mb_contents ?b = mb_front ?b # mb_contents (mb_take ?b)" by (rule mb_contents_take [OF inv c])
  then have "mbox_recv me i (bs, [] :: proc list) = (Ret (Some v), bs[nat i := mb_take ?b], [])"
    using assms c by (simp add: mbox_recv_def mbox_recv_loop_def Let_def holds_def wakeup_def)
  moreover have "holds (bs[nat i := mb_take ?b]) i q"
    using assms mb_inv_take [OF inv c] ct by (simp add: holds_def)
  moreover have "\<forall>j r. j \<noteq> i \<longrightarrow> holds bs j r \<longrightarrow> holds (bs[nat i := mb_take ?b]) j r"
    using assms holds_other by (auto simp: holds_def [of bs i])
  ultimately show ?thesis by blast
qed

lemma holds_blocks: "holds bs i [] \<Longrightarrow> mbox_recv me i (bs, [] :: proc list) = (Sleep, bs, [])"
  by (auto simp: holds_def mb_contents_Nil mbox_recv_def mbox_recv_loop_def Let_def sleep_enter_def)

text \<open>The shared page of a game of length \<open>l\<close>, and the phases a round goes through.\<close>

definition page_ok :: "int \<Rightarrow> details \<Rightarrow> bool" where
  "page_ok l g \<longleftrightarrow> dL g = l \<and> 0 < l \<and> dend g = - 1 \<and>
     (\<forall>x. 0 \<le> x \<and> x < l \<longrightarrow> next_for_A g ! nat x = (if x + 1 < l then x + 1 else - 1) \<and>
        next_for_B g ! nat x = (if x + 2 < l then x + 2 else - 1))"

definition stepA_pos :: "int \<Rightarrow> int \<Rightarrow> int" where
  "stepA_pos l b = (if b + 1 < l then b + 1 else - 1)"

definition stepB_pos :: "int \<Rightarrow> int \<Rightarrow> int" where
  "stepB_pos l a = (if a + 2 < l then a + 2 else - 1)"

lemma page_next:
  assumes "page_ok l g" and "0 \<le> x" and "x < l"
  shows "next_pos g (next_for_A g) x = stepA_pos l x" and "next_pos g (next_for_B g) x = stepB_pos l x"
  using assms by (auto simp: page_ok_def next_pos_def stepA_pos_def stepB_pos_def)

definition pot :: "int \<Rightarrow> int \<Rightarrow> int \<Rightarrow> nat" where
  "pot l a b = 4 * nat (2 * l - a - b)"

inductive phase :: "int \<Rightarrow> int \<Rightarrow> int \<Rightarrow> nat \<Rightarrow> maze \<Rightarrow> bool" for l ab ba where
  start: "0 \<le> a \<Longrightarrow> a < l \<Longrightarrow> 0 \<le> b \<Longrightarrow> b < l \<Longrightarrow> page_ok l (mg s) \<Longrightarrow> pa s = A_send a \<Longrightarrow> pb s = B_recv b \<Longrightarrow>
    holds (mbs s) ab [] \<Longrightarrow> holds (mbs s) ba [] \<Longrightarrow> phase l ab ba (pot l a b + 4) s"
| sent: "0 \<le> a \<Longrightarrow> a + 2 < l \<Longrightarrow> 0 \<le> b \<Longrightarrow> b < l \<Longrightarrow> page_ok l (mg s) \<Longrightarrow> pa s = A_recv \<Longrightarrow> pb s = B_recv b \<Longrightarrow>
    holds (mbs s) ab [a + 2] \<Longrightarrow> holds (mbs s) ba [] \<Longrightarrow> phase l ab ba (pot l a b + 3) s"
| sent_end: "0 \<le> b \<Longrightarrow> b < l \<Longrightarrow> page_ok l (mg s) \<Longrightarrow> pa s = A_exit \<Longrightarrow> doneA (mg s) = 1 \<Longrightarrow> pb s = B_recv b \<Longrightarrow>
    holds (mbs s) ab [- 1] \<Longrightarrow> holds (mbs s) ba [] \<Longrightarrow> phase l ab ba 3 s"
| got: "0 \<le> a \<Longrightarrow> a + 2 < l \<Longrightarrow> 0 \<le> b \<Longrightarrow> b < l \<Longrightarrow> page_ok l (mg s) \<Longrightarrow> pa s = A_recv \<Longrightarrow> pb s = B_send b (a + 2) \<Longrightarrow>
    holds (mbs s) ab [] \<Longrightarrow> holds (mbs s) ba [] \<Longrightarrow> phase l ab ba (pot l a b + 2) s"
| got_end: "0 \<le> b \<Longrightarrow> b < l \<Longrightarrow> page_ok l (mg s) \<Longrightarrow> pa s = A_exit \<Longrightarrow> doneA (mg s) = 1 \<Longrightarrow> pb s = B_send b (- 1) \<Longrightarrow>
    holds (mbs s) ab [] \<Longrightarrow> holds (mbs s) ba [] \<Longrightarrow> phase l ab ba 2 s"
| replied: "0 \<le> a \<Longrightarrow> a + 2 < l \<Longrightarrow> 0 \<le> b \<Longrightarrow> b + 1 < l \<Longrightarrow> page_ok l (mg s) \<Longrightarrow> pa s = A_recv \<Longrightarrow> pb s = B_recv (a + 2) \<Longrightarrow>
    holds (mbs s) ab [] \<Longrightarrow> holds (mbs s) ba [b + 1] \<Longrightarrow> phase l ab ba (pot l a b + 1) s"
| replied_end: "page_ok l (mg s) \<Longrightarrow> pa s = A_recv \<Longrightarrow> pb s = B_exit \<Longrightarrow> doneB (mg s) = 1 \<Longrightarrow>
    holds (mbs s) ab [] \<Longrightarrow> holds (mbs s) ba [- 1] \<Longrightarrow> phase l ab ba 1 s"
| over: "pa s = A_exit \<Longrightarrow> pb s = B_exit \<Longrightarrow> doneA (mg s) = 1 \<Longrightarrow> doneB (mg s) = 1 \<Longrightarrow> phase l ab ba 0 s"

inductive_cases phase_0E: "phase l ab ba 0 s"

lemma page_ok_done [simp]:
  "page_ok l (g\<lparr>doneA := x\<rparr>) = page_ok l g" "page_ok l (g\<lparr>doneB := x\<rparr>) = page_ok l g"
  by (simp_all add: page_ok_def)

lemma page_end: "page_ok l g \<Longrightarrow> dend g = - 1"
  by (simp add: page_ok_def)

text \<open>In every phase but the last exactly one process can move, and it moves to a phase of smaller potential.\<close>

lemma descend: "x = Some t \<Longrightarrow> phase l ab ba m t \<Longrightarrow> m < n \<Longrightarrow> \<exists>t. x = Some t \<and> (\<exists>m<n. phase l ab ba m t)"
  by blast

lemma phase_start:
  assumes "0 \<le> a" "a < l" "0 \<le> b" "b < l" "page_ok l (mg s)" "pa s = A_send a" "pb s = B_recv b"
    "holds (mbs s) ab []" "holds (mbs s) ba []" and ne: "ab \<noteq> ba"
  shows "stepB ab ba s = None" and "\<exists>t. stepA ab ba s = Some t \<and> (\<exists>m<pot l a b + 4. phase l ab ba m t)"
proof -
  show "stepB ab ba s = None" using assms(7) holds_blocks [OF assms(8)] by (simp add: stepB_def)
  obtain bs where bs: "mbox_send 0 ab (stepB_pos l a) (mbs s, [] :: proc list) = (Ret 0, bs, [])" "holds bs ab [stepB_pos l a]" "holds bs ba []"
    using holds_send [OF assms(8), of 0 "stepB_pos l a"] assms(9) ne by auto
  show "\<exists>t. stepA ab ba s = Some t \<and> (\<exists>m<pot l a b + 4. phase l ab ba m t)"
  proof (cases "a + 2 < l")
    case True
    then have "stepA ab ba s = Some (s\<lparr>mbs := bs, pa := A_recv\<rparr>)"
      using assms(1,5,6) bs(1) page_next(2) [OF assms(5,1,2)] page_end [OF assms(5)] by (simp add: stepA_def Let_def stepB_pos_def)
    moreover have "phase l ab ba (pot l a b + 3) (s\<lparr>mbs := bs, pa := A_recv\<rparr>)"
      by (rule phase.sent) (use assms True bs in \<open>simp_all add: stepB_pos_def\<close>)
    ultimately show ?thesis by (rule descend) simp
  next
    case False
    then have "stepA ab ba s = Some (s\<lparr>mbs := bs, mg := (mg s)\<lparr>doneA := 1\<rparr>, pa := A_exit\<rparr>)"
      using assms(1,5,6) bs(1) page_next(2) [OF assms(5,1,2)] page_end [OF assms(5)] by (simp add: stepA_def Let_def stepB_pos_def)
    moreover have "phase l ab ba 3 (s\<lparr>mbs := bs, mg := (mg s)\<lparr>doneA := 1\<rparr>, pa := A_exit\<rparr>)"
      by (rule phase.sent_end [where b = b]) (use assms False bs in \<open>simp_all add: stepB_pos_def\<close>)
    ultimately show ?thesis by (rule descend) simp
  qed
qed

lemma phase_sent:
  assumes "pb s = B_recv b" "holds (mbs s) ab [v]" "holds (mbs s) ba []" "pa s = A_recv \<or> pa s = A_exit" and ne: "ab \<noteq> ba"
  shows "stepA ab ba s = None" and "\<exists>bs. stepB ab ba s = Some (s\<lparr>mbs := bs, pb := B_send b v\<rparr>) \<and> holds bs ab [] \<and> holds bs ba []"
proof -
  show "stepA ab ba s = None" using assms(4) holds_blocks [OF assms(3)] by (auto simp: stepA_def)
  obtain bs where "mbox_recv 1 ab (mbs s, [] :: proc list) = (Ret (Some v), bs, [])" "holds bs ab []" "holds bs ba []"
    using holds_recv [OF assms(2), of 1] assms(3) ne by metis
  then show "\<exists>bs. stepB ab ba s = Some (s\<lparr>mbs := bs, pb := B_send b v\<rparr>) \<and> holds bs ab [] \<and> holds bs ba []"
    using assms(1) by (intro exI [of _ bs]) (simp add: stepB_def recv_loc_def)
qed

lemma phase_got:
  assumes "pb s = B_send b nb" "0 \<le> b" "b < l" "page_ok l (mg s)" "holds (mbs s) ab []" "holds (mbs s) ba []"
    "pa s = A_recv \<or> pa s = A_exit" and ne: "ab \<noteq> ba"
  shows "stepA ab ba s = None" and "\<exists>bs. stepB ab ba s = Some
      (if nb = - 1 \<or> \<not> b + 1 < l then s\<lparr>mbs := bs, mg := (mg s)\<lparr>doneB := 1\<rparr>, pb := B_exit\<rparr> else s\<lparr>mbs := bs, pb := B_recv nb\<rparr>) \<and>
      holds bs ab [] \<and> holds bs ba [stepA_pos l b]"
proof -
  show "stepA ab ba s = None" using assms(7) holds_blocks [OF assms(6)] by (auto simp: stepA_def)
  obtain bs where "mbox_send 1 ba (stepA_pos l b) (mbs s, [] :: proc list) = (Ret 0, bs, [])" "holds bs ba [stepA_pos l b]" "holds bs ab []"
    using holds_send [OF assms(6), of 1 "stepA_pos l b"] assms(5) ne by auto
  then show "\<exists>bs. stepB ab ba s = Some
      (if nb = - 1 \<or> \<not> b + 1 < l then s\<lparr>mbs := bs, mg := (mg s)\<lparr>doneB := 1\<rparr>, pb := B_exit\<rparr> else s\<lparr>mbs := bs, pb := B_recv nb\<rparr>) \<and>
      holds bs ab [] \<and> holds bs ba [stepA_pos l b]"
    using assms(1,2) page_next(1) [OF assms(4,2,3)] page_end [OF assms(4)]
    by (intro exI [of _ bs]) (auto simp: stepB_def Let_def stepA_pos_def)
qed

lemma phase_replied:
  assumes "pb s = B_recv x \<and> holds (mbs s) ab [] \<or> pb s = B_exit" "page_ok l (mg s)" "pa s = A_recv" "holds (mbs s) ba [v]" and ne: "ab \<noteq> ba"
  shows "stepB ab ba s = None" and "\<exists>bs. stepA ab ba s = Some
      (if v = - 1 then s\<lparr>mbs := bs, mg := (mg s)\<lparr>doneA := 1\<rparr>, pa := A_exit\<rparr> else s\<lparr>mbs := bs, pa := A_send v\<rparr>) \<and>
      (holds (mbs s) ab [] \<longrightarrow> holds bs ab []) \<and> holds bs ba []"
proof -
  show "stepB ab ba s = None" using assms(1) holds_blocks by (auto simp: stepB_def)
  obtain bs where "mbox_recv 0 ba (mbs s, [] :: proc list) = (Ret (Some v), bs, [])" "holds bs ba []" "holds (mbs s) ab [] \<longrightarrow> holds bs ab []"
    using holds_recv [OF assms(4), of 0] ne by metis
  then show "\<exists>bs. stepA ab ba s = Some
      (if v = - 1 then s\<lparr>mbs := bs, mg := (mg s)\<lparr>doneA := 1\<rparr>, pa := A_exit\<rparr> else s\<lparr>mbs := bs, pa := A_send v\<rparr>) \<and>
      (holds (mbs s) ab [] \<longrightarrow> holds bs ab []) \<and> holds bs ba []"
    using assms(3) page_end [OF assms(2)] by (intro exI [of _ bs]) (simp add: stepA_def recv_loc_def Let_def)
qed

definition one_moves :: "int \<Rightarrow> int \<Rightarrow> int \<Rightarrow> nat \<Rightarrow> maze \<Rightarrow> bool" where
  "one_moves l ab ba n s \<longleftrightarrow>
     (stepB ab ba s = None \<and> (\<exists>t. stepA ab ba s = Some t \<and> (\<exists>m<n. phase l ab ba m t))) \<or>
     (stepA ab ba s = None \<and> (\<exists>t. stepB ab ba s = Some t \<and> (\<exists>m<n. phase l ab ba m t)))"

lemma phase_moves:
  assumes "phase l ab ba n s" and ne: "ab \<noteq> ba" and "0 < n"
  shows "one_moves l ab ba n s"
  using assms(1)
proof cases
  case (start a b)
  then show ?thesis unfolding one_moves_def start(1) using phase_start [OF start(2-10) ne] by blast
next
  case (sent a b)
  obtain bs where st: "stepB ab ba s = Some (s\<lparr>mbs := bs, pb := B_send b (a + 2)\<rparr>)" and h: "holds bs ab []" "holds bs ba []"
    using phase_sent(2) [OF sent(8,9,10) _ ne] sent(7) by blast
  have "phase l ab ba (pot l a b + 2) (s\<lparr>mbs := bs, pb := B_send b (a + 2)\<rparr>)"
    by (rule phase.got) (use sent h in simp_all)
  from descend [OF st this, of n] show ?thesis
    unfolding one_moves_def using phase_sent(1) [OF sent(8,9,10) _ ne] sent(1,7) by simp
next
  case (sent_end b)
  obtain bs where st: "stepB ab ba s = Some (s\<lparr>mbs := bs, pb := B_send b (- 1)\<rparr>)" and h: "holds bs ab []" "holds bs ba []"
    using phase_sent(2) [OF sent_end(7,8,9) _ ne] sent_end(5) by blast
  have "phase l ab ba 2 (s\<lparr>mbs := bs, pb := B_send b (- 1)\<rparr>)"
    by (rule phase.got_end [where b = b]) (use sent_end h in simp_all)
  from descend [OF st this, of n] show ?thesis
    unfolding one_moves_def using phase_sent(1) [OF sent_end(7,8,9) _ ne] sent_end(1,5) by simp
next
  case (got a b)
  obtain bs where st: "stepB ab ba s = Some (if a + 2 = - 1 \<or> \<not> b + 1 < l then s\<lparr>mbs := bs, mg := (mg s)\<lparr>doneB := 1\<rparr>, pb := B_exit\<rparr> else s\<lparr>mbs := bs, pb := B_recv (a + 2)\<rparr>)"
    and h: "holds bs ab []" "holds bs ba [stepA_pos l b]"
    using phase_got(2) [OF got(8,4,5,6,9,10) _ ne] got(7) by blast
  have none: "stepA ab ba s = None" using phase_got(1) [OF got(8,4,5,6,9,10) _ ne] got(7) by blast
  show ?thesis
  proof (cases "b + 1 < l")
    case True
    have "phase l ab ba (pot l a b + 1) (s\<lparr>mbs := bs, pb := B_recv (a + 2)\<rparr>)"
      by (rule phase.replied) (use got h True in \<open>simp_all add: stepA_pos_def\<close>)
    then show ?thesis using descend [of _ _ l ab ba "pot l a b + 1" n] st none True got(1,2) by (simp add: one_moves_def)
  next
    case False
    have "phase l ab ba 1 (s\<lparr>mbs := bs, mg := (mg s)\<lparr>doneB := 1\<rparr>, pb := B_exit\<rparr>)"
      by (rule phase.replied_end) (use got h False in \<open>simp_all add: stepA_pos_def\<close>)
    then show ?thesis using descend [of _ _ l ab ba 1 n] st none False got(1) by (simp add: one_moves_def)
  qed
next
  case (got_end b)
  obtain bs where st: "stepB ab ba s = Some (s\<lparr>mbs := bs, mg := (mg s)\<lparr>doneB := 1\<rparr>, pb := B_exit\<rparr>)"
    using phase_got(2) [OF got_end(7,2,3,4,8,9) _ ne] got_end(5) by auto
  have "phase l ab ba 0 (s\<lparr>mbs := bs, mg := (mg s)\<lparr>doneB := 1\<rparr>, pb := B_exit\<rparr>)"
    by (rule phase.over) (use got_end in simp_all)
  from descend [OF st this, of n] show ?thesis
    unfolding one_moves_def using phase_got(1) [OF got_end(7,2,3,4,8,9) _ ne] got_end(1,5) by simp
next
  case (replied a b)
  have pr: "pb s = B_recv (a + 2) \<and> holds (mbs s) ab [] \<or> pb s = B_exit" using replied by simp
  obtain bs where st: "stepA ab ba s = Some (s\<lparr>mbs := bs, pa := A_send (b + 1)\<rparr>)" and h: "holds bs ab []" "holds bs ba []"
    using phase_replied(2) [OF pr replied(6,7,10) ne] replied(4,9) by auto
  have "phase l ab ba (pot l (b + 1) (a + 2) + 4) (s\<lparr>mbs := bs, pa := A_send (b + 1)\<rparr>)"
    by (rule phase.start) (use replied h in simp_all)
  moreover have "pot l (b + 1) (a + 2) + 4 < n" using replied(1-5) by (simp add: pot_def)
  ultimately show ?thesis
    using descend [OF st] phase_replied(1) [OF pr replied(6,7,10) ne] by (simp add: one_moves_def)
next
  case replied_end
  have pr: "pb s = B_recv 0 \<and> holds (mbs s) ab [] \<or> pb s = B_exit" using replied_end by simp
  obtain bs where st: "stepA ab ba s = Some (s\<lparr>mbs := bs, mg := (mg s)\<lparr>doneA := 1\<rparr>, pa := A_exit\<rparr>)"
    using phase_replied(2) [OF pr replied_end(2,3,7) ne] by auto
  have "phase l ab ba 0 (s\<lparr>mbs := bs, mg := (mg s)\<lparr>doneA := 1\<rparr>, pa := A_exit\<rparr>)"
    by (rule phase.over) (use replied_end in simp_all)
  from descend [OF st this, of n] show ?thesis
    unfolding one_moves_def using phase_replied(1) [OF pr replied_end(2,3,7) ne] replied_end(1) by simp
qed (use assms(3) in simp)

interpretation maze: ranked_runs "mazestep ab ba" "\<lambda>n s. ab \<noteq> ba \<and> phase l ab ba n s" for l ab ba
proof
  fix n s t assume p: "ab \<noteq> ba \<and> phase l ab ba n s" and st: "mazestep ab ba s t"
  have "n \<noteq> 0"
  proof
    assume "n = 0"
    then have "pa s = A_exit" "pb s = B_exit" using p by (auto elim: phase_0E)
    then show False using st by (auto simp: mazestep_iff stepA_def stepB_def)
  qed
  then show "\<exists>m<n. ab \<noteq> ba \<and> phase l ab ba m t"
    using p st phase_moves [of l ab ba n s] by (auto simp: one_moves_def mazestep_iff)
qed

subsection \<open>The game that master sets up\<close>

lemma create_fresh:
  assumes inv: "boxes_inv bs" and fresh: "\<forall>b\<in>set bs. mb_used b \<longrightarrow> mb_key b \<noteq> key"
    and c: "mbox_create key bs = (i, bs')" and i: "0 \<le> i"
  shows "boxes_inv bs'" and "holds bs' i []" and "\<not> mb_used (bs ! nat i)" and "bs' = mbox_claim (nat i) key bs" and "nat i < length bs"
proof -
  have "find_id_by_key key bs < 0" using fresh by (simp add: find_id_by_key_neg)
  then obtain k where k: "find_idx (\<lambda>b. \<not> mb_used b) bs = Some k" "i = int k" "bs' = mbox_claim k key bs"
    using c i by (auto simp: mbox_create_def split: option.splits)
  have k': "k < length bs" "\<not> mb_used (bs ! k)" using find_idx_SomeD [OF k(1)] by auto
  have len: "length bs = MAX_MBOX" using inv by (simp add: boxes_inv_def)
  show "boxes_inv bs'" using boxes_inv_create [OF inv, of key] c by simp
  then have "mb_inv (bs' ! k)" using boxes_inv_nth k' len by simp
  then show "holds bs' i []" using k k' len by (simp add: holds_def mbox_claim_def mb_contents_Nil)
  show "\<not> mb_used (bs ! nat i)" "bs' = mbox_claim (nat i) key bs" "nat i < length bs" using k k' by simp_all
qed

lemma master_boxes_ok:
  assumes inv: "boxes_inv bs" and fresh: "\<forall>b\<in>set bs. mb_used b \<longrightarrow> mb_key b \<noteq> 110 + p \<and> mb_key b \<noteq> 111 + p"
    and m: "master_boxes p bs = Some (ab, ba, bs')"
  shows "ab \<noteq> ba \<and> holds bs' ab [] \<and> holds bs' ba []"
proof -
  obtain bs1 where c: "mbox_create (110 + p) bs = (ab, bs1)" "mbox_create (111 + p) bs1 = (ba, bs')" "0 \<le> ab" "0 \<le> ba"
    using m by (auto simp: master_boxes_def Let_def add_ac split: prod.splits if_splits)
  have f0: "\<forall>b\<in>set bs. mb_used b \<longrightarrow> mb_key b \<noteq> 110 + p" using fresh by blast
  note 1 = create_fresh [OF inv f0 c(1,3)]
  have f1: "\<forall>b\<in>set bs1. mb_used b \<longrightarrow> mb_key b \<noteq> 111 + p"
    unfolding 1(4) mbox_claim_def by (rule all_set_update) (use fresh in auto)
  note 2 = create_fresh [OF 1(1) f1 c(2,4)]
  have ne: "ab \<noteq> ba" using 2(3) 1(2) by (auto simp: holds_def)
  have "holds bs' ab []" unfolding 2(4) mbox_claim_def by (rule holds_other [OF c(4) ne 1(2)])
  then show ?thesis using ne 2(2) by simp
qed

lemma master_init_ok:
  assumes "master_init l a b g0 = Some g"
  shows "page_ok l g \<and> startA g = a \<and> startB g = b \<and> 0 \<le> a \<and> a < l \<and> 0 \<le> b \<and> b < l"
proof -
  have r: "0 < l" "0 \<le> a" "a < l" "0 \<le> b" "b < l"
    and g: "g = fill_next (g0\<lparr>dL := l, dend := - 1, startA := a, startB := b, doneA := 0, doneB := 0\<rparr>)"
    using assms by (auto simp: master_init_def Let_def split: if_splits)
  have "page_ok l g"
    unfolding g page_ok_def using r(1) by (auto simp: fill_next_def Let_def nth_append nat_less_iff)
  then show ?thesis using r by (simp add: g fill_next_def Let_def)
qed

definition maze_start :: "mailbox list \<Rightarrow> details \<Rightarrow> maze" where
  "maze_start bs g = \<lparr>mbs = bs, mg = g, pa = A_send (startA g), pb = B_recv (startB g)\<rparr>"

text \<open>
  Property C28. Every game that \<^verbatim>\<open>master\<close> accepts ends with the verdict WIN: whatever the order in which the two
  processes run, they make at most \<open>8 l + 4\<close> steps in a maze of length \<open>l\<close>, they never block each other, and
  when neither can move both have left their loop and both \<^verbatim>\<open>doneA\<close> and \<^verbatim>\<open>doneB\<close> are set.\<close>

theorem maze_always_won:
  assumes "boxes_inv bs0" and "\<forall>b\<in>set bs0. mb_used b \<longrightarrow> mb_key b \<noteq> 110 + p \<and> mb_key b \<noteq> 111 + p"
    and "master_boxes p bs0 = Some (ab, ba, bs)" and "master_init l a b g0 = Some g"
    and "(mazestep ab ba ^^ k) (maze_start bs g) t"
  shows "k \<le> nat (8 * l + 4) \<and>
    ((\<nexists>u. mazestep ab ba t u) \<longrightarrow> maze_won t \<and> pa t = A_exit \<and> pb t = B_exit)"
proof -
  note box = master_boxes_ok [OF assms(1-3)] and pg = master_init_ok [OF assms(4)]
  have ne: "ab \<noteq> ba" using box by simp
  have "phase l ab ba (pot l a b + 4) (maze_start bs g)"
    by (rule phase.start) (use box pg in \<open>simp_all add: maze_start_def\<close>)
  then obtain m where m: "m + k \<le> pot l a b + 4" "phase l ab ba m t" using maze.run [OF _ assms(5), of l "pot l a b + 4"] ne by blast
  have "pot l a b \<le> nat (8 * l)" using pg unfolding pot_def by linarith
  then have "k \<le> nat (8 * l + 4)" using m(1) pg by (simp add: nat_add_distrib)
  moreover have "maze_won t \<and> pa t = A_exit \<and> pb t = B_exit" if "\<nexists>u. mazestep ab ba t u"
  proof (cases "m = 0")
    case True
    then have "phase l ab ba 0 t" using m(2) by simp
    then show ?thesis by (rule phase_0E) (simp add: maze_won_def)
  next
    case False
    then show ?thesis using phase_moves [OF m(2) ne] that by (auto simp: one_moves_def mazestep_iff)
  qed
  ultimately show ?thesis by blast
qed

definition free_box :: mailbox where
  "free_box = \<lparr>mb_used = False, mb_key = 0, mb_buf = replicate 16 0, mb_head = 0, mb_tail = 0, mb_count = 0, mb_closed = False\<rparr>"

definition free_boxes :: "mailbox list" where
  "free_boxes = replicate MAX_MBOX free_box"

definition blank_page :: details where
  "blank_page = \<lparr>dL = 0, dend = 0, startA = 0, startB = 0, next_for_A = replicate 256 0, next_for_B = replicate 256 0, doneA = 0, doneB = 0\<rparr>"

lemma free_boxes_ok: "boxes_inv free_boxes" "\<forall>b\<in>set free_boxes. mb_used b \<longrightarrow> mb_key b \<noteq> 110 + p \<and> mb_key b \<noteq> 111 + p"
  by (auto simp: boxes_inv_def free_boxes_def free_box_def mb_inv_def unique_keys_def)

lemma free_boxes_master: "\<exists>bs. master_boxes 3 free_boxes = Some (0, 1, bs)"
proof -
  have 1: "mbox_create 113 free_boxes = (0, mbox_claim 0 113 free_boxes)"
  proof -
    have "find_idx (\<lambda>b. mb_used b \<and> mb_key b = 113) free_boxes = None" by (simp add: find_idx_None free_boxes_def free_box_def)
    moreover have "find_idx (\<lambda>b. \<not> mb_used b) free_boxes = Some 0" by (simp add: find_idx_Some free_boxes_def free_box_def)
    ultimately show ?thesis by (simp add: mbox_create_def find_id_by_key_def)
  qed
  have 2: "fst (mbox_create 114 (mbox_claim 0 113 free_boxes)) = 1"
  proof -
    have "find_idx (\<lambda>b. mb_used b \<and> mb_key b = 114) (mbox_claim 0 113 free_boxes) = None"
      by (auto simp: find_idx_None mbox_claim_def free_boxes_def free_box_def dest!: set_update_subset_insert [THEN subsetD])
    moreover have "find_idx (\<lambda>b. \<not> mb_used b) (mbox_claim 0 113 free_boxes) = Some 1"
      by (simp add: find_idx_Some mbox_claim_def free_boxes_def free_box_def)
    ultimately show ?thesis by (simp add: mbox_create_def find_id_by_key_def)
  qed
  show ?thesis using 1 2 by (auto simp: master_boxes_def Let_def split: prod.splits)
qed

theorem maze_always_won_witness:
  "\<exists>bs g k t. master_boxes 3 free_boxes = Some (0, 1, bs) \<and> master_init 5 0 1 blank_page = Some g \<and>
     (mazestep 0 1 ^^ k) (maze_start bs g) t \<and> k \<le> 44 \<and> maze_won t"
proof -
  obtain bs where b: "master_boxes 3 free_boxes = Some (0, 1, bs)" using free_boxes_master by blast
  obtain g where g: "master_init 5 0 1 blank_page = Some g" by (simp add: master_init_def Let_def blank_page_def)
  note won = maze_always_won [OF free_boxes_ok b g]
  have "k \<le> 44" if "(mazestep 0 1 ^^ k) (maze_start bs g) t" for k t using won [OF that] by simp
  then obtain k t where t: "(mazestep 0 1 ^^ k) (maze_start bs g) t" and "\<nexists>u. mazestep 0 1 t u"
    using bounded_run [of "mazestep 0 1" "maze_start bs g" 44] by blast
  then have "k \<le> 44 \<and> maze_won t" using won [OF t] by simp
  then show ?thesis using b g t by blast
qed

end
