(* ===== verification/MboxTest.thy ===== *)
theory MboxTest
  imports Maze
begin








subsection \<open>What is in the mailbox\<close>







subsection \<open>The run of the program\<close>










end
