(* ===== verification/Ulib.thy ===== *)
theory Ulib
  imports Prelude
begin

text \<open>
  The user library of Lab 3, Task 3.2 (\<^verbatim>\<open>user/ulib.c\<close>): strings, memory blocks and decimal numbers in a byte
  memory with 64-bit addresses that wrap around. \<^verbatim>\<open>char\<close> is unsigned, as the RISC-V calling convention has
  it. A loop that runs to a terminator is a partial function: \<open>None\<close> is a loop that does not end. \<^verbatim>\<open>int\<close>
  results are 32-bit words.
\<close>

type_synonym umem = "u64 \<Rightarrow> u8"

abbreviation NUL :: u8 where
  "NUL \<equiv> 0"

subsection \<open>Strings\<close>

partial_function (option) strcpy_loop :: "umem \<Rightarrow> u64 \<Rightarrow> u64 \<Rightarrow> umem option" where
  "strcpy_loop m s t =
     (let c = m t; m1 = m(s := c) in if c \<noteq> 0 then strcpy_loop m1 (s + 1) (t + 1) else Some m1)"

definition strcpy :: "umem \<Rightarrow> u64 \<Rightarrow> u64 \<Rightarrow> (u64 \<times> umem) option" where
  "strcpy m s t = map_option (\<lambda>m1. (s, m1)) (strcpy_loop m s t)"

partial_function (option) strcmp :: "umem \<Rightarrow> u64 \<Rightarrow> u64 \<Rightarrow> int option" where
  "strcmp m p q =
     (if m p \<noteq> 0 \<and> m p = m q then strcmp m (p + 1) (q + 1) else Some (uint (m p) - uint (m q)))"

partial_function (option) strlen_loop :: "umem \<Rightarrow> u64 \<Rightarrow> nat \<Rightarrow> nat option" where
  "strlen_loop m s n = (if m (s + of_nat n) \<noteq> 0 then strlen_loop m s (Suc n) else Some n)"

definition strlen :: "umem \<Rightarrow> u64 \<Rightarrow> nat option" where
  "strlen m s = strlen_loop m s 0"

partial_function (option) strchr :: "umem \<Rightarrow> u64 \<Rightarrow> u8 \<Rightarrow> u64 option" where
  "strchr m s c = (if m s = 0 then Some 0 else if m s = c then Some s else strchr m (s + 1) c)"

text \<open>\<^verbatim>\<open>gets\<close> reads one byte at a time; the argument is what each \<^verbatim>\<open>read(0, &c, 1)\<close> delivers, \<open>None\<close> at the end.\<close>

fun gets_loop :: "(nat \<Rightarrow> u8 option) \<Rightarrow> nat \<Rightarrow> nat \<Rightarrow> u64 \<Rightarrow> umem \<Rightarrow> nat \<times> umem" where
  "gets_loop rd 0 i buf m = (i, m)"
| "gets_loop rd (Suc room) i buf m =
     (case rd i of
        None \<Rightarrow> (i, m)
      | Some c \<Rightarrow>
          let m1 = m(buf + of_nat i := c) in
          if c = 10 \<or> c = 13 then (Suc i, m1) else gets_loop rd room (Suc i) buf m1)"

definition gets :: "(nat \<Rightarrow> u8 option) \<Rightarrow> u64 \<Rightarrow> int \<Rightarrow> umem \<Rightarrow> umem" where
  "gets rd buf mx m = (let (i, m1) = gets_loop rd (nat (mx - 1)) 0 buf m in m1(buf + of_nat i := NUL))"

subsection \<open>Memory blocks\<close>

fun memset_loop :: "nat \<Rightarrow> nat \<Rightarrow> u64 \<Rightarrow> u8 \<Rightarrow> umem \<Rightarrow> umem" where
  "memset_loop 0 i d c m = m"
| "memset_loop (Suc n) i d c m = memset_loop n (Suc i) d c (m(d + of_nat i := c))"

definition memset :: "u64 \<Rightarrow> int \<Rightarrow> nat \<Rightarrow> umem \<Rightarrow> umem" where
  "memset d c n m = memset_loop n 0 d (of_int c) m"

fun copy_up :: "nat \<Rightarrow> u64 \<Rightarrow> u64 \<Rightarrow> umem \<Rightarrow> umem" where
  "copy_up 0 d s m = m"
| "copy_up (Suc n) d s m = copy_up n (d + 1) (s + 1) (m(d := m s))"

fun copy_down :: "nat \<Rightarrow> u64 \<Rightarrow> u64 \<Rightarrow> umem \<Rightarrow> umem" where
  "copy_down 0 d s m = m"
| "copy_down (Suc n) d s m = copy_down n (d - 1) (s - 1) (m(d - 1 := m (s - 1)))"

definition memmove :: "u64 \<Rightarrow> u64 \<Rightarrow> int \<Rightarrow> umem \<Rightarrow> umem" where
  "memmove d s n m =
     (if s > d then copy_up (nat n) d s m else copy_down (nat n) (d + of_int n) (s + of_int n) m)"

fun memcmp :: "nat \<Rightarrow> umem \<Rightarrow> u64 \<Rightarrow> u64 \<Rightarrow> int" where
  "memcmp 0 m p q = 0"
| "memcmp (Suc n) m p q = (if m p \<noteq> m q then uint (m p) - uint (m q) else memcmp n m (p + 1) (q + 1))"

definition memcpy :: "u64 \<Rightarrow> u64 \<Rightarrow> nat \<Rightarrow> umem \<Rightarrow> umem" where
  "memcpy d s n m = memmove d s (sint (of_nat n :: u32)) m"

subsection \<open>Decimal numbers\<close>

abbreviation is_digit :: "u8 \<Rightarrow> bool" where
  "is_digit c \<equiv> 48 \<le> c \<and> c \<le> 57"

partial_function (option) atoi_loop :: "umem \<Rightarrow> u64 \<Rightarrow> u32 \<Rightarrow> u32 option" where
  "atoi_loop m s n =
     (if is_digit (m s) then atoi_loop m (s + 1) (n * 10 + ucast (m s) - 48) else Some n)"

definition atoi :: "umem \<Rightarrow> u64 \<Rightarrow> int option" where
  "atoi m s = map_option sint (atoi_loop m s 0)"

text \<open>The \<^verbatim>\<open>do\<close> loop of \<^verbatim>\<open>itoa10\<close>, least significant digit first; then the digits are stored in reverse.\<close>

function itoa_digits :: "u32 \<Rightarrow> u8 list" where
  "itoa_digits ux = ucast (48 + ux mod 10) # (if ux div 10 \<noteq> 0 then itoa_digits (ux div 10) else [])"
  by pat_completeness auto
termination
proof (relation "measure unat")
  fix ux :: u32
  assume "ux div 10 \<noteq> 0"
  then show "(ux div 10, ux) \<in> measure unat"
    by (simp add: unat_div_distrib) (metis div_0 div_less_dividend gr0I one_less_numeral_iff semiring_norm(76) unat_eq_zero)
qed simp

fun store_bytes :: "u64 \<Rightarrow> u8 list \<Rightarrow> umem \<Rightarrow> umem" where
  "store_bytes s [] m = m"
| "store_bytes s (c # cs) m = store_bytes (s + 1) cs (m(s := c))"

definition itoa10 :: "int \<Rightarrow> u64 \<Rightarrow> umem \<Rightarrow> umem" where
  "itoa10 x s m =
     (let (s1, m1, ux) = (if x < 0 then (s + 1, m(s := 45), 0 - of_int x) else (s, m, of_int x));
          tmp = itoa_digits ux;
          m2 = store_bytes s1 (rev tmp) m1
      in m2(s1 + of_nat (length tmp) := NUL))"

declare itoa_digits.simps [simp del]

subsection \<open>Addresses\<close>

lemma unat_of_nat64: "k < 2 ^ 64 \<Longrightarrow> unat (of_nat k :: u64) = k"
  by (simp add: unat_of_nat take_bit_eq_mod)

lemma unat_offset: "unat (s :: u64) + k < 2 ^ 64 \<Longrightarrow> unat (s + of_nat k) = unat s + k"
  by (simp add: unat_word_ariths unat_of_nat64)

lemma unat64: "unat (a :: u64) < 2 ^ 64"
  using unsigned_less [of a, where ?'a = nat] by simp

lemma unat_minus_one64: "unat (- 1 :: u64) = 2 ^ 64 - 1"
  by (simp add: unsigned_minus_1_eq_mask mask_eq_exp_minus_1)

lemma offset_inj: "i < 2 ^ 64 \<Longrightarrow> j < 2 ^ 64 \<Longrightarrow> (s :: u64) + of_nat i = s + of_nat j \<longleftrightarrow> i = j"
  by (metis add_left_cancel unat_of_nat64)

subsection \<open>Memory blocks\<close>

text \<open>What copying a block means: every byte of the destination gets the byte the source had.\<close>

definition block_copy :: "u64 \<Rightarrow> u64 \<Rightarrow> nat \<Rightarrow> umem \<Rightarrow> umem" where
  "block_copy d s n m = (\<lambda>a. if unat (a - d) < n then m (s + (a - d)) else m a)"

lemma block_copy_at: "k < 2 ^ 64 \<Longrightarrow> block_copy d s n m (d + of_nat k) = (if k < n then m (s + of_nat k) else m (d + of_nat k))"
  by (simp add: block_copy_def unat_of_nat64)

lemma mem_eqI:
  fixes m1 m2 :: umem
  assumes "\<And>k. k < 2 ^ 64 \<Longrightarrow> m1 (d + of_nat k) = m2 (d + of_nat k)"
  shows "m1 = m2"
proof
  fix a
  have "unat (a - d) < 2 ^ 64" by (rule unat64)
  from assms [OF this] show "m1 a = m2 a" by simp
qed

lemma copy_up_block:
  "d < s \<Longrightarrow> unat s + n \<le> 2 ^ 64 \<Longrightarrow> copy_up n d s m = block_copy d s n m"
proof (induction n arbitrary: d s m)
  case 0
  then show ?case by (simp add: block_copy_def)
next
  case (Suc n)
  show ?case
  proof (cases n)
    case 0
    then show ?thesis by (auto simp: block_copy_def fun_eq_iff unat_eq_zero)
  next
    case (Suc n')
    let ?m = "m(d := m s)"
    have s1: "unat (s + 1) = unat s + 1" "unat (d + 1) = unat d + 1"
      using unat_offset [of s 1] unat_offset [of d 1] Suc Suc.prems by (simp_all add: word_less_nat_alt)
    then have "copy_up n (d + 1) (s + 1) ?m = block_copy (d + 1) (s + 1) n ?m"
      using Suc.prems Suc by (intro Suc.IH) (simp_all add: word_less_nat_alt)
    moreover have "block_copy (d + 1) (s + 1) n ?m = block_copy d s (Suc n) m"
    proof (rule mem_eqI [of _ "d"])
      fix k :: nat assume k: "k < 2 ^ 64"
      show "block_copy (d + 1) (s + 1) n ?m (d + of_nat k) = block_copy d s (Suc n) m (d + of_nat k)"
      proof (cases k)
        case 0
        have "unat (d - (d + 1)) = 2 ^ 64 - 1" by (simp add: unat_minus_one64)
        then show ?thesis using 0 Suc.prems(2) unat64 [of s] by (simp add: block_copy_def)
      next
        case (Suc j)
        then have j: "d + of_nat k = (d + 1) + of_nat j" "j < 2 ^ 64" using k by simp_all
        have ne: "s + of_nat k \<noteq> d" if "k < Suc n"
        proof -
          have "unat (s + of_nat k) = unat s + k" using Suc.prems(2) that by (intro unat_offset) simp
          then show ?thesis using Suc.prems(1) by (auto simp: word_less_nat_alt)
        qed
        have "d + of_nat k \<noteq> d" using offset_inj [of k 0 d] Suc k by simp
        then show ?thesis
          using block_copy_at [OF j(2), of "d + 1" "s + 1" n ?m] block_copy_at [OF k, of d s "Suc n" m] ne j Suc
          by (auto simp: add.commute add.left_commute)
      qed
    qed
    ultimately show ?thesis by simp
  qed
qed

lemma copy_down_block:
  "s \<le> d \<Longrightarrow> unat d + n \<le> 2 ^ 64 \<Longrightarrow> copy_down n (d + of_nat n) (s + of_nat n) m = block_copy d s n m"
proof (induction n arbitrary: m)
  case 0
  then show ?case by (simp add: block_copy_def)
next
  case (Suc n)
  let ?m = "m(d + of_nat n := m (s + of_nat n))"
  have "copy_down (Suc n) (d + of_nat (Suc n)) (s + of_nat (Suc n)) m = block_copy d s n ?m"
  proof -
    have "copy_down n (d + of_nat n) (s + of_nat n) ?m = block_copy d s n ?m" using Suc.prems by (intro Suc.IH) simp_all
    moreover have "a + of_nat (Suc n) - 1 = a + of_nat n" for a :: u64 by simp
    ultimately show ?thesis by (simp only: copy_down.simps)
  qed
  also have "\<dots> = block_copy d s (Suc n) m"
  proof (rule mem_eqI [of _ d])
    fix k :: nat assume k: "k < 2 ^ 64"
    have n: "n < 2 ^ 64" using Suc.prems(2) by linarith
    have ne: "s + of_nat k \<noteq> d + of_nat n" if "k < n"
    proof -
      have "unat (s + of_nat k) = unat s + k" "unat (d + of_nat n) = unat d + n"
        using Suc.prems that by (auto intro!: unat_offset simp: word_le_nat_alt)
      then show ?thesis using Suc.prems(1) that by (metis add_le_less_mono nat_neq_iff word_le_nat_alt)
    qed
    show "block_copy d s n ?m (d + of_nat k) = block_copy d s (Suc n) m (d + of_nat k)"
      using block_copy_at [OF k, of d s n ?m] block_copy_at [OF k, of d s "Suc n" m] ne offset_inj [OF k n, of d]
      by (auto simp: less_Suc_eq)
  qed
  finally show ?case .
qed

subsection \<open>Strings\<close>

definition cstr :: "umem \<Rightarrow> u64 \<Rightarrow> u8 list \<Rightarrow> bool" where
  "cstr m s xs \<longleftrightarrow> (\<forall>i<length xs. m (s + of_nat i) = xs ! i \<and> xs ! i \<noteq> 0) \<and> m (s + of_nat (length xs)) = 0"

lemma cstr_Nil: "cstr m s [] \<longleftrightarrow> m s = 0"
  by (simp add: cstr_def)

lemma cstr_Cons: "cstr m s (x # xs) \<longleftrightarrow> m s = x \<and> x \<noteq> 0 \<and> cstr m (s + 1) xs"
  by (auto simp: cstr_def less_Suc_eq_0_disj algebra_simps)

lemma strlen_loop_cstr: "cstr m (s + of_nat n) xs \<Longrightarrow> strlen_loop m s n = Some (n + length xs)"
proof (induction xs arbitrary: n)
  case Nil
  then show ?case by (subst strlen_loop.simps) (simp add: cstr_Nil)
next
  case (Cons x xs)
  then show ?case by (subst strlen_loop.simps) (simp add: cstr_Cons algebra_simps)
qed

lemma strlen_cstr: "cstr m s xs \<Longrightarrow> strlen m s = Some (length xs)"
  using strlen_loop_cstr [of m s 0 xs] by (simp add: strlen_def)

text \<open>Comparison of strings: the difference at the first place where they differ, the end counting as 0.\<close>

fun str_order :: "u8 list \<Rightarrow> u8 list \<Rightarrow> int" where
  "str_order [] [] = 0"
| "str_order [] (y # ys) = - uint y"
| "str_order (x # xs) [] = uint x"
| "str_order (x # xs) (y # ys) = (if x = y then str_order xs ys else uint x - uint y)"

lemma strcmp_cstr: "cstr m p xs \<Longrightarrow> cstr m q ys \<Longrightarrow> strcmp m p q = Some (str_order xs ys)"
proof (induction xs ys arbitrary: p q rule: str_order.induct)
  case (4 x xs y ys)
  then show ?case by (subst strcmp.simps) (auto simp: cstr_Cons)
qed (subst strcmp.simps; simp add: cstr_Nil cstr_Cons)+

lemma str_order_eq: "0 \<notin> set xs \<Longrightarrow> 0 \<notin> set ys \<Longrightarrow> str_order xs ys = 0 \<longleftrightarrow> xs = ys"
  by (induction xs ys rule: str_order.induct) (auto simp: unsigned_eq_0_iff dest: word_uint_eqI)

subsection \<open>Decimal numbers\<close>

text \<open>The value of a list of digit characters, most significant first.\<close>

definition dec_val :: "u8 list \<Rightarrow> u32 \<Rightarrow> u32" where
  "dec_val cs n = foldl (\<lambda>n c. n * 10 + ucast c - 48) n cs"

lemma atoi_loop_digits:
  "(\<forall>c\<in>set cs. is_digit c) \<Longrightarrow> (\<forall>i<length cs. m (s + of_nat i) = cs ! i) \<Longrightarrow> \<not> is_digit (m (s + of_nat (length cs))) \<Longrightarrow>
    atoi_loop m s n = Some (dec_val cs n)"
proof (induction cs arbitrary: s n)
  case Nil
  then have "\<not> is_digit (m s)" by simp
  then show ?case by (subst atoi_loop.simps) (simp only: if_False dec_val_def foldl_Nil)
next
  case (Cons c cs)
  have c: "m s = c" using Cons.prems(2) [rule_format, of 0] by simp
  have "atoi_loop m (s + 1) (n * 10 + ucast c - 48) = Some (dec_val cs (n * 10 + ucast c - 48))"
  proof (rule Cons.IH)
    show "\<forall>i<length cs. m (s + 1 + of_nat i) = cs ! i"
    proof (intro allI impI)
      fix i assume "i < length cs"
      then show "m (s + 1 + of_nat i) = cs ! i" using Cons.prems(2) [rule_format, of "Suc i"] by (simp add: add.assoc)
    qed
  qed (use Cons.prems(1,3) in \<open>simp_all add: add.assoc\<close>)
  then show ?case using Cons.prems(1) c by (subst atoi_loop.simps) (simp add: dec_val_def)
qed

lemma digit_char:
  fixes r :: u32
  assumes "r < 10"
  shows "is_digit (ucast (48 + r) :: u8) \<and> ucast (ucast (48 + r) :: u8) - 48 = r"
proof -
  have "unat r < 10" using assms by (simp add: word_less_nat_alt)
  moreover have "r = of_nat (unat r)" by simp
  ultimately obtain k where k: "k < 10" "r = of_nat k" by blast
  have "k = 0 \<or> k = 1 \<or> k = 2 \<or> k = 3 \<or> k = 4 \<or> k = 5 \<or> k = 6 \<or> k = 7 \<or> k = 8 \<or> k = 9" using k(1) by presburger
  then show ?thesis by (elim disjE) (simp_all add: k(2))
qed

lemma mod_ten: "(ux :: u32) mod 10 < 10"
  by (simp add: word_less_nat_alt unat_mod_distrib)

lemma itoa_digits_are_digits: "c \<in> set (itoa_digits ux) \<Longrightarrow> is_digit c"
proof (induction ux rule: itoa_digits.induct)
  case (1 ux)
  show ?case
    using 1 digit_char [OF mod_ten [of ux]] by (subst (asm) (2) itoa_digits.simps) (auto split: if_splits)
qed

lemma dec_val_itoa: "dec_val (rev (itoa_digits ux)) 0 = ux"
proof (induction ux rule: itoa_digits.induct)
  case (1 ux)
  let ?d = "ucast (48 + ux mod 10) :: u8"
  have d: "ucast ?d - 48 = ux mod 10" using digit_char [OF mod_ten [of ux]] by blast
  have "dec_val (rev (itoa_digits ux)) 0 = ux div 10 * 10 + (ucast ?d - 48)"
    using 1 by (subst itoa_digits.simps) (auto simp: dec_val_def)
  then show ?case unfolding d by (simp only: div_mult_mod_eq)
qed

lemma length_itoa: "unat ux < 10 ^ Suc k \<Longrightarrow> length (itoa_digits ux) \<le> Suc k"
proof (induction k arbitrary: ux)
  case 0
  then have "ux div 10 = 0" by (simp add: word_unat_eq_iff unat_div_distrib)
  then show ?case by (subst itoa_digits.simps) simp
next
  case (Suc k)
  have "unat (ux div 10) < 10 ^ Suc k" using Suc.prems by (simp add: unat_div_distrib)
  then show ?case using Suc.IH [of "ux div 10"] by (subst itoa_digits.simps) simp
qed

lemma length_itoa_32: "length (itoa_digits ux) \<le> 10"
proof -
  have "unat ux < 2 ^ 32" using unsigned_less [of ux, where ?'a = nat] by simp
  then show ?thesis using length_itoa [of ux 9] by simp
qed

lemma store_bytes_at:
  "length cs \<le> 2 ^ 64 \<Longrightarrow> store_bytes s cs m a = (if unat (a - s) < length cs then cs ! unat (a - s) else m a)"
proof (induction cs arbitrary: s m)
  case (Cons c cs)
  show ?case
  proof (cases "a = s")
    case True
    have "unat (s - (s + 1)) = 2 ^ 64 - 1" by (simp add: unat_minus_one64)
    then show ?thesis using True Cons by simp
  next
    case False
    then have "unat (a - s) \<noteq> 0" by (simp add: unat_eq_zero)
    then have u: "unat (a - (s + 1)) = unat (a - s) - 1"
      by (metis diff_diff_eq unat_minus_one unat_eq_zero)
    show ?thesis using Cons False \<open>unat (a - s) \<noteq> 0\<close> by (auto simp: u nth_Cons')
  qed
qed simp

text \<open>The bytes \<^verbatim>\<open>itoa10\<close> writes, without the terminator.\<close>

definition itoa_text :: "int \<Rightarrow> u8 list" where
  "itoa_text x = (if x < 0 then 45 # rev (itoa_digits (0 - of_int x)) else rev (itoa_digits (of_int x)))"

lemma itoa10_store: "itoa10 x s m = store_bytes s (itoa_text x @ [NUL]) m"
proof -
  have app: "store_bytes s (cs @ [c]) m = (store_bytes s cs m)(s + of_nat (length cs) := c)" for cs c s m
    by (induction cs arbitrary: s m) (simp_all add: algebra_simps)
  show ?thesis by (auto simp: itoa10_def itoa_text_def Let_def app)
qed

lemma length_itoa_text: "length (itoa_text x) \<le> 11"
  using length_itoa_32 [of "of_int x"] length_itoa_32 [of "0 - of_int x"] by (auto simp: itoa_text_def)

lemma itoa10_at: "itoa10 x s m a = (if unat (a - s) \<le> length (itoa_text x) then (itoa_text x @ [NUL]) ! unat (a - s) else m a)"
  using store_bytes_at [of "itoa_text x @ [NUL]" s m a] length_itoa_text [of x] by (simp add: itoa10_store less_Suc_eq_le)

subsection \<open>Properties\<close>

text \<open>
  Property C26. \<^verbatim>\<open>memmove\<close> copies a block of any length between any two places, overlapping or not, exactly as if
  all source bytes were read before the first is written, and changes no other byte; so does \<^verbatim>\<open>memcpy\<close>. The
  blocks must not run over the end of the address space.\<close>

theorem memmove_copies_block:
  assumes "unat d + n \<le> 2 ^ 64" and "unat s + n \<le> 2 ^ 64" and "n < 2 ^ 31"
  shows "memmove d s (int n) m = block_copy d s n m \<and> memcpy d s n m = block_copy d s n m"
proof -
  have *: "memmove d s (int n) m = block_copy d s n m"
    using copy_up_block [of d s n m] copy_down_block [of s d n m] assms(1,2) by (simp add: memmove_def not_less)
  have "sint (of_nat n :: u32) = int n" using assms(3) by (simp add: signed_of_nat signed_take_bit_int_eq_self)
  then show ?thesis using * by (simp add: memcpy_def)
qed

theorem memmove_copies_block_witness:
  "memmove 3 1 4 (\<lambda>a. ucast a) 5 = 3 \<and> block_copy 3 1 4 (\<lambda>a. ucast a) 5 = 3"
  using memmove_copies_block [of 3 4 1 "\<lambda>a. ucast a"] by (simp add: block_copy_def)

text \<open>
  Property C27. \<^verbatim>\<open>itoa10\<close> writes at most 12 bytes, the terminator included, and nothing else, and \<^verbatim>\<open>atoi\<close> reads back the
  number it wrote if the number is not negative, including the largest \<^verbatim>\<open>int\<close>. For a negative number \<^verbatim>\<open>atoi\<close> stops
  at the sign and delivers 0.\<close>

theorem itoa10_atoi_roundtrip:
  assumes "- (2 ^ 31) \<le> x" and "x < 2 ^ 31"
  shows "atoi (itoa10 x s m) s = Some (if x < 0 then 0 else x) \<and> (\<forall>a. unat (a - s) \<ge> 12 \<longrightarrow> itoa10 x s m a = m a)"
proof
  show "\<forall>a. unat (a - s) \<ge> 12 \<longrightarrow> itoa10 x s m a = m a" using length_itoa_text [of x] by (auto simp: itoa10_at)
  let ?m = "itoa10 x s m"
  have at: "?m (s + of_nat i) = (itoa_text x @ [NUL]) ! i" if "i \<le> length (itoa_text x)" for i
    using that length_itoa_text [of x] by (simp add: itoa10_at unat_of_nat64)
  show "atoi ?m s = Some (if x < 0 then 0 else x)"
  proof (cases "x < 0")
    case True
    then have "?m s = 45" using at [of 0] by (simp add: itoa_text_def)
    then show ?thesis using True by (simp add: atoi_def atoi_loop.simps)
  next
    case False
    define cs where "cs = itoa_text x"
    have cs: "cs = rev (itoa_digits (of_int x))" using False by (simp add: cs_def itoa_text_def)
    have "atoi_loop ?m s 0 = Some (dec_val cs 0)"
      by (rule atoi_loop_digits)
        (use at in \<open>auto simp: cs nth_append simp flip: cs_def dest: itoa_digits_are_digits\<close>)
    moreover have "sint (of_int x :: u32) = x" using assms by (simp add: signed_of_int signed_take_bit_int_eq_self)
    ultimately show ?thesis using False by (simp add: atoi_def cs dec_val_itoa)
  qed
qed

theorem itoa10_atoi_roundtrip_witness:
  "atoi (itoa10 2147483647 100 (\<lambda>_. 0)) 100 = Some 2147483647 \<and> atoi (itoa10 (- 7) 100 (\<lambda>_. 0)) 100 = Some 0"
  using itoa10_atoi_roundtrip [of 2147483647 100 "\<lambda>_. 0"] itoa10_atoi_roundtrip [of "- 7" 100 "\<lambda>_. 0"] by simp

end
