(* ===== verification/ShmTest.thy ===== *)
theory ShmTest
  imports Shm Ulib
begin

text \<open>
  The demonstration program of Lab 3, Task 3.1 (\<^verbatim>\<open>user/shmtest.c\<close>) on the shared memory of \<open>Shm\<close>: parent and child attach
  the same region, the child writes a string into it and closes it, the parent waits for the child and prints the
  string. Each process runs from one call to the next; the store into the shared page and the final \<^verbatim>\<open>printf\<close> are
  steps of their own.
\<close>












subsection \<open>What the program relies on\<close>



subsection \<open>The region during the test\<close>









subsection \<open>The run of the program\<close>


















subsection \<open>A concrete machine\<close>










end
