(* ===== verification/BigFile.thy ===== *)
theory BigFile
  imports Sysfile Ulib
begin

text \<open>
  The demonstration program of Lab 5, Task 5.1 (\<^verbatim>\<open>user/bigfile.c\<close>): it writes 3000 blocks with a pattern, more than the
  single indirect block of the original file system could hold, reads them back and compares. The system calls on
  the open file are parameters, since \<^verbatim>\<open>file.c\<close> is not part of the repository; \<open>file_calls\<close> states that they move the offset of
  the file and otherwise are \<^verbatim>\<open>writei\<close> and \<^verbatim>\<open>readi\<close>. Printing is left out, and so is \<^verbatim>\<open>close\<close>, which does not change the file.
\<close>













subsection \<open>What the program relies on\<close>






subsection \<open>Buffers\<close>






subsection \<open>Writing\<close>








subsection \<open>Reading back\<close>












end
