(* ===== verification/Boot.thy ===== *)
theory Boot
  imports Mailbox ProcInv FsTree
begin




text \<open>
  \<^verbatim>\<open>proc_mapstacks\<close> of \<^verbatim>\<open>proc.c\<close>, which the set-up of the kernel page table calls: a page for the kernel stack of each process.
  \<open>kvmmap\<close> enters a page into that table, \<open>None\<close> is the panic when there is no memory.
\<close>

fun mapstacks_from :: "'w kops \<Rightarrow> (u64 \<Rightarrow> nat \<Rightarrow> u64 \<Rightarrow> u64 \<Rightarrow> 'w \<Rightarrow> 'w) \<Rightarrow> nat \<Rightarrow> nat \<Rightarrow> 'w \<Rightarrow> 'w option" where
  "mapstacks_from K kvmmap i 0 w = Some w"
| "mapstacks_from K kvmmap i (Suc n) w =
     (case kalloc (vm K) w of (pa, w1) \<Rightarrow>
        if pa = 0 then None
        else mapstacks_from K kvmmap (Suc i) n (kvmmap (kstack_va K i) pa PGSIZE (PTE_R OR PTE_W) w1))"

definition proc_mapstacks :: "'w kops \<Rightarrow> (u64 \<Rightarrow> nat \<Rightarrow> u64 \<Rightarrow> u64 \<Rightarrow> 'w \<Rightarrow> 'w) \<Rightarrow> 'w \<Rightarrow> 'w option" where
  "proc_mapstacks K kvmmap w = mapstacks_from K kvmmap 0 NPROC w"

subsection \<open>What start-up relies on\<close>









text \<open>Every process gets its stack: \<^verbatim>\<open>kvmmap\<close> maps a page into the table \<open>kpt\<close> of the kernel and keeps what is mapped.\<close>

lemma mapstacks_maps:
  assumes v: "vm_laws (vm K)" and kv: "\<And>va pa perm w pt va'. pte_valid (vm K) (kvmmap va pa PGSIZE perm w) pt va' \<longleftrightarrow>
      pt = kpt \<and> same_page va' va \<or> pte_valid (vm K) w pt va'"
    and m: "mapstacks_from K kvmmap i n w = Some w'"
  shows "(\<forall>j. i \<le> j \<and> j < i + n \<longrightarrow> pte_valid (vm K) w' kpt (kstack_va K j)) \<and> (\<forall>pt va. pte_valid (vm K) w pt va \<longrightarrow> pte_valid (vm K) w' pt va)"
  using m
proof (induction n arbitrary: i w)
  case (Suc n)
  obtain pa w1 where k: "kalloc (vm K) w = (pa, w1)" by fastforce
  let ?w = "kvmmap (kstack_va K i) pa PGSIZE (PTE_R OR PTE_W) w1"
  have same: "pte_valid (vm K) w1 pt va = pte_valid (vm K) w pt va" for pt va using v k unfolding vm_laws_def by (metis snd_conv)
  have "mapstacks_from K kvmmap (Suc i) n ?w = Some w'" using Suc.prems k by (auto split: if_splits)
  note IH = Suc.IH [OF this]
  have "pte_valid (vm K) w' kpt (kstack_va K i)" using IH kv by (simp add: same_page_def)
  then have "pte_valid (vm K) w' kpt (kstack_va K j)" if "i \<le> j" "j < i + Suc n" for j using that IH by (cases "j = i") auto
  then show ?case using IH kv same by blast
qed auto









end
