(* ===== verification/Spec2Isabelle.thy ===== *)
theory Spec2Isabelle
  imports MailboxSys Shm SysUnlink Trap LotteryInv MboxTest ShmTest BigFile Boot
begin

text \<open>
  Verification of the operating-system labs CS344 on xv6 (RISC-V). The repository holds, per task, the kernel and
  user files the task changes: Lab 2 two schedulers (2.1 weighted round robin, 2.2 lottery), Lab 3 mailboxes and
  shared memory (3.1) and a maze game on top of the user library (3.2), Lab 5 large files (5.1) and symbolic links
  (5.2). Files the tasks do not change (\<^verbatim>\<open>vm.c\<close>, \<^verbatim>\<open>kalloc.c\<close>, \<^verbatim>\<open>bio.c\<close>, \<^verbatim>\<open>log.c\<close>, \<^verbatim>\<open>file.c\<close>, \<^verbatim>\<open>pipe.c\<close>, \<^verbatim>\<open>exec.c\<close>, drivers)
  are not there; where the code calls them the model has a parameter.

  \<^bold>\<open>Parts and their theories.\<close>

  \<^item> Shared vocabulary: \<open>Prelude\<close>. The table scan \<open>find_idx\<close> behind the kernel's search loops, \<open>outcome\<close> for calls that
    return or sleep, counting lemmas, and the interface \<open>keyed_table\<close> of a table whose slots are claimed by key.

  \<^item> Sleep and wakeup: \<open>ProcSync\<close>, from \<^verbatim>\<open>proc.c\<close> and \<^verbatim>\<open>proc.h\<close> (\<^verbatim>\<open>sleep\<close>, \<^verbatim>\<open>wakeup\<close>, \<^verbatim>\<open>yield\<close>, \<^verbatim>\<open>kkill\<close>, \<^verbatim>\<open>setkilled\<close>,
    \<^verbatim>\<open>killed\<close>). A process is a record, the table a list; \<^verbatim>\<open>sleep\<close> is split where the process leaves the CPU
    (\<open>sleep_enter\<close>, \<open>sleep_return\<close>). The interface \<open>wait_queue\<close> states what clients rely on and shows, once, that no
    wakeup is lost; the process table is its instance and the mailbox system its client.

  \<^item> Mailboxes: \<open>Mailbox\<close>, \<open>MailboxSys\<close>, from \<^verbatim>\<open>mbox.c\<close> and \<^verbatim>\<open>mbox.h\<close>. The ring buffer is an instance of \<open>bounded_queue\<close>,
    the table of \<open>keyed_table\<close>. \<open>MailboxSys\<close> interleaves any number of processes, one critical section per step
    (\<open>mstep\<close>), and shows by rule induction FIFO delivery and the absence of lost wakeups; it also shows the race in
    \<^verbatim>\<open>mbox_create\<close>, which searches and claims without a common lock, and that no slot is ever freed.

  \<^item> Shared memory: \<open>Shm\<close>, from \<^verbatim>\<open>shm.c\<close> and \<^verbatim>\<open>shm.h\<close>. \<^verbatim>\<open>kalloc\<close>, \<^verbatim>\<open>kfree\<close>, \<^verbatim>\<open>walk\<close>, \<^verbatim>\<open>mappages\<close>, \<^verbatim>\<open>uvmunmap\<close> are the record
    \<open>vmops\<close> with the laws \<open>vm_laws\<close>, which a concrete memory satisfies. The reference count of a region is exactly the
    number of page tables that map it, in every reachable state; attaching, closing and the clean-up at exit follow.

  \<^item> Process life: \<open>ProcLife\<close>, \<open>ProcInv\<close>, from \<^verbatim>\<open>proc.c\<close> of Lab 3.1 (\<^verbatim>\<open>procinit\<close>, \<^verbatim>\<open>allocproc\<close>, \<^verbatim>\<open>freeproc\<close>, \<^verbatim>\<open>kfork\<close>,
    \<^verbatim>\<open>kexit\<close>, \<^verbatim>\<open>kwait\<close>, \<^verbatim>\<open>reparent\<close>, \<^verbatim>\<open>growproc\<close>, \<^verbatim>\<open>userinit\<close>). What the labs add to \<^verbatim>\<open>struct proc\<close> and to these functions
    is the record \<open>lab\<close>, so that Labs 2.1, 2.2 and 3.1 are instances of the same definitions; page tables, files and
    memory are the record \<open>kops\<close>. The invariant \<open>tinv\<close> gives unique process ids, live parents and no lost exit.

  \<^item> Start-up: \<open>Boot\<close>, from \<^verbatim>\<open>main.c\<close> of Lab 3.1: the initialisers in their order establish the invariants of the process
    table, the shared regions, the mailboxes and the inode table before any other hart runs.

  \<^item> System calls: \<open>Syscall\<close>, from \<^verbatim>\<open>syscall.c\<close> and \<^verbatim>\<open>sysproc.c\<close>: argument access, dispatch, the tables of Labs 2 and 3.1
    and every handler of \<^verbatim>\<open>sysproc.c\<close>; \<^verbatim>\<open>pause\<close> is exact across the wrap-around of the 32-bit tick counter.

  \<^item> Weighted round robin: \<open>Wrr\<close>, \<open>WrrInv\<close>, \<open>WrrProps\<close>, from Lab 2.1 \<^verbatim>\<open>proc.c\<close>, \<^verbatim>\<open>trap.c\<close>, \<^verbatim>\<open>sysproc.c\<close>. \<open>wstep\<close>
    interleaves any number of CPUs; shown are mutual exclusion, ranges, bounded waiting and slice lengths.
    Traps: \<open>Trap\<close>, from \<^verbatim>\<open>trap.c\<close>, on the registers of one hart; interrupts and faults refine steps of that machine.

  \<^item> Lottery: \<open>Lottery\<close>, \<open>LotteryInv\<close>, from Lab 2.2: the generator, the draw, the exact share of draws each process wins;
    \<open>lstep\<close> interleaves any number of CPUs, shown is mutual exclusion although the two passes of the scheduler read different tables.

  \<^item> User library and maze: \<open>Ulib\<close>, \<open>Maze\<close>, from Lab 3.2 \<^verbatim>\<open>ulib.c\<close>, \<^verbatim>\<open>master.c\<close>, \<^verbatim>\<open>process.c\<close>. Strings, memory blocks and
    decimal numbers in a byte memory with overlap; the game on the verified mailboxes always ends in a win.
    \<open>MboxTest\<close>, from Lab 3.1 \<^verbatim>\<open>mboxtest.c\<close>: the test of the mailboxes, whose parent never ends if it sends too much.
    \<open>ShmTest\<close>, from \<^verbatim>\<open>shmtest.c\<close>: the test of shared memory, which prints its string or fails, depending on the schedule.
    All three always end, which they show as instances of \<open>ranked_runs\<close>.

  \<^item> File system: \<open>FsBlocks\<close> (bitmap, \<^verbatim>\<open>balloc\<close>, \<^verbatim>\<open>bfree\<close>, superblock), \<open>FsInode\<close> (\<^verbatim>\<open>bmap\<close>, \<^verbatim>\<open>itrunc\<close> with direct, indirect
    and doubly indirect blocks), \<open>FsTable\<close> (\<^verbatim>\<open>ialloc\<close>, \<^verbatim>\<open>iget\<close>, \<^verbatim>\<open>ilock\<close>, \<^verbatim>\<open>iput\<close>, \<^verbatim>\<open>iupdate\<close>, \<^verbatim>\<open>ireclaim\<close>), \<open>FsData\<close>
    (\<^verbatim>\<open>readi\<close>, \<^verbatim>\<open>writei\<close>, \<^verbatim>\<open>stati\<close>), \<open>FsDir\<close> (directory entries, \<^verbatim>\<open>dirlookup\<close>, \<^verbatim>\<open>dirlink\<close>, \<^verbatim>\<open>skipelem\<close>, \<^verbatim>\<open>namex\<close>), all from Lab
    5.1 \<^verbatim>\<open>fs.c\<close>. The abstraction goes upwards: a file is its bytes (\<open>fbyte\<close>), a directory a finite map (\<open>dirmap\<close>, in
    \<open>FsTree\<close>), a path a walk through these maps (\<open>walk\<close>, in \<open>FsPath\<close>), and \<open>FsLink\<close> shows \<^verbatim>\<open>dirlink\<close> to be the update of
    the map. \<open>FsNode\<close> adds what \<^verbatim>\<open>ialloc\<close>, \<^verbatim>\<open>iupdate\<close> and the last \<^verbatim>\<open>iput\<close> do to tree and table. \<open>tree_ok\<close> is the
    well-formed disk, \<open>cached\<close> the agreement of the inode table with it, with the set of locked entries;
    \<open>refs\<close> counts references, so that each operation's effect on them is part of its theorem.

  \<^item> File system calls: \<open>Sysfile\<close>, from Lab 5.2 \<^verbatim>\<open>sysfile.c\<close>, every handler, as updates of the tree.
    \<open>SysOpen\<close>: \<^verbatim>\<open>open\<close> resolves paths and symbolic links exactly as \<open>chase\<close> says, including that a link of which only the
    first byte is used fails. \<open>SysCreate\<close>: \<^verbatim>\<open>create\<close> makes an inode under a name or leaves the tree as it was. \<open>SysLink\<close>:
    \<^verbatim>\<open>link\<close> adds a second name. \<open>SysSymlink\<close>: \<^verbatim>\<open>symlink\<close> stores the target in a new inode, overwrites an existing file, and
    leaves a dangling name on a full disk. \<open>SysUnlink\<close>: \<^verbatim>\<open>unlink\<close> removes a name, and the file with its last name.
    Each of these theorems also says that the call neither panics nor waits for a lock it holds.
    \<open>BigFile\<close>, from Lab 5.1 \<^verbatim>\<open>bigfile.c\<close>: the test of large files never finds a difference, and fails only on a full disk.

  \<^bold>\<open>Conventions.\<close> C integers whose width matters are words (block numbers, sizes, registers, page-table entries,
  ticks); table indices, keys and counters are \<open>int\<close> or \<open>nat\<close>. A spinlock is modelled by the atomicity of the
  code between its acquisition and release; sleeping locks are the field \<open>i_locked\<close>, and acquiring one's own lock
  blocks for ever. \<open>None\<close> is a panic or such a wait, so a theorem that an operation returns \<open>Some\<close> excludes both.
  Loops that end are functions with termination proofs; the one loop bounded by a counter in the code, following at
  most ten links, keeps that bound; \<open>namex_loop\<close> ends because the path gets shorter; loops over the disk carry
  the remaining count. Nothing is bounded by fuel of the model's own.

  \<^bold>\<open>Simplifications.\<close> \<^verbatim>\<open>nextpid\<close> does not wrap around; \<^verbatim>\<open>char\<close> is unsigned, as on RISC-V; the file system executes one
  system call at a time, and \<^verbatim>\<open>begin_op\<close>/\<^verbatim>\<open>end_op\<close> have no effect in it; \<^verbatim>\<open>DEFAULT_PRIORITY\<close> and \<^verbatim>\<open>MAX_PRIORITY\<close>, defined in a
  header that is not in the repository, are parameters; \<open>junk\<close> is what an uninitialised array holds.

  \<^bold>\<open>Not modelled.\<close> \<^verbatim>\<open>procdump\<close> (printing), \<^verbatim>\<open>forkret\<close>,
  \<^verbatim>\<open>cpuid\<close>, \<^verbatim>\<open>mycpu\<close>, \<^verbatim>\<open>myproc\<close> (the CPU and the process are arguments), headers of prototypes and call numbers, the
  other demonstration programs, build files. The functions of \<^verbatim>\<open>proc.c\<close>, \<^verbatim>\<open>syscall.c\<close>, \<^verbatim>\<open>sysproc.c\<close> that several tasks share
  unchanged are modelled once.
\<close>

end
